(* ===== verification/Prelude.thy ===== *)
theory Prelude
  imports Main "HOL-Library.Word"
begin

text \<open>
  Shared vocabulary of the development: the machine integer types of the i386 target
  (\<open>uint8_t\<close>, \<open>uint16_t\<close>, \<open>uint32_t\<close>, \<open>uint64_t\<close> as words), the constants of
  \<open>include/main/common.hpp\<close>, the error codes of \<open>include/main/errno.h\<close>, the ways in
  which kernel code can fail to return (\<open>panic\<close>, spinning forever, running out of model
  fuel), the error monad they live in, and linked lists in a heap of structures. A pointer
  is a 32-bit word and the null pointer is 0.
\<close>

unbundle bit_operations_syntax

section \<open>Machine integers and pointers\<close>

type_synonym u8 = "8 word"
type_synonym u16 = "16 word"
type_synonym u32 = "32 word"
type_synonym u64 = "64 word"

type_synonym addr_phys = u32
type_synonym addr_logical = u32

abbreviation NULL :: u32 where "NULL \<equiv> 0"

text \<open>The constants of \<open>common.hpp\<close>. \<open>TOTAL_VM_SIZE\<close> does not fit in 32 bits and is
  therefore a number, the others are addresses.\<close>

definition PAGE_SIZE :: u32 where "PAGE_SIZE = 0x1000"
definition PAGE_DIR_SIZE :: u32 where "PAGE_DIR_SIZE = 0x400000"
definition PAGE_TABLE_LENGTH :: nat where "PAGE_TABLE_LENGTH = 0x400"
definition TOTAL_VM_SIZE :: nat where "TOTAL_VM_SIZE = 0x100000000"
definition KERNEL_VM_SIZE :: nat where "KERNEL_VM_SIZE = 0x40000000"
definition KERNEL_VM_PAGES :: nat where "KERNEL_VM_PAGES = KERNEL_VM_SIZE div unat PAGE_SIZE"
definition KERNEL_VM_PAGE_TABLES :: nat where
  "KERNEL_VM_PAGE_TABLES = KERNEL_VM_PAGES div PAGE_TABLE_LENGTH"
definition KERNEL_VM_BASE :: u32 where
  "KERNEL_VM_BASE = of_nat (TOTAL_VM_SIZE - KERNEL_VM_SIZE)"
definition MAX_CORES :: nat where "MAX_CORES = 32"

lemma PAGE_SIZE_unat [simp]: "unat PAGE_SIZE = 4096"
  by (simp add: PAGE_SIZE_def)

lemma KERNEL_VM_BASE_val: "KERNEL_VM_BASE = 0xC0000000"
  by (simp add: KERNEL_VM_BASE_def TOTAL_VM_SIZE_def KERNEL_VM_SIZE_def)

lemma KERNEL_VM_PAGE_TABLES_val: "KERNEL_VM_PAGE_TABLES = 256"
  by (simp add: KERNEL_VM_PAGE_TABLES_def KERNEL_VM_PAGES_def KERNEL_VM_SIZE_def
      PAGE_TABLE_LENGTH_def)

section \<open>Error codes and abnormal termination\<close>

text \<open>\<open>error_t\<close> of \<open>include/main/errno.h\<close>.\<close>

datatype error_t = EOK | EPERM | EBUSY | ENOENT | ENOTDIR | ENOPATHBASE

text \<open>
  \<open>Panic m\<close>: the code calls \<open>panic\<close> (which halts the machine). \<open>Fault\<close>: a null or
  otherwise invalid pointer is dereferenced. \<open>Hang\<close>: a loop that never exits, such as
  taking a spin lock that the caller itself holds. \<open>OutOfFuel\<close>: the model's recursion
  bound was reached; theorems about results always exclude it.
\<close>

datatype kerror = Panic string | Fault | Hang | OutOfFuel

type_synonym 'a result = "kerror + 'a"

definition bindE :: "'e + 'a \<Rightarrow> ('a \<Rightarrow> 'e + 'b) \<Rightarrow> 'e + 'b" where
  "bindE m f = (case m of Inl e \<Rightarrow> Inl e | Inr x \<Rightarrow> f x)"

text \<open>A loop given by \<^theory_text>\<open>partial_function (option)\<close> that does not return hangs.\<close>

definition loopE :: "'a option \<Rightarrow> 'a result" where
  "loopE m = (case m of None \<Rightarrow> Inl Hang | Some x \<Rightarrow> Inr x)"

named_theorems result_iff

lemma bindE_Inr [simp]: "bindE (Inr x) f = f x"
  by (simp add: bindE_def)

lemma bindE_Inl [simp]: "bindE (Inl e) f = Inl e"
  by (simp add: bindE_def)

lemma loopE_Some [simp]: "loopE (Some x) = Inr x"
  by (simp add: loopE_def)

lemma bindE_Inr_iff [result_iff]: "bindE m f = Inr y \<longleftrightarrow> (\<exists>x. m = Inr x \<and> f x = Inr y)"
  by (cases m) auto

lemma loopE_Inr_iff [result_iff]: "loopE m = Inr x \<longleftrightarrow> m = Some x"
  by (cases m) (auto simp: loopE_def)

lemma if_Inl_Inr_iff [result_iff]: "(if b then Inl e else m) = Inr y \<longleftrightarrow> \<not> b \<and> m = Inr y"
  by simp

section \<open>Words\<close>

lemma unat_add_lt:
  fixes a b :: "'a::len word"
  assumes "unat a + unat b < 2 ^ LENGTH('a)"
  shows "unat (a + b) = unat a + unat b"
  using assms by (simp add: unat_word_ariths)

lemma unat_sub_le:
  fixes a b :: "'a::len word"
  assumes "b \<le> a"
  shows "unat (a - b) = unat a - unat b"
  using assms by (rule unat_sub)

lemma unat_lt_32 [simp]: "unat (a :: u32) < 4294967296"
  using unsigned_less [of a] by simp

lemma unat_of_nat_lt:
  assumes "n < 2 ^ LENGTH('a)"
  shows "unat (of_nat n :: 'a::len word) = n"
  using assms by (simp add: unat_of_nat take_bit_nat_eq_self)

lemma of_nat_word_0_iff:
  assumes "n < 2 ^ LENGTH('a)"
  shows "(of_nat n :: 'a::len word) = 0 \<longleftrightarrow> n = 0"
proof
  assume "(of_nat n :: 'a word) = 0"
  with unat_of_nat_lt [OF assms] show "n = 0" by simp
qed simp

lemma word_inc_unat:
  fixes i n :: "'a::len word"
  assumes "i < n"
  shows "unat (i + 1) = Suc (unat i)"
proof -
  from assms have "unat i < unat n" by (simp add: word_less_nat_alt)
  moreover have "unat n < 2 ^ LENGTH('a)" by (rule unsigned_less)
  ultimately have "unat i + 1 < 2 ^ LENGTH('a)" by linarith
  then show ?thesis by (simp add: unat_word_ariths)
qed

section \<open>Linked lists in a heap\<close>

text \<open>
  \<open>chain nx p as q\<close>: following the field \<open>nx\<close> from \<open>p\<close> visits the non-null nodes
  \<open>as\<close> in this order and arrives at \<open>q\<close>. \<open>linked nx p as\<close> is a null-terminated list.
\<close>

fun chain :: "(u32 \<Rightarrow> u32) \<Rightarrow> u32 \<Rightarrow> u32 list \<Rightarrow> u32 \<Rightarrow> bool" where
  "chain nx p [] q = (p = q)"
| "chain nx p (a # as) q = (p = a \<and> a \<noteq> NULL \<and> chain nx (nx a) as q)"

abbreviation linked :: "(u32 \<Rightarrow> u32) \<Rightarrow> u32 \<Rightarrow> u32 list \<Rightarrow> bool" where
  "linked nx p as \<equiv> chain nx p as NULL"

lemma chain_append: "chain nx p (as @ bs) q \<longleftrightarrow> (\<exists>r. chain nx p as r \<and> chain nx r bs q)"
  by (induction as arbitrary: p) auto

lemma chain_upd [simp]: "x \<notin> set as \<Longrightarrow> chain (nx(x := v)) p as q = chain nx p as q"
  by (induction as arbitrary: p) auto

lemma chain_cong: "(\<And>a. a \<in> set as \<Longrightarrow> f a = g a) \<Longrightarrow> chain f p as q = chain g p as q"
  by (induction as arbitrary: p) auto

lemma chain_nonnull: "chain nx p as q \<Longrightarrow> NULL \<notin> set as"
  by (induction as arbitrary: p) auto

lemma chain_end_unique: "chain nx p as q \<Longrightarrow> chain nx p as r \<Longrightarrow> q = r"
  by (induction as arbitrary: p) auto

lemma linked_NULL [simp]: "linked nx NULL as \<longleftrightarrow> as = []"
  by (cases as) auto

lemma linked_nonnull: "p \<noteq> NULL \<Longrightarrow> linked nx p as \<longleftrightarrow> (\<exists>bs. as = p # bs \<and> linked nx (nx p) bs)"
  by (cases as) auto

lemma linked_functional: "linked nx p as \<Longrightarrow> linked nx p bs \<Longrightarrow> as = bs"
proof (induction as arbitrary: p bs)
  case Nil
  then show ?case by (cases bs) auto
next
  case (Cons a as)
  then show ?case by (cases bs) auto
qed

lemma linked_hd_notin: "linked nx (nx a) as \<Longrightarrow> a \<notin> set as"
proof
  assume l: "linked nx (nx a) as" and "a \<in> set as"
  then obtain us vs where as: "as = us @ a # vs" by (auto simp: in_set_conv_decomp)
  with l have "linked nx (nx a) vs" by (auto simp: chain_append)
  from linked_functional [OF l this] as show False by simp
qed

lemma linked_distinct: "linked nx p as \<Longrightarrow> distinct as"
  by (induction as arbitrary: p) (auto dest: linked_hd_notin)

lemma chain_last_next:
  "linked nx p as \<Longrightarrow> as \<noteq> [] \<Longrightarrow> nx (last as) = NULL"
  by (induction as arbitrary: p) auto

lemma chain_snoc_upd:
  assumes "chain nx p as q" and "x \<notin> set as" and "x = q" and "x \<noteq> NULL"
  shows "chain (nx(x := r)) p (as @ [x]) r"
  using assms by (simp add: chain_append)

lemmas chain_simps = chain_append linked_nonnull

end
