(* ===== verification/Containers.thy ===== *)
theory Containers
  imports Prelude
begin

text \<open>
  The contract of the kernel's sequence containers, stated once and interpreted on the models
  of \<open>StaticList\<close>, \<open>list\<close> and \<open>vector\<close>. \<open>contents\<close> reads a container as a list, \<open>ok\<close> is its
  representation invariant and \<open>room p s\<close> is what an insertion needs (a free slot, a fresh
  node), where \<open>p\<close> is the placement the memory allocator supplies. Removing from an empty
  container panics.
\<close>

locale sequence =
  fixes contents :: "'s \<Rightarrow> 'a list"
    and ok :: "'s \<Rightarrow> bool"
    and room :: "'p \<Rightarrow> 's \<Rightarrow> bool"
    and push_back :: "'p \<Rightarrow> 'a \<Rightarrow> 's \<Rightarrow> 's result"
    and pop_back :: "'s \<Rightarrow> 's result"
    and backmost :: "'s \<Rightarrow> 'a result"
    and count :: "'s \<Rightarrow> nat"
  assumes push_back_ok: "ok s \<Longrightarrow> room p s \<Longrightarrow>
      \<exists>s'. push_back p x s = Inr s' \<and> ok s' \<and> contents s' = contents s @ [x]"
    and pop_back_ok: "ok s \<Longrightarrow> contents s \<noteq> [] \<Longrightarrow>
      \<exists>s'. pop_back s = Inr s' \<and> ok s' \<and> contents s' = butlast (contents s)"
    and pop_back_empty: "ok s \<Longrightarrow> contents s = [] \<Longrightarrow> \<exists>m. pop_back s = Inl (Panic m)"
    and back_ok: "ok s \<Longrightarrow> contents s \<noteq> [] \<Longrightarrow> backmost s = Inr (last (contents s))"
    and size_ok: "ok s \<Longrightarrow> count s = length (contents s)"
begin

lemma push_pop_back:
  assumes "ok s" and "room p s"
  shows "\<exists>s'. bindE (push_back p x s) pop_back = Inr s' \<and> ok s' \<and> contents s' = contents s"
proof -
  from push_back_ok [OF assms] obtain t where
    t: "push_back p x s = Inr t" "ok t" "contents t = contents s @ [x]" by blast
  from pop_back_ok [OF t(2)] t(3) obtain u where
    "pop_back t = Inr u" "ok u" "contents u = contents s" by auto
  with t show ?thesis by simp
qed

lemma push_back_reads:
  assumes "ok s" and "room p s"
  shows "bindE (push_back p x s) backmost = Inr x"
    and "push_back p x s = Inr s' \<Longrightarrow> count s' = Suc (count s)"
proof -
  from push_back_ok [OF assms] obtain t where
    t: "push_back p x s = Inr t" "ok t" "contents t = contents s @ [x]" by blast
  with back_ok [OF t(2)] show "bindE (push_back p x s) backmost = Inr x" by simp
  from t size_ok [OF t(2)] size_ok [OF assms(1)]
  show "push_back p x s = Inr s' \<Longrightarrow> count s' = Suc (count s)" by auto
qed

end

locale deque = sequence +
  fixes push_front :: "'p \<Rightarrow> 'a \<Rightarrow> 's \<Rightarrow> 's result"
    and pop_front :: "'s \<Rightarrow> 's result"
    and frontmost :: "'s \<Rightarrow> 'a result"
  assumes push_front_ok: "ok s \<Longrightarrow> room p s \<Longrightarrow>
      \<exists>s'. push_front p x s = Inr s' \<and> ok s' \<and> contents s' = x # contents s"
    and pop_front_ok: "ok s \<Longrightarrow> contents s \<noteq> [] \<Longrightarrow>
      \<exists>s'. pop_front s = Inr s' \<and> ok s' \<and> contents s' = tl (contents s)"
    and pop_front_empty: "ok s \<Longrightarrow> contents s = [] \<Longrightarrow> \<exists>m. pop_front s = Inl (Panic m)"
    and front_ok: "ok s \<Longrightarrow> contents s \<noteq> [] \<Longrightarrow> frontmost s = Inr (hd (contents s))"
begin

text \<open>Entering at the front and leaving at the back is first in, first out: a new element
  never overtakes one that is already there.\<close>

lemma fifo_no_overtaking:
  assumes "ok s" and "room p s" and "contents s \<noteq> []"
  shows "bindE (push_front p x s) backmost = backmost s"
proof -
  from push_front_ok [OF assms(1,2)] obtain t where
    t: "push_front p x s = Inr t" "ok t" "contents t = x # contents s" by blast
  with back_ok [OF t(2)] back_ok [OF assms(1,3)] assms(3) show ?thesis by simp
qed

lemma push_pop_front:
  assumes "ok s" and "room p s"
  shows "\<exists>s'. bindE (push_front p x s) pop_front = Inr s' \<and> ok s' \<and> contents s' = contents s"
proof -
  from push_front_ok [OF assms] obtain t where
    t: "push_front p x s = Inr t" "ok t" "contents t = x # contents s" by blast
  from pop_front_ok [OF t(2)] t(3) obtain u where
    "pop_front t = Inr u" "ok u" "contents u = contents s" by auto
  with t show ?thesis by simp
qed

end

end
