(* ===== verification/Mutex.thy ===== *)
theory Mutex
  imports Prelude
begin

text \<open>
  \<open>src/structures/mutex.cpp\<close>, \<open>include/structures/mutex.hpp\<close> and the interrupt-flag
  helpers every lock user calls around it (\<open>push_flags\<close>, \<open>push_cli\<close>, \<open>pop_flags\<close>).
  A mutex is its \<open>flag\<close>. \<open>trylock\<close> is one atomic \<open>xchg\<close>. The \<open>lock\<close> loop is given
  twice: as the loop one caller runs against an environment that may change the flag between
  two attempts, and as a step relation over any number of CPUs, for mutual exclusion.
  The locale \<open>spin_lock\<close> is the contract the data structures rely on.
\<close>

section \<open>Interrupt flag\<close>

definition IF_flag :: u32 where "IF_flag = 0x200"

definition push_flags :: "u32 \<Rightarrow> u32" where
  "push_flags eflags = eflags"

text \<open>\<open>push_cli\<close> returns the old flags and clears \<open>IF\<close>; \<open>pop_flags\<close> writes flags back.\<close>

definition push_cli :: "u32 \<Rightarrow> u32 \<times> u32" where
  "push_cli eflags = (eflags, eflags AND NOT IF_flag)"

definition pop_flags :: "u32 \<Rightarrow> u32 \<Rightarrow> u32" where
  "pop_flags saved eflags = saved"

definition interrupts_on :: "u32 \<Rightarrow> bool" where
  "interrupts_on eflags \<longleftrightarrow> eflags AND IF_flag \<noteq> 0"

lemma push_cli_masks [simp]: "\<not> interrupts_on (snd (push_cli e))"
  by (simp add: push_cli_def interrupts_on_def bit_eq_iff bit_simps)

lemma push_cli_saved [simp]: "fst (push_cli e) = e"
  by (simp add: push_cli_def)

lemma pop_flags_restores [simp]: "pop_flags e e' = e"
  by (simp add: pop_flags_def)

section \<open>The mutex\<close>

definition Mutex_new :: bool where
  "Mutex_new = False"

text \<open>\<open>xchg\<close> puts \<open>true\<close> into the flag and hands back the old value.\<close>

definition Mutex_trylock :: "bool \<Rightarrow> error_t \<times> bool" where
  "Mutex_trylock flag = (let swap = flag; flag' = True
     in if swap then (EBUSY, flag') else (EOK, flag'))"

definition Mutex_unlock :: "bool \<Rightarrow> error_t \<times> bool" where
  "Mutex_unlock flag = (EOK, False)"

text \<open>
  One round of the \<open>while(true)\<close> of \<open>Mutex::lock\<close>: what the caller does after the
  \<open>trylock\<close>. With interrupts enabled it yields its thread or halts until an interrupt,
  otherwise it tries again at once.
\<close>

datatype lock_next = Acquired | YieldThread | HaltCpu | BusyWait

definition Mutex_lock_round :: "u32 \<Rightarrow> bool \<Rightarrow> bool \<Rightarrow> lock_next \<times> bool" where
  "Mutex_lock_round eflags has_thread flag =
     (case Mutex_trylock flag of
        (EOK, flag') \<Rightarrow> (Acquired, flag')
      | (_, flag') \<Rightarrow>
          (if eflags AND IF_flag \<noteq> 0
           then (if has_thread then YieldThread else HaltCpu) else BusyWait, flag'))"

text \<open>
  The loop itself. \<open>env k\<close> is what the rest of the machine does to the flag between the
  \<open>k\<close>-th attempt and the next one.
\<close>

partial_function (option) Mutex_lock_loop ::
  "(nat \<Rightarrow> bool \<Rightarrow> bool) \<Rightarrow> nat \<Rightarrow> u32 \<Rightarrow> bool \<Rightarrow> bool \<Rightarrow> bool option" where
  "Mutex_lock_loop env k eflags has_thread flag =
     (case Mutex_lock_round eflags has_thread flag of
        (Acquired, flag') \<Rightarrow> Some flag'
      | (_, flag') \<Rightarrow> Mutex_lock_loop env (Suc k) eflags has_thread (env k flag'))"

text \<open>Inside one sequential operation nobody else touches the flag.\<close>

definition Mutex_lock :: "bool \<Rightarrow> bool result" where
  "Mutex_lock flag = loopE (Mutex_lock_loop (\<lambda>_ f. f) 0 0 False flag)"

lemma Mutex_trylock_simps [simp]:
  "Mutex_trylock False = (EOK, True)" "Mutex_trylock True = (EBUSY, True)"
  by (simp_all add: Mutex_trylock_def)

lemma Mutex_unlock_simps [simp]: "snd (Mutex_unlock f) = False" "fst (Mutex_unlock f) = EOK"
  by (simp_all add: Mutex_unlock_def)

lemma Mutex_lock_loop_free [simp]: "Mutex_lock_loop env k e t False = Some True"
  by (subst Mutex_lock_loop.simps) (simp add: Mutex_lock_round_def)

lemma Mutex_lock_round_held:
  "\<exists>n. Mutex_lock_round e t True = (n, True) \<and> n \<noteq> Acquired"
  by (simp add: Mutex_lock_round_def)

lemma Mutex_lock_loop_self_None: "Mutex_lock_loop (\<lambda>_ f. f) k e t True = None"
proof (rule ccontr)
  assume "Mutex_lock_loop (\<lambda>_ f. f) k e t True \<noteq> None"
  then obtain r where ret: "Mutex_lock_loop (\<lambda>_ f. f) k e t True = Some r" by auto
  have "(\<lambda>(_ :: nat) (f :: bool). f) = (\<lambda>_ f. f) \<longrightarrow> True \<longrightarrow> False"
  proof (rule Mutex_lock_loop.raw_induct
      [where P = "\<lambda>env k e t f r. env = (\<lambda>_ f. f) \<longrightarrow> f \<longrightarrow> False", OF _ ret])
    fix lp :: "(nat \<Rightarrow> bool \<Rightarrow> bool) \<Rightarrow> nat \<Rightarrow> u32 \<Rightarrow> bool \<Rightarrow> bool \<Rightarrow> bool option"
      and env k e t f r
    assume IH: "\<And>env k e t f r. lp env k e t f = Some r \<Longrightarrow> env = (\<lambda>_ f. f) \<longrightarrow> f \<longrightarrow> False"
      and eq: "(case Mutex_lock_round e t f of (Acquired, flag') \<Rightarrow> Some flag'
        | (_, flag') \<Rightarrow> lp env (Suc k) e t (env k flag')) = Some r"
    show "env = (\<lambda>_ f. f) \<longrightarrow> f \<longrightarrow> False"
    proof (intro impI)
      assume env: "env = (\<lambda>_ f. f)" and f: f
      obtain n where "Mutex_lock_round e t f = (n, True)" "n \<noteq> Acquired"
        using Mutex_lock_round_held f by auto
      with eq env have "lp env (Suc k) e t True = Some r" by (cases n) auto
      with IH env show False by blast
    qed
  qed
  then show False by simp
qed

lemma Mutex_lock_free [simp]: "Mutex_lock False = Inr True"
  by (simp add: Mutex_lock_def)

lemma Mutex_lock_held [simp]: "Mutex_lock True = Inl Hang"
  by (simp add: Mutex_lock_def Mutex_lock_loop_self_None loopE_def)

lemma Mutex_lock_Inr_iff [result_iff]: "Mutex_lock m = Inr m' \<longleftrightarrow> \<not> m \<and> m'"
  by (cases m) auto

section \<open>The contract a lock user relies on\<close>

text \<open>
  A lock with a free and a held state: taking a free lock returns, taking a held one from the
  same thread does not, releasing frees it. The lemmas describe the shape in which every
  locked operation is written: take the lock, run the body, release the lock.
\<close>

locale spin_lock =
  fixes lock :: "'m \<Rightarrow> 'm result"
    and unlock :: "'m \<Rightarrow> 'm"
    and held :: "'m \<Rightarrow> bool"
  assumes lock_free: "\<not> held m \<Longrightarrow> \<exists>m'. lock m = Inr m' \<and> held m'"
    and lock_held: "held m \<Longrightarrow> lock m = Inl Hang"
    and unlock_frees: "\<not> held (unlock m)"
begin

lemma locked_returns:
  assumes "\<not> held m"
  shows "\<exists>m'. bindE (lock m) (\<lambda>m. bindE (Inr s) (\<lambda>s. Inr (unlock m, s))) = Inr (m', s) \<and> \<not> held m'"
  using lock_free [OF assms] unlock_frees by auto

lemma locked_fails:
  assumes "\<not> held m"
  shows "bindE (lock m) (\<lambda>m. bindE (Inl e) (\<lambda>s. Inr (unlock m, s))) = Inl e"
  using lock_free [OF assms] by auto

lemma locked_leaves_free:
  "bindE (lock m) (\<lambda>m. bindE b (\<lambda>s. Inr (unlock m, s))) = Inr (m', s') \<Longrightarrow> \<not> held m'"
  by (auto simp: result_iff unlock_frees)

lemma locked_nested_hangs:
  assumes "held m"
  shows "bindE (lock m) f = Inl Hang"
  using lock_held [OF assms] by simp

end

interpretation kernel_mutex: spin_lock Mutex_lock "\<lambda>m. snd (Mutex_unlock m)" "\<lambda>m. m"
  by unfold_locales auto

section \<open>Many CPUs\<close>

text \<open>
  Where a CPU stands with respect to one mutex: outside, inside \<open>lock\<close> with the flags it
  pushed and about to run the next round, waiting (yielded or halted), or holding the lock.
\<close>

datatype lock_pc = Outside | Trying u32 | Waiting u32 | Holding

record lock_sys =
  lflag :: bool
  lpc :: "nat \<Rightarrow> lock_pc"

definition lock_sys_init :: lock_sys where
  "lock_sys_init = \<lparr>lflag = Mutex_new, lpc = (\<lambda>_. Outside)\<rparr>"

definition lock_pc_after :: "u32 \<Rightarrow> lock_next \<Rightarrow> lock_pc" where
  "lock_pc_after e n = (case n of Acquired \<Rightarrow> Holding | YieldThread \<Rightarrow> Waiting e
     | HaltCpu \<Rightarrow> Waiting e | BusyWait \<Rightarrow> Trying e)"

inductive lock_step :: "lock_sys \<Rightarrow> lock_sys \<Rightarrow> bool" where
  call: "lpc s i = Outside \<Longrightarrow> lock_step s (s\<lparr>lpc := (lpc s)(i := Trying (push_flags e))\<rparr>)"
| round: "lpc s i = Trying e \<Longrightarrow> Mutex_lock_round e t (lflag s) = (n, f) \<Longrightarrow>
    lock_step s (s\<lparr>lflag := f, lpc := (lpc s)(i := lock_pc_after e n)\<rparr>)"
| wake: "lpc s i = Waiting e \<Longrightarrow> lock_step s (s\<lparr>lpc := (lpc s)(i := Trying e)\<rparr>)"
| release: "lpc s i = Holding \<Longrightarrow>
    lock_step s (s\<lparr>lflag := snd (Mutex_unlock (lflag s)), lpc := (lpc s)(i := Outside)\<rparr>)"

inductive lock_reachable :: "lock_sys \<Rightarrow> bool" where
  start: "lock_reachable lock_sys_init"
| step: "lock_reachable s \<Longrightarrow> lock_step s t \<Longrightarrow> lock_reachable t"

inductive_cases lock_stepE: "lock_step s t"

definition lock_inv :: "lock_sys \<Rightarrow> bool" where
  "lock_inv s \<longleftrightarrow>
     (\<forall>i j. lpc s i = Holding \<longrightarrow> lpc s j = Holding \<longrightarrow> i = j) \<and>
     (lflag s \<longleftrightarrow> (\<exists>i. lpc s i = Holding))"

lemma lock_round_cases:
  assumes "Mutex_lock_round e t fl = (n, f)"
  shows "f" and "n = Acquired \<longleftrightarrow> \<not> fl"
  using assms by (auto simp: Mutex_lock_round_def Mutex_trylock_def split: if_splits)

lemma lock_pc_after_Holding [simp]: "lock_pc_after e n = Holding \<longleftrightarrow> n = Acquired"
  by (cases n) (simp_all add: lock_pc_after_def)

lemma lock_step_inv: "lock_step s t \<Longrightarrow> lock_inv s \<Longrightarrow> lock_inv t"
proof (induction rule: lock_step.induct)
  case (call s i e)
  then show ?case by (force simp: lock_inv_def)
next
  case (round s i e t n f)
  note rc = lock_round_cases [OF round.hyps(2)]
  show ?case
  proof (cases "lflag s")
    case True
    with round.prems obtain j where "lpc s j = Holding" by (auto simp: lock_inv_def)
    moreover from this round.hyps(1) have "j \<noteq> i" by auto
    ultimately show ?thesis using True rc round.prems by (simp add: lock_inv_def) metis
  next
    case False
    with rc round.prems show ?thesis by (simp add: lock_inv_def)
  qed
next
  case (wake s i e)
  then show ?case by (force simp: lock_inv_def)
next
  case (release s i)
  then show ?case by (force simp: lock_inv_def)
qed

lemma lock_reachable_inv: "lock_reachable s \<Longrightarrow> lock_inv s"
proof (induction rule: lock_reachable.induct)
  case start
  show ?case by (simp add: lock_inv_def lock_sys_init_def Mutex_new_def)
next
  case (step s t)
  then show ?case by (blast intro: lock_step_inv)
qed

section \<open>Properties\<close>

text \<open>C6: However many CPUs run \<open>lock\<close> and \<open>unlock\<close> on one mutex, and in whatever order their
  atomic exchanges interleave, no two of them hold it at the same time.\<close>

theorem mutex_mutual_exclusion:
  assumes "lock_reachable s" and "lpc s i = Holding" and "lpc s j = Holding"
  shows "i = j"
  using lock_reachable_inv [OF assms(1)] assms(2,3) by (auto simp: lock_inv_def)

definition lock_sys_held :: lock_sys where
  "lock_sys_held = \<lparr>lflag = True, lpc = (\<lambda>_. Outside)(3 := Holding)\<rparr>"

lemma lock_sys_held_reachable: "lock_reachable lock_sys_held"
proof -
  let ?t = "lock_sys_init\<lparr>lpc := (lpc lock_sys_init)(3 := Trying (push_flags 0))\<rparr>"
  have t: "lock_reachable ?t"
    by (rule lock_reachable.step [OF lock_reachable.start])
      (rule lock_step.call, simp add: lock_sys_init_def)
  have "lock_step ?t (?t\<lparr>lflag := True, lpc := (lpc ?t)(3 := lock_pc_after (push_flags 0) Acquired)\<rparr>)"
    by (rule lock_step.round) (simp_all add: lock_sys_init_def Mutex_lock_round_def Mutex_new_def)
  from lock_reachable.step [OF t this] show ?thesis
    by (simp add: lock_sys_held_def lock_sys_init_def lock_pc_after_def)
qed

theorem mutex_mutual_exclusion_witness: "lpc lock_sys_held 3 = Holding \<and> (3 :: nat) = 3"
  using mutex_mutual_exclusion [OF lock_sys_held_reachable, of 3 3]
  by (simp add: lock_sys_held_def)

text \<open>In every reachable state, a caller about to run a round of the \<open>lock\<close> loop can acquire the
  mutex in its next step exactly when nobody holds it, whatever its interrupt flag.\<close>

theorem mutex_round_acquires_when_free:
  assumes "lock_reachable s" and "lpc s i = Trying e"
  shows "(\<exists>t. lock_step s t \<and> lpc t i = Holding) \<longleftrightarrow> (\<forall>j. lpc s j \<noteq> Holding)"
proof -
  note inv = lock_reachable_inv [OF assms(1)]
  show ?thesis
  proof
    assume "\<forall>j. lpc s j \<noteq> Holding"
    with inv have free: "\<not> lflag s" by (auto simp: lock_inv_def)
    have "lock_step s (s\<lparr>lflag := True, lpc := (lpc s)(i := lock_pc_after e Acquired)\<rparr>)"
      by (rule lock_step.round [OF assms(2), of False]) (simp add: Mutex_lock_round_def free)
    then show "\<exists>t. lock_step s t \<and> lpc t i = Holding" by (force simp: lock_pc_after_def)
  next
    assume "\<exists>t. lock_step s t \<and> lpc t i = Holding"
    then obtain t where t: "lock_step s t" "lpc t i = Holding" by blast
    from t(1) show "\<forall>j. lpc s j \<noteq> Holding"
    proof (cases rule: lock_step.cases)
      case (round i' e' th n f)
      with t(2) assms(2) have "n = Acquired" by (auto split: if_splits)
      with lock_round_cases(2) [OF round(3)] have "\<not> lflag s" by simp
      with inv show ?thesis by (auto simp: lock_inv_def)
    qed (use t(2) assms(2) in \<open>auto split: if_splits\<close>)
  qed
qed

theorem mutex_round_acquires_when_free_witness:
  "\<exists>t. lock_step (lock_sys_init\<lparr>lpc := (lpc lock_sys_init)(3 := Trying (push_flags 0))\<rparr>) t \<and> lpc t 3 = Holding"
proof -
  let ?t = "lock_sys_init\<lparr>lpc := (lpc lock_sys_init)(3 := Trying (push_flags 0))\<rparr>"
  have t: "lock_reachable ?t"
    by (rule lock_reachable.step [OF lock_reachable.start])
      (rule lock_step.call, simp add: lock_sys_init_def)
  show ?thesis
    using mutex_round_acquires_when_free [OF t, of 3 "push_flags 0"]
    by (simp add: lock_sys_init_def)
qed

end
