(* ===== verification/StaticList.thy ===== *)
theory StaticList
  imports Containers Mutex
begin

text \<open>
  \<open>include/structures/static_list.hpp\<close> and \<open>static_list.tpp\<close>: a cyclic buffer of fixed
  capacity \<open>C\<close> (the length of \<open>objects\<close>) with a head index, a tail index and a mutex. Every
  mutating operation saves the CPU flags, disables interrupts, takes the mutex, works,
  releases and restores. Indices are natural numbers: \<open>C\<close> objects fit in memory, so the
  index sums of the code do not reach \<open>2^32\<close>.
\<close>

record 'a static_list =
  sl_objects :: "'a list"
  sl_head :: nat
  sl_tail :: nat
  sl_mutex :: bool

definition sl_new :: "'a list \<Rightarrow> 'a static_list" where
  "sl_new objs = \<lparr>sl_objects = objs, sl_head = 0, sl_tail = 0, sl_mutex = Mutex_new\<rparr>"

definition sl_capacity :: "'a static_list \<Rightarrow> nat" where
  "sl_capacity l = length (sl_objects l)"

definition sl_front :: "'a static_list \<Rightarrow> 'a result" where
  "sl_front l = (if sl_head l < sl_capacity l then Inr (sl_objects l ! sl_head l) else Inl Fault)"

definition sl_back :: "'a static_list \<Rightarrow> 'a result" where
  "sl_back l = (let t = sl_tail l; i = (if t \<noteq> 0 then t - 1 else sl_capacity l - 1)
     in if i < sl_capacity l then Inr (sl_objects l ! i) else Inl Fault)"

definition sl_empty :: "'a static_list \<Rightarrow> bool" where
  "sl_empty l \<longleftrightarrow> sl_head l = sl_tail l"

definition sl_size :: "'a static_list \<Rightarrow> nat" where
  "sl_size l = (let h = sl_head l; t = sl_tail l
     in if h \<le> t then t - h else (sl_capacity l + t) - h)"

definition sl_clear :: "'a static_list \<Rightarrow> 'a static_list result" where
  "sl_clear l = bindE (Mutex_lock (sl_mutex l)) (\<lambda>m.
     Inr (l\<lparr>sl_head := sl_tail l, sl_mutex := snd (Mutex_unlock m)\<rparr>))"

text \<open>The common frame: \<open>push_cli\<close>, \<open>lock\<close>, body, \<open>unlock\<close>, \<open>pop_flags\<close>. The state is the
  CPU's flags and the list.\<close>

definition sl_locked ::
  "('a static_list \<Rightarrow> ('b \<times> 'a static_list) result) \<Rightarrow> u32 \<Rightarrow> 'a static_list
     \<Rightarrow> ('b \<times> u32 \<times> 'a static_list) result" where
  "sl_locked body eflags l = (let (saved, eflags1) = push_cli eflags in
     bindE (Mutex_lock (sl_mutex l)) (\<lambda>m.
     bindE (body (l\<lparr>sl_mutex := m\<rparr>)) (\<lambda>(v, l1).
     Inr (v, pop_flags saved eflags1, l1\<lparr>sl_mutex := snd (Mutex_unlock (sl_mutex l1))\<rparr>))))"

definition sl_prev :: "nat \<Rightarrow> nat \<Rightarrow> nat" where
  "sl_prev c i = (if i \<noteq> 0 then i - 1 else c - 1)"

definition sl_push_front :: "'a \<Rightarrow> u32 \<Rightarrow> 'a static_list \<Rightarrow> (unit \<times> u32 \<times> 'a static_list) result" where
  "sl_push_front value = sl_locked (\<lambda>l.
     let h = sl_prev (sl_capacity l) (sl_head l)
     in Inr ((), l\<lparr>sl_head := h, sl_objects := (sl_objects l)[h := value]\<rparr>))"

definition sl_pop_front :: "u32 \<Rightarrow> 'a static_list \<Rightarrow> ('a \<times> u32 \<times> 'a static_list) result" where
  "sl_pop_front = sl_locked (\<lambda>l.
     if sl_head l = sl_tail l then Inl (Panic ''Tried to pop_front an empty list'')
     else Inr (sl_objects l ! sl_head l, l\<lparr>sl_head := (sl_head l + 1) mod sl_capacity l\<rparr>))"

text \<open>\<open>emplace_front\<close> constructs the value and then does what \<open>push_front\<close> does.\<close>

definition sl_emplace_front ::
  "('args \<Rightarrow> 'a) \<Rightarrow> 'args \<Rightarrow> u32 \<Rightarrow> 'a static_list \<Rightarrow> (unit \<times> u32 \<times> 'a static_list) result" where
  "sl_emplace_front mk args = sl_locked (\<lambda>l.
     let h = sl_prev (sl_capacity l) (sl_head l)
     in Inr ((), l\<lparr>sl_head := h, sl_objects := (sl_objects l)[h := mk args]\<rparr>))"

definition sl_push_back :: "'a \<Rightarrow> u32 \<Rightarrow> 'a static_list \<Rightarrow> (unit \<times> u32 \<times> 'a static_list) result" where
  "sl_push_back value = sl_locked (\<lambda>l.
     Inr ((), l\<lparr>sl_objects := (sl_objects l)[sl_tail l := value],
                sl_tail := (sl_tail l + 1) mod sl_capacity l\<rparr>))"

definition sl_pop_back :: "u32 \<Rightarrow> 'a static_list \<Rightarrow> ('a \<times> u32 \<times> 'a static_list) result" where
  "sl_pop_back = sl_locked (\<lambda>l.
     if sl_head l = sl_tail l then Inl (Panic ''Tried to pop_back an empty list'')
     else let t = sl_prev (sl_capacity l) (sl_tail l)
          in Inr (sl_objects l ! t, l\<lparr>sl_tail := t\<rparr>))"

definition sl_emplace_back ::
  "('args \<Rightarrow> 'a) \<Rightarrow> 'args \<Rightarrow> u32 \<Rightarrow> 'a static_list \<Rightarrow> (unit \<times> u32 \<times> 'a static_list) result" where
  "sl_emplace_back mk args = sl_locked (\<lambda>l.
     Inr ((), l\<lparr>sl_objects := (sl_objects l)[sl_tail l := mk args],
                sl_tail := (sl_tail l + 1) mod sl_capacity l\<rparr>))"

section \<open>Invariant and abstraction\<close>

definition sl_inv :: "'a static_list \<Rightarrow> bool" where
  "sl_inv l \<longleftrightarrow> sl_head l < sl_capacity l \<and> sl_tail l < sl_capacity l \<and> \<not> sl_mutex l"

definition sl_slot :: "'a static_list \<Rightarrow> nat \<Rightarrow> nat" where
  "sl_slot l i = (sl_head l + i) mod sl_capacity l"

definition sl_list :: "'a static_list \<Rightarrow> 'a list" where
  "sl_list l = map (\<lambda>i. sl_objects l ! sl_slot l i) [0..<sl_size l]"

text \<open>One slot always stays free: with all \<open>C\<close> slots used, head and tail would coincide and
  the list would count as empty.\<close>

definition sl_room :: "'a static_list \<Rightarrow> bool" where
  "sl_room l \<longleftrightarrow> Suc (sl_size l) < sl_capacity l"

lemma sl_locked_returns:
  assumes "\<not> sl_mutex l" and "body (l\<lparr>sl_mutex := True\<rparr>) = Inr (v, l1)"
  shows "sl_locked body e l = Inr (v, e, l1\<lparr>sl_mutex := False\<rparr>)"
  using assms by (simp add: sl_locked_def push_cli_def)

lemma sl_locked_panics:
  assumes "\<not> sl_mutex l" and "body (l\<lparr>sl_mutex := True\<rparr>) = Inl err"
  shows "sl_locked body e l = Inl err"
  using assms by (simp add: sl_locked_def push_cli_def)

lemma sl_locked_held: "sl_mutex l \<Longrightarrow> sl_locked body e l = Inl Hang"
  by (simp add: sl_locked_def push_cli_def kernel_mutex.locked_nested_hangs)

lemma sl_locked_flags: "sl_locked body e l = Inr (v, e', l') \<Longrightarrow> e' = e \<and> \<not> sl_mutex l'"
  by (auto simp: sl_locked_def push_cli_def result_iff)

lemma sl_size_alt:
  "sl_size l = (if sl_head l \<le> sl_tail l then sl_tail l - sl_head l
     else (sl_capacity l + sl_tail l) - sl_head l)"
  by (simp add: sl_size_def Let_def)

lemma sl_size_lt: "sl_inv l \<Longrightarrow> sl_size l < sl_capacity l"
  by (auto simp: sl_size_alt sl_inv_def)

lemma sl_length_list [simp]: "length (sl_list l) = sl_size l"
  by (simp add: sl_list_def)

lemma sl_slot_size: "sl_inv l \<Longrightarrow> sl_slot l (sl_size l) = sl_tail l"
  by (auto simp: sl_slot_def sl_size_alt sl_inv_def mod_if)

lemma sl_slot_inj:
  assumes "sl_inv l" and "i < sl_capacity l" and "j < sl_capacity l" and "sl_slot l i = sl_slot l j"
  shows "i = j"
  using assms by (auto simp: sl_slot_def sl_inv_def mod_if split: if_splits)

lemma sl_list_nth: "i < sl_size l \<Longrightarrow> sl_list l ! i = sl_objects l ! sl_slot l i"
  by (simp add: sl_list_def)

lemma sl_list_empty_iff: "sl_inv l \<Longrightarrow> sl_list l = [] \<longleftrightarrow> sl_head l = sl_tail l"
  by (auto simp: sl_list_def sl_size_alt sl_inv_def split: if_splits)

section \<open>Each operation on the abstract list\<close>

lemma sl_push_back_abs:
  fixes l :: "'a static_list" and x :: 'a
  assumes inv: "sl_inv l" and room: "sl_room l"
  defines "l' \<equiv> l\<lparr>sl_objects := (sl_objects l)[sl_tail l := x],
                  sl_tail := (sl_tail l + 1) mod sl_capacity l\<rparr>"
  shows "sl_list l' = sl_list l @ [x]" and "sl_inv l'"
proof -
  have cap: "sl_capacity l' = sl_capacity l" by (simp add: l'_def sl_capacity_def)
  have slot: "sl_slot l' i = sl_slot l i" for i by (simp add: sl_slot_def cap) (simp add: l'_def)
  have sz: "sl_size l' = Suc (sl_size l)"
    using inv room by (auto simp: l'_def sl_size_alt sl_inv_def sl_room_def sl_capacity_def mod_if)
  show "sl_inv l'" using inv by (simp add: sl_inv_def cap) (simp add: l'_def)
  have "sl_list l' ! i = (sl_list l @ [x]) ! i" if "i < Suc (sl_size l)" for i
  proof (cases "i = sl_size l")
    case True
    with inv sl_slot_size [OF inv] show ?thesis
      by (simp add: sl_list_nth sz slot nth_append) (simp add: l'_def sl_inv_def sl_capacity_def)
  next
    case False
    with that have i: "i < sl_size l" by simp
    have "sl_slot l i \<noteq> sl_slot l (sl_size l)"
      using sl_slot_inj [OF inv, of i "sl_size l"] sl_size_lt [OF inv] i by auto
    then have "sl_slot l i \<noteq> sl_tail l" by (simp add: sl_slot_size [OF inv])
    with i show ?thesis by (simp add: sl_list_nth sz slot nth_append) (simp add: l'_def)
  qed
  then show "sl_list l' = sl_list l @ [x]" by (intro nth_equalityI) (auto simp: sz)
qed

lemma sl_pop_back_abs:
  assumes inv: "sl_inv l" and ne: "sl_head l \<noteq> sl_tail l"
  defines "t \<equiv> sl_prev (sl_capacity l) (sl_tail l)"
  defines "l' \<equiv> l\<lparr>sl_tail := t\<rparr>"
  shows "sl_list l = sl_list l' @ [sl_objects l ! t]" and "sl_inv l'"
proof -
  have cap: "sl_capacity l' = sl_capacity l" by (simp add: l'_def sl_capacity_def)
  have slot: "sl_slot l' i = sl_slot l i" for i by (simp add: sl_slot_def cap) (simp add: l'_def)
  show inv': "sl_inv l'" using inv by (simp add: sl_inv_def cap) (auto simp: l'_def t_def sl_prev_def)
  have sz: "sl_size l = Suc (sl_size l')"
    using inv ne by (auto simp: l'_def t_def sl_prev_def sl_size_alt sl_inv_def sl_capacity_def)
  have t: "sl_slot l (sl_size l') = t"
    using sl_slot_size [OF inv'] by (simp add: slot) (simp add: l'_def)
  show "sl_list l = sl_list l' @ [sl_objects l ! t]"
    by (simp add: sl_list_def sz slot t) (simp add: l'_def)
qed

lemma sl_push_front_abs:
  fixes l :: "'a static_list" and x :: 'a
  assumes inv: "sl_inv l" and room: "sl_room l"
  defines "h \<equiv> sl_prev (sl_capacity l) (sl_head l)"
  defines "l' \<equiv> l\<lparr>sl_head := h, sl_objects := (sl_objects l)[h := x]\<rparr>"
  shows "sl_list l' = x # sl_list l" and "sl_inv l'"
proof -
  have cap: "sl_capacity l' = sl_capacity l" by (simp add: l'_def sl_capacity_def)
  have h: "h < sl_capacity l" using inv by (auto simp: h_def sl_prev_def sl_inv_def)
  show "sl_inv l'" using inv h by (simp add: sl_inv_def cap) (simp add: l'_def)
  have sz: "sl_size l' = Suc (sl_size l)"
    using inv room by (auto simp: l'_def h_def sl_prev_def sl_size_alt sl_inv_def sl_room_def sl_capacity_def)
  have slot0: "sl_slot l' 0 = h" using h by (simp add: sl_slot_def cap) (simp add: l'_def)
  have slotS: "sl_slot l' (Suc i) = sl_slot l i" if "i < sl_size l" for i
    using inv that sl_size_lt [OF inv]
    by (simp add: sl_slot_def cap) (auto simp: l'_def h_def sl_prev_def sl_inv_def mod_if)
  have ne: "sl_slot l i \<noteq> h" if "i < sl_size l" for i
    using inv room that by (auto simp: h_def sl_prev_def sl_slot_def sl_inv_def sl_room_def mod_if)
  have "sl_list l' ! i = (x # sl_list l) ! i" if "i < Suc (sl_size l)" for i
  proof (cases i)
    case 0
    then show ?thesis using h by (simp add: sl_list_nth sz slot0) (simp add: l'_def sl_capacity_def)
  next
    case (Suc j)
    with that ne [of j] show ?thesis by (simp add: sl_list_nth sz slotS) (simp add: l'_def)
  qed
  then show "sl_list l' = x # sl_list l" by (intro nth_equalityI) (auto simp: sz)
qed

lemma sl_pop_front_abs:
  assumes inv: "sl_inv l" and ne: "sl_head l \<noteq> sl_tail l"
  defines "l' \<equiv> l\<lparr>sl_head := (sl_head l + 1) mod sl_capacity l\<rparr>"
  shows "sl_list l = sl_objects l ! sl_head l # sl_list l'" and "sl_inv l'"
proof -
  have cap: "sl_capacity l' = sl_capacity l" by (simp add: l'_def sl_capacity_def)
  show "sl_inv l'" using inv by (simp add: sl_inv_def cap) (simp add: l'_def)
  have sz: "sl_size l = Suc (sl_size l')"
    using inv ne by (auto simp: l'_def sl_size_alt sl_inv_def sl_capacity_def mod_if)
  have slot: "sl_slot l (Suc i) = sl_slot l' i" for i
    by (simp add: sl_slot_def cap) (simp add: l'_def mod_simps)
  have "sl_slot l 0 = sl_head l" using inv by (simp add: sl_slot_def sl_inv_def)
  then show "sl_list l = sl_objects l ! sl_head l # sl_list l'"
    by (simp add: sl_list_def sz upt_conv_Cons map_Suc_upt [symmetric] slot o_def del: upt_Suc)
      (simp add: l'_def)
qed

section \<open>The deque contract\<close>

lemma sl_unlocked: "\<not> sl_mutex l \<Longrightarrow> l\<lparr>sl_mutex := False\<rparr> = l"
  by (cases l) simp

lemma sl_push_back_returns:
  assumes "sl_inv l" and "sl_room l"
  shows "\<exists>l'. sl_push_back x e l = Inr ((), e, l') \<and> sl_inv l' \<and> sl_list l' = sl_list l @ [x]"
proof -
  let ?m = "l\<lparr>sl_objects := (sl_objects l)[sl_tail l := x], sl_tail := (sl_tail l + 1) mod sl_capacity l\<rparr>"
  have "sl_push_back x e l = Inr ((), e, ?m\<lparr>sl_mutex := False\<rparr>)"
    using assms by (simp add: sl_push_back_def sl_locked_def push_cli_def sl_inv_def sl_capacity_def Let_def)
  moreover have "?m\<lparr>sl_mutex := False\<rparr> = ?m" using assms(1) by (simp add: sl_inv_def sl_unlocked)
  ultimately show ?thesis using sl_push_back_abs [OF assms] by metis
qed

lemma sl_push_front_returns:
  assumes "sl_inv l" and "sl_room l"
  shows "\<exists>l'. sl_push_front x e l = Inr ((), e, l') \<and> sl_inv l' \<and> sl_list l' = x # sl_list l"
proof -
  let ?h = "sl_prev (sl_capacity l) (sl_head l)"
  let ?m = "l\<lparr>sl_head := ?h, sl_objects := (sl_objects l)[?h := x]\<rparr>"
  have "sl_push_front x e l = Inr ((), e, ?m\<lparr>sl_mutex := False\<rparr>)"
    using assms by (simp add: sl_push_front_def sl_locked_def push_cli_def sl_inv_def sl_capacity_def Let_def)
  moreover have "?m\<lparr>sl_mutex := False\<rparr> = ?m" using assms(1) by (simp add: sl_inv_def sl_unlocked)
  ultimately show ?thesis using sl_push_front_abs [OF assms] by metis
qed

lemma sl_pop_back_returns:
  assumes "sl_inv l" and "sl_list l \<noteq> []"
  shows "\<exists>l'. sl_pop_back e l = Inr (last (sl_list l), e, l') \<and> sl_inv l' \<and> sl_list l' = butlast (sl_list l)"
proof -
  let ?t = "sl_prev (sl_capacity l) (sl_tail l)"
  let ?m = "l\<lparr>sl_tail := ?t\<rparr>"
  from assms have ne: "sl_head l \<noteq> sl_tail l" by (simp add: sl_list_empty_iff)
  have "sl_pop_back e l = Inr (sl_objects l ! ?t, e, ?m\<lparr>sl_mutex := False\<rparr>)"
    using assms ne by (simp add: sl_pop_back_def sl_locked_def push_cli_def sl_inv_def sl_capacity_def Let_def)
  moreover have "?m\<lparr>sl_mutex := False\<rparr> = ?m" using assms(1) by (simp add: sl_inv_def sl_unlocked)
  ultimately show ?thesis
    using sl_pop_back_abs [OF assms(1) ne] by (metis butlast_snoc last_snoc)
qed

lemma sl_pop_front_returns:
  assumes "sl_inv l" and "sl_list l \<noteq> []"
  shows "\<exists>l'. sl_pop_front e l = Inr (hd (sl_list l), e, l') \<and> sl_inv l' \<and> sl_list l' = tl (sl_list l)"
proof -
  let ?m = "l\<lparr>sl_head := (sl_head l + 1) mod sl_capacity l\<rparr>"
  from assms have ne: "sl_head l \<noteq> sl_tail l" by (simp add: sl_list_empty_iff)
  have "sl_pop_front e l = Inr (sl_objects l ! sl_head l, e, ?m\<lparr>sl_mutex := False\<rparr>)"
    using assms ne by (simp add: sl_pop_front_def sl_locked_def push_cli_def sl_inv_def sl_capacity_def Let_def)
  moreover have "?m\<lparr>sl_mutex := False\<rparr> = ?m" using assms(1) by (simp add: sl_inv_def sl_unlocked)
  ultimately show ?thesis using sl_pop_front_abs [OF assms(1) ne] by (metis list.sel(1,3))
qed

lemma sl_pop_empty:
  assumes "sl_inv l" and "sl_list l = []"
  shows "sl_pop_back e l = Inl (Panic ''Tried to pop_back an empty list'')"
    and "sl_pop_front e l = Inl (Panic ''Tried to pop_front an empty list'')"
  using assms sl_list_empty_iff [OF assms(1)]
  by (simp_all add: sl_pop_back_def sl_pop_front_def sl_locked_panics sl_inv_def)

lemma sl_ends:
  assumes "sl_inv l" and "sl_list l \<noteq> []"
  shows "sl_back l = Inr (last (sl_list l))" and "sl_front l = Inr (hd (sl_list l))"
proof -
  from assms have ne: "sl_head l \<noteq> sl_tail l" by (simp add: sl_list_empty_iff)
  from sl_pop_back_abs(1) [OF assms(1) ne] assms(1)
  show "sl_back l = Inr (last (sl_list l))"
    by (auto simp: sl_back_def sl_prev_def sl_inv_def Let_def)
  from sl_pop_front_abs(1) [OF assms(1) ne] assms(1)
  show "sl_front l = Inr (hd (sl_list l))" by (simp add: sl_front_def sl_inv_def)
qed

text \<open>The state of the contract is the CPU's flags with the list; no placement is needed.\<close>

interpretation static_deque: deque
  "\<lambda>s. sl_list (snd s)" "\<lambda>s. sl_inv (snd s)" "\<lambda>(_ :: unit) s. sl_room (snd s)"
  "\<lambda>_ x s. bindE (sl_push_back x (fst s) (snd s)) (\<lambda>(_, t). Inr t)"
  "\<lambda>s. bindE (sl_pop_back (fst s) (snd s)) (\<lambda>(_, t). Inr t)"
  "\<lambda>s. sl_back (snd s)" "\<lambda>s. sl_size (snd s)"
  "\<lambda>_ x s. bindE (sl_push_front x (fst s) (snd s)) (\<lambda>(_, t). Inr t)"
  "\<lambda>s. bindE (sl_pop_front (fst s) (snd s)) (\<lambda>(_, t). Inr t)"
  "\<lambda>s. sl_front (snd s)"
proof (unfold_locales, goal_cases)
  case (1 s p x) then show ?case using sl_push_back_returns [of "snd s" x "fst s"] by auto
next
  case (2 s) then show ?case using sl_pop_back_returns [of "snd s" "fst s"] by auto
next
  case (3 s) then show ?case by (simp add: sl_pop_empty)
next
  case (4 s) then show ?case by (simp add: sl_ends)
next
  case (5 s) then show ?case by simp
next
  case (6 s p x) then show ?case using sl_push_front_returns [of "snd s" x "fst s"] by auto
next
  case (7 s) then show ?case using sl_pop_front_returns [of "snd s" "fst s"] by auto
next
  case (8 s) then show ?case by (simp add: sl_pop_empty)
next
  case (9 s) then show ?case by (simp add: sl_ends)
qed

section \<open>Properties\<close>

text \<open>C34: With a free slot left, pushing onto a static list returns, appends (or prepends) exactly
  the value, keeps the invariant, releases the mutex and restores the interrupt flags; popping a
  non-empty list returns its last (or first) element and removes it.\<close>

theorem sl_operations_refine_lists:
  assumes "sl_inv l"
  shows "(sl_room l \<longrightarrow>
      (\<exists>l'. sl_push_back x e l = Inr ((), e, l') \<and> sl_inv l' \<and> sl_list l' = sl_list l @ [x]) \<and>
      (\<exists>l'. sl_push_front x e l = Inr ((), e, l') \<and> sl_inv l' \<and> sl_list l' = x # sl_list l)) \<and>
    (sl_list l \<noteq> [] \<longrightarrow>
      (\<exists>l'. sl_pop_back e l = Inr (last (sl_list l), e, l') \<and> sl_inv l' \<and> sl_list l' = butlast (sl_list l)) \<and>
      (\<exists>l'. sl_pop_front e l = Inr (hd (sl_list l), e, l') \<and> sl_inv l' \<and> sl_list l' = tl (sl_list l)))"
  by (simp add: assms sl_push_back_returns sl_push_front_returns sl_pop_back_returns sl_pop_front_returns)

theorem sl_operations_refine_lists_witness:
  "\<exists>l'. sl_push_back (7 :: nat) 0x202 (sl_new [0, 0, 0]) = Inr ((), 0x202, l') \<and> sl_list l' = [7]"
  using sl_operations_refine_lists [of "sl_new [0, 0, 0 :: nat]" 7 "0x202"]
  by (auto simp: sl_inv_def sl_room_def sl_new_def sl_capacity_def sl_size_def sl_list_def Mutex_new_def)

text \<open>A static list cannot hold its capacity: pushing onto a list with one slot left returns
  normally and leaves a list that reads as empty, losing every element. (\<open>static_list.hpp\<close> says it
  holds up to \<open>C\<close> elements and \<open>capacity()\<close> returns \<open>C\<close>.)\<close>

theorem sl_push_last_slot_loses_all:
  assumes "sl_inv l" and "Suc (sl_size l) = sl_capacity l"
  shows "\<exists>l'. sl_push_back x e l = Inr ((), e, l') \<and> sl_list l' = [] \<and> sl_empty l' \<and> sl_size l' = 0"
proof -
  let ?m = "l\<lparr>sl_objects := (sl_objects l)[sl_tail l := x], sl_tail := (sl_tail l + 1) mod sl_capacity l\<rparr>"
  have "sl_push_back x e l = Inr ((), e, ?m\<lparr>sl_mutex := False\<rparr>)"
    using assms by (simp add: sl_push_back_def sl_locked_def push_cli_def sl_inv_def sl_capacity_def Let_def)
  moreover have "(sl_tail l + 1) mod sl_capacity l = sl_head l"
    using assms by (auto simp: sl_inv_def sl_size_alt mod_if split: if_splits)
  ultimately show ?thesis
    by (auto simp: sl_list_def sl_size_alt sl_empty_def)
qed

theorem sl_push_last_slot_loses_all_witness:
  "\<exists>l'. sl_push_back (3 :: nat) 0 \<lparr>sl_objects = [1, 2, 0], sl_head = 0, sl_tail = 2, sl_mutex = False\<rparr>
     = Inr ((), 0, l') \<and> sl_list l' = []"
  using sl_push_last_slot_loses_all
    [of "\<lparr>sl_objects = [1, 2, 0 :: nat], sl_head = 0, sl_tail = 2, sl_mutex = False\<rparr>" 3 0]
  by (auto simp: sl_inv_def sl_capacity_def sl_size_def)

end
