(* ===== verification/LinkedList.thy ===== *)
theory LinkedList
  imports Containers
begin

text \<open>
  \<open>include/structures/list.hpp\<close> and \<open>list.tpp\<close>: the singly linked \<open>list<T>\<close> with a head
  (\<open>unique_ptr<Entry>\<close>), a raw tail pointer and an element count, at the level of nodes in a
  heap. A node's \<open>next\<close> is a \<open>unique_ptr\<close>: overwriting or dropping it deletes the node it
  owned, and with it everything that node owned. \<open>new Entry\<close> is a \<open>kmalloc\<close>; the address it
  returns is an argument of the inserting operations.
\<close>

record 'a entry =
  en_next :: u32
  en_object :: 'a

type_synonym 'a node_heap = "u32 \<Rightarrow> 'a entry option"

record 'a clist =
  cl_heap :: "'a node_heap"
  cl_head :: u32
  cl_tail :: u32
  cl_count :: u32

definition nh_next :: "'a node_heap \<Rightarrow> u32 \<Rightarrow> u32" where
  "nh_next h p = (case h p of None \<Rightarrow> NULL | Some e \<Rightarrow> en_next e)"

definition nh_set_next :: "'a node_heap \<Rightarrow> u32 \<Rightarrow> u32 \<Rightarrow> 'a node_heap" where
  "nh_set_next h p q = (case h p of None \<Rightarrow> h | Some e \<Rightarrow> h(p \<mapsto> e\<lparr>en_next := q\<rparr>))"

text \<open>\<open>delete\<close> of an \<open>Entry\<close>: the entry goes and its \<open>next\<close>, a \<open>unique_ptr\<close>, deletes the rest.
  The heap shrinks with every call.\<close>

function nh_delete :: "'a node_heap \<Rightarrow> u32 \<Rightarrow> 'a node_heap" where
  "nh_delete h p = (if p = NULL then h else
     case h p of None \<Rightarrow> h | Some e \<Rightarrow> nh_delete (h(p := None)) (en_next e))"
  by pat_completeness auto
termination
proof (relation "measure (\<lambda>(h, p). card (dom h))", goal_cases)
  case (2 h p e)
  then have "p \<in> dom h" by auto
  then have "card (dom h - {p}) < card (dom h)" by (intro card_Diff1_less) simp_all
  then show ?case by simp
qed simp

declare nh_delete.simps [simp del]

text \<open>\<open>p->next = move(q)\<close>: \<open>unique_ptr::operator=\<close> takes the new pointer first and then deletes
  the node it owned before.\<close>

definition nh_assign_next :: "'a node_heap \<Rightarrow> u32 \<Rightarrow> u32 \<Rightarrow> 'a node_heap" where
  "nh_assign_next h p q = nh_delete (nh_set_next h p q) (nh_next h p)"

section \<open>Operations\<close>

definition cl_new :: "'a node_heap \<Rightarrow> 'a clist" where
  "cl_new h = \<lparr>cl_heap = h, cl_head = NULL, cl_tail = NULL, cl_count = 0\<rparr>"

definition cl_front :: "'a clist \<Rightarrow> 'a result" where
  "cl_front l = (if cl_head l = NULL then Inl (Panic ''Tried to dereference a null unique_ptr'')
     else case cl_heap l (cl_head l) of None \<Rightarrow> Inl Fault | Some e \<Rightarrow> Inr (en_object e))"

definition cl_back :: "'a clist \<Rightarrow> 'a result" where
  "cl_back l = (if cl_tail l = NULL then Inl Fault
     else case cl_heap l (cl_tail l) of None \<Rightarrow> Inl Fault | Some e \<Rightarrow> Inr (en_object e))"

definition cl_empty :: "'a clist \<Rightarrow> bool result" where
  "cl_empty l = (if cl_head l = NULL \<and> cl_tail l \<noteq> NULL
     then Inl (Panic ''List is in an inconsistent state'') else Inr (cl_head l = NULL))"

definition cl_size :: "'a clist \<Rightarrow> u32" where
  "cl_size l = cl_count l"

definition cl_push_front :: "u32 \<Rightarrow> 'a \<Rightarrow> 'a clist \<Rightarrow> 'a clist" where
  "cl_push_front a value l =
     (let h = (cl_heap l)(a \<mapsto> \<lparr>en_next = NULL, en_object = value\<rparr>) in
      if cl_head l \<noteq> NULL
      then l\<lparr>cl_heap := nh_assign_next h a (cl_head l), cl_head := a, cl_count := cl_count l + 1\<rparr>
      else l\<lparr>cl_heap := h, cl_head := a, cl_tail := a, cl_count := cl_count l + 1\<rparr>)"

definition cl_pop_front :: "'a clist \<Rightarrow> 'a clist result" where
  "cl_pop_front l = (if cl_head l = NULL then Inl (Panic ''Tried to pop_front an empty list'')
     else let old = cl_head l; new = nh_next (cl_heap l) old
          in Inr (l\<lparr>cl_heap := nh_delete (nh_set_next (cl_heap l) old NULL) old, cl_head := new,
                    cl_tail := (if new = NULL then NULL else cl_tail l),
                    cl_count := cl_count l - 1\<rparr>))"

definition cl_push_back :: "u32 \<Rightarrow> 'a \<Rightarrow> 'a clist \<Rightarrow> 'a clist result" where
  "cl_push_back a value l =
     (let h = (cl_heap l)(a \<mapsto> \<lparr>en_next = NULL, en_object = value\<rparr>) in
      if cl_head l \<noteq> NULL
      then (case cl_heap l (cl_tail l) of None \<Rightarrow> Inl Fault
            | Some _ \<Rightarrow> Inr (l\<lparr>cl_heap := nh_assign_next h (cl_tail l) a, cl_tail := a,
                              cl_count := cl_count l + 1\<rparr>))
      else Inr (l\<lparr>cl_heap := h, cl_head := a, cl_tail := a, cl_count := cl_count l + 1\<rparr>))"

text \<open>\<open>emplace_front\<close> and \<open>emplace_back\<close> construct the object and push it.\<close>

definition cl_emplace_front :: "u32 \<Rightarrow> ('args \<Rightarrow> 'a) \<Rightarrow> 'args \<Rightarrow> 'a clist \<Rightarrow> 'a clist" where
  "cl_emplace_front a mk args l = cl_push_front a (mk args) l"

definition cl_emplace_back :: "u32 \<Rightarrow> ('args \<Rightarrow> 'a) \<Rightarrow> 'args \<Rightarrow> 'a clist \<Rightarrow> 'a clist result" where
  "cl_emplace_back a mk args l = cl_push_back a (mk args) l"

text \<open>\<open>list(size_t count)\<close>: as many default-constructed elements as addresses are supplied.\<close>

fun cl_construct :: "'a \<Rightarrow> u32 list \<Rightarrow> 'a clist \<Rightarrow> 'a clist" where
  "cl_construct d [] l = l"
| "cl_construct d (a # as) l = cl_construct d as (cl_push_front a d l)"

text \<open>The search loop of \<open>pop_back\<close>: from the head until the node before the tail.\<close>

partial_function (option) cl_before_tail :: "'a node_heap \<Rightarrow> u32 \<Rightarrow> u32 \<Rightarrow> u32 result option" where
  "cl_before_tail h tp e = (case h e of None \<Rightarrow> Some (Inl Fault)
     | Some en \<Rightarrow> if en_next en = tp then Some (Inr e) else cl_before_tail h tp (en_next en))"

definition cl_pop_back :: "'a clist \<Rightarrow> 'a clist result" where
  "cl_pop_back l = (if cl_head l = NULL then Inl (Panic ''Tried to pop_back an empty list'')
     else if cl_head l = cl_tail l
     then Inr (l\<lparr>cl_heap := nh_delete (cl_heap l) (cl_head l), cl_head := NULL, cl_tail := NULL,
                 cl_count := cl_count l - 1\<rparr>)
     else bindE (loopE (cl_before_tail (cl_heap l) (cl_tail l) (cl_head l))) (\<lambda>r.
          bindE r (\<lambda>e. Inr (l\<lparr>cl_heap := nh_assign_next (cl_heap l) e NULL, cl_tail := e,
                             cl_count := cl_count l - 1\<rparr>))))"

text \<open>Unlinking \<open>now\<close>, which \<open>prev\<close> (or the head) owns: \<open>prev->next = move(now->next)\<close>.\<close>

definition cl_unlink :: "u32 \<Rightarrow> u32 \<Rightarrow> 'a clist \<Rightarrow> 'a clist" where
  "cl_unlink prev now l =
     (let nn = nh_next (cl_heap l) now; h = nh_set_next (cl_heap l) now NULL in
      if prev \<noteq> NULL
      then l\<lparr>cl_heap := nh_assign_next h prev nn, cl_count := cl_count l - 1\<rparr>
      else l\<lparr>cl_heap := nh_delete h now, cl_head := nn, cl_count := cl_count l - 1\<rparr>)"

text \<open>The loop of \<open>remove\<close>; it ends with the last kept node, which becomes the tail.\<close>

partial_function (option) cl_remove_loop :: "'a \<Rightarrow> u32 \<Rightarrow> u32 \<Rightarrow> 'a clist \<Rightarrow> 'a clist result option" where
  "cl_remove_loop value prev now l = (if now = NULL then Some (Inr (l\<lparr>cl_tail := prev\<rparr>))
     else case cl_heap l now of None \<Rightarrow> Some (Inl Fault)
     | Some e \<Rightarrow> if en_object e = value
                 then cl_remove_loop value prev (en_next e) (cl_unlink prev now l)
                 else cl_remove_loop value now (en_next e) l)"

definition cl_remove :: "'a \<Rightarrow> 'a clist \<Rightarrow> 'a clist result" where
  "cl_remove value l = (if cl_head l = NULL then Inr l
     else bindE (loopE (cl_remove_loop value NULL (cl_head l) l)) (\<lambda>r. r))"

text \<open>\<open>erase(it)\<close>: the result is the iterator after the erased node, with the list.\<close>

partial_function (option) cl_erase_loop ::
  "u32 \<Rightarrow> u32 \<Rightarrow> u32 \<Rightarrow> u32 \<Rightarrow> 'a clist \<Rightarrow> (u32 \<times> 'a clist) result option" where
  "cl_erase_loop entry it prev now l =
     (if now = NULL then Some (Inl (Panic ''Tried to erase an iterator that isn't in the list''))
      else case cl_heap l now of None \<Rightarrow> Some (Inl Fault)
      | Some e \<Rightarrow> if now = entry
                  then let l1 = (if en_next e = NULL then l\<lparr>cl_tail := prev\<rparr> else l)
                       in Some (Inr (it, cl_unlink prev now l1))
                  else cl_erase_loop entry it now (en_next e) l)"

definition cl_erase :: "u32 \<Rightarrow> 'a clist \<Rightarrow> (u32 \<times> 'a clist) result" where
  "cl_erase entry l = (case cl_heap l entry of None \<Rightarrow> Inl Fault
     | Some e \<Rightarrow> bindE (loopE (cl_erase_loop entry (en_next e) NULL (cl_head l) l)) (\<lambda>r. r))"

definition cl_clear :: "'a clist \<Rightarrow> 'a clist" where
  "cl_clear l = l\<lparr>cl_heap := nh_delete (cl_heap l) (cl_head l), cl_head := NULL, cl_tail := NULL,
                  cl_count := 0\<rparr>"

text \<open>Iterators are node pointers: \<open>begin\<close>, \<open>end\<close>, \<open>*it\<close> and \<open>++it\<close>.\<close>

definition cl_begin :: "'a clist \<Rightarrow> u32" where
  "cl_begin l = cl_head l"

definition cl_end :: "'a clist \<Rightarrow> u32" where
  "cl_end l = NULL"

definition it_deref :: "'a clist \<Rightarrow> u32 \<Rightarrow> 'a result" where
  "it_deref l it = (case cl_heap l it of None \<Rightarrow> Inl Fault | Some e \<Rightarrow> Inr (en_object e))"

definition it_next :: "'a clist \<Rightarrow> u32 \<Rightarrow> u32 result" where
  "it_next l it = (case cl_heap l it of None \<Rightarrow> Inl Fault | Some e \<Rightarrow> Inr (en_next e))"

section \<open>Abstraction and invariant\<close>

text \<open>The nodes from \<open>p\<close> on, each visited once.\<close>

function nh_nodes :: "'a node_heap \<Rightarrow> u32 \<Rightarrow> u32 list" where
  "nh_nodes h p = (if p = NULL then [] else
     case h p of None \<Rightarrow> [] | Some e \<Rightarrow> p # nh_nodes (h(p := None)) (en_next e))"
  by pat_completeness auto
termination
proof (relation "measure (\<lambda>(h, p). card (dom h))", goal_cases)
  case (2 h p e)
  then have "p \<in> dom h" by auto
  then have "card (dom h - {p}) < card (dom h)" by (intro card_Diff1_less) simp_all
  then show ?case by simp
qed simp

declare nh_nodes.simps [simp del]

definition cl_nodes :: "'a clist \<Rightarrow> u32 list" where
  "cl_nodes l = nh_nodes (cl_heap l) (cl_head l)"

definition cl_list :: "'a clist \<Rightarrow> 'a list" where
  "cl_list l = map (\<lambda>a. case cl_heap l a of Some e \<Rightarrow> en_object e) (cl_nodes l)"

definition cl_inv :: "'a clist \<Rightarrow> bool" where
  "cl_inv l \<longleftrightarrow> linked (nh_next (cl_heap l)) (cl_head l) (cl_nodes l) \<and>
     set (cl_nodes l) \<subseteq> dom (cl_heap l) \<and>
     cl_tail l = (if cl_nodes l = [] then NULL else last (cl_nodes l)) \<and>
     cl_count l = of_nat (length (cl_nodes l))"

definition cl_fresh :: "u32 \<Rightarrow> 'a clist \<Rightarrow> bool" where
  "cl_fresh a l \<longleftrightarrow> a \<noteq> NULL \<and> cl_heap l a = None"

text \<open>The relational form of the invariant, with the nodes named.\<close>

definition cl_rep :: "'a clist \<Rightarrow> u32 list \<Rightarrow> bool" where
  "cl_rep l as \<longleftrightarrow> linked (nh_next (cl_heap l)) (cl_head l) as \<and> set as \<subseteq> dom (cl_heap l) \<and>
     cl_tail l = (if as = [] then NULL else last as) \<and> cl_count l = of_nat (length as)"

definition objs :: "'a node_heap \<Rightarrow> u32 list \<Rightarrow> 'a list" where
  "objs h as = map (\<lambda>a. case h a of Some e \<Rightarrow> en_object e) as"

lemma nh_next_Some [simp]: "h p = Some e \<Longrightarrow> nh_next h p = en_next e"
  by (simp add: nh_next_def)

lemma nh_next_upd [simp]:
  "nh_next (h(a := x)) = (nh_next h)(a := (case x of None \<Rightarrow> NULL | Some e \<Rightarrow> en_next e))"
  by (auto simp: nh_next_def)

lemma nh_set_next_Some [simp]: "h p = Some e \<Longrightarrow> nh_set_next h p q = h(p \<mapsto> e\<lparr>en_next := q\<rparr>)"
  by (simp add: nh_set_next_def)

lemma nh_nodes_linked:
  "linked (nh_next h) p as \<Longrightarrow> set as \<subseteq> dom h \<Longrightarrow> nh_nodes h p = as"
proof (induction as arbitrary: h p)
  case Nil
  then show ?case by (simp add: nh_nodes.simps)
next
  case (Cons a as)
  then obtain e where e: "h a = Some e" by auto
  from Cons.prems have p: "p = a" "a \<noteq> NULL" and l: "linked (nh_next h) (en_next e) as"
    by (auto simp: e)
  from l have na: "a \<notin> set as" using linked_hd_notin [of "nh_next h" a as] e by simp
  have "linked (nh_next (h(a := None))) (en_next e) as"
    using l na by simp
  moreover have "set as \<subseteq> dom (h(a := None))" using Cons.prems(2) na by auto
  ultimately have "nh_nodes (h(a := None)) (en_next e) = as" by (rule Cons.IH)
  with p e show ?case by (simp add: nh_nodes.simps [of h a])
qed

lemma cl_rep_nodes: "cl_rep l as \<Longrightarrow> cl_nodes l = as"
  by (simp add: cl_rep_def cl_nodes_def nh_nodes_linked)

lemma cl_inv_iff_rep: "cl_inv l \<longleftrightarrow> (\<exists>as. cl_rep l as)"
proof
  assume "cl_inv l"
  then have "cl_rep l (cl_nodes l)" by (simp add: cl_inv_def cl_rep_def)
  then show "\<exists>as. cl_rep l as" by blast
next
  assume "\<exists>as. cl_rep l as"
  then obtain as where r: "cl_rep l as" by blast
  with cl_rep_nodes [OF r] show "cl_inv l" by (simp add: cl_inv_def cl_rep_def)
qed

lemma cl_rep_list: "cl_rep l as \<Longrightarrow> cl_list l = objs (cl_heap l) as"
  by (simp add: cl_list_def objs_def cl_rep_nodes)

lemma cl_repI:
  assumes "cl_rep l as"
  shows "cl_inv l" and "cl_list l = objs (cl_heap l) as"
  using assms cl_rep_list by (auto simp: cl_inv_iff_rep)

lemma objs_upd [simp]: "a \<notin> set as \<Longrightarrow> objs (h(a := x)) as = objs h as"
  by (auto simp: objs_def)

lemma objs_simps [simp]:
  "objs h [] = []" "objs h (a # as) = (case h a of Some e \<Rightarrow> en_object e) # objs h as"
  "objs h (as @ bs) = objs h as @ objs h bs"
  by (simp_all add: objs_def)

lemma objs_eq_Nil [simp]: "objs h as = [] \<longleftrightarrow> as = []"
  by (simp add: objs_def)

lemma objs_set_next [simp]: "h p = Some e \<Longrightarrow> objs (h(p \<mapsto> e\<lparr>en_next := q\<rparr>)) as = objs h as"
  by (auto simp: objs_def)

lemma last_objs: "as \<noteq> [] \<Longrightarrow> last (objs h as) = (case h (last as) of Some e \<Rightarrow> en_object e)"
  by (simp add: objs_def last_map)

section \<open>Deletion\<close>

lemma nh_delete_NULL [simp]: "nh_delete h NULL = h"
  by (simp add: nh_delete.simps)

lemma nh_delete_chain:
  "linked (nh_next h) p as \<Longrightarrow> set as \<subseteq> dom h \<Longrightarrow>
     nh_delete h p = (\<lambda>x. if x \<in> set as then None else h x)"
proof (induction as arbitrary: h p)
  case Nil
  then show ?case by simp
next
  case (Cons a as)
  then obtain e where e: "h a = Some e" by auto
  from Cons.prems have p: "p = a" "a \<noteq> NULL" and l: "linked (nh_next h) (en_next e) as"
    by (auto simp: e)
  from l have na: "a \<notin> set as" using linked_hd_notin [of "nh_next h" a as] e by simp
  have "linked (nh_next (h(a := None))) (en_next e) as" using l na by simp
  moreover have "set as \<subseteq> dom (h(a := None))" using Cons.prems(2) na by auto
  ultimately have "nh_delete (h(a := None)) (en_next e)
      = (\<lambda>x. if x \<in> set as then None else (h(a := None)) x)"
    by (rule Cons.IH)
  with p e show ?case by (simp add: nh_delete.simps [of h a] fun_eq_iff)
qed

lemma nh_delete_single:
  assumes "h p = Some e" and "en_next e = NULL" and "p \<noteq> NULL"
  shows "nh_delete h p = h(p := None)"
  using assms by (simp add: nh_delete.simps)

lemma nh_assign_next_empty:
  assumes "h p = Some e" and "en_next e = NULL"
  shows "nh_assign_next h p q = h(p \<mapsto> e\<lparr>en_next := q\<rparr>)"
  using assms by (simp add: nh_assign_next_def)

lemma nh_assign_next_owned:
  assumes "h p = Some e" and "en_next e = n" and "h n = Some en" and "en_next en = NULL"
    and "n \<noteq> p" and "n \<noteq> NULL"
  shows "nh_assign_next h p q = (h(p \<mapsto> e\<lparr>en_next := q\<rparr>))(n := None)"
  using assms by (simp add: nh_assign_next_def nh_delete_single)

section \<open>Every operation, on the nodes\<close>

lemma cl_rep_ne: "cl_rep l as \<Longrightarrow> as \<noteq> [] \<longleftrightarrow> cl_head l \<noteq> NULL"
  by (cases as) (auto simp: cl_rep_def)

lemma cl_rep_length:
  assumes "cl_rep l as"
  shows "length as < 2 ^ 32"
proof -
  from assms have d: "distinct as" and n: "NULL \<notin> set as"
    by (auto simp: cl_rep_def dest: linked_distinct chain_nonnull)
  from n have "set as \<subset> (UNIV :: u32 set)" by blast
  then have "card (set as) < card (UNIV :: u32 set)" by (intro psubset_card_mono) simp_all
  with d show ?thesis by (simp add: distinct_card card_word)
qed

lemma cl_push_front_rep:
  assumes "cl_rep l as" and "cl_fresh a l"
  shows "cl_rep (cl_push_front a x l) (a # as)"
    and "objs (cl_heap (cl_push_front a x l)) (a # as) = x # objs (cl_heap l) as"
proof -
  from assms have a: "a \<notin> set as" by (auto simp: cl_rep_def cl_fresh_def)
  show "cl_rep (cl_push_front a x l) (a # as)"
    using assms a cl_rep_ne [OF assms(1)]
    by (cases as) (auto simp: cl_push_front_def cl_rep_def cl_fresh_def nh_assign_next_empty Let_def)
  show "objs (cl_heap (cl_push_front a x l)) (a # as) = x # objs (cl_heap l) as"
    using a by (auto simp: cl_push_front_def nh_assign_next_empty Let_def)
qed

lemma cl_push_back_rep:
  assumes "cl_rep l as" and "cl_fresh a l"
  shows "\<exists>l'. cl_push_back a x l = Inr l' \<and> cl_rep l' (as @ [a]) \<and>
           objs (cl_heap l') (as @ [a]) = objs (cl_heap l) as @ [x]"
proof (cases "as = []")
  case True
  with assms cl_rep_ne [OF assms(1)] show ?thesis
    by (auto simp: cl_push_back_def cl_rep_def cl_fresh_def Let_def)
next
  case False
  then obtain bs t where as: "as = bs @ [t]" by (metis append_butlast_last_id)
  from assms have a: "a \<notin> set as" "a \<noteq> NULL" by (auto simp: cl_rep_def cl_fresh_def)
  from assms(1) as have t: "cl_tail l = t" "cl_head l \<noteq> NULL" and "t \<in> dom (cl_heap l)"
    and d: "distinct as"
    using cl_rep_ne [OF assms(1)] by (auto simp: cl_rep_def dest: linked_distinct)
  then obtain e where e: "cl_heap l t = Some e" by auto
  from assms(1) as e have en: "en_next e = NULL" and c: "chain (nh_next (cl_heap l)) (cl_head l) bs t"
    and tn: "t \<noteq> NULL"
    by (auto simp: cl_rep_def chain_append)
  let ?h = "((cl_heap l)(a \<mapsto> \<lparr>en_next = NULL, en_object = x\<rparr>))(t \<mapsto> e\<lparr>en_next := a\<rparr>)"
  have ta: "t \<noteq> a" using a as by auto
  have eq: "cl_push_back a x l = Inr (l\<lparr>cl_heap := ?h, cl_tail := a, cl_count := cl_count l + 1\<rparr>)"
    using t e en ta by (simp add: cl_push_back_def nh_assign_next_empty Let_def)
  have "chain (nh_next ?h) (cl_head l) bs t"
    using c a d as by (auto simp: chain_upd)
  then have "cl_rep (l\<lparr>cl_heap := ?h, cl_tail := a, cl_count := cl_count l + 1\<rparr>) (as @ [a])"
    using assms(1) a as ta tn by (auto simp: cl_rep_def chain_append)
  moreover have "objs ?h (as @ [a]) = objs (cl_heap l) as @ [x]"
    using a ta e d as by auto
  ultimately show ?thesis using eq by auto
qed

lemma cl_pop_front_rep:
  assumes "cl_rep l (a # as)"
  shows "\<exists>l'. cl_pop_front l = Inr l' \<and> cl_rep l' as \<and> objs (cl_heap l') as = objs (cl_heap l) as"
proof -
  from assms obtain e where e: "cl_heap l a = Some e" and h: "cl_head l = a" "a \<noteq> NULL"
    and l: "linked (nh_next (cl_heap l)) (en_next e) as"
    by (auto simp: cl_rep_def)
  from l have na: "a \<notin> set as" using linked_hd_notin [of "nh_next (cl_heap l)" a as] e by simp
  have del: "nh_delete ((cl_heap l)(a \<mapsto> e\<lparr>en_next := NULL\<rparr>)) a = (cl_heap l)(a := None)"
    using h by (simp add: nh_delete_single)
  have n: "en_next e = NULL \<longleftrightarrow> as = []" using l by (cases as) auto
  have "cl_pop_front l = Inr (l\<lparr>cl_heap := (cl_heap l)(a := None), cl_head := en_next e,
      cl_tail := (if en_next e = NULL then NULL else cl_tail l), cl_count := cl_count l - 1\<rparr>)"
    using e h del by (simp add: cl_pop_front_def Let_def)
  with assms l na n show ?thesis by (auto simp: cl_rep_def)
qed

lemma cl_before_tail_finds:
  "chain (nh_next h) p (as @ [e]) t \<Longrightarrow> t \<notin> set (as @ [e]) \<Longrightarrow> set (as @ [e]) \<subseteq> dom h \<Longrightarrow>
     cl_before_tail h t p = Some (Inr e)"
proof (induction as arbitrary: p)
  case Nil
  then show ?case by (subst cl_before_tail.simps) auto
next
  case (Cons a as)
  then obtain ea where ea: "h a = Some ea" by auto
  have "en_next ea \<noteq> t" using Cons.prems ea by (cases as) auto
  moreover have "cl_before_tail h t (en_next ea) = Some (Inr e)"
    using Cons.prems ea by (intro Cons.IH) auto
  ultimately show ?case using Cons.prems ea by (subst cl_before_tail.simps) auto
qed

lemma cl_pop_back_rep:
  assumes "cl_rep l (as @ [t])"
  shows "\<exists>l'. cl_pop_back l = Inr l' \<and> cl_rep l' as \<and> objs (cl_heap l') as = objs (cl_heap l) as"
proof (cases "as = []")
  case True
  with assms show ?thesis
    by (auto simp: cl_pop_back_def cl_rep_def nh_delete.simps)
next
  case False
  then obtain bs e where as: "as = bs @ [e]" by (metis append_butlast_last_id)
  from assms have "distinct (as @ [t])" unfolding cl_rep_def using linked_distinct by blast
  with as have d: "distinct (bs @ [e, t])" by simp
  from assms as have tl: "cl_tail l = t"
    and c: "chain (nh_next (cl_heap l)) (cl_head l) (bs @ [e]) t"
    and tn: "t \<noteq> NULL" and nt: "nh_next (cl_heap l) t = NULL"
    and dm: "set (bs @ [e, t]) \<subseteq> dom (cl_heap l)"
    by (auto simp: cl_rep_def chain_append)
  from dm obtain ee et where ee: "cl_heap l e = Some ee" "cl_heap l t = Some et" by auto
  from c ee nt have en: "en_next ee = t" "en_next et = NULL" and e0: "e \<noteq> NULL"
    by (auto simp: chain_append)
  have hd: "cl_head l \<noteq> NULL" "cl_head l \<noteq> t"
    using c d by (cases bs; auto)+
  let ?h = "((cl_heap l)(e \<mapsto> ee\<lparr>en_next := NULL\<rparr>))(t := None)"
  have "cl_before_tail (cl_heap l) t (cl_head l) = Some (Inr e)"
    by (rule cl_before_tail_finds [OF c]) (use d dm in auto)
  moreover have "nh_assign_next (cl_heap l) e NULL = ?h"
    by (rule nh_assign_next_owned) (use ee en d tn in auto)
  ultimately have eq: "cl_pop_back l = Inr (l\<lparr>cl_heap := ?h, cl_tail := e, cl_count := cl_count l - 1\<rparr>)"
    using hd tl by (simp add: cl_pop_back_def)
  have "linked (nh_next ?h) (cl_head l) as"
    using c d e0 as by (auto simp: chain_append)
  then have "cl_rep (l\<lparr>cl_heap := ?h, cl_tail := e, cl_count := cl_count l - 1\<rparr>) as"
    using assms as d by (auto simp: cl_rep_def)
  moreover have "objs ?h as = objs (cl_heap l) as" using d as ee by auto
  ultimately show ?thesis using eq by auto
qed

section \<open>Unlinking, \<open>remove\<close>, \<open>erase\<close> and \<open>clear\<close>\<close>

text \<open>The invariant while \<open>remove\<close> runs: everything but the tail pointer.\<close>

definition cl_pre :: "'a clist \<Rightarrow> u32 list \<Rightarrow> bool" where
  "cl_pre l as \<longleftrightarrow> linked (nh_next (cl_heap l)) (cl_head l) as \<and> set as \<subseteq> dom (cl_heap l) \<and>
     cl_count l = of_nat (length as)"

definition lastp :: "u32 list \<Rightarrow> u32" where
  "lastp as = (if as = [] then NULL else last as)"

lemma cl_rep_pre: "cl_rep l as \<longleftrightarrow> cl_pre l as \<and> cl_tail l = lastp as"
  by (auto simp: cl_rep_def cl_pre_def lastp_def)

lemma cl_pre_tail [simp]: "cl_pre (l\<lparr>cl_tail := t\<rparr>) as = cl_pre l as"
  by (simp add: cl_pre_def)

lemma cl_pre_lastp: "cl_pre l as \<Longrightarrow> lastp as = NULL \<longleftrightarrow> as = []"
  unfolding cl_pre_def lastp_def using chain_nonnull last_in_set by metis

lemma cl_pre_distinct: "cl_pre l as \<Longrightarrow> distinct as"
  unfolding cl_pre_def using linked_distinct by blast

lemma cl_unlink_pre:
  assumes pre: "cl_pre l (ps @ n # qs)"
  defines "l' \<equiv> cl_unlink (lastp ps) n l"
  shows "cl_pre l' (ps @ qs)" and "objs (cl_heap l') (ps @ qs) = objs (cl_heap l) (ps @ qs)"
    and "cl_tail l' = cl_tail l"
    and "chain (nh_next (cl_heap l')) (cl_head l') ps (nh_next (cl_heap l) n)"
proof -
  from cl_pre_distinct [OF pre] have d: "distinct (ps @ n # qs)" .
  from pre obtain en where en: "cl_heap l n = Some en" by (auto simp: cl_pre_def)
  from pre en have c: "chain (nh_next (cl_heap l)) (cl_head l) ps n" and n0: "n \<noteq> NULL"
    and q: "linked (nh_next (cl_heap l)) (en_next en) qs"
    by (auto simp: cl_pre_def chain_append)
  have cnt: "cl_count l - 1 = of_nat (length (ps @ qs))" using pre by (simp add: cl_pre_def)
  have "cl_pre l' (ps @ qs) \<and> objs (cl_heap l') (ps @ qs) = objs (cl_heap l) (ps @ qs) \<and>
      cl_tail l' = cl_tail l \<and> chain (nh_next (cl_heap l')) (cl_head l') ps (en_next en)"
  proof (cases "ps = []")
    case True
    have "l' = l\<lparr>cl_heap := (cl_heap l)(n := None), cl_head := en_next en, cl_count := cl_count l - 1\<rparr>"
      using True en n0 by (simp add: l'_def cl_unlink_def lastp_def nh_delete_single Let_def)
    with True d q pre cnt show ?thesis by (auto simp: cl_pre_def)
  next
    case False
    then obtain bs p where ps: "ps = bs @ [p]" by (metis append_butlast_last_id)
    from pre ps obtain ep where ep: "cl_heap l p = Some ep" by (auto simp: cl_pre_def)
    from c ps ep have cb: "chain (nh_next (cl_heap l)) (cl_head l) bs p" and p0: "p \<noteq> NULL"
      and pn: "en_next ep = n"
      by (auto simp: chain_append)
    let ?h = "((cl_heap l)(n \<mapsto> en\<lparr>en_next := NULL\<rparr>))"
    have np: "n \<noteq> p" using d ps by auto
    have "nh_assign_next ?h p (en_next en) = (?h(p \<mapsto> ep\<lparr>en_next := en_next en\<rparr>))(n := None)"
      by (rule nh_assign_next_owned) (use ep pn np n0 in auto)
    then have l': "l' = l\<lparr>cl_heap := (?h(p \<mapsto> ep\<lparr>en_next := en_next en\<rparr>))(n := None),
        cl_count := cl_count l - 1\<rparr>"
      using ps en p0 by (simp add: l'_def cl_unlink_def lastp_def Let_def)
    have "chain (nh_next (cl_heap l')) (cl_head l') ps (en_next en)"
      and "linked (nh_next (cl_heap l')) (cl_head l') (ps @ qs)"
      using cb q d ps p0 np by (auto simp: l' chain_append)
    with l' pre cnt d ps ep show ?thesis by (auto simp: cl_pre_def)
  qed
  then show "cl_pre l' (ps @ qs)" and "objs (cl_heap l') (ps @ qs) = objs (cl_heap l) (ps @ qs)"
    and "cl_tail l' = cl_tail l"
    and "chain (nh_next (cl_heap l')) (cl_head l') ps (nh_next (cl_heap l) n)"
    using en by auto
qed

lemma lastp_snoc [simp]: "lastp (as @ [a]) = a"
  by (simp add: lastp_def)

lemma cl_remove_loop_filters:
  "cl_pre l (ps @ qs) \<Longrightarrow> chain (nh_next (cl_heap l)) (cl_head l) ps now \<Longrightarrow>
   \<exists>l' as. cl_remove_loop v (lastp ps) now l = Some (Inr l') \<and> cl_rep l' as \<and>
      objs (cl_heap l') as = objs (cl_heap l) ps @ filter (\<lambda>x. x \<noteq> v) (objs (cl_heap l) qs)"
proof (induction qs arbitrary: ps l now)
  case Nil
  then have "chain (nh_next (cl_heap l)) (cl_head l) ps NULL" by (simp add: cl_pre_def)
  with Nil.prems(2) have "now = NULL" by (rule chain_end_unique [symmetric, rotated])
  with Nil.prems show ?case
    by (subst cl_remove_loop.simps) (auto simp: cl_rep_pre)
next
  case (Cons q qs)
  from Cons.prems have "chain (nh_next (cl_heap l)) (cl_head l) ps q" and q0: "q \<noteq> NULL"
    by (auto simp: cl_pre_def chain_append)
  then have now: "now = q" using Cons.prems(2) chain_end_unique by blast
  from Cons.prems(1) obtain e where e: "cl_heap l q = Some e" by (auto simp: cl_pre_def)
  show ?case
  proof (cases "en_object e = v")
    case True
    define m where "m = cl_unlink (lastp ps) q l"
    note u = cl_unlink_pre [OF Cons.prems(1), folded m_def]
    from u(4) e have "chain (nh_next (cl_heap m)) (cl_head m) ps (en_next e)" by simp
    moreover have "objs (cl_heap m) ps = objs (cl_heap l) ps" "objs (cl_heap m) qs = objs (cl_heap l) qs"
      using u(2) by (simp_all add: objs_def)
    ultimately obtain l' as where
      "cl_remove_loop v (lastp ps) (en_next e) m = Some (Inr l')" "cl_rep l' as"
      "objs (cl_heap l') as = objs (cl_heap l) ps @ filter (\<lambda>x. x \<noteq> v) (objs (cl_heap l) qs)"
      using Cons.IH [OF u(1)] by metis
    with True e q0 now show ?thesis
      by (subst cl_remove_loop.simps) (auto simp: m_def)
  next
    case False
    have "\<exists>l' as. cl_remove_loop v (lastp (ps @ [q])) (en_next e) l = Some (Inr l') \<and> cl_rep l' as \<and>
      objs (cl_heap l') as = objs (cl_heap l) (ps @ [q]) @ filter (\<lambda>x. x \<noteq> v) (objs (cl_heap l) qs)"
      by (rule Cons.IH) (use Cons.prems now e q0 in \<open>auto simp: chain_append\<close>)
    with False e q0 now show ?thesis
      by (subst cl_remove_loop.simps) auto
  qed
qed

lemma cl_remove_rep:
  assumes "cl_inv l"
  shows "\<exists>l'. cl_remove v l = Inr l' \<and> cl_inv l' \<and> cl_list l' = filter (\<lambda>x. x \<noteq> v) (cl_list l)"
proof (cases "cl_head l = NULL")
  case True
  with assms show ?thesis by (auto simp: cl_remove_def cl_list_def cl_inv_def)
next
  case False
  from assms obtain as where r: "cl_rep l as" by (auto simp: cl_inv_iff_rep)
  then have "cl_pre l ([] @ as)" by (simp add: cl_rep_pre)
  from cl_remove_loop_filters [OF this, of "cl_head l" v] obtain l' bs where
    "cl_remove_loop v NULL (cl_head l) l = Some (Inr l')" and b: "cl_rep l' bs"
    "objs (cl_heap l') bs = filter (\<lambda>x. x \<noteq> v) (objs (cl_heap l) as)"
    by (auto simp: lastp_def)
  with False have "cl_remove v l = Inr l'" by (simp add: cl_remove_def)
  with b cl_repI [OF b(1)] cl_repI [OF r] show ?thesis by auto
qed

lemma cl_erase_loop_finds:
  "cl_pre l (ps @ rs @ n # qs) \<Longrightarrow> chain (nh_next (cl_heap l)) (cl_head l) ps now \<Longrightarrow>
   cl_erase_loop n it (lastp ps) now l = Some (Inr (it, cl_unlink (lastp (ps @ rs)) n
       (if qs = [] then l\<lparr>cl_tail := lastp (ps @ rs)\<rparr> else l)))"
proof (induction rs arbitrary: ps now)
  case Nil
  then have "chain (nh_next (cl_heap l)) (cl_head l) ps n" and n0: "n \<noteq> NULL"
    and q: "linked (nh_next (cl_heap l)) (nh_next (cl_heap l) n) qs"
    by (auto simp: cl_pre_def chain_append)
  then have now: "now = n" using Nil.prems(2) chain_end_unique by blast
  from Nil.prems(1) obtain e where e: "cl_heap l n = Some e" by (auto simp: cl_pre_def)
  with q have "en_next e = NULL \<longleftrightarrow> qs = []" by (cases qs) auto
  with e now n0 show ?case by (subst cl_erase_loop.simps) (simp add: Let_def)
next
  case (Cons r rs)
  then have "chain (nh_next (cl_heap l)) (cl_head l) ps r" and r0: "r \<noteq> NULL"
    by (auto simp: cl_pre_def chain_append)
  then have now: "now = r" using Cons.prems(2) chain_end_unique by blast
  from Cons.prems(1) obtain e where e: "cl_heap l r = Some e" by (auto simp: cl_pre_def)
  have "r \<noteq> n" using cl_pre_distinct [OF Cons.prems(1)] by auto
  moreover have "cl_erase_loop n it (lastp (ps @ [r])) (en_next e) l = Some (Inr (it,
      cl_unlink (lastp ((ps @ [r]) @ rs)) n (if qs = [] then l\<lparr>cl_tail := lastp ((ps @ [r]) @ rs)\<rparr> else l)))"
    by (rule Cons.IH) (use Cons.prems now e r0 in \<open>auto simp: chain_append\<close>)
  ultimately show ?case using e now r0 by (subst cl_erase_loop.simps) simp
qed

lemma cl_erase_rep:
  assumes "cl_rep l (ps @ n # qs)"
  shows "\<exists>l'. cl_erase n l = Inr (lastp (take 1 qs), l') \<and> cl_rep l' (ps @ qs) \<and>
           objs (cl_heap l') (ps @ qs) = objs (cl_heap l) (ps @ qs)"
proof -
  define m where "m = (if qs = [] then l\<lparr>cl_tail := lastp ps\<rparr> else l)"
  from assms have pre: "cl_pre l ([] @ ps @ n # qs)" "cl_pre m (ps @ n # qs)"
    and t: "cl_tail m = lastp (ps @ qs)" and hm: "cl_heap m = cl_heap l"
    by (auto simp: cl_rep_pre m_def lastp_def)
  from pre(1) obtain e where e: "cl_heap l n = Some e" by (auto simp: cl_pre_def)
  with pre(1) have "linked (nh_next (cl_heap l)) (en_next e) qs"
    by (auto simp: cl_pre_def chain_append)
  then have n: "en_next e = lastp (take 1 qs)" by (cases qs) (auto simp: lastp_def)
  have "cl_erase_loop n (en_next e) NULL (cl_head l) l =
      Some (Inr (en_next e, cl_unlink (lastp ps) n m))"
    using cl_erase_loop_finds [OF pre(1), of "cl_head l" "en_next e"]
    by (simp add: m_def lastp_def [of "[]"])
  then have "cl_erase n l = Inr (lastp (take 1 qs), cl_unlink (lastp ps) n m)"
    using e n by (simp add: cl_erase_def)
  moreover have "cl_rep (cl_unlink (lastp ps) n m) (ps @ qs)"
    using cl_unlink_pre [OF pre(2)] t by (simp add: cl_rep_pre)
  ultimately show ?thesis using cl_unlink_pre(2) [OF pre(2)] hm by simp
qed

text \<open>An iterator that is not in the list (but does point to an entry) is refused.\<close>

lemma cl_erase_loop_absent:
  "linked (nh_next (cl_heap l)) now as \<Longrightarrow> set as \<subseteq> dom (cl_heap l) \<Longrightarrow> n \<notin> set as \<Longrightarrow>
   cl_erase_loop n it prev now l = Some (Inl (Panic ''Tried to erase an iterator that isn't in the list''))"
proof (induction as arbitrary: prev now)
  case Nil
  then show ?case by (subst cl_erase_loop.simps) simp
next
  case (Cons a as)
  then obtain e where "cl_heap l a = Some e" by auto
  with Cons show ?case by (subst cl_erase_loop.simps) auto
qed

lemma cl_clear_rep:
  assumes "cl_rep l as"
  shows "cl_rep (cl_clear l) []" and "cl_heap (cl_clear l) = (\<lambda>x. if x \<in> set as then None else cl_heap l x)"
  using assms by (auto simp: cl_clear_def cl_rep_def nh_delete_chain)

section \<open>The contract of a double-ended queue\<close>

lemma cl_inv_obtain:
  assumes "cl_inv l"
  obtains as where "cl_rep l as" and "cl_list l = objs (cl_heap l) as" and "cl_list l = [] \<longleftrightarrow> as = []"
  using assms cl_repI by (fastforce simp: cl_inv_iff_rep)

lemma cl_pop_ok:
  assumes "cl_inv l" and "cl_list l \<noteq> []"
  shows "\<exists>l'. cl_pop_back l = Inr l' \<and> cl_inv l' \<and> cl_list l' = butlast (cl_list l)"
    and "\<exists>l'. cl_pop_front l = Inr l' \<and> cl_inv l' \<and> cl_list l' = tl (cl_list l)"
    and "cl_back l = Inr (last (cl_list l))" and "cl_front l = Inr (hd (cl_list l))"
proof -
  from assms obtain as where r: "cl_rep l as" "cl_list l = objs (cl_heap l) as" "as \<noteq> []"
    by (elim cl_inv_obtain) auto
  from r(3) obtain bs t where b: "as = bs @ [t]" by (metis append_butlast_last_id)
  from cl_pop_back_rep [of l bs t] r b obtain l' where
    "cl_pop_back l = Inr l'" "cl_rep l' bs" "objs (cl_heap l') bs = objs (cl_heap l) bs" by auto
  with r b show "\<exists>l'. cl_pop_back l = Inr l' \<and> cl_inv l' \<and> cl_list l' = butlast (cl_list l)"
    using cl_repI by fastforce
  from r(3) obtain a cs where c: "as = a # cs" by (cases as) auto
  from cl_pop_front_rep [of l a cs] r c obtain l' where
    "cl_pop_front l = Inr l'" "cl_rep l' cs" "objs (cl_heap l') cs = objs (cl_heap l) cs" by auto
  with r c show "\<exists>l'. cl_pop_front l = Inr l' \<and> cl_inv l' \<and> cl_list l' = tl (cl_list l)"
    using cl_repI by fastforce
  from r b have "cl_tail l = t" "t \<in> dom (cl_heap l)" "t \<noteq> NULL"
    by (auto simp: cl_rep_def dest: chain_nonnull)
  with r b show "cl_back l = Inr (last (cl_list l))" by (auto simp: cl_back_def)
  from r c have "cl_head l = a" "a \<in> dom (cl_heap l)" "a \<noteq> NULL"
    by (auto simp: cl_rep_def dest: chain_nonnull)
  with r c show "cl_front l = Inr (hd (cl_list l))" by (auto simp: cl_front_def)
qed

lemma cl_push_ok:
  assumes "cl_inv l" and "cl_fresh a l"
  shows "\<exists>l'. cl_push_back a x l = Inr l' \<and> cl_inv l' \<and> cl_list l' = cl_list l @ [x]"
    and "cl_inv (cl_push_front a x l)" and "cl_list (cl_push_front a x l) = x # cl_list l"
proof -
  from assms(1) obtain as where r: "cl_rep l as" "cl_list l = objs (cl_heap l) as"
    by (rule cl_inv_obtain)
  from cl_push_back_rep [OF r(1) assms(2), of x] obtain l' where
    "cl_push_back a x l = Inr l'" "cl_rep l' (as @ [a])"
    "objs (cl_heap l') (as @ [a]) = objs (cl_heap l) as @ [x]" by blast
  with r cl_repI [of l' "as @ [a]"]
  show "\<exists>l'. cl_push_back a x l = Inr l' \<and> cl_inv l' \<and> cl_list l' = cl_list l @ [x]" by auto
  from cl_repI [OF cl_push_front_rep(1) [OF r(1) assms(2), of x]] cl_push_front_rep(2) [OF r(1) assms(2), of x] r
  show "cl_inv (cl_push_front a x l)" and "cl_list (cl_push_front a x l) = x # cl_list l" by simp_all
qed

lemma cl_empty_head: "cl_inv l \<Longrightarrow> cl_list l = [] \<longleftrightarrow> cl_head l = NULL"
  by (erule cl_inv_obtain) (auto dest: cl_rep_ne)

lemma cl_pop_empty:
  assumes "cl_inv l" and "cl_list l = []"
  shows "cl_pop_back l = Inl (Panic ''Tried to pop_back an empty list'')"
    and "cl_pop_front l = Inl (Panic ''Tried to pop_front an empty list'')"
  using assms cl_empty_head [of l] by (simp_all add: cl_pop_back_def cl_pop_front_def)

lemma cl_size_ok: "cl_inv l \<Longrightarrow> unat (cl_size l) = length (cl_list l)"
  by (erule cl_inv_obtain, frule cl_rep_length)
    (simp add: cl_size_def cl_rep_def objs_def unat_of_nat)

interpretation linked_deque: deque
  cl_list cl_inv cl_fresh cl_push_back cl_pop_back cl_back "\<lambda>l. unat (cl_size l)"
  "\<lambda>a x l. Inr (cl_push_front a x l)" cl_pop_front cl_front
  by unfold_locales
    (simp_all add: cl_push_ok cl_pop_ok cl_pop_empty cl_size_ok)

section \<open>Properties\<close>

text \<open>\<open>remove(value)\<close> returns and deletes exactly the elements equal to \<open>value\<close>, keeping the
  order of the others, the tail pointer and the count.\<close>

theorem cl_remove_filters:
  assumes "cl_inv l"
  shows "\<exists>l'. cl_remove v l = Inr l' \<and> cl_inv l' \<and> cl_list l' = filter (\<lambda>x. x \<noteq> v) (cl_list l)"
  using assms by (rule cl_remove_rep)

definition list_example :: "nat clist" where
  "list_example = cl_push_front 0x40 1 (cl_push_front 0x30 2 (cl_push_front 0x20 1 (cl_new Map.empty)))"

lemma cl_new_inv: "cl_inv (cl_new h)" "cl_list (cl_new h) = []"
  by (simp_all add: cl_inv_def cl_list_def cl_nodes_def cl_new_def nh_nodes.simps)

lemma list_example_facts:
  "cl_rep list_example [0x40, 0x30, 0x20]" "objs (cl_heap list_example) [0x40, 0x30, 0x20] = [1, 2, 1]"
  by (simp_all add: list_example_def cl_rep_def cl_new_def cl_push_front_def nh_assign_next_empty Let_def)

theorem cl_remove_filters_witness:
  "\<exists>l'. cl_remove 1 list_example = Inr l' \<and> cl_list l' = [2]"
  using cl_remove_filters [of list_example 1] cl_repI [OF list_example_facts(1)] list_example_facts(2)
  by auto

text \<open>\<open>erase(it)\<close> of the element at position \<open>i\<close> returns the iterator of the element after it (or
  \<open>end()\<close>), removes exactly that element and frees its node; an iterator to an entry of another list
  panics and nothing is erased.\<close>

theorem cl_erase_removes_one:
  assumes "cl_inv l" and "cl_heap l n \<noteq> None"
  shows "(i < length (cl_nodes l) \<and> cl_nodes l ! i = n \<longrightarrow>
      (\<exists>l'. cl_erase n l = Inr (if Suc i < length (cl_nodes l) then cl_nodes l ! Suc i else cl_end l, l') \<and>
         cl_inv l' \<and> cl_list l' = take i (cl_list l) @ drop (Suc i) (cl_list l) \<and>
         cl_nodes l' = take i (cl_nodes l) @ drop (Suc i) (cl_nodes l))) \<and>
    (n \<notin> set (cl_nodes l) \<longrightarrow>
      cl_erase n l = Inl (Panic ''Tried to erase an iterator that isn't in the list''))"
proof (intro conjI impI)
  from assms(1) obtain as where r: "cl_rep l as" "cl_list l = objs (cl_heap l) as"
    by (rule cl_inv_obtain)
  from cl_rep_nodes [OF r(1)] have n: "cl_nodes l = as" .
  assume i: "i < length (cl_nodes l) \<and> cl_nodes l ! i = n"
  with n have as: "as = take i as @ n # drop (Suc i) as" using id_take_nth_drop [of i as] by simp
  from cl_erase_rep [of l "take i as" n "drop (Suc i) as"] as r obtain l' where
    e: "cl_erase n l = Inr (lastp (take 1 (drop (Suc i) as)), l')"
      "cl_rep l' (take i as @ drop (Suc i) as)"
      "objs (cl_heap l') (take i as @ drop (Suc i) as) = objs (cl_heap l) (take i as @ drop (Suc i) as)"
    by auto
  have it: "lastp (take 1 (drop (Suc i) as)) = (if Suc i < length as then as ! Suc i else cl_end l)"
    by (cases "drop (Suc i) as") (auto simp: lastp_def cl_end_def dest: nth_via_drop)
  show "\<exists>l'. cl_erase n l = Inr (if Suc i < length (cl_nodes l) then cl_nodes l ! Suc i else cl_end l, l') \<and>
         cl_inv l' \<and> cl_list l' = take i (cl_list l) @ drop (Suc i) (cl_list l) \<and>
         cl_nodes l' = take i (cl_nodes l) @ drop (Suc i) (cl_nodes l)"
    using e it cl_repI [OF e(2)] cl_rep_nodes [OF e(2)] r n
    by (auto simp: objs_def take_map drop_map)
next
  assume "n \<notin> set (cl_nodes l)"
  with assms cl_erase_loop_absent [of l "cl_head l" "cl_nodes l" n]
  show "cl_erase n l = Inl (Panic ''Tried to erase an iterator that isn't in the list'')"
    by (auto simp: cl_erase_def cl_inv_def)
qed

theorem cl_erase_removes_one_witness:
  "\<exists>l'. cl_erase 0x30 list_example = Inr (0x20, l') \<and> cl_list l' = [1, 1]"
  using cl_erase_removes_one [of list_example "0x30" 1] cl_repI [OF list_example_facts(1)]
    cl_rep_nodes [OF list_example_facts(1)] list_example_facts
  by (auto simp: cl_rep_def)

text \<open>C11: On a well-formed list every insertion at a fresh node and every removal acts on the sequence of
  elements as its name says, keeps the list well formed, and \<open>size()\<close> counts the elements.\<close>

theorem cl_operations_refine_lists:
  assumes "cl_inv l"
  shows "(cl_fresh a l \<longrightarrow>
      (\<exists>l'. cl_push_back a x l = Inr l' \<and> cl_inv l' \<and> cl_list l' = cl_list l @ [x]) \<and>
      cl_inv (cl_push_front a x l) \<and> cl_list (cl_push_front a x l) = x # cl_list l) \<and>
    (cl_list l \<noteq> [] \<longrightarrow>
      (\<exists>l'. cl_pop_back l = Inr l' \<and> cl_inv l' \<and> cl_list l' = butlast (cl_list l)) \<and>
      (\<exists>l'. cl_pop_front l = Inr l' \<and> cl_inv l' \<and> cl_list l' = tl (cl_list l))) \<and>
    unat (cl_size l) = length (cl_list l) \<and> cl_empty l = Inr (cl_list l = [])"
proof -
  have "cl_empty l = Inr (cl_list l = [])"
    using assms cl_empty_head [OF assms] by (auto simp: cl_empty_def cl_inv_def)
  with cl_push_ok [OF assms] cl_pop_ok [OF assms] cl_size_ok [OF assms] show ?thesis by simp
qed

theorem cl_operations_refine_lists_witness:
  "\<exists>l'. cl_push_back 0x50 9 list_example = Inr l' \<and> cl_list l' = [1, 2, 1, 9]"
  using cl_operations_refine_lists [of list_example "0x50" 9] cl_repI [OF list_example_facts(1)]
    list_example_facts(2)
  by (auto simp: cl_fresh_def list_example_def cl_new_def cl_push_front_def nh_assign_next_empty Let_def)

end
