(* ===== verification/SmartPtr.thy ===== *)
theory SmartPtr
  imports Prelude
begin

text \<open>
  The owning pointers of \<open>include/structures/unique_ptr.hpp\<close>, \<open>unique_ptr.tpp\<close>,
  \<open>shared_ptr.hpp\<close> and \<open>shared_ptr.tpp\<close>. A pointer object is a variable of the program; the
  variables in scope are named by natural numbers, so that a state is the live objects, the live
  control blocks and what every variable in scope holds. \<open>delete\<close> of something that is not live
  and a dereference of a dead control block are \<open>Fault\<close>. The addresses that \<open>new\<close> returns are
  arguments.
\<close>

section \<open>\<open>unique_ptr\<close>\<close>

record 'a up_state =
  up_objs :: "u32 \<Rightarrow> 'a option"
  up_refs :: "nat \<Rightarrow> u32 option"

definition obj_delete :: "u32 \<Rightarrow> (u32 \<Rightarrow> 'a option) \<Rightarrow> (u32 \<Rightarrow> 'a option) result" where
  "obj_delete p objs = (if p = NULL then Inr objs
     else case objs p of None \<Rightarrow> Inl Fault | Some _ \<Rightarrow> Inr (objs(p := None)))"

definition up_get :: "nat \<Rightarrow> 'a up_state \<Rightarrow> u32 result" where
  "up_get h s = (case up_refs s h of None \<Rightarrow> Inl Fault | Some p \<Rightarrow> Inr p)"

definition up_new :: "nat \<Rightarrow> 'a up_state \<Rightarrow> 'a up_state" where
  "up_new h s = s\<lparr>up_refs := (up_refs s)(h \<mapsto> NULL)\<rparr>"

definition up_from_ptr :: "nat \<Rightarrow> u32 \<Rightarrow> 'a up_state \<Rightarrow> 'a up_state" where
  "up_from_ptr h p s = s\<lparr>up_refs := (up_refs s)(h \<mapsto> p)\<rparr>"

definition up_move_construct :: "nat \<Rightarrow> nat \<Rightarrow> 'a up_state \<Rightarrow> 'a up_state result" where
  "up_move_construct h other s = bindE (up_get other s) (\<lambda>p.
     Inr (s\<lparr>up_refs := (up_refs s)(h \<mapsto> p, other \<mapsto> NULL)\<rparr>))"

definition up_destroy :: "nat \<Rightarrow> 'a up_state \<Rightarrow> 'a up_state result" where
  "up_destroy h s = bindE (up_get h s) (\<lambda>p.
     bindE (if p \<noteq> NULL then obj_delete p (up_objs s) else Inr (up_objs s)) (\<lambda>o'.
     Inr (s\<lparr>up_objs := o', up_refs := (up_refs s)(h := None)\<rparr>)))"

definition up_release :: "nat \<Rightarrow> 'a up_state \<Rightarrow> (u32 \<times> 'a up_state) result" where
  "up_release h s = bindE (up_get h s) (\<lambda>old.
     Inr (old, s\<lparr>up_refs := (up_refs s)(h \<mapsto> NULL)\<rparr>))"

text \<open>Move assignment reads the old pointer first, takes over what \<open>r\<close> releases, then deletes.\<close>

definition up_assign :: "nat \<Rightarrow> nat \<Rightarrow> 'a up_state \<Rightarrow> 'a up_state result" where
  "up_assign h r s = bindE (up_get h s) (\<lambda>oldRef.
     bindE (up_release r s) (\<lambda>(p, s1).
     let s2 = s1\<lparr>up_refs := (up_refs s1)(h \<mapsto> p)\<rparr> in
     bindE (if oldRef \<noteq> NULL then obj_delete oldRef (up_objs s2) else Inr (up_objs s2)) (\<lambda>o'.
     Inr (s2\<lparr>up_objs := o'\<rparr>))))"

definition up_assign_null :: "nat \<Rightarrow> 'a up_state \<Rightarrow> 'a up_state result" where
  "up_assign_null h s = bindE (up_get h s) (\<lambda>p.
     bindE (if p \<noteq> NULL then obj_delete p (up_objs s) else Inr (up_objs s)) (\<lambda>o'.
     Inr (s\<lparr>up_objs := o', up_refs := (up_refs s)(h \<mapsto> NULL)\<rparr>)))"

definition up_reset :: "nat \<Rightarrow> u32 \<Rightarrow> 'a up_state \<Rightarrow> 'a up_state result" where
  "up_reset h ptr s = bindE (up_get h s) (\<lambda>p.
     bindE (if p \<noteq> NULL then obj_delete p (up_objs s) else Inr (up_objs s)) (\<lambda>o'.
     Inr (s\<lparr>up_objs := o', up_refs := (up_refs s)(h \<mapsto> ptr)\<rparr>)))"

definition up_swap :: "nat \<Rightarrow> nat \<Rightarrow> 'a up_state \<Rightarrow> 'a up_state result" where
  "up_swap h other s = bindE (up_get other s) (\<lambda>otherRef. bindE (up_get h s) (\<lambda>p.
     Inr (s\<lparr>up_refs := (up_refs s)(other \<mapsto> p, h \<mapsto> otherRef)\<rparr>)))"

definition up_eq :: "nat \<Rightarrow> nat \<Rightarrow> 'a up_state \<Rightarrow> bool result" where
  "up_eq h r s = bindE (up_get h s) (\<lambda>p. bindE (up_get r s) (\<lambda>q. Inr (q = p)))"

definition up_bool :: "nat \<Rightarrow> 'a up_state \<Rightarrow> bool result" where
  "up_bool h s = bindE (up_get h s) (\<lambda>p. Inr (p \<noteq> NULL))"

definition up_deref :: "nat \<Rightarrow> 'a up_state \<Rightarrow> 'a result" where
  "up_deref h s = bindE (up_get h s) (\<lambda>p.
     if p = NULL then Inl (Panic ''Tried to dereference a null unique_ptr'')
     else case up_objs s p of None \<Rightarrow> Inl Fault | Some x \<Rightarrow> Inr x)"

definition make_unique :: "nat \<Rightarrow> u32 \<Rightarrow> 'a \<Rightarrow> 'a up_state \<Rightarrow> 'a up_state" where
  "make_unique h a x s = up_from_ptr h a (s\<lparr>up_objs := (up_objs s)(a \<mapsto> x)\<rparr>)"

text \<open>Every non-null pointer held is live and held by one variable only.\<close>

definition up_inv :: "'a up_state \<Rightarrow> bool" where
  "up_inv s \<longleftrightarrow> (\<forall>h p. up_refs s h = Some p \<longrightarrow> p \<noteq> NULL \<longrightarrow>
     up_objs s p \<noteq> None \<and> (\<forall>h'. up_refs s h' = Some p \<longrightarrow> h' = h))"

section \<open>\<open>shared_ptr\<close>\<close>

text \<open>A shared pointer holds \<open>(ref, data)\<close>; a control block \<open>Data\<close> is its use count.\<close>

type_synonym sp_handle = "u32 \<times> u32"

record 'a sp_state =
  sp_objs :: "u32 \<Rightarrow> 'a option"
  sp_data :: "u32 \<Rightarrow> u32 option"
  sp_handles :: "nat \<Rightarrow> sp_handle option"

definition sp_get :: "nat \<Rightarrow> 'a sp_state \<Rightarrow> sp_handle result" where
  "sp_get h s = (case sp_handles s h of None \<Rightarrow> Inl Fault | Some x \<Rightarrow> Inr x)"

definition sp_set :: "nat \<Rightarrow> sp_handle \<Rightarrow> 'a sp_state \<Rightarrow> 'a sp_state" where
  "sp_set h x s = s\<lparr>sp_handles := (sp_handles s)(h \<mapsto> x)\<rparr>"

text \<open>\<open>data->uses ++\<close>.\<close>

definition sp_inc :: "u32 \<Rightarrow> 'a sp_state \<Rightarrow> 'a sp_state result" where
  "sp_inc d s = (case sp_data s d of None \<Rightarrow> Inl Fault
     | Some u \<Rightarrow> Inr (s\<lparr>sp_data := (sp_data s)(d \<mapsto> u + 1)\<rparr>))"

definition decrement_usage :: "sp_handle \<Rightarrow> 'a sp_state \<Rightarrow> 'a sp_state result" where
  "decrement_usage x s = (let (ref, d) = x in
     if ref = NULL then Inr s
     else case sp_data s d of None \<Rightarrow> Inl Fault
     | Some u \<Rightarrow> let u' = u - 1 in
         if u' = 0
         then bindE (obj_delete ref (sp_objs s)) (\<lambda>o'.
              Inr (s\<lparr>sp_objs := o', sp_data := (sp_data s)(d := None)\<rparr>))
         else Inr (s\<lparr>sp_data := (sp_data s)(d \<mapsto> u')\<rparr>))"

definition sp_new :: "nat \<Rightarrow> 'a sp_state \<Rightarrow> 'a sp_state" where
  "sp_new h s = sp_set h (NULL, NULL) s"

text \<open>\<open>shared_ptr(T *ref)\<close>: with a null \<open>ref\<close> the field \<open>data\<close> is left as it was in memory
  (\<open>junk\<close>).\<close>

definition sp_from_ptr :: "u32 \<Rightarrow> nat \<Rightarrow> u32 \<Rightarrow> u32 \<Rightarrow> 'a sp_state \<Rightarrow> 'a sp_state" where
  "sp_from_ptr junk h a ref s =
     (if ref \<noteq> NULL then sp_set h (ref, a) (s\<lparr>sp_data := (sp_data s)(a \<mapsto> 1)\<rparr>)
      else sp_set h (ref, junk) s)"

definition sp_copy_construct :: "nat \<Rightarrow> nat \<Rightarrow> 'a sp_state \<Rightarrow> 'a sp_state result" where
  "sp_copy_construct h other s = bindE (sp_get other s) (\<lambda>(ref, d).
     bindE (if ref \<noteq> NULL then sp_inc d s else Inr s) (\<lambda>s1. Inr (sp_set h (ref, d) s1)))"

definition sp_move_construct :: "nat \<Rightarrow> nat \<Rightarrow> 'a sp_state \<Rightarrow> 'a sp_state result" where
  "sp_move_construct h other s = bindE (sp_get other s) (\<lambda>x.
     Inr (sp_set other (NULL, NULL) (sp_set h x s)))"

definition sp_destroy :: "nat \<Rightarrow> 'a sp_state \<Rightarrow> 'a sp_state result" where
  "sp_destroy h s = bindE (sp_get h s) (\<lambda>x. bindE (decrement_usage x s) (\<lambda>s1.
     Inr (s1\<lparr>sp_handles := (sp_handles s1)(h := None)\<rparr>)))"

definition sp_assign :: "nat \<Rightarrow> nat \<Rightarrow> 'a sp_state \<Rightarrow> 'a sp_state result" where
  "sp_assign h r s = bindE (sp_get r s) (\<lambda>(ref, d).
     bindE (if ref \<noteq> NULL then sp_inc d s else Inr s) (\<lambda>s1.
     bindE (sp_get h s1) (\<lambda>x. bindE (decrement_usage x s1) (\<lambda>s2. Inr (sp_set h (ref, d) s2)))))"

definition sp_move_assign :: "nat \<Rightarrow> nat \<Rightarrow> 'a sp_state \<Rightarrow> 'a sp_state result" where
  "sp_move_assign h r s = bindE (sp_get h s) (\<lambda>x. bindE (decrement_usage x s) (\<lambda>s1.
     bindE (sp_get r s1) (\<lambda>y. Inr (sp_set r (NULL, NULL) (sp_set h y s1)))))"

definition sp_assign_null :: "nat \<Rightarrow> 'a sp_state \<Rightarrow> 'a sp_state result" where
  "sp_assign_null h s = bindE (sp_get h s) (\<lambda>x. bindE (decrement_usage x s) (\<lambda>s1.
     Inr (sp_set h (NULL, NULL) s1)))"

definition sp_reset :: "nat \<Rightarrow> u32 \<Rightarrow> u32 \<Rightarrow> 'a sp_state \<Rightarrow> 'a sp_state result" where
  "sp_reset h a ptr s = bindE (sp_get h s) (\<lambda>x. bindE (decrement_usage x s) (\<lambda>s1.
     Inr (sp_set h (ptr, a) (s1\<lparr>sp_data := (sp_data s1)(a \<mapsto> 1)\<rparr>))))"

definition sp_swap :: "nat \<Rightarrow> nat \<Rightarrow> 'a sp_state \<Rightarrow> 'a sp_state result" where
  "sp_swap h other s = bindE (sp_get other s) (\<lambda>y. bindE (sp_get h s) (\<lambda>x.
     Inr (sp_set h y (sp_set other x s))))"

definition use_count :: "nat \<Rightarrow> 'a sp_state \<Rightarrow> u32 result" where
  "use_count h s = bindE (sp_get h s) (\<lambda>(ref, d).
     case sp_data s d of None \<Rightarrow> Inl Fault | Some u \<Rightarrow> Inr u)"

definition sp_eq :: "nat \<Rightarrow> nat \<Rightarrow> 'a sp_state \<Rightarrow> bool result" where
  "sp_eq h r s = bindE (sp_get h s) (\<lambda>x. bindE (sp_get r s) (\<lambda>y. Inr (fst y = fst x)))"

definition sp_bool :: "nat \<Rightarrow> 'a sp_state \<Rightarrow> bool result" where
  "sp_bool h s = bindE (sp_get h s) (\<lambda>x. Inr (fst x \<noteq> NULL))"

definition sp_deref :: "nat \<Rightarrow> 'a sp_state \<Rightarrow> 'a result" where
  "sp_deref h s = bindE (sp_get h s) (\<lambda>(ref, d).
     if ref = NULL then Inl (Panic ''Tried to dereference a null shared_ptr'')
     else case sp_objs s ref of None \<Rightarrow> Inl Fault | Some x \<Rightarrow> Inr x)"

definition make_shared :: "nat \<Rightarrow> u32 \<Rightarrow> u32 \<Rightarrow> 'a \<Rightarrow> 'a sp_state \<Rightarrow> 'a sp_state" where
  "make_shared h a p x s = sp_from_ptr NULL h a p (s\<lparr>sp_objs := (sp_objs s)(p \<mapsto> x)\<rparr>)"

text \<open>The variables sharing a control block, and the use count that their number stands for.\<close>

definition sp_users :: "(nat \<Rightarrow> sp_handle option) \<Rightarrow> u32 \<Rightarrow> nat set" where
  "sp_users H d = {h. \<exists>ref. H h = Some (ref, d) \<and> ref \<noteq> NULL}"

definition sp_enc :: "nat \<Rightarrow> u32 option" where
  "sp_enc n = (if n = 0 then None else Some (of_nat n))"

text \<open>Control blocks hold exactly the number of variables sharing them, none exists without a user,
  and variables share a control block exactly when they share the object, which is live.\<close>

definition sp_paired :: "(nat \<Rightarrow> sp_handle option) \<Rightarrow> bool" where
  "sp_paired H \<longleftrightarrow> (\<forall>h h' ref ref' d d'. H h = Some (ref, d) \<longrightarrow> H h' = Some (ref', d') \<longrightarrow>
     ref \<noteq> NULL \<longrightarrow> ref' \<noteq> NULL \<longrightarrow> (ref = ref' \<longleftrightarrow> d = d'))"

definition sp_inv :: "'a sp_state \<Rightarrow> bool" where
  "sp_inv s \<longleftrightarrow> finite (dom (sp_handles s)) \<and> card (dom (sp_handles s)) < 2 ^ 32 - 1 \<and>
     (\<forall>d. sp_data s d = sp_enc (card (sp_users (sp_handles s) d))) \<and>
     (\<forall>h ref d. sp_handles s h = Some (ref, d) \<longrightarrow> ref \<noteq> NULL \<longrightarrow> sp_objs s ref \<noteq> None) \<and>
     sp_paired (sp_handles s)"

section \<open>Counting the users of a control block\<close>

definition sp_uses :: "sp_handle option \<Rightarrow> u32 \<Rightarrow> nat" where
  "sp_uses y d = (case y of None \<Rightarrow> 0 | Some (ref, d') \<Rightarrow> of_bool (ref \<noteq> NULL \<and> d' = d))"

lemma sp_users_dom: "sp_users H d \<subseteq> dom H"
  by (auto simp: sp_users_def)

lemma sp_users_finite: "finite (dom H) \<Longrightarrow> finite (sp_users H d)"
  using finite_subset [OF sp_users_dom] .

lemma sp_users_upd:
  "sp_users (H(h := y)) d = (if sp_uses y d = 1 then insert h (sp_users H d) else sp_users H d - {h})"
  by (auto simp: sp_users_def sp_uses_def split: option.splits if_splits)

lemma sp_users_iff: "h \<in> sp_users H d \<longleftrightarrow> sp_uses (H h) d = 1"
  by (auto simp: sp_users_def sp_uses_def split: option.splits)

lemma sp_uses_01: "sp_uses y d = 0 \<or> sp_uses y d = 1"
  by (auto simp: sp_uses_def split: option.splits)

lemma sp_count_upd:
  assumes "finite (dom H)"
  shows "card (sp_users (H(h := y)) d) + sp_uses (H h) d = card (sp_users H d) + sp_uses y d"
proof -
  have f: "finite (sp_users H d)" using assms by (rule sp_users_finite)
  have "card (sp_users H d) = card (sp_users H d - {h}) + sp_uses (H h) d"
    using f card_Suc_Diff1 [of "sp_users H d" h] sp_uses_01 [of "H h" d]
    by (cases "h \<in> sp_users H d") (auto simp: sp_users_iff)
  moreover have "card (sp_users (H(h := y)) d) = card (sp_users H d - {h}) + sp_uses y d"
    using f sp_uses_01 [of y d] by (auto simp: sp_users_upd card_insert_if card_Diff_singleton)
      (metis Suc_pred card_gt_0_iff empty_iff)
  ultimately show ?thesis by simp
qed

lemma sp_enc_0 [simp]: "sp_enc 0 = None"
  by (simp add: sp_enc_def)

lemma sp_enc_pos: "0 < n \<Longrightarrow> sp_enc n = Some (of_nat n)"
  by (simp add: sp_enc_def)

lemma sp_count_bound:
  assumes "sp_inv s"
  shows "card (sp_users (sp_handles s) d) < 2 ^ 32 - 1"
  using assms card_mono [OF _ sp_users_dom, of "sp_handles s" d] by (fastforce simp: sp_inv_def)

lemma sp_inc_enc:
  assumes "sp_data s = (\<lambda>d. sp_enc (n d))" and "0 < n d"
  shows "sp_inc d s = Inr (s\<lparr>sp_data := (\<lambda>x. sp_enc ((n(d := Suc (n d))) x))\<rparr>)"
  using assms by (auto simp: sp_inc_def sp_enc_pos fun_eq_iff add.commute)

lemma decrement_usage_enc:
  assumes "sp_data s = (\<lambda>d. sp_enc (n d))" and "0 < n d" and "n d < 2 ^ 32"
    and "ref \<noteq> NULL" and "sp_objs s ref \<noteq> None"
  shows "decrement_usage (ref, d) s = Inr (s\<lparr>
      sp_objs := (if n d = 1 then (sp_objs s)(ref := None) else sp_objs s),
      sp_data := (\<lambda>x. sp_enc ((n(d := n d - 1)) x))\<rparr>)"
proof -
  have u: "sp_data s d = Some (of_nat (n d))" using assms by (simp add: sp_enc_pos)
  have z: "(of_nat (n d) :: u32) - 1 = of_nat (n d - 1)" using assms(2) by (cases "n d") auto
  have "(of_nat (n d - 1) :: u32) = 0 \<longleftrightarrow> n d - 1 = 0"
    using assms(3) by (intro of_nat_word_0_iff) simp
  with u z assms show ?thesis
    by (auto simp: decrement_usage_def obj_delete_def sp_enc_def fun_eq_iff Let_def)
qed

lemma sp_inv_handle:
  assumes "sp_inv s" and "sp_handles s h = Some (ref, d)" and "ref \<noteq> NULL"
  shows "0 < card (sp_users (sp_handles s) d)" and "sp_objs s ref \<noteq> None"
    and "sp_data s = (\<lambda>d. sp_enc (card (sp_users (sp_handles s) d)))"
proof -
  from assms have "h \<in> sp_users (sp_handles s) d" "finite (sp_users (sp_handles s) d)"
    by (auto simp: sp_users_def sp_inv_def intro!: sp_users_finite [unfolded sp_users_def])
  then show "0 < card (sp_users (sp_handles s) d)" by (auto simp: card_gt_0_iff)
  show "sp_objs s ref \<noteq> None" using assms unfolding sp_inv_def by blast
  show "sp_data s = (\<lambda>d. sp_enc (card (sp_users (sp_handles s) d)))"
    using assms by (auto simp: sp_inv_def)
qed

lemma sp_pair:
  assumes "sp_inv s" and "sp_handles s g = Some (a, b)" and "sp_handles s g' = Some (a', b')"
    and "a \<noteq> NULL" and "a' \<noteq> NULL"
  shows "a = a' \<longleftrightarrow> b = b'"
  using assms unfolding sp_inv_def sp_paired_def by blast

text \<open>Replacing what one variable holds: the new content is nothing, null, or shared with another
  variable; the object of the old content goes with its last user.\<close>

definition sp_gone :: "sp_handle option \<Rightarrow> (nat \<Rightarrow> sp_handle option) \<Rightarrow> (u32 \<Rightarrow> 'a option) \<Rightarrow> u32 \<Rightarrow> 'a option" where
  "sp_gone x H' objs = (case x of Some (ref, d) \<Rightarrow>
     if ref \<noteq> NULL \<and> sp_users H' d = {} then objs(ref := None) else objs | None \<Rightarrow> objs)"

lemma sp_replace_inv:
  assumes inv: "sp_inv s"
    and y: "case y of None \<Rightarrow> True | Some (ref, d) \<Rightarrow> ref = NULL \<or> (\<exists>r. sp_handles s r = Some (ref, d))"
    and H': "sp_handles s' = (sp_handles s)(h := y)"
    and data: "sp_data s' = (\<lambda>d. sp_enc (card (sp_users (sp_handles s') d)))"
    and objs: "sp_objs s' = sp_gone (sp_handles s h) (sp_handles s') (sp_objs s)"
    and size: "card (dom (sp_handles s')) < 2 ^ 32 - 1"
  shows "sp_inv s'"
proof -
  have src: "\<exists>r. sp_handles s r = Some (ref, d)"
    if "sp_handles s' g = Some (ref, d)" and "ref \<noteq> NULL" for g ref d
    using that y H' by (auto split: if_splits)
  have pair: "ref = ref' \<longleftrightarrow> d = d'"
    if "sp_handles s g = Some (ref, d)" "sp_handles s g' = Some (ref', d')" "ref \<noteq> NULL" "ref' \<noteq> NULL"
    for g g' ref ref' d d'
    using sp_pair [OF inv that] .
  have live: "sp_objs s' ref \<noteq> None" if g: "sp_handles s' g = Some (ref, d)" "ref \<noteq> NULL" for g ref d
  proof -
    from src [OF g] obtain r where r: "sp_handles s r = Some (ref, d)" by blast
    then have l: "sp_objs s ref \<noteq> None" using inv g(2) unfolding sp_inv_def by blast
    have u: "g \<in> sp_users (sp_handles s') d" using g by (auto simp: sp_users_def)
    then show ?thesis using l pair [OF _ r _ g(2)] unfolding objs sp_gone_def
      by (auto split: option.splits)
  qed
  have "finite (dom (sp_handles s'))" using inv H' by (simp add: sp_inv_def)
  moreover have "sp_paired (sp_handles s')"
    unfolding sp_paired_def using src pair by metis
  ultimately show ?thesis using live data size unfolding sp_inv_def by metis
qed

text \<open>\<open>decrement_usage\<close> for a variable about to hold \<open>y\<close>, whose use is already counted.\<close>

lemma decrement_usage_replaces:
  assumes data: "sp_data s = (\<lambda>d. sp_enc (n d))"
    and n: "\<And>d. n d = card (sp_users H d) + sp_uses y d" "\<And>d. n d < 2 ^ 32"
    and h: "H h = Some x" and fin: "finite (dom H)"
    and live: "fst x \<noteq> NULL \<Longrightarrow> sp_objs s (fst x) \<noteq> None"
  shows "decrement_usage x s = Inr (s\<lparr>sp_objs := sp_gone (Some x) (H(h := y)) (sp_objs s),
           sp_data := (\<lambda>d. sp_enc (card (sp_users (H(h := y)) d)))\<rparr>)"
proof -
  obtain ref dx where x: "x = (ref, dx)" by (cases x)
  have cnt: "card (sp_users (H(h := y)) d) + sp_uses (Some x) d = n d" for d
    using sp_count_upd [OF fin, of h y d] n(1) [of d] h by simp
  show ?thesis
  proof (cases "ref = NULL")
    case True
    with cnt have "card (sp_users (H(h := y)) d) = n d" for d by (simp add: sp_uses_def x)
    with True data x show ?thesis
      by (cases s) (simp add: decrement_usage_def sp_gone_def)
  next
    case False
    with cnt [of dx] have pos: "n dx = Suc (card (sp_users (H(h := y)) dx))"
      by (simp add: sp_uses_def x)
    have "n(dx := n dx - 1) = (\<lambda>d. card (sp_users (H(h := y)) d))"
    proof
      fix d
      show "(n(dx := n dx - 1)) d = card (sp_users (H(h := y)) d)"
        using cnt [of d] pos x by (cases "d = dx") (auto simp: sp_uses_def)
    qed
    moreover have "n dx = 1 \<longleftrightarrow> sp_users (H(h := y)) dx = {}"
      using pos sp_users_finite [of "H(h := y)" dx] fin by simp
    ultimately show ?thesis
      using decrement_usage_enc [OF data, of dx ref] pos n(2) [of dx] False live x
      by (simp add: sp_gone_def)
  qed
qed

lemma sp_size_upd:
  assumes "sp_inv s" and "sp_handles s h \<noteq> None"
  shows "card (dom ((sp_handles s)(h := y))) < 2 ^ 32 - 1"
proof -
  have "dom ((sp_handles s)(h := y)) \<subseteq> dom (sp_handles s)" using assms(2) by auto
  with assms(1) show ?thesis
    using card_mono [of "dom (sp_handles s)" "dom ((sp_handles s)(h := y))"] by (simp add: sp_inv_def)
qed

lemma sp_inv_parts:
  assumes "sp_inv s"
  shows "finite (dom (sp_handles s))"
    and "sp_data s = (\<lambda>d. sp_enc (card (sp_users (sp_handles s) d)))"
    and "card (sp_users (sp_handles s) d) < 2 ^ 32"
    and "sp_handles s h = Some x \<Longrightarrow> fst x \<noteq> NULL \<Longrightarrow> sp_objs s (fst x) \<noteq> None"
proof -
  show "finite (dom (sp_handles s))"
    and "sp_data s = (\<lambda>d. sp_enc (card (sp_users (sp_handles s) d)))"
    using assms by (auto simp: sp_inv_def)
  show "card (sp_users (sp_handles s) d) < 2 ^ 32"
    using sp_count_bound [OF assms, of d] by linarith
  show "sp_handles s h = Some x \<Longrightarrow> fst x \<noteq> NULL \<Longrightarrow> sp_objs s (fst x) \<noteq> None"
    using sp_inv_handle(2) [OF assms] by (cases x) simp
qed

text \<open>Giving up what a variable holds, and having it share with another variable.\<close>

lemma sp_drop:
  assumes inv: "sp_inv s" and h: "sp_handles s h = Some x" and y: "y = None \<or> y = Some (NULL, d0)"
  shows "\<exists>s1. decrement_usage x s = Inr s1 \<and> sp_handles s1 = sp_handles s \<and>
     sp_objs s1 = sp_gone (Some x) ((sp_handles s)(h := y)) (sp_objs s) \<and>
     sp_inv (s1\<lparr>sp_handles := (sp_handles s)(h := y)\<rparr>)"
proof -
  let ?H = "sp_handles s"
  let ?s1 = "s\<lparr>sp_objs := sp_gone (Some x) (?H(h := y)) (sp_objs s),
           sp_data := (\<lambda>d. sp_enc (card (sp_users (?H(h := y)) d)))\<rparr>"
  have "decrement_usage x s = Inr ?s1"
    by (rule decrement_usage_replaces [where n = "\<lambda>d. card (sp_users ?H d)"])
      (use h y sp_inv_parts [OF inv] in \<open>auto simp: sp_uses_def\<close>)
  moreover have "sp_inv (?s1\<lparr>sp_handles := ?H(h := y)\<rparr>)"
    by (rule sp_replace_inv [OF inv, where y = y and h = h])
      (use y h sp_size_upd [OF inv, of h y] in auto)
  ultimately show ?thesis by auto
qed

lemma sp_share:
  assumes inv: "sp_inv s" and h: "sp_handles s h = Some x" and r: "sp_handles s r = Some (ref, d)"
  shows "\<exists>s2. sp_assign h r s = Inr s2 \<and> sp_inv s2 \<and>
     sp_handles s2 = (sp_handles s)(h \<mapsto> (ref, d)) \<and>
     sp_objs s2 = sp_gone (Some x) (sp_handles s2) (sp_objs s)"
proof -
  let ?H = "sp_handles s" and ?y = "Some (ref, d)"
  let ?n = "\<lambda>e. card (sp_users ?H e) + sp_uses ?y e"
  let ?s2 = "s\<lparr>sp_objs := sp_gone (Some x) (?H(h := ?y)) (sp_objs s),
           sp_data := (\<lambda>d. sp_enc (card (sp_users (?H(h := ?y)) d)))\<rparr>"
  have data: "sp_data s = (\<lambda>d. sp_enc (card (sp_users ?H d)))" using inv by (auto simp: sp_inv_def)
  have bound: "?n e < 2 ^ 32" for e
    using sp_count_bound [OF inv, of e] sp_uses_01 [of ?y e] by auto
  have inc: "(if ref \<noteq> NULL then sp_inc d s else Inr s) = Inr (s\<lparr>sp_data := \<lambda>e. sp_enc (?n e)\<rparr>)"
  proof (cases "ref = NULL")
    case True
    then show ?thesis using data by (cases s) (simp add: sp_uses_def)
  next
    case False
    then have "(\<lambda>e. card (sp_users ?H e))(d := Suc (card (sp_users ?H d))) = ?n"
      by (auto simp: sp_uses_def fun_eq_iff)
    with False show ?thesis
      using sp_inc_enc [OF data, of d] sp_inv_handle(1) [OF inv r] by (simp only: if_True not_False_eq_True)
  qed
  have "decrement_usage x (s\<lparr>sp_data := \<lambda>e. sp_enc (?n e)\<rparr>) = Inr ?s2"
    by (subst decrement_usage_replaces [where n = ?n and H = ?H and y = ?y and h = h])
      (use h bound sp_inv_parts [OF inv] in simp_all)
  with inc h r have "sp_assign h r s = Inr (sp_set h (ref, d) ?s2)"
    by (simp add: sp_assign_def sp_get_def)
  moreover have "sp_inv (sp_set h (ref, d) ?s2)"
    by (rule sp_replace_inv [OF inv, where y = ?y and h = h])
      (use h r sp_size_upd [OF inv, of h ?y] in \<open>auto simp: sp_set_def\<close>)
  ultimately show ?thesis by (auto simp: sp_set_def)
qed

lemma sp_exchange:
  assumes inv: "sp_inv s" and h: "sp_handles s h = Some x" and r: "sp_handles s r = Some y" and "h \<noteq> r"
  shows "sp_inv (s\<lparr>sp_handles := (sp_handles s)(h \<mapsto> y, r \<mapsto> x)\<rparr>)"
proof -
  let ?H = "sp_handles s" and ?K = "(sp_handles s)(h \<mapsto> y, r \<mapsto> x)"
  have fin: "finite (dom ?H)" using inv by (simp add: sp_inv_def)
  have cnt: "card (sp_users ?K d) = card (sp_users ?H d)" for d
    using sp_count_upd [of "?H(h \<mapsto> y)" r "Some x" d] sp_count_upd [of ?H h "Some y" d] assms fin by simp
  have dom: "dom ?K = dom ?H" using h r by auto
  have src: "\<exists>g'. ?H g' = Some (ref, d)" if "?K g = Some (ref, d)" for g ref d
    using that h r by (auto split: if_splits)
  have "\<forall>g ref d. ?K g = Some (ref, d) \<longrightarrow> ref \<noteq> NULL \<longrightarrow> sp_objs s ref \<noteq> None"
    using src inv unfolding sp_inv_def by metis
  moreover have "sp_paired ?K"
    unfolding sp_paired_def using src sp_pair [OF inv] by metis
  ultimately show ?thesis using inv dom cnt by (simp add: sp_inv_def)
qed

lemma sp_swap_inv:
  assumes "sp_inv s" and "sp_handles s h = Some x" and "sp_handles s r = Some y" and "h \<noteq> r"
  shows "\<exists>s'. sp_swap h r s = Inr s' \<and> sp_inv s' \<and> sp_handles s' = (sp_handles s)(h \<mapsto> y, r \<mapsto> x)"
  using sp_exchange [OF assms] assms
  by (simp add: sp_swap_def sp_get_def sp_set_def fun_upd_twist)

lemma sp_move_assign_inv:
  assumes inv: "sp_inv s" and h: "sp_handles s h = Some x" and r: "sp_handles s r = Some y" and ne: "h \<noteq> r"
  shows "\<exists>s'. sp_move_assign h r s = Inr s' \<and> sp_inv s' \<and>
     sp_handles s' = (sp_handles s)(h \<mapsto> y, r \<mapsto> (NULL, NULL)) \<and>
     sp_objs s' = sp_gone (Some x) (sp_handles s') (sp_objs s)"
proof -
  let ?H = "sp_handles s"
  from sp_drop [OF inv h, of "Some (NULL, NULL)"] obtain s1 where
    s1: "decrement_usage x s = Inr s1" "sp_handles s1 = ?H"
      "sp_objs s1 = sp_gone (Some x) (?H(h \<mapsto> (NULL, NULL))) (sp_objs s)"
    and i1: "sp_inv (s1\<lparr>sp_handles := ?H(h \<mapsto> (NULL, NULL))\<rparr>)" by auto
  from sp_exchange [OF i1, of h "(NULL, NULL)" r y] r ne
  have i2: "sp_inv (s1\<lparr>sp_handles := ?H(h \<mapsto> y, r \<mapsto> (NULL, NULL))\<rparr>)" by simp
  have "sp_users (?H(h \<mapsto> (NULL, NULL))) d = {} \<longleftrightarrow> sp_users (?H(h \<mapsto> y, r \<mapsto> (NULL, NULL))) d = {}" for d
    using sp_count_upd [of "?H(h \<mapsto> y)" r "Some (NULL, NULL)" d] sp_count_upd [of ?H h "Some y" d]
      sp_count_upd [of ?H h "Some (NULL, NULL)" d] sp_users_finite [of "?H(h \<mapsto> (NULL, NULL))" d]
      sp_users_finite [of "?H(h \<mapsto> y, r \<mapsto> (NULL, NULL))" d] h r ne sp_inv_parts(1) [OF inv]
    by (auto simp: sp_uses_def simp flip: card_0_eq)
  then have "sp_objs s1 = sp_gone (Some x) (?H(h \<mapsto> y, r \<mapsto> (NULL, NULL))) (sp_objs s)"
    using s1(3) by (cases x) (auto simp: sp_gone_def)
  with s1 i2 h r ne show ?thesis
    by (simp add: sp_move_assign_def sp_get_def sp_set_def)
qed

lemma sp_users_ref:
  assumes "sp_inv s" and "sp_handles s g = Some (ref, d)" and "ref \<noteq> NULL"
  shows "sp_users (sp_handles s) d = {g. \<exists>e. sp_handles s g = Some (ref, e)}"
  using sp_pair [OF assms(1,2) _ assms(3)] assms by (fastforce simp: sp_users_def)

text \<open>Said of objects: an object goes exactly when no variable refers to it any more.\<close>

lemma sp_gone_ref:
  assumes inv: "sp_inv s" and h: "sp_handles s h = Some (old, d)"
    and sub: "\<And>g ref e. H' g = Some (ref, e) \<Longrightarrow> ref \<noteq> NULL \<Longrightarrow> \<exists>g'. sp_handles s g' = Some (ref, e)"
  shows "sp_gone (Some (old, d)) H' objs =
    (if old \<noteq> NULL \<and> (\<forall>g e. H' g \<noteq> Some (old, e)) then objs(old := None) else objs)"
proof -
  have "sp_users H' d = {} \<longleftrightarrow> (\<forall>g e. H' g \<noteq> Some (old, e))" if o: "old \<noteq> NULL"
    unfolding sp_users_def using sub sp_pair [OF inv h _ o] o by blast
  then show ?thesis by (auto simp: sp_gone_def)
qed

lemma sp_from_ptr_inv:
  assumes inv: "sp_inv s" and h: "sp_handles s h = None" and size: "card (dom (sp_handles s)) + 1 < 2 ^ 32 - 1"
    and p: "sp_objs s p \<noteq> None" "p \<noteq> NULL" "\<And>g d. sp_handles s g \<noteq> Some (p, d)"
    and a: "sp_data s a = None"
  shows "sp_inv (sp_from_ptr junk h a p s)"
proof -
  let ?H = "sp_handles s" and ?K = "(sp_handles s)(h \<mapsto> (p, a))"
  from inv have fin: "finite (dom ?H)" by (simp add: sp_inv_def)
  have "card (sp_users ?H a) = 0"
    using a sp_inv_parts(2,3) [OF inv] by (auto simp: sp_enc_def split: if_splits)
  then have none: "sp_users ?H a = {}" using sp_users_finite [OF fin] by simp
  have cnt: "card (sp_users ?K d) = (if d = a then 1 else card (sp_users ?H d))" for d
    using sp_count_upd [OF fin, of h "Some (p, a)" d] h p(2) none by (auto simp: sp_uses_def)
  have data: "((sp_data s)(a \<mapsto> 1)) d = sp_enc (card (sp_users ?K d))" for d
    using cnt [of d] sp_inv_parts(2) [OF inv] by (auto simp: sp_enc_def)
  have used: "d \<noteq> a" if "?H g = Some (ref, d)" "ref \<noteq> NULL" for g ref d
    using none that by (auto simp: sp_users_def)
  have "\<forall>g ref d. ?K g = Some (ref, d) \<longrightarrow> ref \<noteq> NULL \<longrightarrow> sp_objs s ref \<noteq> None"
    using p inv unfolding sp_inv_def by auto
  moreover have "sp_paired ?K" unfolding sp_paired_def
  proof (intro allI impI)
    fix g g' ref ref' d d'
    assume K: "?K g = Some (ref, d)" "?K g' = Some (ref', d')" and n: "ref \<noteq> NULL" "ref' \<noteq> NULL"
    have new: "g \<noteq> h \<Longrightarrow> ref \<noteq> p \<and> d \<noteq> a" "g' \<noteq> h \<Longrightarrow> ref' \<noteq> p \<and> d' \<noteq> a"
      using K n p(3) used by auto
    show "ref = ref' \<longleftrightarrow> d = d'"
    proof (cases "g = h \<or> g' = h")
      case True
      then show ?thesis using K new by (cases "g = h"; cases "g' = h") auto
    next
      case False
      then show ?thesis using K n by (intro sp_pair [OF inv]) auto
    qed
  qed
  moreover have "card (dom ?K) < 2 ^ 32 - 1" using h size fin by (simp add: card_insert_if domIff)
  moreover have "sp_from_ptr junk h a p s = s\<lparr>sp_data := (sp_data s)(a \<mapsto> 1), sp_handles := ?K\<rparr>"
    using p(2) by (simp add: sp_from_ptr_def sp_set_def)
  moreover have "finite (dom ?K)" using fin by simp
  ultimately show ?thesis using data by (simp add: sp_inv_def)
qed

text \<open>The constructors are a null pointer followed by the assignment.\<close>

lemma sp_copy_construct_eq:
  assumes "h \<noteq> other"
  shows "sp_copy_construct h other s = sp_assign h other (sp_new h s)"
  using assms by (auto simp: sp_copy_construct_def sp_assign_def sp_new_def sp_set_def sp_get_def sp_inc_def
      decrement_usage_def split: option.splits)

lemma sp_move_construct_eq:
  assumes "h \<noteq> other"
  shows "sp_move_construct h other s = sp_move_assign h other (sp_new h s)"
  using assms by (auto simp: sp_move_construct_def sp_move_assign_def sp_new_def sp_set_def sp_get_def
      decrement_usage_def split: option.splits)

lemma sp_new_inv:
  assumes inv: "sp_inv s" and h: "sp_handles s h = None" and size: "card (dom (sp_handles s)) + 1 < 2 ^ 32 - 1"
  shows "sp_inv (sp_new h s)"
proof (rule sp_replace_inv [OF inv, where h = h and y = "Some (NULL, NULL)"])
  show "sp_data (sp_new h s) = (\<lambda>d. sp_enc (card (sp_users (sp_handles (sp_new h s)) d)))"
    using sp_inv_parts(2) [OF inv] sp_count_upd [OF sp_inv_parts(1) [OF inv], of h "Some (NULL, NULL)"] h
    by (simp add: sp_new_def sp_set_def sp_uses_def fun_eq_iff)
  show "card (dom (sp_handles (sp_new h s))) < 2 ^ 32 - 1"
    using h size sp_inv_parts(1) [OF inv] by (simp add: sp_new_def sp_set_def card_insert_if domIff)
qed (simp_all add: sp_new_def sp_set_def h sp_gone_def)

section \<open>Properties\<close>

text \<open>C12: Sharing: assigning one \<open>shared_ptr\<close> to another (itself included) returns, leaves every use count equal
  to the number of pointers sharing the object, and deletes the object the assigned pointer held before
  exactly when no pointer holds it any more.\<close>

theorem shared_ptr_assign_counts:
  assumes "sp_inv s" and "sp_handles s h = Some (old, d')" and "sp_handles s r = Some (ref, d)"
  shows "\<exists>s'. sp_assign h r s = Inr s' \<and> sp_inv s' \<and>
     sp_handles s' = (sp_handles s)(h \<mapsto> (ref, d)) \<and>
     (ref \<noteq> NULL \<longrightarrow> use_count h s' = Inr (of_nat (card {g. \<exists>e. sp_handles s' g = Some (ref, e)}))) \<and>
     sp_objs s' = (if old \<noteq> NULL \<and> (\<forall>g e. sp_handles s' g \<noteq> Some (old, e))
                   then (sp_objs s)(old := None) else sp_objs s)"
proof -
  from sp_share [OF assms] obtain s' where
    s': "sp_assign h r s = Inr s'" "sp_inv s'" "sp_handles s' = (sp_handles s)(h \<mapsto> (ref, d))"
    "sp_objs s' = sp_gone (Some (old, d')) (sp_handles s') (sp_objs s)" by blast
  have "use_count h s' = Inr (of_nat (card {g. \<exists>e. sp_handles s' g = Some (ref, e)}))" if "ref \<noteq> NULL"
    using sp_inv_handle [OF s'(2), of h ref d] sp_users_ref [OF s'(2), of h ref d] s'(3) that
    by (simp add: use_count_def sp_get_def sp_enc_pos)
  moreover have "sp_objs s' = (if old \<noteq> NULL \<and> (\<forall>g e. sp_handles s' g \<noteq> Some (old, e))
                   then (sp_objs s)(old := None) else sp_objs s)"
    unfolding s'(4) by (rule sp_gone_ref [OF assms(1,2)]) (use s'(3) assms(3) in \<open>auto split: if_splits\<close>)
  ultimately show ?thesis using s' by blast
qed

text \<open>Two objects: variables 0 and 1 share the first, variable 2 has the second.\<close>

definition sp_example :: "nat sp_state" where
  "sp_example = \<lparr>sp_objs = [0x10 \<mapsto> 5, 0x20 \<mapsto> 6], sp_data = [0x30 \<mapsto> 2, 0x40 \<mapsto> 1],
     sp_handles = [0 \<mapsto> (0x10, 0x30), 1 \<mapsto> (0x10, 0x30), 2 \<mapsto> (0x20, 0x40)]\<rparr>"

lemma sp_example_users:
  "sp_users (sp_handles sp_example) d = (if d = 0x30 then {0, 1} else if d = 0x40 then {2} else {})"
  by (auto simp: sp_users_def sp_example_def split: if_splits)

lemma sp_example_inv: "sp_inv sp_example"
proof -
  have "dom (sp_handles sp_example) = {0, 1, 2}" by (auto simp: sp_example_def)
  moreover have "\<forall>d. sp_data sp_example d = sp_enc (card (sp_users (sp_handles sp_example) d))"
    unfolding sp_example_users by (simp add: sp_enc_def sp_example_def)
  ultimately show ?thesis by (simp add: sp_inv_def) (simp add: sp_example_def sp_paired_def)
qed

theorem shared_ptr_assign_counts_witness:
  "\<exists>s'. sp_assign 2 0 sp_example = Inr s' \<and> sp_inv s' \<and> sp_objs s' 0x20 = None \<and> sp_objs s' 0x10 = Some 5"
  using shared_ptr_assign_counts [OF sp_example_inv, of 2 "0x20" "0x40" 0 "0x10" "0x30"]
  by (auto simp: sp_example_def)

text \<open>The end of a \<open>shared_ptr\<close>'s life returns, keeps all counts exact and deletes the object exactly when this
  was the last pointer to it; afterwards no pointer in scope refers to a deleted object.\<close>

theorem shared_ptr_destroy_deletes_last:
  assumes "sp_inv s" and "sp_handles s h = Some (ref, d)"
  shows "\<exists>s'. sp_destroy h s = Inr s' \<and> sp_inv s' \<and> sp_handles s' = (sp_handles s)(h := None) \<and>
     sp_objs s' = (if ref \<noteq> NULL \<and> (\<forall>g e. g \<noteq> h \<longrightarrow> sp_handles s g \<noteq> Some (ref, e))
                   then (sp_objs s)(ref := None) else sp_objs s)"
proof -
  from sp_drop [OF assms, of None] obtain s1 where
    s1: "decrement_usage (ref, d) s = Inr s1" "sp_handles s1 = sp_handles s"
      "sp_objs s1 = sp_gone (Some (ref, d)) ((sp_handles s)(h := None)) (sp_objs s)"
      "sp_inv (s1\<lparr>sp_handles := (sp_handles s)(h := None)\<rparr>)" by auto
  have "sp_objs s1 = (if ref \<noteq> NULL \<and> (\<forall>g e. ((sp_handles s)(h := None)) g \<noteq> Some (ref, e))
                   then (sp_objs s)(ref := None) else sp_objs s)"
    unfolding s1(3) by (rule sp_gone_ref [OF assms]) (auto split: if_splits)
  moreover have "(\<forall>g e. ((sp_handles s)(h := None)) g \<noteq> Some (ref, e)) \<longleftrightarrow>
      (\<forall>g e. g \<noteq> h \<longrightarrow> sp_handles s g \<noteq> Some (ref, e))" by auto
  ultimately show ?thesis using s1(1,2,4) assms(2)
    by (simp add: sp_destroy_def sp_get_def del: fun_upd_apply)
qed

theorem shared_ptr_destroy_deletes_last_witness:
  "\<exists>s'. sp_destroy 2 sp_example = Inr s' \<and> sp_objs s' 0x20 = None \<and> sp_inv s'"
  using shared_ptr_destroy_deletes_last [OF sp_example_inv, of 2 "0x20" "0x40"]
  by (auto simp: sp_example_def)

text \<open>Move assignment between two different \<open>unique_ptr\<close>s returns, hands the object over, empties the source, deletes
  the object the target owned and keeps ownership exclusive.\<close>

theorem unique_ptr_assign_transfers:
  assumes "up_inv s" and "up_refs s h = Some p" and "up_refs s r = Some q" and "h \<noteq> r"
  shows "\<exists>s'. up_assign h r s = Inr s' \<and> up_inv s' \<and> up_refs s' = (up_refs s)(h \<mapsto> q, r \<mapsto> NULL) \<and>
     up_objs s' = (if p \<noteq> NULL then (up_objs s)(p := None) else up_objs s)"
proof -
  let ?s' = "s\<lparr>up_objs := (if p \<noteq> NULL then (up_objs s)(p := None) else up_objs s),
      up_refs := (up_refs s)(h \<mapsto> q, r \<mapsto> NULL)\<rparr>"
  have live: "p \<noteq> NULL \<Longrightarrow> up_objs s p \<noteq> None" using assms(1,2) unfolding up_inv_def by blast
  have only: "p \<noteq> NULL \<Longrightarrow> up_refs s g = Some p \<Longrightarrow> g = h" for g using assms(1,2) unfolding up_inv_def by blast
  have "up_assign h r s = Inr ?s'"
    using assms(2-4) live
    by (auto simp: up_assign_def up_get_def up_release_def obj_delete_def Let_def fun_upd_twist)
  moreover have "up_inv ?s'"
    using assms only unfolding up_inv_def by (auto split: if_splits)
  ultimately show ?thesis by simp
qed

definition up_example :: "nat up_state" where
  "up_example = \<lparr>up_objs = [0x10 \<mapsto> 5, 0x20 \<mapsto> 6], up_refs = [0 \<mapsto> 0x10, 1 \<mapsto> 0x20]\<rparr>"

lemma up_example_facts: "up_inv up_example" "up_refs up_example 0 = Some 0x10" "up_refs up_example 1 = Some 0x20"
proof -
  have r: "h = 0 \<and> p = 0x10 \<or> h = 1 \<and> p = 0x20" if "up_refs up_example h = Some p" for h p
    using that by (auto simp: up_example_def split: if_splits)
  have o: "up_objs up_example 0x10 = Some 5" "up_objs up_example 0x20 = Some 6"
    by (simp_all add: up_example_def)
  show "up_inv up_example" unfolding up_inv_def
  proof (intro allI impI conjI)
    fix h p assume a: "up_refs up_example h = Some p"
    from r [OF a] o show "up_objs up_example p \<noteq> None" by auto
    fix h' assume "up_refs up_example h' = Some p"
    from r [OF a] r [OF this] show "h' = h" by auto
  qed
qed (simp_all add: up_example_def)

theorem unique_ptr_assign_transfers_witness:
  "\<exists>s'. up_assign 0 1 up_example = Inr s' \<and> up_refs s' 0 = Some 0x20 \<and> up_objs s' 0x10 = None"
proof -
  from unique_ptr_assign_transfers [OF up_example_facts] obtain s' where
    "up_assign 0 1 up_example = Inr s'" "up_refs s' = (up_refs up_example)(0 \<mapsto> 0x20, 1 \<mapsto> NULL)"
    "up_objs s' = (if (0x10 :: u32) \<noteq> NULL then (up_objs up_example)(0x10 := None) else up_objs up_example)"
    by auto
  then show ?thesis by simp
qed

text \<open>Assigning a \<open>unique_ptr\<close> to itself deletes the object and keeps the pointer to it.\<close>

lemma unique_ptr_self_assign_dangles:
  assumes "up_inv s" and "up_refs s h = Some p" and "p \<noteq> NULL"
  shows "\<exists>s'. up_assign h h s = Inr s' \<and> up_refs s' h = Some p \<and> up_objs s' p = None \<and> \<not> up_inv s'"
proof -
  from assms obtain x where "up_objs s p = Some x" unfolding up_inv_def by blast
  with assms(2,3) show ?thesis
    by (auto simp: up_assign_def up_get_def up_release_def obj_delete_def up_inv_def Let_def)
qed

end
