(* ===== verification/Vector.thy ===== *)
theory Vector
  imports Containers
begin

text \<open>
  \<open>include/structures/vector.hpp\<close>: a buffer from \<open>kmalloc\<close>, an element count and a capacity. The
  buffers live in a heap of cells; a cell is empty where no element has been constructed. What the
  vector uses of the allocator is written out here: \<open>kmalloc(0)\<close> is null, otherwise the block holds
  the requested number of bytes and starts at an address that is an argument of the operations;
  \<open>kfree(nullptr)\<close> does nothing. \<open>sz\<close> is \<open>sizeof(T)\<close>; the byte count \<open>sizeof(T) * target\<close> wraps
  at 32 bits as in the code. Accesses past a block are \<open>Fault\<close>.
\<close>

type_synonym 'a buf_heap = "u32 \<Rightarrow> 'a option list option"

record 'a vector =
  v_heap :: "'a buf_heap"
  v_buff :: u32
  v_count :: u32
  v_size :: u32

definition buf_alloc :: "u32 \<Rightarrow> u32 \<Rightarrow> u32 \<Rightarrow> 'a buf_heap \<Rightarrow> u32 \<times> 'a buf_heap" where
  "buf_alloc a sz bytes h = (if bytes = 0 then (NULL, h)
     else (a, h(a \<mapsto> replicate (unat bytes div unat sz) None)))"

definition buf_free :: "u32 \<Rightarrow> 'a buf_heap \<Rightarrow> 'a buf_heap" where
  "buf_free p h = (if p = NULL then h else h(p := None))"

definition buf_read :: "'a buf_heap \<Rightarrow> u32 \<Rightarrow> nat \<Rightarrow> 'a result" where
  "buf_read h p i = (case h p of None \<Rightarrow> Inl Fault | Some cs \<Rightarrow>
     if i < length cs then (case cs ! i of None \<Rightarrow> Inl Fault | Some x \<Rightarrow> Inr x) else Inl Fault)"

definition buf_write :: "'a buf_heap \<Rightarrow> u32 \<Rightarrow> nat \<Rightarrow> 'a option \<Rightarrow> 'a buf_heap result" where
  "buf_write h p i x = (case h p of None \<Rightarrow> Inl Fault | Some cs \<Rightarrow>
     if i < length cs then Inr (h(p \<mapsto> cs[i := x])) else Inl Fault)"

text \<open>The copy loop \<open>for(i = 0; i < count; i ++) new (&(new_buff[i])) T(move(buff[i]))\<close>.\<close>

fun v_copy_loop :: "u32 \<Rightarrow> u32 \<Rightarrow> nat \<Rightarrow> nat \<Rightarrow> 'a buf_heap \<Rightarrow> 'a buf_heap result" where
  "v_copy_loop src dst i 0 h = Inr h"
| "v_copy_loop src dst i (Suc n) h = bindE (buf_read h src i) (\<lambda>x.
     bindE (buf_write h dst i (Some x)) (v_copy_loop src dst (Suc i) n))"

definition grow_buff :: "u32 \<Rightarrow> u32 \<Rightarrow> u32 \<Rightarrow> 'a vector \<Rightarrow> 'a vector result" where
  "grow_buff sz a target v = (let (new_buff, h) = buf_alloc a sz (sz * target) (v_heap v) in
     bindE (v_copy_loop (v_buff v) new_buff 0 (unat (v_count v)) h) (\<lambda>h1.
     Inr (v\<lparr>v_heap := buf_free (v_buff v) h1, v_buff := new_buff, v_size := target\<rparr>)))"

definition v_blank :: "'a buf_heap \<Rightarrow> 'a vector" where
  "v_blank h = \<lparr>v_heap = h, v_buff = NULL, v_count = 0, v_size = 0\<rparr>"

definition v_new :: "u32 \<Rightarrow> u32 \<Rightarrow> 'a buf_heap \<Rightarrow> 'a vector result" where
  "v_new sz a h = grow_buff sz a 4 (v_blank h)"

fun v_fill_loop :: "u32 \<Rightarrow> 'a \<Rightarrow> nat \<Rightarrow> nat \<Rightarrow> 'a buf_heap \<Rightarrow> 'a buf_heap result" where
  "v_fill_loop p x i 0 h = Inr h"
| "v_fill_loop p x i (Suc n) h = bindE (buf_write h p i (Some x)) (v_fill_loop p x (Suc i) n)"

text \<open>\<open>vector(count)\<close> fills with the default value, \<open>vector(count, value)\<close> with \<open>value\<close>.\<close>

definition v_construct :: "u32 \<Rightarrow> u32 \<Rightarrow> u32 \<Rightarrow> 'a \<Rightarrow> 'a buf_heap \<Rightarrow> 'a vector result" where
  "v_construct sz a n value h = bindE (grow_buff sz a n (v_blank h)) (\<lambda>v.
     bindE (v_fill_loop (v_buff v) value 0 (unat n) (v_heap v)) (\<lambda>h1.
     Inr (v\<lparr>v_heap := h1, v_count := n\<rparr>)))"

text \<open>\<open>operator[]\<close>: the reference is the address of the cell.\<close>

definition v_ref :: "'a vector \<Rightarrow> u32 \<Rightarrow> nat result" where
  "v_ref v pos = (if v_count v \<le> pos then Inl (Panic ''Out of bounds vector access!'')
     else if v_buff v = NULL then Inl (Panic ''Vector is no longer available.'')
     else Inr (unat pos))"

definition v_at :: "'a vector \<Rightarrow> u32 \<Rightarrow> 'a result" where
  "v_at v pos = bindE (v_ref v pos) (\<lambda>i. buf_read (v_heap v) (v_buff v) i)"

text \<open>The copy constructor reads the elements through the other vector's \<open>operator[]\<close>.\<close>

fun v_clone_loop :: "'a vector \<Rightarrow> u32 \<Rightarrow> nat \<Rightarrow> nat \<Rightarrow> 'a buf_heap \<Rightarrow> 'a buf_heap result" where
  "v_clone_loop other p i 0 h = Inr h"
| "v_clone_loop other p i (Suc n) h = bindE (v_at (other\<lparr>v_heap := h\<rparr>) (of_nat i)) (\<lambda>x.
     bindE (buf_write h p i (Some x)) (v_clone_loop other p (Suc i) n))"

definition v_copy :: "u32 \<Rightarrow> u32 \<Rightarrow> 'a vector \<Rightarrow> 'a vector result" where
  "v_copy sz a other = bindE (grow_buff sz a (v_size other) (v_blank (v_heap other))) (\<lambda>v.
     bindE (v_clone_loop other (v_buff v) 0 (unat (v_count other)) (v_heap v)) (\<lambda>h1.
     Inr (v\<lparr>v_heap := h1, v_count := v_count other\<rparr>)))"

text \<open>The move constructor: the new vector and what is left of the other one.\<close>

definition v_move :: "'a vector \<Rightarrow> 'a vector \<times> 'a vector" where
  "v_move other = (other, other\<lparr>v_buff := NULL\<rparr>)"

definition v_front :: "'a vector \<Rightarrow> 'a result" where
  "v_front v = v_at v 0"

definition v_back :: "'a vector \<Rightarrow> 'a result" where
  "v_back v = v_at v (v_count v - 1)"

definition v_empty :: "'a vector \<Rightarrow> bool" where
  "v_empty v \<longleftrightarrow> v_count v = 0"

definition v_length :: "'a vector \<Rightarrow> u32" where
  "v_length v = v_count v"

definition v_capacity :: "'a vector \<Rightarrow> u32" where
  "v_capacity v = v_size v"

definition v_data :: "'a vector \<Rightarrow> u32" where
  "v_data v = v_buff v"

text \<open>The destructor loop of \<open>clear\<close> over the elements.\<close>

fun v_destroy_loop :: "u32 \<Rightarrow> nat \<Rightarrow> nat \<Rightarrow> 'a buf_heap \<Rightarrow> 'a buf_heap result" where
  "v_destroy_loop p i 0 h = Inr h"
| "v_destroy_loop p i (Suc n) h = bindE (buf_write h p i None) (v_destroy_loop p (Suc i) n)"

definition v_clear :: "'a vector \<Rightarrow> 'a vector result" where
  "v_clear v = (if v_buff v = NULL then Inr v
     else bindE (v_destroy_loop (v_buff v) 0 (unat (v_count v)) (v_heap v)) (\<lambda>h.
          Inr (v\<lparr>v_heap := h, v_count := 0\<rparr>)))"

text \<open>Move assignment clears this vector, takes over the buffer and leaves the old buffer behind.\<close>

definition v_move_assign :: "'a vector \<Rightarrow> u32 \<Rightarrow> u32 \<Rightarrow> u32 \<Rightarrow> 'a vector result" where
  "v_move_assign v obuff ocount osize = bindE (v_clear v) (\<lambda>v1.
     Inr (v1\<lparr>v_buff := obuff, v_count := ocount, v_size := osize\<rparr>))"

definition v_destroy :: "'a vector \<Rightarrow> 'a buf_heap result" where
  "v_destroy v = bindE (v_clear v) (\<lambda>v1. Inr (buf_free (v_buff v1) (v_heap v1)))"

text \<open>\<open>(*this)[count ++]\<close>: the count is incremented before the bounds check.\<close>

definition v_push_back :: "u32 \<Rightarrow> u32 \<Rightarrow> 'a \<Rightarrow> 'a vector \<Rightarrow> 'a vector result" where
  "v_push_back sz a value v =
     bindE (if v_count v = v_size v then grow_buff sz a (v_size v * 2) v else Inr v) (\<lambda>v1.
     let v2 = v1\<lparr>v_count := v_count v1 + 1\<rparr> in
     bindE (v_ref v2 (v_count v1)) (\<lambda>i.
     bindE (buf_write (v_heap v2) (v_buff v2) i (Some value)) (\<lambda>h.
     Inr (v2\<lparr>v_heap := h\<rparr>))))"

definition v_emplace_back :: "u32 \<Rightarrow> u32 \<Rightarrow> ('args \<Rightarrow> 'a) \<Rightarrow> 'args \<Rightarrow> 'a vector \<Rightarrow> 'a vector result" where
  "v_emplace_back sz a mk args v = v_push_back sz a (mk args) v"

definition v_pop_back :: "'a vector \<Rightarrow> 'a vector result" where
  "v_pop_back v = bindE (v_ref v (v_count v - 1)) (\<lambda>i.
     bindE (buf_write (v_heap v) (v_buff v) i None) (\<lambda>h.
     Inr (v\<lparr>v_heap := h, v_count := v_count v - 1\<rparr>)))"

text \<open>\<open>begin\<close> and \<open>end\<close> as addresses.\<close>

definition v_begin :: "'a vector \<Rightarrow> u32" where
  "v_begin v = v_buff v"

definition v_end :: "u32 \<Rightarrow> 'a vector \<Rightarrow> u32" where
  "v_end sz v = v_buff v + sz * v_count v"

section \<open>Invariant and abstraction\<close>

definition v_cells :: "'a vector \<Rightarrow> 'a option list" where
  "v_cells v = (case v_heap v (v_buff v) of None \<Rightarrow> [] | Some cs \<Rightarrow> cs)"

definition v_list :: "'a vector \<Rightarrow> 'a list" where
  "v_list v = map the (take (unat (v_count v)) (v_cells v))"

definition v_inv :: "'a vector \<Rightarrow> bool" where
  "v_inv v \<longleftrightarrow> v_buff v \<noteq> NULL \<and> v_heap v (v_buff v) \<noteq> None \<and> length (v_cells v) = unat (v_size v) \<and>
     0 < v_size v \<and> v_count v \<le> v_size v \<and> (\<forall>i < unat (v_count v). v_cells v ! i \<noteq> None)"

text \<open>What an insertion needs: a free cell, or a fresh block whose doubled size fits in 32 bits.\<close>

definition v_room :: "u32 \<Rightarrow> u32 \<Rightarrow> 'a vector \<Rightarrow> bool" where
  "v_room sz a v \<longleftrightarrow> v_count v < v_size v \<or>
     0 < sz \<and> a \<noteq> NULL \<and> v_heap v a = None \<and> unat sz * (2 * unat (v_size v)) < 2 ^ 32"

lemma v_copy_loop_copies:
  "h src = Some cs \<Longrightarrow> h dst = Some ds \<Longrightarrow> src \<noteq> dst \<Longrightarrow> i + n \<le> length cs \<Longrightarrow> i + n \<le> length ds \<Longrightarrow>
   (\<forall>k < i + n. cs ! k \<noteq> None) \<Longrightarrow>
   v_copy_loop src dst i n h = Inr (h(dst \<mapsto> take i ds @ take n (drop i cs) @ drop (i + n) ds))"
proof (induction n arbitrary: i h ds)
  case 0
  then show ?case by (simp add: fun_upd_idem)
next
  case (Suc n)
  then obtain x where x: "cs ! i = Some x" by fastforce
  let ?h = "h(dst \<mapsto> ds[i := Some x])"
  from Suc.prems x have "v_copy_loop src dst i (Suc n) h = v_copy_loop src dst (Suc i) n ?h"
    by (simp add: buf_read_def buf_write_def)
  also have "\<dots> = Inr (?h(dst \<mapsto> take (Suc i) (ds[i := Some x]) @ take n (drop (Suc i) cs) @
      drop (Suc i + n) (ds[i := Some x])))"
    by (rule Suc.IH) (use Suc.prems in auto)
  also have "take (Suc i) (ds[i := Some x]) @ take n (drop (Suc i) cs) @ drop (Suc i + n) (ds[i := Some x]) =
      take i ds @ take (Suc n) (drop i cs) @ drop (i + Suc n) ds"
    using Suc.prems x by (simp add: take_Suc_conv_app_nth Cons_nth_drop_Suc [symmetric])
  finally show ?case by (simp only: fun_upd_upd)
qed

lemma unat_mult_lt:
  fixes a b :: u32
  assumes "unat a * unat b < 2 ^ 32"
  shows "unat (a * b) = unat a * unat b"
  using assms by (simp add: unat_word_ariths)

lemma v_cells_Some: "v_inv v \<Longrightarrow> v_heap v (v_buff v) = Some (v_cells v)"
  by (auto simp: v_inv_def v_cells_def)

lemma v_list_length: "v_inv v \<Longrightarrow> length (v_list v) = unat (v_count v)"
  by (simp add: v_inv_def v_list_def word_le_nat_alt)

text \<open>Growing keeps the elements and gives the requested capacity.\<close>

lemma grow_buff_keeps:
  assumes inv: "v_inv v" and a: "a \<noteq> NULL" "v_heap v a = None" and sz: "0 < sz"
    and fit: "unat sz * unat target < 2 ^ 32" and t: "v_count v \<le> target" "0 < target"
  shows "\<exists>v'. grow_buff sz a target v = Inr v' \<and> v_inv v' \<and> v_list v' = v_list v \<and>
     v_count v' = v_count v \<and> v_size v' = target"
proof -
  let ?cs = "v_cells v" and ?n = "unat (v_count v)" and ?t = "unat target"
  let ?ds = "take ?n ?cs @ replicate (?t - ?n) None"
  have b: "unat (sz * target) = unat sz * ?t" using fit by (rule unat_mult_lt)
  have pos: "0 < unat sz" "0 < ?t" using sz t by (simp_all add: word_less_nat_alt)
  then have nz: "sz * target \<noteq> 0" using b by (metis mult_is_0 not_less_zero unsigned_0)
  have d: "unat (sz * target) div unat sz = ?t" using b pos by simp
  have ne: "v_buff v \<noteq> a" using a inv by (auto simp: v_inv_def)
  have n: "?n \<le> length ?cs" "?n \<le> ?t" using inv t by (auto simp: v_inv_def word_le_nat_alt)
  let ?h = "(v_heap v)(a \<mapsto> replicate ?t None)"
  have "v_copy_loop (v_buff v) a 0 ?n ?h
      = Inr (?h(a \<mapsto> take 0 (replicate ?t None) @ take ?n (drop 0 ?cs) @ drop (0 + ?n) (replicate ?t None)))"
    by (rule v_copy_loop_copies) (use v_cells_Some [OF inv] ne n inv in \<open>auto simp: v_inv_def\<close>)
  then have eq: "grow_buff sz a target v = Inr (v\<lparr>v_heap := (((v_heap v)(a \<mapsto> ?ds))(v_buff v := None)),
      v_buff := a, v_size := target\<rparr>)" (is "_ = Inr ?v'")
    using nz d inv by (simp add: grow_buff_def buf_alloc_def buf_free_def v_inv_def drop_replicate)
  have c: "v_cells ?v' = ?ds" using ne by (simp add: v_cells_def)
  have "v_inv ?v'" using inv a ne n t c by (auto simp: v_inv_def nth_append)
  moreover have "v_list ?v' = v_list v" using c n by (simp add: v_list_def)
  ultimately show ?thesis using eq by auto
qed

lemma v_store_last:
  assumes inv: "v_inv v" and lt: "v_count v < v_size v"
  defines "v2 \<equiv> v\<lparr>v_count := v_count v + 1\<rparr>"
  shows "\<exists>v'. bindE (v_ref v2 (v_count v)) (\<lambda>i. bindE (buf_write (v_heap v2) (v_buff v2) i (Some x))
      (\<lambda>h. Inr (v2\<lparr>v_heap := h\<rparr>))) = Inr v' \<and> v_inv v' \<and> v_list v' = v_list v @ [x]"
proof -
  let ?n = "unat (v_count v)"
  have s: "unat (v_count v + 1) = Suc ?n" using lt by (rule word_inc_unat)
  have r: "v_ref v2 (v_count v) = Inr ?n"
    using inv s by (simp add: v_ref_def v2_def v_inv_def word_le_nat_alt)
  have n: "?n < length (v_cells v)" using inv lt by (simp add: v_inv_def word_less_nat_alt)
  let ?v' = "v2\<lparr>v_heap := (v_heap v)(v_buff v \<mapsto> (v_cells v)[?n := Some x])\<rparr>"
  have c: "v_cells ?v' = (v_cells v)[?n := Some x]" by (simp add: v_cells_def v2_def)
  have "bindE (v_ref v2 (v_count v)) (\<lambda>i. bindE (buf_write (v_heap v2) (v_buff v2) i (Some x))
      (\<lambda>h. Inr (v2\<lparr>v_heap := h\<rparr>))) = Inr ?v'"
    using r v_cells_Some [OF inv] n by (simp add: buf_write_def v2_def)
  moreover have "v_inv ?v'"
    using inv c s n lt by (auto simp: v_inv_def v2_def word_le_nat_alt word_less_nat_alt nth_list_update less_Suc_eq)
  moreover have "v_list ?v' = v_list v @ [x]"
    using c s n by (simp add: v_list_def v2_def take_Suc_conv_app_nth)
  ultimately show ?thesis by blast
qed

lemma v_push_back_ok:
  assumes inv: "v_inv v" and room: "v_room sz a v"
  shows "\<exists>v'. v_push_back sz a x v = Inr v' \<and> v_inv v' \<and> v_list v' = v_list v @ [x]"
proof (cases "v_count v = v_size v")
  case False
  with inv have "v_count v < v_size v" by (auto simp: v_inv_def)
  from v_store_last [OF inv this, of x] False show ?thesis by (simp add: v_push_back_def Let_def)
next
  case True
  with room have a: "a \<noteq> NULL" "v_heap v a = None" "0 < sz" and fit: "unat sz * (2 * unat (v_size v)) < 2 ^ 32"
    by (auto simp: v_room_def)
  have pos: "0 < unat (v_size v)" "0 < unat sz" using inv a by (simp_all add: v_inv_def word_less_nat_alt)
  have "2 * unat (v_size v) \<le> unat sz * (2 * unat (v_size v))" using pos by simp
  with fit have "2 * unat (v_size v) < 2 ^ 32" by (rule le_less_trans [rotated])
  then have "unat (v_size v) * unat (2 :: u32) < 2 ^ 32" by simp
  then have d: "unat (v_size v * 2) = 2 * unat (v_size v)" by (subst unat_mult_lt) simp_all
  have lt: "v_count v < v_size v * 2" and t: "0 < v_size v * 2"
    using d pos True by (simp_all add: word_less_nat_alt)
  have "unat sz * unat (v_size v * 2) < 2 ^ 32" using fit d by simp
  from grow_buff_keeps [OF inv a(1,2,3) this order_less_imp_le [OF lt] t] obtain w where
    w: "grow_buff sz a (v_size v * 2) v = Inr w" "v_inv w" "v_list w = v_list v" "v_count w = v_count v"
      "v_size w = v_size v * 2" by blast
  from v_store_last [OF w(2), of x] w lt True show ?thesis by (simp add: v_push_back_def Let_def)
qed

lemma v_at_ok:
  assumes inv: "v_inv v" and i: "unat pos < length (v_list v)"
  shows "v_at v pos = Inr (v_list v ! unat pos)"
proof -
  have n: "unat pos < unat (v_count v)" using i v_list_length [OF inv] by simp
  have c: "unat pos < length (v_cells v)" using inv n by (simp add: v_inv_def word_le_nat_alt)
  from inv n obtain x where x: "v_cells v ! unat pos = Some x" by (auto simp: v_inv_def)
  have "\<not> v_count v \<le> pos" using n by (simp add: word_le_nat_alt)
  with inv c n x v_cells_Some [OF inv] show ?thesis
    by (simp add: v_at_def v_ref_def buf_read_def v_list_def) (simp add: v_inv_def)
qed

lemma v_last_pos:
  assumes "v_inv v" and "v_list v \<noteq> []"
  shows "unat (v_count v - 1) = unat (v_count v) - 1" and "0 < unat (v_count v)" and "v_count v - 1 < v_count v"
proof -
  show p: "0 < unat (v_count v)" using assms v_list_length [OF assms(1)] by (metis length_greater_0_conv)
  then have "1 \<le> v_count v" by (simp add: word_le_nat_alt)
  from unat_sub_le [OF this] show u: "unat (v_count v - 1) = unat (v_count v) - 1" by simp
  then show "v_count v - 1 < v_count v" using p by (simp add: word_less_nat_alt)
qed

lemma v_back_ok: "v_inv v \<Longrightarrow> v_list v \<noteq> [] \<Longrightarrow> v_back v = Inr (last (v_list v))"
  using v_at_ok [of v "v_count v - 1"] v_last_pos [of v]
  by (simp add: v_back_def v_list_length last_conv_nth)

lemma v_pop_back_ok:
  assumes inv: "v_inv v" and ne: "v_list v \<noteq> []"
  shows "\<exists>v'. v_pop_back v = Inr v' \<and> v_inv v' \<and> v_list v' = butlast (v_list v)"
proof -
  note l = v_last_pos [OF assms]
  let ?n = "unat (v_count v) - 1"
  have c: "?n < length (v_cells v)" using inv l by (auto simp: v_inv_def word_le_nat_alt)
  let ?v' = "v\<lparr>v_heap := (v_heap v)(v_buff v \<mapsto> (v_cells v)[?n := None]), v_count := v_count v - 1\<rparr>"
  have cells: "v_cells ?v' = (v_cells v)[?n := None]" by (simp add: v_cells_def)
  have "v_pop_back v = Inr ?v'"
    using inv l c v_cells_Some [OF inv] by (simp add: v_pop_back_def v_ref_def buf_write_def v_inv_def)
  moreover have "v_inv ?v'"
    using inv l cells by (auto simp: v_inv_def nth_list_update)
  moreover have "v_list ?v' = butlast (v_list v)"
    using cells l inv by (simp add: v_list_def v_inv_def butlast_take map_butlast word_le_nat_alt flip: map_butlast)
  ultimately show ?thesis by blast
qed

lemma v_pop_back_empty:
  assumes "v_inv v" and "v_list v = []"
  shows "v_pop_back v = Inl (Panic ''Out of bounds vector access!'')"
proof -
  from assms v_list_length [OF assms(1)] have "v_count v = 0" by (simp add: unsigned_0 unsigned_eq_0_iff)
  then show ?thesis by (simp add: v_pop_back_def v_ref_def)
qed

interpretation vector_sequence: sequence
  v_list v_inv "\<lambda>(sz, a) v. v_room sz a v" "\<lambda>(sz, a). v_push_back sz a" v_pop_back v_back
  "\<lambda>v. unat (v_length v)"
  by unfold_locales
    (auto simp: v_push_back_ok v_pop_back_ok v_pop_back_empty v_back_ok v_length_def v_list_length)

lemma v_destroy_loop_ok:
  "h p = Some cs \<Longrightarrow> i + n \<le> length cs \<Longrightarrow> \<exists>ds. v_destroy_loop p i n h = Inr (h(p \<mapsto> ds)) \<and> length ds = length cs"
proof (induction n arbitrary: i h cs)
  case 0
  then have "h(p \<mapsto> cs) = h" by (simp add: fun_upd_idem)
  then show ?case using 0 by force
next
  case (Suc n)
  have "\<exists>ds. v_destroy_loop p (Suc i) n (h(p \<mapsto> cs[i := None])) = Inr ((h(p \<mapsto> cs[i := None]))(p \<mapsto> ds)) \<and>
      length ds = length (cs[i := None])"
    by (rule Suc.IH) (use Suc.prems in auto)
  then obtain ds where d: "v_destroy_loop p (Suc i) n (h(p \<mapsto> cs[i := None])) = Inr (h(p \<mapsto> ds))"
    "length ds = length cs" by auto
  then have "v_destroy_loop p i (Suc n) h = Inr (h(p \<mapsto> ds))" using Suc.prems by (simp add: buf_write_def)
  with d(2) show ?case by blast
qed

lemma v_clear_ok:
  assumes "v_inv v"
  shows "\<exists>v'. v_clear v = Inr v' \<and> v_inv v' \<and> v_list v' = [] \<and> v_capacity v' = v_capacity v"
proof -
  have "unat (v_count v) \<le> length (v_cells v)" using assms by (simp add: v_inv_def word_le_nat_alt)
  with v_destroy_loop_ok [of "v_heap v" "v_buff v", OF v_cells_Some [OF assms], of 0 "unat (v_count v)"] obtain ds where
    d: "v_destroy_loop (v_buff v) 0 (unat (v_count v)) (v_heap v) = Inr ((v_heap v)(v_buff v \<mapsto> ds))"
    "length ds = length (v_cells v)" by auto
  let ?v' = "v\<lparr>v_heap := (v_heap v)(v_buff v \<mapsto> ds), v_count := 0\<rparr>"
  have "v_cells ?v' = ds" by (simp add: v_cells_def)
  with d assms show ?thesis
    by (intro exI [of _ ?v']) (simp add: v_clear_def v_inv_def v_list_def v_capacity_def)
qed

lemma v_fill_loop_ok:
  "h p = Some cs \<Longrightarrow> i + n \<le> length cs \<Longrightarrow>
   v_fill_loop p x i n h = Inr (h(p \<mapsto> take i cs @ replicate n (Some x) @ drop (i + n) cs))"
proof (induction n arbitrary: i h cs)
  case 0
  then show ?case by (simp add: fun_upd_idem)
next
  case (Suc n)
  have "v_fill_loop p x (Suc i) n (h(p \<mapsto> cs[i := Some x])) = Inr ((h(p \<mapsto> cs[i := Some x]))(p \<mapsto>
      take (Suc i) (cs[i := Some x]) @ replicate n (Some x) @ drop (Suc i + n) (cs[i := Some x])))"
    by (rule Suc.IH) (use Suc.prems in auto)
  with Suc.prems show ?case
    by (simp add: buf_write_def take_Suc_conv_app_nth replicate_append_same) (simp add: fun_eq_iff)
qed

lemma v_construct_ok:
  assumes "a \<noteq> NULL" and "0 < sz" and "0 < n" and "unat sz * unat n < 2 ^ 32"
  shows "\<exists>v. v_construct sz a n x h = Inr v \<and> v_inv v \<and> v_list v = replicate (unat n) x \<and> v_capacity v = n"
proof -
  have b: "unat (sz * n) = unat sz * unat n" using assms(4) by (rule unat_mult_lt)
  have pos: "0 < unat sz" "0 < unat n" using assms by (simp_all add: word_less_nat_alt)
  then have nz: "sz * n \<noteq> 0" using b by (metis mult_is_0 not_less_zero unsigned_0)
  have d: "unat (sz * n) div unat sz = unat n" using b pos by simp
  let ?h = "h(a \<mapsto> replicate (unat n) None)"
  have "grow_buff sz a n (v_blank h) = Inr \<lparr>v_heap = ?h, v_buff = a, v_count = 0, v_size = n\<rparr>"
    using nz d by (simp add: grow_buff_def buf_alloc_def v_blank_def buf_free_def)
  moreover have "v_fill_loop a x 0 (unat n) ?h = Inr (?h(a \<mapsto> replicate (unat n) (Some x)))"
    using v_fill_loop_ok [of ?h a "replicate (unat n) None" 0 "unat n" x] by simp
  ultimately have eq: "v_construct sz a n x h =
      Inr \<lparr>v_heap = h(a \<mapsto> replicate (unat n) (Some x)), v_buff = a, v_count = n, v_size = n\<rparr>" (is "_ = Inr ?v")
    by (simp add: v_construct_def)
  have "v_cells ?v = replicate (unat n) (Some x)" by (simp add: v_cells_def)
  with eq assms(1,3) show ?thesis by (auto simp: v_inv_def v_list_def v_capacity_def)
qed

section \<open>Properties\<close>

text \<open>C33: Appending to a vector with room (a free cell, or a fresh block whose doubled size fits) returns,
  keeps every element and the invariant and adds the new element at the end, whether or not the buffer
  had to be replaced; the new element can be read back at its index and removing it restores the list.\<close>

theorem vector_push_back_appends:
  assumes "v_inv v" and "v_room sz a v"
  shows "\<exists>v'. v_push_back sz a x v = Inr v' \<and> v_inv v' \<and> v_list v' = v_list v @ [x] \<and>
     v_back v' = Inr x \<and> v_at v' (v_length v) = Inr x \<and>
     (\<forall>i. i < unat (v_length v) \<longrightarrow> v_at v' (of_nat i) = v_at v (of_nat i)) \<and>
     (\<exists>v''. v_pop_back v' = Inr v'' \<and> v_list v'' = v_list v)"
proof -
  from v_push_back_ok [OF assms, of x] obtain v' where
    v': "v_push_back sz a x v = Inr v'" "v_inv v'" "v_list v' = v_list v @ [x]" by blast
  note len = v_list_length [OF assms(1)]
  have "v_at v' (of_nat i) = v_at v (of_nat i)" if i: "i < unat (v_length v)" for i
  proof -
    have "i < 2 ^ 32" using less_trans [OF i [unfolded v_length_def] unat_lt_32] by simp
    then have "unat (of_nat i :: u32) = i" by (simp add: unat_of_nat_lt)
    with i len show ?thesis using v_at_ok [OF v'(2), of "of_nat i"] v_at_ok [OF assms(1), of "of_nat i"] v'(3)
      by (simp add: v_length_def nth_append)
  qed
  moreover have "v_at v' (v_length v) = Inr x"
    using v_at_ok [OF v'(2), of "v_count v"] v'(3) len by (simp add: v_length_def nth_append)
  moreover from v_pop_back_ok [OF v'(2)] v'(3) have "\<exists>v''. v_pop_back v' = Inr v'' \<and> v_list v'' = v_list v" by auto
  ultimately show ?thesis using v' v_back_ok [OF v'(2)] by simp
qed

definition vector_example :: "nat vector" where
  "vector_example = \<lparr>v_heap = [0x100 \<mapsto> [Some 1, Some 2]], v_buff = 0x100, v_count = 2, v_size = 2\<rparr>"

lemma vector_example_inv: "v_inv vector_example" "v_list vector_example = [1, 2]"
  by (auto simp: v_inv_def v_cells_def v_list_def vector_example_def nth_Cons' less_2_cases_iff)

theorem vector_push_back_appends_witness:
  "\<exists>v'. v_push_back 4 0x200 3 vector_example = Inr v' \<and> v_list v' = [1, 2, 3]"
  using vector_push_back_appends [OF vector_example_inv(1), of 4 "0x200" 3] vector_example_inv(2)
  by (auto simp: v_room_def vector_example_def)

text \<open>A vector constructed with no elements can never be appended to: its buffer is null, doubling a
  capacity of zero leaves it null, and the first \<open>push_back\<close> panics.\<close>

theorem vector_zero_cannot_grow:
  "\<exists>v. v_construct sz a 0 x h = Inr v \<and> v_empty v \<and>
     v_push_back sz b y v = Inl (Panic ''Vector is no longer available.'')"
  by (simp add: v_construct_def grow_buff_def buf_alloc_def v_blank_def buf_free_def v_empty_def
      v_push_back_def v_ref_def Let_def)

end
