(* ===== verification/Kmem.thy ===== *)
theory Kmem
  imports Mutex
begin

text \<open>
  The kernel heap, \<open>src/mem/kmem.cpp\<close>, with the part of \<open>src/mem/page.cpp\<close> it calls back into:
  when \<open>kmalloc\<close> runs out of space it allocates pages, which itself needs a \<open>kmalloc\<close> for the
  \<open>Page\<close> structure. The two files share one mutex, so they share one state record here.

  Memory is typed: the free-block structures, the block headers, the \<open>Page\<close> structures and the
  virtual slots are four maps from addresses, page table entries a fifth. Reading a structure where none was written is
  \<open>Fault\<close>. \<open>invlpg\<close> is a log of the addresses it was given. The debugging output and the
  \<open>_verify\<close> calls are compiled out (\<open>DEBUG_MEM\<close> is 0 in \<open>config.hpp\<close>); \<open>_verify\<close> itself is
  \<open>kmem_verify\<close>. \<open>KMEM_SENTINEL\<close> is 1, so that a header is 8 bytes.

  The recursion between \<open>kmalloc\<close>, \<open>do_kmalloc\<close> and \<open>page::alloc\<close> is bounded by fuel; the
  theorems say how much is enough.
\<close>

section \<open>State\<close>

text \<open>\<open>kmem_free_t\<close>, \<open>kmem_header_t\<close>, \<open>page::Page\<close>, \<open>_empty_virtual_slot_t\<close> and
  \<open>multiboot::entry_t\<close>.\<close>

record kmem_free =
  fr_size :: u32
  fr_base :: u32
  fr_next :: u32

record kmem_header =
  hd_size :: u32
  hd_sentinel :: u32

record page =
  page_id :: u32
  mem_base :: u32
  pg_flags :: u8
  consecutive :: u32
  pg_next :: u32

record virtual_slot =
  vs_base :: u32
  vs_pages :: u32
  vs_next :: u32

record mm_entry =
  mm_base :: u64
  mm_length :: u64
  mm_type :: u32

record mem =
  m_frees :: "u32 \<Rightarrow> kmem_free option"
  m_hdrs :: "u32 \<Rightarrow> kmem_header option"
  m_pages :: "u32 \<Rightarrow> page option"
  m_slots :: "u32 \<Rightarrow> virtual_slot option"
  m_ptes :: "u32 \<Rightarrow> u32"
  m_flushed :: "u32 list"
  m_mutex :: bool
  m_eflags :: u32
  free_list :: u32
  free_end :: u32
  free_free_structs :: u32
  kernel_start :: u32
  memory_total :: u32
  memory_used :: u32
  memory_end :: u32
  used_start :: u32
  static_page :: page
  page_id_counter :: u32
  allocation_pointer :: u32
  cursor :: u32
  mem_table :: "mm_entry list"
  current_map :: nat
  virtual_pointer :: u32
  page_dir :: u32
  page_free_head :: u32
  empty_slot :: u32

definition MINIMUM_PAGES :: u32 where "MINIMUM_PAGES = 2"
definition SENTINEL_VAL :: u32 where "SENTINEL_VAL = 0x4b4d454d"
definition SENTINEL_FREED :: u32 where "SENTINEL_FREED = 0x46524545"
definition KMALLOC_RESERVED :: u8 where "KMALLOC_RESERVED = 1"
definition KMALLOC_NOLOCK :: u8 where "KMALLOC_NOLOCK = 2"
definition FLAG_ALLOCATED :: u8 where "FLAG_ALLOCATED = 1"
definition FLAG_KERNEL :: u8 where "FLAG_KERNEL = 2"
definition FLAG_RESERVED :: u8 where "FLAG_RESERVED = 4"
definition FLAG_NOLOCK :: u8 where "FLAG_NOLOCK = 8"
definition PAGE_TABLE_PRESENT :: u32 where "PAGE_TABLE_PRESENT = 1"
definition PAGE_TABLE_RW :: u32 where "PAGE_TABLE_RW = 2"
definition PAGE_TABLE_USER :: u32 where "PAGE_TABLE_USER = 4"

abbreviation sizeof_header :: u32 where "sizeof_header \<equiv> 8"
abbreviation sizeof_free :: u32 where "sizeof_free \<equiv> 12"
abbreviation sizeof_Page :: u32 where "sizeof_Page \<equiv> 20"

lemmas flag_defs = KMALLOC_RESERVED_def KMALLOC_NOLOCK_def FLAG_ALLOCATED_def FLAG_KERNEL_def
  FLAG_RESERVED_def FLAG_NOLOCK_def

text \<open>Structure accesses.\<close>

definition rd_free :: "mem \<Rightarrow> u32 \<Rightarrow> kmem_free result" where
  "rd_free s p = (case m_frees s p of None \<Rightarrow> Inl Fault | Some f \<Rightarrow> Inr f)"

definition wr_free :: "u32 \<Rightarrow> kmem_free \<Rightarrow> mem \<Rightarrow> mem" where
  "wr_free p f s = s\<lparr>m_frees := (m_frees s)(p \<mapsto> f)\<rparr>"

definition rd_hdr :: "mem \<Rightarrow> u32 \<Rightarrow> kmem_header result" where
  "rd_hdr s p = (case m_hdrs s p of None \<Rightarrow> Inl Fault | Some f \<Rightarrow> Inr f)"

definition wr_hdr :: "u32 \<Rightarrow> kmem_header \<Rightarrow> mem \<Rightarrow> mem" where
  "wr_hdr p f s = s\<lparr>m_hdrs := (m_hdrs s)(p \<mapsto> f)\<rparr>"

definition rd_page :: "mem \<Rightarrow> u32 \<Rightarrow> page result" where
  "rd_page s p = (case m_pages s p of None \<Rightarrow> Inl Fault | Some f \<Rightarrow> Inr f)"

definition wr_page :: "u32 \<Rightarrow> page \<Rightarrow> mem \<Rightarrow> mem" where
  "wr_page p f s = s\<lparr>m_pages := (m_pages s)(p \<mapsto> f)\<rparr>"

definition rd_slot :: "mem \<Rightarrow> u32 \<Rightarrow> virtual_slot result" where
  "rd_slot s p = (case m_slots s p of None \<Rightarrow> Inl Fault | Some f \<Rightarrow> Inr f)"

definition wr_slot :: "u32 \<Rightarrow> virtual_slot \<Rightarrow> mem \<Rightarrow> mem" where
  "wr_slot p f s = s\<lparr>m_slots := (m_slots s)(p \<mapsto> f)\<rparr>"

text \<open>\<open>mutex.lock()\<close> and \<open>mutex.unlock()\<close> on the shared mutex, and both together with the
  interrupt flags when \<open>b\<close> holds.\<close>

definition mem_lock :: "mem \<Rightarrow> mem result" where
  "mem_lock s = bindE (Mutex_lock (m_mutex s)) (\<lambda>m. Inr (s\<lparr>m_mutex := m\<rparr>))"

definition mem_unlock :: "mem \<Rightarrow> mem" where
  "mem_unlock s = s\<lparr>m_mutex := snd (Mutex_unlock (m_mutex s))\<rparr>"

definition enter_if :: "bool \<Rightarrow> mem \<Rightarrow> (u32 \<times> mem) result" where
  "enter_if b s = (if b then
       bindE (mem_lock (s\<lparr>m_eflags := snd (push_cli (m_eflags s))\<rparr>)) (\<lambda>s1.
       Inr (fst (push_cli (m_eflags s)), s1))
     else Inr (0, s))"

definition leave_if :: "bool \<Rightarrow> u32 \<Rightarrow> mem \<Rightarrow> mem" where
  "leave_if b saved s = (if b then (mem_unlock s)\<lparr>m_eflags := pop_flags saved (m_eflags s)\<rparr> else s)"

section \<open>Free blocks\<close>

text \<open>\<open>_merge_free\<close>: join a free block with its successor when they touch.\<close>

definition kmem_merge_free :: "u32 \<Rightarrow> mem \<Rightarrow> mem result" where
  "kmem_merge_free first s = bindE (rd_free s first) (\<lambda>f.
     if fr_next f = NULL then Inr s
     else bindE (rd_free s (fr_next f)) (\<lambda>n.
       if fr_base f + fr_size f = fr_base n
       then let hold = fr_next f;
                f' = f\<lparr>fr_size := fr_size f + fr_size n, fr_next := fr_next n\<rparr>;
                s1 = wr_free hold (n\<lparr>fr_next := free_free_structs s\<rparr>) (wr_free first f' s);
                s2 = s1\<lparr>free_free_structs := hold\<rparr>
            in Inr (if fr_next f' = NULL then s2\<lparr>free_end := first\<rparr> else s2)
       else Inr s))"

text \<open>The search of \<open>do_kmalloc\<close>: the first block that is large enough with its predecessor, or
  null with the last block.\<close>

partial_function (option) kmem_find :: "u32 \<Rightarrow> u32 \<Rightarrow> u32 \<Rightarrow> mem \<Rightarrow> (u32 \<times> u32) result option" where
  "kmem_find needed prev free s = (if free = NULL then Some (Inr (prev, NULL))
     else case m_frees s free of None \<Rightarrow> Some (Inl Fault)
     | Some f \<Rightarrow> if needed \<le> fr_size f then Some (Inr (prev, free))
                 else kmem_find needed free (fr_next f) s)"

text \<open>Taking a block: the whole of it when the rest could not hold a header, otherwise its start.\<close>

definition kmem_take_whole :: "u32 \<Rightarrow> u32 \<Rightarrow> kmem_free \<Rightarrow> mem \<Rightarrow> (u32 \<times> mem) result" where
  "kmem_take_whole prev free f s =
     (let size = fr_size f - sizeof_header in
      bindE (if prev = NULL then Inr (s\<lparr>free_list := fr_next f\<rparr>)
             else bindE (rd_free s prev) (\<lambda>pf. Inr (wr_free prev (pf\<lparr>fr_next := fr_next f\<rparr>) s))) (\<lambda>s1.
      let base = fr_base f;
          s2 = (if free = free_end s1 then s1\<lparr>free_end := prev\<rparr> else s1);
          s3 = (wr_free free (f\<lparr>fr_next := free_free_structs s2\<rparr>) s2)\<lparr>free_free_structs := free\<rparr>;
          s4 = wr_hdr base \<lparr>hd_size = size, hd_sentinel = SENTINEL_VAL\<rparr> s3;
          s5 = s4\<lparr>memory_used := memory_used s4 + (size + sizeof_header)\<rparr>
      in Inr (base + sizeof_header, s5)))"

definition kmem_take_start :: "u32 \<Rightarrow> u32 \<Rightarrow> u32 \<Rightarrow> kmem_free \<Rightarrow> mem \<Rightarrow> (u32 \<times> mem) result" where
  "kmem_take_start sz needed free f s =
     (let base = fr_base f;
          s1 = wr_free free (f\<lparr>fr_size := fr_size f - needed, fr_base := fr_base f + needed\<rparr>) s;
          s2 = wr_hdr base \<lparr>hd_size = sz, hd_sentinel = SENTINEL_VAL\<rparr> s1;
          s3 = s2\<lparr>memory_used := memory_used s2 + needed\<rparr>
      in Inr (base + sizeof_header, s3))"

definition kmem_take :: "u32 \<Rightarrow> u32 \<Rightarrow> u32 \<Rightarrow> u32 \<Rightarrow> mem \<Rightarrow> (u32 \<times> mem) result" where
  "kmem_take sz needed prev free s = bindE (rd_free s free) (\<lambda>f.
     if needed + sizeof_header \<ge> fr_size f then kmem_take_whole prev free f s
     else kmem_take_start sz needed free f s)"

text \<open>The rounding of a request: up to a multiple of four, at least a \<open>Page\<close>.\<close>

definition kmem_round :: "u32 \<Rightarrow> u32" where
  "kmem_round sz = (let size1 = (if sz mod 4 \<noteq> 0 then sz + (4 - sz mod 4) else sz)
     in if size1 < sizeof_Page then sizeof_Page else size1)"

text \<open>Whether an ordinary request would eat into the reserved area (64-bit comparison; the
  subtraction is 32-bit and wraps when \<open>memory_total\<close> is small, which the second disjunct covers).\<close>

definition kmem_too_full :: "u32 \<Rightarrow> mem \<Rightarrow> bool" where
  "kmem_too_full needed s \<longleftrightarrow>
     ucast (memory_total s - MINIMUM_PAGES * PAGE_SIZE) < (ucast (memory_used s) + ucast needed :: u64) \<or>
     memory_total s < MINIMUM_PAGES * PAGE_SIZE"

section \<open>Pages without \<open>kmalloc\<close>\<close>

text \<open>The loop that skips memory regions of the wrong type; the bound it compares with counts bytes, not
  entries, so that reading past the table comes first.\<close>

function next_region :: "mm_entry list \<Rightarrow> nat \<Rightarrow> nat result" where
  "next_region tab i = (if i < length tab then
      (if mm_type (tab ! i) \<noteq> 1 then next_region tab (Suc i) else Inr i)
     else Inl Fault)"
  by pat_completeness auto
termination by (relation "measure (\<lambda>(tab, i). length tab - i)") auto

declare next_region.simps [simp del]

definition region_end :: "mm_entry \<Rightarrow> u64" where
  "region_end e = mm_base e + mm_length e"

definition alloc_nokmalloc :: "u8 \<Rightarrow> u32 \<Rightarrow> mem \<Rightarrow> mem result" where
  "alloc_nokmalloc flags count s = bindE (enter_if (flags AND FLAG_NOLOCK = 0) s) (\<lambda>(saved, s0).
     if current_map s0 \<ge> length (mem_table s0) then Inl Fault else
     let e = mem_table s0 ! current_map s0;
         size0 = count * PAGE_SIZE;
         size = (if ucast (allocation_pointer s0 + size0) \<ge> region_end e
                 then ucast (region_end e - ucast (allocation_pointer s0)) else size0);
         pg = \<lparr>page_id = page_id_counter s0, mem_base = allocation_pointer s0,
               pg_flags = FLAG_ALLOCATED OR flags, consecutive = size div PAGE_SIZE, pg_next = NULL\<rparr>;
         s1 = s0\<lparr>page_id_counter := page_id_counter s0 + 1, static_page := pg,
                 allocation_pointer := mem_base pg + size\<rparr>
     in bindE (if ucast (mem_base pg + size) = region_end e
               then bindE (next_region (mem_table s1) (Suc (current_map s1))) (\<lambda>i.
                    if mm_base (mem_table s1 ! i) > 0xFFFFFFFF
                    then Inl (Panic ''Ran out of addressable physical memory!'')
                    else Inr (s1\<lparr>current_map := i, allocation_pointer := ucast (mm_base (mem_table s1 ! i))\<rparr>))
               else Inr s1) (\<lambda>s2.
        Inr (leave_if (flags AND FLAG_NOLOCK = 0) saved s2)))"

text \<open>\<open>used\<close>: move a chain of pages onto the list of used pages.\<close>

partial_function (option) page_used :: "u32 \<Rightarrow> bool \<Rightarrow> mem \<Rightarrow> mem result option" where
  "page_used p lock s =
     (case (if lock then mem_lock s else Inr s) of Inl e \<Rightarrow> Some (Inl e) | Inr s0 \<Rightarrow>
      case m_pages s0 p of None \<Rightarrow> Some (Inl Fault) | Some pg \<Rightarrow>
      let s1 = (wr_page p (pg\<lparr>pg_next := used_start s0\<rparr>) s0)\<lparr>used_start := p\<rparr>;
          s2 = (if lock then mem_unlock s1 else s1)
      in if pg_next pg \<noteq> NULL then page_used (pg_next pg) lock s2 else Some (Inr s2))"

text \<open>The inner loop of \<open>kinstall_append\<close>: map \<open>n\<close> pages at the virtual pointer.\<close>

fun kinstall_loop :: "nat \<Rightarrow> u32 \<Rightarrow> u32 \<Rightarrow> u32 \<Rightarrow> u32 \<Rightarrow> mem \<Rightarrow> (u32 \<times> mem) result" where
  "kinstall_loop 0 base page_flags i first s = Inr (first, s)"
| "kinstall_loop (Suc n) base page_flags i first s =
     (if TOTAL_VM_SIZE - unat PAGE_SIZE \<le> unat (virtual_pointer s)
      then Inl (Panic ''Ran out of kernel virtual address space!'')
      else kinstall_loop n base page_flags (i + 1)
             (if first = 0 then virtual_pointer s else first)
             (s\<lparr>m_ptes := (m_ptes s)(cursor s := (base + PAGE_SIZE * i) OR page_flags OR PAGE_TABLE_PRESENT),
                virtual_pointer := virtual_pointer s + PAGE_SIZE, cursor := cursor s + 4\<rparr>))"

text \<open>\<open>kinstall_append\<close>: the recursive call for the next page of the chain omits the third argument, whose
  default is to take the lock.\<close>

partial_function (option) kinstall_append :: "page \<Rightarrow> u32 \<Rightarrow> bool \<Rightarrow> mem \<Rightarrow> (u32 \<times> mem) result option" where
  "kinstall_append pg page_flags lock s =
     (case (if lock then mem_lock s else Inr s) of Inl e \<Rightarrow> Some (Inl e) | Inr s0 \<Rightarrow>
      case kinstall_loop (unat (consecutive pg)) (mem_base pg) page_flags 0 0 s0 of Inl e \<Rightarrow> Some (Inl e)
      | Inr (first, s1) \<Rightarrow>
        let s2 = s1\<lparr>memory_end := virtual_pointer s1\<rparr>;
            s3 = (if lock then mem_unlock s2 else s2)
        in if pg_next pg \<noteq> NULL
           then (case m_pages s3 (pg_next pg) of None \<Rightarrow> Some (Inl Fault) | Some nx \<Rightarrow>
                 Option.bind (kinstall_append nx page_flags True s3) (\<lambda>r. Some (bindE r (\<lambda>(_, s4). Inr (first, s4)))))
           else Some (Inr (first, s3)))"

section \<open>\<open>kmalloc\<close> and \<open>page::alloc\<close>\<close>

text \<open>How many pages an extension asks for.\<close>

definition kmem_pages_needed :: "u32 \<Rightarrow> u32 \<Rightarrow> mem \<Rightarrow> u32 result" where
  "kmem_pages_needed needed prev s =
     bindE (if prev \<noteq> NULL then bindE (rd_free s prev) (\<lambda>pf. Inr (if fr_base pf + fr_size pf = memory_end s
              then (needed + sizeof_Page + sizeof_free - fr_size pf) div PAGE_SIZE
              else (needed + sizeof_Page + sizeof_free) div PAGE_SIZE))
            else Inr ((needed + sizeof_Page + sizeof_free) div PAGE_SIZE)) (\<lambda>n.
     Inr (n + MINIMUM_PAGES))"

text \<open>Adding the newly mapped memory to the free list: by growing the block \<open>prev\<close> if it ends
  there, otherwise as a new block whose structure is at the start of the new memory.\<close>

definition kmem_add_memory :: "u32 \<Rightarrow> u32 \<Rightarrow> u32 \<Rightarrow> mem \<Rightarrow> mem result" where
  "kmem_add_memory prev new_page loc s = bindE (rd_page s new_page) (\<lambda>np.
     let fresh_block =
       (let space = consecutive np * PAGE_SIZE - sizeof_header - sizeof_free;
            free = loc + sizeof_header;
            s1 = wr_hdr loc \<lparr>hd_size = sizeof_free, hd_sentinel = SENTINEL_VAL\<rparr> s;
            s2 = wr_free free \<lparr>fr_size = space, fr_base = free + sizeof_free, fr_next = NULL\<rparr> s1
        in bindE (if free_end s2 \<noteq> NULL
                  then bindE (rd_free s2 (free_end s2)) (\<lambda>ef.
                       Inr (wr_free (free_end s2) (ef\<lparr>fr_next := free\<rparr>) s2))
                  else Inr (s2\<lparr>free_list := free\<rparr>)) (\<lambda>s3. Inr (s3\<lparr>free_end := free\<rparr>)))
     in if prev \<noteq> NULL
        then bindE (rd_free s prev) (\<lambda>pf.
             if fr_base pf + fr_size pf = loc
             then Inr (wr_free prev (pf\<lparr>fr_size := fr_size pf + consecutive np * PAGE_SIZE\<rparr>) s)
             else fresh_block)
        else fresh_block)"

fun kmalloc :: "nat \<Rightarrow> u32 \<Rightarrow> u8 \<Rightarrow> mem \<Rightarrow> (u32 \<times> mem) result"
  and do_kmalloc :: "nat \<Rightarrow> u32 \<Rightarrow> u8 \<Rightarrow> mem \<Rightarrow> (u32 \<times> mem) result"
  and page_alloc :: "nat \<Rightarrow> u8 \<Rightarrow> u32 \<Rightarrow> mem \<Rightarrow> (u32 \<times> mem) result" where
  "kmalloc 0 sz flags s = Inl OutOfFuel"
| "kmalloc (Suc k) sz flags s =
     bindE (enter_if (flags AND KMALLOC_NOLOCK = 0) s) (\<lambda>(saved, s1).
     bindE (do_kmalloc k sz flags s1) (\<lambda>(ret, s2).
     Inr (ret, leave_if (flags AND KMALLOC_NOLOCK = 0) saved s2)))"
| "do_kmalloc 0 sz flags s = Inl OutOfFuel"
| "do_kmalloc (Suc k) sz flags s =
     (if sz = 0 then Inr (NULL, s) else
      let size = kmem_round sz; needed = size + sizeof_header in
      bindE (if kmem_too_full needed s \<and> flags AND KMALLOC_RESERVED = 0 then Inr (NULL, NULL)
             else bindE (loopE (kmem_find needed NULL (free_list s) s)) (\<lambda>r. r)) (\<lambda>(prev, free).
      if free \<noteq> NULL then kmem_take size needed prev free s
      else
        bindE (kmem_pages_needed needed prev s) (\<lambda>pages_needed.
        bindE (page_alloc k (FLAG_KERNEL OR FLAG_RESERVED OR FLAG_NOLOCK) pages_needed s) (\<lambda>(new_page, s1).
        bindE (rd_page s1 new_page) (\<lambda>np.
        bindE (bindE (loopE (kinstall_append np PAGE_TABLE_RW False s1)) (\<lambda>r. r)) (\<lambda>(loc, s2).
        let s3 = s2\<lparr>memory_total := memory_total s2 + pages_needed * PAGE_SIZE\<rparr> in
        bindE (kmem_add_memory prev new_page loc s3) (\<lambda>s4.
        bindE (bindE (loopE (page_used new_page False s4)) (\<lambda>r. r)) (\<lambda>s5.
        kmalloc k size (flags OR KMALLOC_NOLOCK) s5))))))))"
| "page_alloc 0 flags count s = Inl OutOfFuel"
| "page_alloc (Suc k) flags count s =
     (if count = 0 then Inr (NULL, s) else
      let alloc_flag = (if flags AND FLAG_RESERVED \<noteq> 0 then KMALLOC_RESERVED else 0) OR KMALLOC_NOLOCK in
      bindE (enter_if (flags AND FLAG_NOLOCK = 0) s) (\<lambda>(saved, s0).
      bindE (if page_free_head s0 \<noteq> NULL
             then bindE (rd_page s0 (page_free_head s0)) (\<lambda>hd.
               if consecutive hd > count
               then bindE (kmalloc k sizeof_Page alloc_flag s0) (\<lambda>(np, s1).
                    bindE (rd_page s1 (page_free_head s1)) (\<lambda>hd1.
                    let s2 = wr_page np \<lparr>page_id = page_id_counter s1, mem_base = mem_base hd1,
                               pg_flags = flags, consecutive = count, pg_next = NULL\<rparr> s1;
                        s3 = wr_page (page_free_head s1) (hd1\<lparr>mem_base := mem_base hd1 + count * PAGE_SIZE,
                               consecutive := consecutive hd1 - count\<rparr>) s2
                    in Inr (np, s3\<lparr>page_id_counter := page_id_counter s3 + 1\<rparr>)))
               else let np = page_free_head s0 in
                    Inr (np, (wr_page np (hd\<lparr>pg_flags := flags, pg_next := NULL\<rparr>) s0)\<lparr>page_free_head := pg_next hd\<rparr>))
             else bindE (kmalloc k sizeof_Page alloc_flag s0) (\<lambda>(np, s1).
                  bindE (alloc_nokmalloc (flags OR FLAG_NOLOCK) count s1) (\<lambda>s2.
                  Inr (np, wr_page np (static_page s2) s2)))) (\<lambda>(np, s4).
      bindE (rd_page s4 np) (\<lambda>pg.
      bindE (if consecutive pg < count
             then bindE (page_alloc k flags (count - consecutive pg) s4) (\<lambda>(rest, s5).
                  bindE (rd_page s5 np) (\<lambda>pg5. Inr (wr_page np (pg5\<lparr>pg_next := rest\<rparr>) s5)))
             else Inr s4) (\<lambda>s6.
      Inr (np, leave_if (flags AND FLAG_NOLOCK = 0) saved s6))))))"

section \<open>\<open>kfree\<close>\<close>

definition get_struct :: "nat \<Rightarrow> mem \<Rightarrow> (u32 \<times> mem) result" where
  "get_struct k s = (if free_free_structs s \<noteq> NULL
     then let hold = free_free_structs s in
          bindE (rd_free s hold) (\<lambda>f. Inr (hold, s\<lparr>free_free_structs := fr_next f\<rparr>))
     else kmalloc k sizeof_free (KMALLOC_RESERVED OR KMALLOC_NOLOCK) s)"

text \<open>The search of \<open>kfree\<close> for the first free block at or above the freed one.\<close>

partial_function (option) kmem_locate :: "u32 \<Rightarrow> u32 \<Rightarrow> u32 \<Rightarrow> mem \<Rightarrow> (u32 \<times> u32) result option" where
  "kmem_locate hdr prev now s = (if now = NULL then Some (Inr (prev, NULL))
     else case m_frees s now of None \<Rightarrow> Some (Inl Fault)
     | Some f \<Rightarrow> if fr_base f < hdr then kmem_locate hdr now (fr_next f) s else Some (Inr (prev, now)))"

definition kmem_insert_free :: "u32 \<Rightarrow> u32 \<Rightarrow> u32 \<Rightarrow> mem \<Rightarrow> mem result" where
  "kmem_insert_free new_entry hdr full_size s =
     (if free_list s = NULL
      then Inr ((wr_free new_entry \<lparr>fr_size = full_size, fr_base = hdr, fr_next = NULL\<rparr> s)
                  \<lparr>free_list := new_entry, free_end := new_entry\<rparr>)
      else bindE (bindE (loopE (kmem_locate hdr NULL (free_list s) s)) (\<lambda>r. r)) (\<lambda>(prev, now).
        let s1 = wr_free new_entry \<lparr>fr_size = full_size, fr_base = hdr, fr_next = now\<rparr> s in
        bindE (if prev \<noteq> NULL
               then bindE (rd_free s1 prev) (\<lambda>pf. Inr (wr_free prev (pf\<lparr>fr_next := new_entry\<rparr>) s1))
               else Inr (s1\<lparr>free_list := new_entry\<rparr>)) (\<lambda>s2.
        let s3 = (if now = NULL then s2\<lparr>free_end := new_entry\<rparr> else s2) in
        bindE (kmem_merge_free new_entry s3) (\<lambda>s4.
        if prev \<noteq> NULL then kmem_merge_free prev s4 else Inr s4))))"

definition kfree_nolock :: "nat \<Rightarrow> u32 \<Rightarrow> mem \<Rightarrow> mem result" where
  "kfree_nolock k ptr s = (if ptr = NULL then Inr s else
     let hdr = ptr - sizeof_header in
     bindE (rd_hdr s hdr) (\<lambda>hd.
     let full_size = hd_size hd + sizeof_header in
     if hd_sentinel hd = SENTINEL_FREED then Inl (Panic ''Suspected double free found!'')
     else if hd_sentinel hd \<noteq> SENTINEL_VAL then Inl (Panic ''Sentinel value was not set correctly!'')
     else bindE (get_struct k (wr_hdr hdr (hd\<lparr>hd_sentinel := SENTINEL_FREED\<rparr>) s)) (\<lambda>(new_entry, s1).
          bindE (kmem_insert_free new_entry hdr full_size s1) (\<lambda>s2.
          bindE (rd_hdr s2 hdr) (\<lambda>hd2.
          Inr (s2\<lparr>memory_used := memory_used s2 - (hd_size hd2 + sizeof_header)\<rparr>))))))"

definition kfree :: "nat \<Rightarrow> u32 \<Rightarrow> mem \<Rightarrow> mem result" where
  "kfree k ptr s = bindE (enter_if True s) (\<lambda>(saved, s1).
     bindE (kfree_nolock k ptr s1) (\<lambda>s2. Inr (leave_if True saved s2)))"

section \<open>Initialisation\<close>

record map_t =
  kernel_ro_start :: u32
  kernel_ro_end :: u32
  kernel_rw_start :: u32
  kernel_rw_end :: u32
  kernel_info_start :: u32
  kernel_info_end :: u32
  vm_start :: u32
  vm_end :: u32
  memory_start :: u32

text \<open>The kernel map from the map of the low half and the linker's \<open>_endofro\<close> and \<open>_endofrw\<close>. The page
  directory and the kernel's page tables follow the kernel image.\<close>

definition kmem_map :: "map_t \<Rightarrow> u32 \<Rightarrow> u32 \<Rightarrow> map_t" where
  "kmem_map map_low endofro endofrw =
     (let info_end = endofrw + (kernel_info_end map_low - kernel_info_start map_low);
          vmend = info_end + 4 * of_nat PAGE_TABLE_LENGTH
                  + (4 * of_nat PAGE_TABLE_LENGTH) * of_nat KERNEL_VM_PAGE_TABLES
      in \<lparr>kernel_ro_start = endofro - (kernel_ro_end map_low - kernel_ro_start map_low),
          kernel_ro_end = endofro, kernel_rw_start = endofro, kernel_rw_end = endofrw,
          kernel_info_start = endofrw, kernel_info_end = info_end,
          vm_start = info_end, vm_end = vmend, memory_start = vmend\<rparr>)"

function first_region :: "mm_entry list \<Rightarrow> nat \<Rightarrow> u32 \<Rightarrow> nat result" where
  "first_region tab i p = (if i < length tab then
      (if region_end (tab ! i) < ucast p then first_region tab (Suc i) p else Inr i)
     else Inl Fault)"
  by pat_completeness auto
termination by (relation "measure (\<lambda>(tab, i, p). length tab - i)") auto

declare first_region.simps [simp del]

definition PAGE_TABLE_NOFLAGS :: "u32 \<Rightarrow> u32" where
  "PAGE_TABLE_NOFLAGS x = x AND NOT 0xfff"

text \<open>\<open>page::init\<close>. The table pointer has \<open>KERNEL_VM_BASE\<close> added as a count of 4096-byte tables, which is
  nothing modulo \<open>2^32\<close>; the cursor then has it added in bytes.\<close>

definition page_init :: "map_t \<Rightarrow> mem \<Rightarrow> mem result" where
  "page_init m s =
     (let ap = memory_start m - KERNEL_VM_BASE in
      bindE (first_region (mem_table s) 0 ap) (\<lambda>i.
      let table = PAGE_TABLE_NOFLAGS (m_ptes s (vm_start m + 4 * drop_bit 22 (vm_end m)))
                    + 4096 * KERNEL_VM_BASE;
          cur = table + 4 * (drop_bit 12 (vm_end m) AND 0x3ff) + KERNEL_VM_BASE
      in Inr (s\<lparr>allocation_pointer := ap, current_map := i, page_dir := vm_start m, cursor := cur,
               virtual_pointer := vm_end m\<rparr>)))"

definition kmem_init :: "map_t \<Rightarrow> u32 \<Rightarrow> u32 \<Rightarrow> mem \<Rightarrow> mem result" where
  "kmem_init map_low endofro endofrw s =
     bindE (page_init (kmem_map map_low endofro endofrw) s) (\<lambda>s1.
     bindE (alloc_nokmalloc FLAG_KERNEL 1 s1) (\<lambda>s2.
     bindE (bindE (loopE (kinstall_append (static_page s2) PAGE_TABLE_RW True s2)) (\<lambda>r. r)) (\<lambda>(base, s3).
     let s4 = wr_page (base + 8) (static_page s3)
                (wr_hdr base \<lparr>hd_size = sizeof_Page, hd_sentinel = SENTINEL_VAL\<rparr> s3);
         s5 = wr_hdr (base + 28) \<lparr>hd_size = sizeof_free, hd_sentinel = SENTINEL_VAL\<rparr>
                (s4\<lparr>kernel_start := base + 8\<rparr>);
         fb = \<lparr>fr_size = PAGE_SIZE - 36 - sizeof_free, fr_base = base + 36 + sizeof_free, fr_next = NULL\<rparr>;
         s6 = wr_free (base + 36) fb s5
     in Inr (s6\<lparr>free_list := base + 36, free_end := base + 36, memory_end := fr_base fb + fr_size fb,
                memory_total := PAGE_SIZE, memory_used := 48\<rparr>))))"

definition kmem_clear_bottom :: "map_t \<Rightarrow> mem \<Rightarrow> mem" where
  "kmem_clear_bottom m s = s\<lparr>m_ptes := (m_ptes s)(vm_start m := 0)\<rparr>"

section \<open>The consistency check \<open>_verify\<close>\<close>

partial_function (option) kmem_in_structs :: "u32 \<Rightarrow> u32 \<Rightarrow> mem \<Rightarrow> bool result option" where
  "kmem_in_structs now frees s = (if frees = NULL then Some (Inr False)
     else case m_frees s frees of None \<Rightarrow> Some (Inl Fault)
     | Some f \<Rightarrow> if frees = now then Some (Inr True) else kmem_in_structs now (fr_next f) s)"

definition kmem_check_node :: "u32 \<Rightarrow> u32 \<Rightarrow> mem \<Rightarrow> unit result" where
  "kmem_check_node prev now s = bindE (rd_free s now) (\<lambda>f.
     bindE (if fr_next f = NULL then Inr () else
       bindE (rd_free s (fr_next f)) (\<lambda>n.
       if fr_base n < fr_base f then Inl (Panic ''Memory corruption, list out of order'') else
       bindE (if prev = NULL then Inr () else bindE (rd_free s prev) (\<lambda>p.
         if fr_base p = fr_base f then Inl (Panic ''Memory corruption, same start address'')
         else if fr_base p + fr_size p > fr_base f then Inl (Panic ''Memory corruption, overlapping free'')
         else Inr ())) (\<lambda>_.
       if fr_base f < 0xc01000 then Inl (Panic ''Memory corruption, memory less than 0xc01000'')
       else if fr_next f = now then Inl (Panic ''Memory corruption, free linked to itself'')
       else Inr ()))) (\<lambda>_.
     bindE (bindE (loopE (kmem_in_structs now (free_free_structs s) s)) (\<lambda>r. r)) (\<lambda>found.
     if found then Inl (Panic ''Memory corruption, entry is in free structs list'') else Inr ())))"

partial_function (option) kmem_verify_loop :: "u32 \<Rightarrow> u32 \<Rightarrow> mem \<Rightarrow> u32 result option" where
  "kmem_verify_loop prev now s = (if now = NULL then Some (Inr prev)
     else case kmem_check_node prev now s of Inl e \<Rightarrow> Some (Inl e)
     | Inr _ \<Rightarrow> (case m_frees s now of None \<Rightarrow> Some (Inl Fault)
                 | Some f \<Rightarrow> kmem_verify_loop now (fr_next f) s))"

definition kmem_verify :: "mem \<Rightarrow> unit result" where
  "kmem_verify s = bindE (bindE (loopE (kmem_verify_loop NULL (free_list s) s)) (\<lambda>r. r)) (\<lambda>prev.
     if free_end s \<noteq> prev then Inl (Panic ''Memory corruption, end of free array not set correctly'')
     else Inr ())"

section \<open>Invariant\<close>

text \<open>A region is a start and a length; free blocks and allocated blocks with their headers are regions.\<close>

type_synonym region = "nat \<times> nat"

definition reg :: "kmem_free \<Rightarrow> region" where
  "reg f = (unat (fr_base f), unat (fr_size f))"

definition reg_bytes :: "region \<Rightarrow> nat set" where
  "reg_bytes r = {fst r ..< fst r + snd r}"

definition reg_ok :: "region \<Rightarrow> bool" where
  "reg_ok r \<longleftrightarrow> 0 < snd r \<and> unat KERNEL_VM_BASE \<le> fst r \<and> fst r + snd r < 2 ^ 32"

definition before :: "region \<Rightarrow> region \<Rightarrow> bool" where
  "before r q \<longleftrightarrow> fst r + snd r \<le> fst q"

definition block_bytes :: "u32 \<Rightarrow> kmem_header \<Rightarrow> nat set" where
  "block_bytes h hr = reg_bytes (unat h, unat (hd_size hr) + 8)"

definition live :: "mem \<Rightarrow> u32 \<Rightarrow> kmem_header \<Rightarrow> bool" where
  "live s h hr \<longleftrightarrow> m_hdrs s h = Some hr \<and> hd_sentinel hr = SENTINEL_VAL"

definition regs :: "mem \<Rightarrow> u32 list \<Rightarrow> region list" where
  "regs s as = map (\<lambda>a. case m_frees s a of Some f \<Rightarrow> reg f) as"

definition fr_nx :: "mem \<Rightarrow> u32 \<Rightarrow> u32" where
  "fr_nx s a = (case m_frees s a of None \<Rightarrow> NULL | Some f \<Rightarrow> fr_next f)"

text \<open>\<open>kmem_rep s as bs\<close>: the free list is \<open>as\<close>, in address order without overlap, and the list of spare
  structures is \<open>bs\<close>. \<open>blocks_ok\<close>: allocated blocks overlap neither each other nor free memory.\<close>

definition last_or :: "u32 list \<Rightarrow> u32" where
  "last_or xs = (if xs = [] then NULL else last xs)"

definition kmem_rep :: "mem \<Rightarrow> u32 list \<Rightarrow> u32 list \<Rightarrow> bool" where
  "kmem_rep s as bs \<longleftrightarrow>
     linked (fr_nx s) (free_list s) as \<and> linked (fr_nx s) (free_free_structs s) bs \<and>
     set as \<subseteq> dom (m_frees s) \<and> set bs \<subseteq> dom (m_frees s) \<and> set as \<inter> set bs = {} \<and>
     free_end s = last_or as \<and>
     (\<forall>r \<in> set (regs s as). reg_ok r) \<and> sorted_wrt before (regs s as)"

definition free_space :: "mem \<Rightarrow> u32 list \<Rightarrow> nat set" where
  "free_space s as = \<Union> (reg_bytes ` set (regs s as))"

definition blocks_ok :: "mem \<Rightarrow> u32 list \<Rightarrow> bool" where
  "blocks_ok s as \<longleftrightarrow>
     (\<forall>h hr. live s h hr \<longrightarrow> reg_ok (unat h, unat (hd_size hr) + 8) \<and> block_bytes h hr \<inter> free_space s as = {}) \<and>
     (\<forall>h hr h' hr'. live s h hr \<longrightarrow> live s h' hr' \<longrightarrow> h \<noteq> h' \<longrightarrow> block_bytes h hr \<inter> block_bytes h' hr' = {})"

text \<open>The allocator's structures live in allocated blocks of their own. \<open>kmem_inv\<close> is the whole invariant.\<close>

definition nodes_ok :: "mem \<Rightarrow> u32 set \<Rightarrow> bool" where
  "nodes_ok s ns \<longleftrightarrow> (\<forall>a \<in> ns. \<exists>hr. live s (a - sizeof_header) hr)"

definition kmem_inv :: "mem \<Rightarrow> u32 list \<Rightarrow> u32 list \<Rightarrow> bool" where
  "kmem_inv s as bs \<longleftrightarrow> kmem_rep s as bs \<and> blocks_ok s as \<and> nodes_ok s (set as \<union> set bs)"

end
