(* ===== verification/KmemInv.thy ===== *)
theory KmemInv
  imports Kmem
begin

text \<open>
  Correctness of the kernel heap: \<open>kmalloc\<close> hands out memory that was free and overlaps no block
  in use, \<open>kfree\<close> gives exactly that memory back and joins it with its neighbours, and the structure
  that \<open>_verify\<close> checks is kept throughout.
\<close>

section \<open>Free structures\<close>

lemma mem_sel_wr [simp]:
  "free_list (wr_free p f s) = free_list s" "free_end (wr_free p f s) = free_end s"
  "free_free_structs (wr_free p f s) = free_free_structs s" "memory_used (wr_free p f s) = memory_used s"
  "memory_total (wr_free p f s) = memory_total s" "memory_end (wr_free p f s) = memory_end s"
  "m_hdrs (wr_free p f s) = m_hdrs s" "m_mutex (wr_free p f s) = m_mutex s" "m_eflags (wr_free p f s) = m_eflags s"
  "m_pages (wr_free p f s) = m_pages s" "m_frees (wr_free p f s) = (m_frees s)(p \<mapsto> f)"
  by (simp_all add: wr_free_def)

lemma mem_sel_wr_hdr [simp]:
  "free_list (wr_hdr p h s) = free_list s" "free_end (wr_hdr p h s) = free_end s"
  "free_free_structs (wr_hdr p h s) = free_free_structs s" "memory_used (wr_hdr p h s) = memory_used s"
  "memory_total (wr_hdr p h s) = memory_total s" "memory_end (wr_hdr p h s) = memory_end s"
  "m_frees (wr_hdr p h s) = m_frees s" "m_mutex (wr_hdr p h s) = m_mutex s" "m_eflags (wr_hdr p h s) = m_eflags s"
  "m_pages (wr_hdr p h s) = m_pages s" "m_hdrs (wr_hdr p h s) = (m_hdrs s)(p \<mapsto> h)"
  by (simp_all add: wr_hdr_def)

lemma rd_free_Some [simp]: "m_frees s p = Some f \<Longrightarrow> rd_free s p = Inr f"
  by (simp add: rd_free_def)

lemma rd_hdr_Some [simp]: "m_hdrs s p = Some f \<Longrightarrow> rd_hdr s p = Inr f"
  by (simp add: rd_hdr_def)

lemma last_or_simps [simp]: "last_or [] = NULL" "last_or (xs @ [x]) = x"
  "last_or (x # xs) = (if xs = [] then x else last_or xs)"
  by (simp_all add: last_or_def)

lemma last_or_append: "last_or (xs @ ys) = (if ys = [] then last_or xs else last_or ys)"
  by (simp add: last_or_def)

lemma reg_simps [simp]:
  "reg (f\<lparr>fr_next := x\<rparr>) = reg f" "fst (reg f) = unat (fr_base f)" "snd (reg f) = unat (fr_size f)"
  by (simp_all add: reg_def)

lemma fr_nx_wr [simp]: "fr_nx (wr_free p f s) = (fr_nx s)(p := fr_next f)"
  by (auto simp: fr_nx_def)

lemma fr_nx_Some [simp]: "m_frees s a = Some f \<Longrightarrow> fr_nx s a = fr_next f"
  by (simp add: fr_nx_def)

lemma regs_simps [simp]:
  "regs s [] = []" "regs s (as @ bs) = regs s as @ regs s bs"
  "regs s (a # as) = (case m_frees s a of Some f \<Rightarrow> reg f) # regs s as"
  by (simp_all add: regs_def)

lemma regs_wr [simp]: "p \<notin> set as \<Longrightarrow> regs (wr_free p f s) as = regs s as"
  by (auto simp: regs_def)

lemma regs_relink [simp]:
  "m_frees s p = Some f \<Longrightarrow> regs (wr_free p (f\<lparr>fr_next := x\<rparr>) s) as = regs s as"
  by (auto simp: regs_def)

lemma free_space_simps [simp]:
  "free_space s [] = {}" "free_space s (as @ bs) = free_space s as \<union> free_space s bs"
  "free_space s (a # as) = reg_bytes (case m_frees s a of Some f \<Rightarrow> reg f) \<union> free_space s as"
  by (auto simp: free_space_def)

text \<open>The representation depends on the structures and the three list heads only.\<close>

lemma mem_cong:
  assumes "m_frees s = m_frees t"
  shows "fr_nx s = fr_nx t" and "regs s as = regs t as" and "free_space s as = free_space t as"
  using assms by (auto simp: fr_nx_def regs_def free_space_def fun_eq_iff)

lemma kmem_rep_cong:
  assumes "m_frees s = m_frees t" "free_list s = free_list t" "free_end s = free_end t"
    "free_free_structs s = free_free_structs t"
  shows "kmem_rep s as bs = kmem_rep t as bs"
  using assms mem_cong [OF assms(1)] by (simp add: kmem_rep_def)

lemma kmem_rep_distinct:
  assumes "kmem_rep s as bs"
  shows "distinct as" "distinct bs" "NULL \<notin> set as" "NULL \<notin> set bs"
  using assms unfolding kmem_rep_def by (auto dest: linked_distinct chain_nonnull)

text \<open>The parts of a representation around one block of the free list.\<close>

lemma kmem_rep_at:
  assumes "kmem_rep s (xs @ a # ys) bs" and f: "m_frees s a = Some f"
  shows "a \<noteq> NULL" "chain (fr_nx s) (free_list s) xs a" "linked (fr_nx s) (fr_next f) ys" "reg_ok (reg f)"
    "\<forall>x \<in> set (regs s xs). before x (reg f)" "\<forall>y \<in> set (regs s ys). before (reg f) y"
    "a \<notin> set xs" "a \<notin> set ys" "a \<notin> set bs" "set xs \<inter> set ys = {}"
  using assms kmem_rep_distinct [OF assms(1)] by (auto simp: kmem_rep_def chain_append sorted_wrt_append)

lemma kmem_rep_last:
  assumes "kmem_rep s (xs @ ys) bs" and "xs \<noteq> []"
  obtains us u f where "xs = us @ [u]" "last_or xs = u" "u \<noteq> NULL" "m_frees s u = Some f"
    "u \<notin> set us" "u \<notin> set ys" "u \<notin> set bs"
proof -
  from assms(2) obtain us u where u: "xs = us @ [u]" by (metis append_butlast_last_id)
  with assms(1) obtain f where "m_frees s u = Some f" by (auto simp: kmem_rep_def)
  with u that kmem_rep_at [of s us u ys bs f] assms(1) show thesis by auto
qed

section \<open>Searching\<close>

definition fits :: "mem \<Rightarrow> u32 \<Rightarrow> u32 \<Rightarrow> bool" where
  "fits s needed a \<longleftrightarrow> (case m_frees s a of None \<Rightarrow> False | Some f \<Rightarrow> needed \<le> fr_size f)"

lemma kmem_find_first:
  "chain (fr_nx s) p (xs @ [a]) q \<Longrightarrow> set xs \<subseteq> dom (m_frees s) \<Longrightarrow> \<forall>x \<in> set xs. \<not> fits s needed x \<Longrightarrow>
   fits s needed a \<Longrightarrow> kmem_find needed prev p s = Some (Inr (if xs = [] then prev else last_or xs, a))"
proof (induction xs arbitrary: p prev)
  case Nil
  then show ?case by (subst kmem_find.simps) (auto simp: fits_def split: option.splits)
next
  case (Cons x xs)
  then obtain f where f: "m_frees s x = Some f" by auto
  have "kmem_find needed x (fr_next f) s = Some (Inr (if xs = [] then x else last_or xs, a))"
    by (rule Cons.IH) (use Cons.prems f in auto)
  with Cons.prems f show ?case by (subst kmem_find.simps) (auto simp: fits_def)
qed

lemma kmem_find_none:
  "linked (fr_nx s) p xs \<Longrightarrow> set xs \<subseteq> dom (m_frees s) \<Longrightarrow> \<forall>x \<in> set xs. \<not> fits s needed x \<Longrightarrow>
   kmem_find needed prev p s = Some (Inr (if xs = [] then prev else last_or xs, NULL))"
proof (induction xs arbitrary: p prev)
  case Nil
  then show ?case by (subst kmem_find.simps) simp
next
  case (Cons x xs)
  then obtain f where f: "m_frees s x = Some f" by auto
  have "kmem_find needed x (fr_next f) s = Some (Inr (if xs = [] then x else last_or xs, NULL))"
    by (rule Cons.IH) (use Cons.prems f in auto)
  with Cons.prems f show ?case by (subst kmem_find.simps) (auto simp: fits_def)
qed

text \<open>The first fitting block splits the free list.\<close>

lemma first_fit:
  assumes "\<exists>a \<in> set as. fits s needed a"
  obtains xs a ys where "as = xs @ a # ys" "fits s needed a" "\<forall>x \<in> set xs. \<not> fits s needed x"
  using split_list_first_prop [OF assms] that by blast

section \<open>Taking a block\<close>

lemma wordle_nat: "(a :: u32) \<le> b \<longleftrightarrow> unat a \<le> unat b" and wordlt_nat: "(a :: u32) < b \<longleftrightarrow> unat a < unat b"
  by (simp_all add: word_le_nat_alt word_less_nat_alt)

lemma before_disjoint: "before r q \<Longrightarrow> reg_bytes r \<inter> reg_bytes q = {}"
  by (auto simp: before_def reg_bytes_def)

lemma free_space_others:
  assumes "kmem_rep s (xs @ a # ys) bs" and "m_frees s a = Some f"
  shows "reg_bytes (reg f) \<inter> (free_space s xs \<union> free_space s ys) = {}"
  using kmem_rep_at(5,6) [OF assms] before_disjoint unfolding free_space_def by blast

lemma kmem_take_start_rep:
  assumes rep: "kmem_rep s (xs @ a # ys) bs" and f: "m_frees s a = Some f"
    and ne: "needed = sz + 8" and n: "unat needed = unat sz + 8" and lt: "unat needed < unat (fr_size f)"
  defines "hr \<equiv> \<lparr>hd_size = sz, hd_sentinel = SENTINEL_VAL\<rparr>"
  shows "\<exists>s'. kmem_take_start sz needed a f s = Inr (fr_base f + 8, s') \<and>
      kmem_rep s' (xs @ a # ys) bs \<and>
      free_space s' (xs @ a # ys) = free_space s (xs @ a # ys) - block_bytes (fr_base f) hr \<and>
      block_bytes (fr_base f) hr \<subseteq> free_space s (xs @ a # ys) \<and>
      m_hdrs s' = (m_hdrs s)(fr_base f \<mapsto> hr) \<and> memory_used s' = memory_used s + (hd_size hr + 8) \<and>
      m_mutex s' = m_mutex s \<and> m_eflags s' = m_eflags s"
proof -
  note p = kmem_rep_at [OF rep f]
  let ?f' = "f\<lparr>fr_size := fr_size f - needed, fr_base := fr_base f + needed\<rparr>"
  let ?t = "wr_free a ?f' s"
  let ?s' = "(wr_hdr (fr_base f) hr ?t)\<lparr>memory_used := memory_used s + needed\<rparr>"
  have eq: "kmem_take_start sz needed a f s = Inr (fr_base f + 8, ?s')"
    by (simp add: kmem_take_start_def Let_def hr_def)
  have sz: "unat (fr_size f - needed) = unat (fr_size f) - unat needed"
    using lt by (intro unat_sub_le) (simp add: wordle_nat)
  have bs: "unat (fr_base f + needed) = unat (fr_base f) + unat needed"
    using p(4) lt by (intro unat_add_lt) (simp add: reg_ok_def)
  have ok: "reg_ok (reg ?f')" using p(4) lt sz bs by (auto simp: reg_ok_def)
  have "\<forall>x \<in> set (regs s xs). before x (reg ?f')" "\<forall>y \<in> set (regs s ys). before (reg ?f') y"
    using p(5,6) sz bs lt by (auto simp: before_def)
  then have "kmem_rep ?t (xs @ a # ys) bs"
    using rep p f ok by (auto simp: kmem_rep_def sorted_wrt_append fun_upd_idem)
  then have rep': "kmem_rep ?s' (xs @ a # ys) bs"
    by (subst kmem_rep_cong [of ?s' ?t]) simp_all
  have bb: "block_bytes (fr_base f) hr = {unat (fr_base f) ..< unat (fr_base f) + unat needed}"
    using n by (simp add: block_bytes_def reg_bytes_def hr_def)
  have split: "reg_bytes (reg f) = block_bytes (fr_base f) hr \<union> reg_bytes (reg ?f')"
      "reg_bytes (reg ?f') \<inter> block_bytes (fr_base f) hr = {}"
    using sz bs lt unfolding bb by (auto simp: reg_bytes_def)
  have "free_space ?t (xs @ a # ys) = free_space s (xs @ a # ys) - block_bytes (fr_base f) hr"
    using split free_space_others [OF rep f] f p(7,8) unfolding free_space_def by auto
  moreover have "free_space ?s' (xs @ a # ys) = free_space ?t (xs @ a # ys)" by (rule mem_cong(3)) simp
  ultimately show ?thesis using eq rep' split f ne by (auto simp: hr_def)
qed

lemma kmem_take_whole_rep:
  assumes rep: "kmem_rep s (xs @ a # ys) bs" and f: "m_frees s a = Some f" and ge: "8 \<le> fr_size f"
  defines "hr \<equiv> \<lparr>hd_size = fr_size f - 8, hd_sentinel = SENTINEL_VAL\<rparr>"
  shows "\<exists>s'. kmem_take_whole (last_or xs) a f s = Inr (fr_base f + 8, s') \<and>
      kmem_rep s' (xs @ ys) (a # bs) \<and>
      free_space s' (xs @ ys) = free_space s (xs @ a # ys) - block_bytes (fr_base f) hr \<and>
      block_bytes (fr_base f) hr \<subseteq> free_space s (xs @ a # ys) \<and>
      m_hdrs s' = (m_hdrs s)(fr_base f \<mapsto> hr) \<and> memory_used s' = memory_used s + (hd_size hr + 8) \<and>
      m_mutex s' = m_mutex s \<and> m_eflags s' = m_eflags s"
proof -
  note p = kmem_rep_at [OF rep f]
  let ?fa = "f\<lparr>fr_next := free_free_structs s\<rparr>"
  let ?fe = "if a = free_end s then last_or xs else free_end s"
  have unlink: "\<exists>s1. (if last_or xs = NULL then Inr (s\<lparr>free_list := fr_next f\<rparr>) else bindE (rd_free s (last_or xs))
       (\<lambda>pf. Inr (wr_free (last_or xs) (pf\<lparr>fr_next := fr_next f\<rparr>) s))) = Inr s1 \<and>
     chain (fr_nx s1) (free_list s1) xs (fr_next f) \<and> (\<forall>cs. regs s1 cs = regs s cs) \<and>
     (\<forall>x. x \<notin> set xs \<longrightarrow> m_frees s1 x = m_frees s x) \<and> dom (m_frees s1) = dom (m_frees s) \<and>
     m_frees s1 a = Some f \<and> free_end s1 = free_end s \<and> free_free_structs s1 = free_free_structs s \<and>
     m_hdrs s1 = m_hdrs s \<and> memory_used s1 = memory_used s \<and> m_mutex s1 = m_mutex s \<and> m_eflags s1 = m_eflags s"
  proof (cases "xs = []")
    case True
    then show ?thesis using f by (auto simp: regs_def)
  next
    case False
    from kmem_rep_last [OF rep False] obtain us u fu where
      u: "xs = us @ [u]" "last_or xs = u" "u \<noteq> NULL" "m_frees s u = Some fu" "u \<notin> set us" "u \<notin> set (a # ys)" .
    have "chain (fr_nx s) (free_list s) us u" using p(2) u by (auto simp: chain_append)
    with u f show ?thesis by (auto simp: chain_append)
  qed
  then obtain s1 where
    s1: "(if last_or xs = NULL then Inr (s\<lparr>free_list := fr_next f\<rparr>) else bindE (rd_free s (last_or xs))
       (\<lambda>pf. Inr (wr_free (last_or xs) (pf\<lparr>fr_next := fr_next f\<rparr>) s))) = Inr s1"
     "chain (fr_nx s1) (free_list s1) xs (fr_next f)" "\<And>cs. regs s1 cs = regs s cs"
     "\<And>x. x \<notin> set xs \<Longrightarrow> m_frees s1 x = m_frees s x" "dom (m_frees s1) = dom (m_frees s)"
     "m_frees s1 a = Some f" and sel: "free_end s1 = free_end s" "free_free_structs s1 = free_free_structs s"
     "m_hdrs s1 = m_hdrs s" "memory_used s1 = memory_used s" "m_mutex s1 = m_mutex s" "m_eflags s1 = m_eflags s"
    by blast
  let ?t = "(wr_free a ?fa (s1\<lparr>free_end := ?fe\<rparr>))\<lparr>free_free_structs := a\<rparr>"
  let ?s' = "(wr_hdr (fr_base f) hr ?t)\<lparr>memory_used := memory_used s + (fr_size f - 8 + 8)\<rparr>"
  have eq: "kmem_take_whole (last_or xs) a f s = Inr (fr_base f + 8, ?s')"
    using s1(1) sel unfolding hr_def kmem_take_whole_def Let_def by (auto simp: wr_free_def wr_hdr_def)
  have nx: "fr_nx s1 x = fr_nx s x" if "x \<notin> set xs" for x using s1(4) [OF that] by (simp add: fr_nx_def)
  have xb: "set xs \<inter> set bs = {}" using rep by (auto simp: kmem_rep_def)
  have "linked (fr_nx s1) (fr_next f) ys"
    using p(3) chain_cong [of ys "fr_nx s1" "fr_nx s"] nx p(10) by blast
  moreover have "linked (fr_nx s1) (free_free_structs s) bs"
    using rep chain_cong [of bs "fr_nx s1" "fr_nx s"] nx xb unfolding kmem_rep_def by blast
  moreover have nt: "fr_nx ?t = (fr_nx s1)(a := free_free_structs s)"
    using mem_cong(1) [of ?t "wr_free a ?fa s1"] by simp
  ultimately have lists: "linked (fr_nx ?t) (free_list ?t) (xs @ ys)" "linked (fr_nx ?t) a (a # bs)"
    using s1(2) p(1,7,8,9) unfolding nt by (auto simp: chain_append)
  have fe: "?fe = last_or (xs @ ys)"
    using rep p(7,8) last_in_set [of ys] by (auto simp: kmem_rep_def last_or_append last_or_def)
  have rg: "regs ?t (xs @ ys) = regs s xs @ regs s ys"
    using s1(3,6) p(7,8) mem_cong(2) [of ?t "wr_free a ?fa s1"] by simp
  have rep': "kmem_rep ?s' (xs @ ys) (a # bs)"
  proof (subst kmem_rep_cong [of ?s' ?t])
    show "kmem_rep ?t (xs @ ys) (a # bs)"
      using lists fe rg rep s1(5) p unfolding kmem_rep_def by (auto simp: sorted_wrt_append)
  qed simp_all
  have e8: "fr_size f - 8 + 8 = fr_size f" "unat (fr_size f - 8) + 8 = unat (fr_size f)"
    using ge unat_sub_le [OF ge] by (simp_all add: wordle_nat)
  have bb: "block_bytes (fr_base f) hr = reg_bytes (reg f)"
    using e8 by (simp add: block_bytes_def hr_def reg_def)
  have "free_space ?s' (xs @ ys) = free_space s (xs @ a # ys) - block_bytes (fr_base f) hr"
    using rg free_space_others [OF rep f] f mem_cong(2) [of ?s' ?t] unfolding bb by (auto simp: free_space_def)
  then show ?thesis using eq rep' e8 f sel bb by (auto simp: hr_def)
qed

text \<open>Either way: the block is taken out of the free space and becomes a live block.\<close>

definition took :: "u32 \<Rightarrow> mem \<Rightarrow> u32 list \<Rightarrow> u32 list \<Rightarrow> u32 \<Rightarrow> mem \<Rightarrow> bool" where
  "took sz s as bs ptr s' \<longleftrightarrow> (\<exists>as' bs' hr. ptr \<noteq> NULL \<and> kmem_inv s' as' bs' \<and>
     set as' \<union> set bs' = set as \<union> set bs \<and> length bs \<le> length bs' \<and> ptr \<notin> set as \<union> set bs \<and>
     live s' (ptr - 8) hr \<and> unat sz \<le> unat (hd_size hr) \<and>
     block_bytes (ptr - 8) hr \<subseteq> free_space s as \<and>
     free_space s' as' = free_space s as - block_bytes (ptr - 8) hr \<and>
     m_hdrs s' = (m_hdrs s)(ptr - 8 \<mapsto> hr) \<and> memory_used s' = memory_used s + (hd_size hr + 8) \<and>
     m_mutex s' = m_mutex s \<and> m_eflags s' = m_eflags s)"

lemma blocks_ok_alloc:
  assumes ok: "blocks_ok s as" and h: "m_hdrs s' = (m_hdrs s)(h \<mapsto> hr)" "hd_sentinel hr = SENTINEL_VAL"
    and r: "reg_ok (unat h, unat (hd_size hr) + 8)" and sub: "block_bytes h hr \<subseteq> free_space s as"
    and fs: "free_space s' as' = free_space s as - block_bytes h hr"
  shows "blocks_ok s' as'"
proof -
  have lv: "live s' x xr \<longleftrightarrow> (if x = h then xr = hr else live s x xr)" for x xr
    using h by (auto simp: live_def)
  have old: "reg_ok (unat x, unat (hd_size xr) + 8)" "block_bytes x xr \<inter> free_space s as = {}"
    if "live s x xr" for x xr
    using ok that unfolding blocks_ok_def by blast+
  have pair: "block_bytes x xr \<inter> block_bytes y yr = {}" if "live s x xr" "live s y yr" "x \<noteq> y" for x xr y yr
    using ok that unfolding blocks_ok_def by blast
  show ?thesis unfolding blocks_ok_def
  proof (intro conjI allI impI)
    fix x xr assume "live s' x xr"
    then show "reg_ok (unat x, unat (hd_size xr) + 8)" and "block_bytes x xr \<inter> free_space s' as' = {}"
      using lv [of x xr] r old [of x xr] fs by (auto split: if_splits)
  next
    fix x xr y yr assume "live s' x xr" "live s' y yr" "x \<noteq> y"
    then show "block_bytes x xr \<inter> block_bytes y yr = {}"
      using lv [of x xr] lv [of y yr] old(2) [of x xr] old(2) [of y yr] pair [of x xr y yr] sub
      by (auto split: if_splits)
  qed
qed

lemma tookI:
  assumes inv: "kmem_inv s as bs" and rep': "kmem_rep s' as' bs'" and st: "set as' \<union> set bs' = set as \<union> set bs" and sp: "length bs \<le> length bs'"
    and fs: "free_space s' as' = free_space s as - block_bytes h hr" and sub: "block_bytes h hr \<subseteq> free_space s as"
    and hd: "m_hdrs s' = (m_hdrs s)(h \<mapsto> hr)" "hd_sentinel hr = SENTINEL_VAL"
    and r: "reg_ok (unat h, unat (hd_size hr) + 8)" and sz: "unat sz \<le> unat (hd_size hr)"
    and "memory_used s' = memory_used s + (hd_size hr + 8)" "m_mutex s' = m_mutex s" "m_eflags s' = m_eflags s"
  shows "took sz s as bs (h + 8) s'"
proof -
  have ok: "blocks_ok s as" and nok: "nodes_ok s (set as \<union> set bs)" using inv by (simp_all add: kmem_inv_def)
  have hin: "unat h \<in> free_space s as" using sub by (auto simp: block_bytes_def reg_bytes_def)
  have fresh: "\<not> live s h xr" for xr
  proof
    assume "live s h xr"
    then have "block_bytes h xr \<inter> free_space s as = {}" using ok unfolding blocks_ok_def by blast
    moreover have "unat h \<in> block_bytes h xr" by (simp add: block_bytes_def reg_bytes_def)
    ultimately show False using hin by blast
  qed
  have nodes: "nodes_ok s' (set as' \<union> set bs')"
    unfolding st nodes_ok_def
  proof
    fix a assume "a \<in> set as \<union> set bs"
    then obtain xr where xr: "live s (a - 8) xr" using nok unfolding nodes_ok_def by blast
    then have "a - 8 \<noteq> h" using fresh by blast
    with xr hd(1) show "\<exists>hr. live s' (a - 8) hr" by (auto simp: live_def)
  qed
  have notin: "h + 8 \<notin> set as \<union> set bs"
  proof
    assume "h + 8 \<in> set as \<union> set bs"
    then obtain xr where "live s (h + 8 - 8) xr" using nok unfolding nodes_ok_def by blast
    with fresh show False by simp
  qed
  have "unat (h + 8) = unat h + 8" using r by (subst unat_add_lt) (auto simp: reg_ok_def)
  then have "h + 8 \<noteq> NULL" by (metis add_is_0 unsigned_0 zero_neq_numeral)
  with assms nodes notin blocks_ok_alloc [OF ok hd r sub fs] show ?thesis
    unfolding took_def kmem_inv_def by (intro exI [of _ as'] exI [of _ bs'] exI [of _ hr]) (simp add: live_def)
qed

lemma kmem_take_took:
  assumes inv: "kmem_inv s (xs @ a # ys) bs"
    and ne: "needed = sz + 8" and n: "unat needed = unat sz + 8" and fit: "fits s needed a"
  shows "\<exists>ptr s'. kmem_take sz needed (last_or xs) a s = Inr (ptr, s') \<and> took sz s (xs @ a # ys) bs ptr s'"
proof -
  from inv have rep: "kmem_rep s (xs @ a # ys) bs" by (simp add: kmem_inv_def)
  from fit obtain f where f: "m_frees s a = Some f" and le: "needed \<le> fr_size f"
    by (auto simp: fits_def split: option.splits)
  note r = kmem_rep_at(4) [OF rep f]
  have small: "unat (fr_size f) + 8 < 2 ^ 32" using r by (simp add: reg_ok_def KERNEL_VM_BASE_val)
  have "unat (needed + 8) = unat needed + 8"
    using small le by (subst unat_add_lt) (auto simp: wordle_nat)
  then have cond: "needed + 8 \<ge> fr_size f \<longleftrightarrow> unat (fr_size f) \<le> unat needed + 8" by (simp add: wordle_nat)
  show ?thesis
  proof (cases "needed + 8 \<ge> fr_size f")
    case True
    let ?hr = "\<lparr>hd_size = fr_size f - 8, hd_sentinel = SENTINEL_VAL\<rparr>"
    have ge: "8 \<le> fr_size f" using le n by (simp add: wordle_nat)
    have u: "unat (fr_size f - 8) + 8 = unat (fr_size f)" using unat_sub_le [OF ge] ge by (simp add: wordle_nat)
    from kmem_take_whole_rep [OF rep f ge] obtain s' where
      s': "kmem_take_whole (last_or xs) a f s = Inr (fr_base f + 8, s')" "kmem_rep s' (xs @ ys) (a # bs)"
      "free_space s' (xs @ ys) = free_space s (xs @ a # ys) - block_bytes (fr_base f) ?hr"
      "block_bytes (fr_base f) ?hr \<subseteq> free_space s (xs @ a # ys)" "m_hdrs s' = (m_hdrs s)(fr_base f \<mapsto> ?hr)"
      "memory_used s' = memory_used s + (hd_size ?hr + 8)" "m_mutex s' = m_mutex s" "m_eflags s' = m_eflags s"
      by blast
    have "took sz s (xs @ a # ys) bs (fr_base f + 8) s'"
      by (rule tookI [OF inv s'(2) _ _ s'(3,4,5)]) (use s' u r n le in \<open>auto simp: reg_ok_def wordle_nat\<close>)
    with s'(1) True f show ?thesis by (simp add: kmem_take_def)
  next
    case False
    let ?hr = "\<lparr>hd_size = sz, hd_sentinel = SENTINEL_VAL\<rparr>"
    have lt: "unat needed < unat (fr_size f)" using False cond by simp
    from kmem_take_start_rep [OF rep f ne n lt] obtain s' where
      s': "kmem_take_start sz needed a f s = Inr (fr_base f + 8, s')" "kmem_rep s' (xs @ a # ys) bs"
      "free_space s' (xs @ a # ys) = free_space s (xs @ a # ys) - block_bytes (fr_base f) ?hr"
      "block_bytes (fr_base f) ?hr \<subseteq> free_space s (xs @ a # ys)" "m_hdrs s' = (m_hdrs s)(fr_base f \<mapsto> ?hr)"
      "memory_used s' = memory_used s + (hd_size ?hr + 8)" "m_mutex s' = m_mutex s" "m_eflags s' = m_eflags s"
      by blast
    have "took sz s (xs @ a # ys) bs (fr_base f + 8) s'"
      by (rule tookI [OF inv s'(2) _ _ s'(3,4,5)]) (use s' r n lt in \<open>auto simp: reg_ok_def\<close>)
    with s'(1) False f show ?thesis by (simp add: kmem_take_def)
  qed
qed

section \<open>\<open>kmalloc\<close>\<close>

lemma kmem_round_bounds:
  assumes "unat sz + 32 \<le> 2 ^ 32"
  shows "unat sz \<le> unat (kmem_round sz)" and "unat (kmem_round sz + 8) = unat (kmem_round sz) + 8"
    and "20 \<le> unat (kmem_round sz)" and "unat (kmem_round sz) mod 4 = 0"
proof -
  have m: "unat (sz mod 4) = unat sz mod 4" by (simp add: unat_mod)
  have "sz mod 4 \<le> 4" using m by (simp add: wordle_nat)
  then have d: "unat (4 - sz mod 4) = 4 - unat sz mod 4" using m by (subst unat_sub_le) simp_all
  have a: "unat (sz + (4 - sz mod 4)) = unat sz + (4 - unat sz mod 4)"
    using assms d by (subst unat_add_lt) simp_all
  have z: "sz mod 4 = 0 \<longleftrightarrow> unat sz mod 4 = 0" using m by (metis unsigned_0 unsigned_eq_0_iff)
  have r: "unat (kmem_round sz) = (let n = (if unat sz mod 4 \<noteq> 0 then unat sz + (4 - unat sz mod 4) else unat sz)
      in if n < 20 then 20 else n)"
    using a z by (simp add: kmem_round_def wordlt_nat Let_def)
  show "unat sz \<le> unat (kmem_round sz)" "20 \<le> unat (kmem_round sz)"
    using r mod_less_divisor [of 4 "unat sz"] by (auto simp: Let_def)
  show "unat (kmem_round sz) mod 4 = 0" unfolding r Let_def by (simp; presburger)
  have "unat (kmem_round sz) + 8 < 2 ^ 32" unfolding r Let_def using assms by auto
  then show "unat (kmem_round sz + 8) = unat (kmem_round sz) + 8" by (subst unat_add_lt) simp_all
qed

definition kmem_can :: "u32 \<Rightarrow> u8 \<Rightarrow> mem \<Rightarrow> u32 list \<Rightarrow> bool" where
  "kmem_can sz flags s as \<longleftrightarrow>
     (\<not> kmem_too_full (kmem_round sz + 8) s \<or> flags AND KMALLOC_RESERVED \<noteq> 0) \<and>
     (\<exists>a \<in> set as. fits s (kmem_round sz + 8) a)"

lemma do_kmalloc_fits:
  assumes inv: "kmem_inv s as bs" and sz: "sz \<noteq> 0" "unat sz + 32 \<le> 2 ^ 32"
    and can: "kmem_can sz flags s as"
  shows "\<exists>ptr s'. do_kmalloc (Suc k) sz flags s = Inr (ptr, s') \<and> took (kmem_round sz) s as bs ptr s'"
proof -
  let ?r = "kmem_round sz" and ?n = "kmem_round sz + 8"
  from inv have rep: "kmem_rep s as bs" by (simp add: kmem_inv_def)
  note b = kmem_round_bounds [OF sz(2)]
  from can have "\<exists>a \<in> set as. fits s ?n a" by (simp add: kmem_can_def)
  from first_fit [OF this] obtain xs a ys where as: "as = xs @ a # ys" and fit: "fits s ?n a"
    and no: "\<forall>x \<in> set xs. \<not> fits s ?n x" .
  from fit obtain f where f: "m_frees s a = Some f" by (auto simp: fits_def split: option.splits)
  note p = kmem_rep_at [OF rep [unfolded as] f]
  have "kmem_find ?n NULL (free_list s) s = Some (Inr (if xs = [] then NULL else last_or xs, a))"
    by (rule kmem_find_first [of s _ xs a "fr_nx s a"])
      (use p no fit rep as in \<open>auto simp: chain_append kmem_rep_def\<close>)
  then have find: "kmem_find ?n NULL (free_list s) s = Some (Inr (last_or xs, a))"
    by (cases "xs = []") simp_all
  from kmem_take_took [OF inv [unfolded as] refl b(2) fit]
  obtain ptr s' where "kmem_take ?r ?n (last_or xs) a s = Inr (ptr, s')" "took ?r s as bs ptr s'"
    unfolding as by blast
  with can find p(1) sz(1) show ?thesis by (auto simp: kmem_can_def Let_def)
qed

lemma mem_lock_enter:
  assumes "\<not> m_mutex s"
  shows "enter_if b s = Inr (if b then m_eflags s else 0,
     if b then s\<lparr>m_mutex := True, m_eflags := snd (push_cli (m_eflags s))\<rparr> else s)"
  using assms by (simp add: enter_if_def mem_lock_def)

lemma leave_if_simps:
  "leave_if False e s = s" "leave_if True e s = s\<lparr>m_mutex := False, m_eflags := e\<rparr>"
  by (simp_all add: leave_if_def mem_unlock_def)

lemma kmem_cong_locks:
  "kmem_rep (s\<lparr>m_mutex := b, m_eflags := e\<rparr>) as bs = kmem_rep s as bs"
  "blocks_ok (s\<lparr>m_mutex := b, m_eflags := e\<rparr>) as = blocks_ok s as"
  "free_space (s\<lparr>m_mutex := b, m_eflags := e\<rparr>) as = free_space s as"
  "kmem_can sz flags (s\<lparr>m_mutex := b, m_eflags := e\<rparr>) as = kmem_can sz flags s as"
  "nodes_ok (s\<lparr>m_mutex := b, m_eflags := e\<rparr>) ns = nodes_ok s ns"
  by (rule kmem_rep_cong; simp)
    (simp_all add: regs_def blocks_ok_def live_def free_space_def kmem_can_def kmem_too_full_def fits_def
      nodes_ok_def)

lemma kmem_inv_locks [simp]: "kmem_inv (s\<lparr>m_mutex := b, m_eflags := e\<rparr>) as bs = kmem_inv s as bs"
  by (simp add: kmem_inv_def kmem_cong_locks)

lemma took_locks:
  assumes "took sz (s\<lparr>m_mutex := b, m_eflags := e\<rparr>) as bs ptr s'"
  shows "took sz s as bs ptr (s'\<lparr>m_mutex := m_mutex s, m_eflags := m_eflags s\<rparr>)"
  using assms unfolding took_def by (simp add: kmem_cong_locks live_def) blast

lemma kmalloc_fits:
  assumes inv: "kmem_inv s as bs" and sz: "sz \<noteq> 0" "unat sz + 32 \<le> 2 ^ 32"
    and can: "kmem_can sz flags s as" and free: "flags AND KMALLOC_NOLOCK = 0 \<Longrightarrow> \<not> m_mutex s"
  shows "\<exists>ptr s'. kmalloc (Suc (Suc k)) sz flags s = Inr (ptr, s') \<and> took (kmem_round sz) s as bs ptr s'"
proof (cases "flags AND KMALLOC_NOLOCK = 0")
  case False
  with do_kmalloc_fits [OF inv sz can, of k] show ?thesis
    by (auto simp del: do_kmalloc.simps simp: enter_if_def leave_if_simps)
next
  case True
  let ?t = "s\<lparr>m_mutex := True, m_eflags := snd (push_cli (m_eflags s))\<rparr>"
  have "\<exists>ptr s'. do_kmalloc (Suc k) sz flags ?t = Inr (ptr, s') \<and> took (kmem_round sz) ?t as bs ptr s'"
    by (rule do_kmalloc_fits) (use inv sz can in \<open>simp_all add: kmem_cong_locks\<close>)
  then obtain ptr s' where d: "do_kmalloc (Suc k) sz flags ?t = Inr (ptr, s')" "took (kmem_round sz) ?t as bs ptr s'"
    by blast
  have "kmalloc (Suc (Suc k)) sz flags s = Inr (ptr, s'\<lparr>m_mutex := m_mutex s, m_eflags := m_eflags s\<rparr>)"
    using True free d(1) by (simp del: do_kmalloc.simps add: mem_lock_enter leave_if_simps)
  with took_locks [OF d(2)] show ?thesis by blast
qed

section \<open>Joining free blocks\<close>

definition gap :: "region \<Rightarrow> region \<Rightarrow> bool" where
  "gap r q \<longleftrightarrow> fst r + snd r < fst q"

text \<open>What the list operations of \<open>kfree\<close> leave alone.\<close>

definition same_rest :: "mem \<Rightarrow> mem \<Rightarrow> bool" where
  "same_rest s t \<longleftrightarrow> m_hdrs s = m_hdrs t \<and> memory_used s = memory_used t \<and> m_mutex s = m_mutex t \<and>
     m_eflags s = m_eflags t \<and> memory_total s = memory_total t"

lemma same_rest_trans: "same_rest s t \<Longrightarrow> same_rest t u \<Longrightarrow> same_rest s u"
  by (simp add: same_rest_def)

lemma unat_end:
  "reg_ok (reg f) \<Longrightarrow> unat (fr_base f + fr_size f) = unat (fr_base f) + unat (fr_size f)"
  by (intro unat_add_lt) (simp add: reg_ok_def)

lemma kmem_merge_join:
  assumes rep: "kmem_rep s (xs @ a # b # ys) bs" and f: "m_frees s a = Some f" and n: "m_frees s b = Some n"
    and touch: "fr_base f + fr_size f = fr_base n"
  shows "\<exists>s'. kmem_merge_free a s = Inr s' \<and> kmem_rep s' (xs @ a # ys) (b # bs) \<and>
     regs s' (xs @ a # ys) = regs s xs @ (unat (fr_base f), unat (fr_size f) + unat (fr_size n)) # regs s ys \<and>
     same_rest s s'"
proof -
  note p = kmem_rep_at [OF rep f]
  have rep2: "kmem_rep s ((xs @ [a]) @ b # ys) bs" using rep by simp
  note q = kmem_rep_at [OF rep2 n]
  have nb: "fr_next f = b" "b \<noteq> NULL" "a \<noteq> b" using p(3) q(1) p(8) by auto
  have e: "unat (fr_base n) = unat (fr_base f) + unat (fr_size f)" using unat_end [OF p(4)] touch by simp
  have sz: "unat (fr_size f + fr_size n) = unat (fr_size f) + unat (fr_size n)"
    using q(4) e by (intro unat_add_lt) (simp add: reg_ok_def)
  let ?f' = "f\<lparr>fr_size := fr_size f + fr_size n, fr_next := fr_next n\<rparr>"
  let ?n' = "n\<lparr>fr_next := free_free_structs s\<rparr>"
  let ?w = "wr_free b ?n' (wr_free a ?f' s)"
  let ?s' = "?w\<lparr>free_free_structs := b, free_end := (if fr_next n = NULL then a else free_end s)\<rparr>"
  have eq: "kmem_merge_free a s = Inr ?s'"
    using f n nb touch by (auto simp: kmem_merge_free_def Let_def wr_free_def)
  have r: "reg ?f' = (unat (fr_base f), unat (fr_size f) + unat (fr_size n))" using sz by (simp add: reg_def)
  have rg: "regs ?s' (xs @ a # ys) = regs s xs @ reg ?f' # regs s ys"
    using mem_cong(2) [of ?s' ?w] p(7,8) q(7,8) nb by simp
  have nx: "fr_nx ?s' = ((fr_nx s)(a := fr_next n))(b := free_free_structs s)"
    using mem_cong(1) [of ?s' ?w] nb by simp
  have xa: "set xs \<inter> {a, b} = {}" "set ys \<inter> {a, b} = {}" "set bs \<inter> {a, b} = {}" using p q by auto
  have "fr_next n = NULL \<longleftrightarrow> ys = []" using q(3) by (cases ys) auto
  then have fe: "(if fr_next n = NULL then a else free_end s) = last_or (xs @ a # ys)"
    using rep by (auto simp: kmem_rep_def last_or_def)
  have lst: "linked (fr_nx ?s') (free_list s) (xs @ a # ys)" "linked (fr_nx ?s') b (b # bs)"
    using p(1,2) q(1,3) xa nb rep unfolding nx by (auto simp: chain_append kmem_rep_def)
  have ord: "\<forall>x \<in> set (regs s xs). before x (reg ?f')" "\<forall>y \<in> set (regs s ys). before (reg ?f') y" "reg_ok (reg ?f')"
    using p(5) q(6) p(4) q(4) e unfolding r by (auto simp: before_def reg_ok_def)
  have "kmem_rep ?s' (xs @ a # ys) (b # bs)"
    using lst fe rg ord rep xa nb unfolding kmem_rep_def by (auto simp: sorted_wrt_append)
  with eq rg r show ?thesis by (auto simp: same_rest_def)
qed

lemma kmem_merge_free_rep:
  assumes rep: "kmem_rep s (xs @ a # ys) bs" and f: "m_frees s a = Some f"
  shows "\<exists>s' ys' bs' g. kmem_merge_free a s = Inr s' \<and> kmem_rep s' (xs @ a # ys') bs' \<and>
     m_frees s' a = Some g \<and> fst (reg g) = fst (reg f) \<and> regs s' xs = regs s xs \<and>
     set (xs @ a # ys') \<union> set bs' = set (xs @ a # ys) \<union> set bs \<and> length bs \<le> length bs' \<and>
     free_space s' (a # ys') = free_space s (a # ys) \<and>
     (successively gap (regs s ys) \<longrightarrow> successively gap (regs s' (a # ys'))) \<and> same_rest s s'"
proof (cases ys)
  case Nil
  with kmem_rep_at(3) [OF rep f] have "kmem_merge_free a s = Inr s" using f by (simp add: kmem_merge_free_def)
  with rep f Nil show ?thesis
    by (intro exI [of _ s] exI [of _ "[]"] exI [of _ bs] exI [of _ f]) (simp add: same_rest_def)
next
  case (Cons b zs)
  with rep obtain n where n: "m_frees s b = Some n" by (auto simp: kmem_rep_def)
  note p = kmem_rep_at [OF rep f]
  have nb: "fr_next f = b" "b \<noteq> NULL" using p(3) Cons by auto
  have bf: "before (reg f) (reg n)" using p(6) Cons n by simp
  show ?thesis
  proof (cases "fr_base f + fr_size f = fr_base n")
    case False
    then have "kmem_merge_free a s = Inr s" using f n nb by (simp add: kmem_merge_free_def)
    moreover have "gap (reg f) (reg n)"
      using False bf unat_end [OF p(4)] by (auto simp: gap_def before_def order_le_less word_unat_eq_iff)
    ultimately show ?thesis using rep f n Cons
      by (intro exI [of _ s] exI [of _ ys] exI [of _ bs] exI [of _ f]) (simp add: same_rest_def)
  next
    case True
    from kmem_merge_join [OF rep [unfolded Cons] f n True] obtain s' where
      s': "kmem_merge_free a s = Inr s'" "kmem_rep s' (xs @ a # zs) (b # bs)"
      "regs s' (xs @ a # zs) = regs s xs @ (unat (fr_base f), unat (fr_size f) + unat (fr_size n)) # regs s zs"
      "same_rest s s'" by blast
    obtain g where g: "m_frees s' a = Some g" using s'(2) by (auto simp: kmem_rep_def)
    have len: "length (regs s' xs) = length (regs s xs)" by (simp add: regs_def)
    from s'(3) g len have parts: "regs s' xs = regs s xs" "regs s' zs = regs s zs"
      "reg g = (unat (fr_base f), unat (fr_size f) + unat (fr_size n))" by simp_all
    have e: "unat (fr_base n) = unat (fr_base f) + unat (fr_size f)" using unat_end [OF p(4)] True by simp
    have bytes: "reg_bytes (reg g) = reg_bytes (reg f) \<union> reg_bytes (reg n)"
      using e unfolding parts(3) by (auto simp: reg_bytes_def)
    have "free_space s' (a # zs) = free_space s (a # b # zs)"
      using bytes g f n parts(2) by (auto simp: free_space_def)
    moreover have "successively gap (regs s' (a # zs))" if "successively gap (regs s (b # zs))"
      using that n g parts e by (cases zs) (auto simp: gap_def)
    moreover have "fst (reg g) = fst (reg f)" using parts(3) by simp
    moreover have "set (xs @ a # zs) \<union> set (b # bs) = set (xs @ a # b # zs) \<union> set bs" by auto
    moreover have "length bs \<le> length (b # bs)" by simp
    ultimately show ?thesis using s'(1,2,4) g parts(1) unfolding Cons by blast
  qed
qed

section \<open>Inserting a free block\<close>

definition base_of :: "mem \<Rightarrow> u32 \<Rightarrow> u32" where
  "base_of s a = (case m_frees s a of Some f \<Rightarrow> fr_base f)"

lemma kmem_locate_splits:
  "linked (fr_nx s) p (xs @ ys) \<Longrightarrow> set (xs @ ys) \<subseteq> dom (m_frees s) \<Longrightarrow> \<forall>x \<in> set xs. base_of s x < hdr \<Longrightarrow>
   (ys \<noteq> [] \<Longrightarrow> \<not> base_of s (hd ys) < hdr) \<Longrightarrow>
   kmem_locate hdr prev p s = Some (Inr (if xs = [] then prev else last_or xs, if ys = [] then NULL else hd ys))"
proof (induction xs arbitrary: p prev)
  case Nil
  then show ?case
    by (subst kmem_locate.simps) (cases ys; auto simp: base_of_def)
next
  case (Cons x xs)
  then obtain f where f: "m_frees s x = Some f" by auto
  have "kmem_locate hdr x (fr_next f) s =
      Some (Inr (if xs = [] then x else last_or xs, if ys = [] then NULL else hd ys))"
    by (rule Cons.IH) (use Cons.prems f in auto)
  with Cons.prems f show ?case by (subst kmem_locate.simps) (auto simp: base_of_def)
qed

text \<open>Disjoint from the free space means between two of its regions.\<close>

lemma insert_position:
  assumes rep: "kmem_rep s as bs" and r: "reg_ok (unat hdr, n)"
    and dis: "reg_bytes (unat hdr, n) \<inter> free_space s as = {}"
  defines "xs \<equiv> takeWhile (\<lambda>a. base_of s a < hdr) as" and "ys \<equiv> dropWhile (\<lambda>a. base_of s a < hdr) as"
  shows "as = xs @ ys" "\<forall>x \<in> set xs. base_of s x < hdr" "ys \<noteq> [] \<Longrightarrow> \<not> base_of s (hd ys) < hdr"
    "\<forall>x \<in> set (regs s xs). before x (unat hdr, n)" "\<forall>y \<in> set (regs s ys). before (unat hdr, n) y"
proof -
  show as: "as = xs @ ys" by (simp add: xs_def ys_def)
  show lo: "\<forall>x \<in> set xs. base_of s x < hdr" by (auto simp: xs_def dest: set_takeWhileD)
  show hi: "ys \<noteq> [] \<Longrightarrow> \<not> base_of s (hd ys) < hdr" using hd_dropWhile unfolding ys_def by metis
  have entry: "\<exists>f. m_frees s a = Some f \<and> reg f \<in> set (regs s as) \<and> reg_ok (reg f) \<and>
      reg_bytes (unat hdr, n) \<inter> reg_bytes (reg f) = {}" if a: "a \<in> set as" for a
  proof -
    from a rep obtain f where f: "m_frees s a = Some f" by (auto simp: kmem_rep_def)
    then have in_regs: "reg f \<in> set (regs s as)" using a unfolding regs_def by force
    with rep dis f show ?thesis unfolding kmem_rep_def free_space_def by blast
  qed
  have dj: "fst x + snd x \<le> fst y \<or> fst y + snd y \<le> fst x"
    if "reg_bytes x \<inter> reg_bytes y = {}" "0 < snd x" "0 < snd y" for x y
  proof (rule ccontr)
    assume "\<not> ?thesis"
    then have "max (fst x) (fst y) \<in> reg_bytes x \<inter> reg_bytes y" using that(2,3) by (auto simp: reg_bytes_def)
    with that(1) show False by blast
  qed
  show "\<forall>x \<in> set (regs s xs). before x (unat hdr, n)"
  proof
    fix x assume "x \<in> set (regs s xs)"
    then obtain a where a: "a \<in> set xs" "x = (case m_frees s a of Some f \<Rightarrow> reg f)" by (auto simp: regs_def)
    then obtain f where f: "m_frees s a = Some f" "reg_ok (reg f)" "reg_bytes (unat hdr, n) \<inter> reg_bytes (reg f) = {}"
      using entry [of a] as by (metis Un_iff set_append)
    have "fr_base f < hdr" using lo a(1) f(1) by (auto simp: base_of_def)
    then show "before x (unat hdr, n)"
      using dj [OF f(3)] f(1,2) a(2) r by (auto simp: before_def reg_ok_def wordlt_nat)
  qed
  show "\<forall>y \<in> set (regs s ys). before (unat hdr, n) y"
  proof (cases ys)
    case (Cons b zs)
    then obtain f where f: "m_frees s b = Some f" "reg_ok (reg f)" "reg_bytes (unat hdr, n) \<inter> reg_bytes (reg f) = {}"
      using entry [of b] as by (metis Un_iff list.set_intros(1) set_append)
    have "hdr \<le> fr_base f" using hi Cons f(1) by (auto simp: base_of_def)
    then have b: "before (unat hdr, n) (reg f)"
      using dj [OF f(3)] f(2) r by (auto simp: before_def reg_ok_def wordle_nat)
    have "kmem_rep s (xs @ b # zs) bs" using rep as Cons by simp
    from kmem_rep_at(6) [OF this f(1)] b f(1) Cons show ?thesis by (auto simp: before_def)
  qed simp
qed

lemma kmem_link_new:
  assumes rep: "kmem_rep s (xs @ ys) bs" and new: "new \<notin> set (xs @ ys)" "new \<notin> set bs" "new \<noteq> NULL"
    and r: "reg_ok (unat hdr, unat full)"
    and lo: "\<forall>x \<in> set (regs s xs). before x (unat hdr, unat full)"
    and hi: "\<forall>y \<in> set (regs s ys). before (unat hdr, unat full) y"
  defines "now \<equiv> (if ys = [] then NULL else hd ys)"
    and "s1 \<equiv> wr_free new \<lparr>fr_size = full, fr_base = hdr, fr_next = (if ys = [] then NULL else hd ys)\<rparr> s"
  shows "\<exists>s2. (if last_or xs \<noteq> NULL
         then bindE (rd_free s1 (last_or xs)) (\<lambda>pf. Inr (wr_free (last_or xs) (pf\<lparr>fr_next := new\<rparr>) s1))
         else Inr (s1\<lparr>free_list := new\<rparr>)) = Inr s2 \<and>
       kmem_rep (if now = NULL then s2\<lparr>free_end := new\<rparr> else s2) (xs @ new # ys) bs \<and>
       m_frees s2 new = Some \<lparr>fr_size = full, fr_base = hdr, fr_next = now\<rparr> \<and>
       (\<forall>cs. new \<notin> set cs \<longrightarrow> regs s2 cs = regs s cs) \<and> same_rest s s2"
proof -
  have dom: "set xs \<subseteq> dom (m_frees s)" "set ys \<subseteq> dom (m_frees s)" "set bs \<subseteq> dom (m_frees s)"
    using rep by (auto simp: kmem_rep_def)
  have dist: "distinct (xs @ ys)" "NULL \<notin> set (xs @ ys)" using kmem_rep_distinct [OF rep] by auto
  obtain m where c: "chain (fr_nx s) (free_list s) xs m" "linked (fr_nx s) m ys"
    using rep by (auto simp: kmem_rep_def chain_append)
  have m: "m = now" using c(2) by (cases ys) (auto simp: now_def)
  have n0: "now = NULL \<longleftrightarrow> ys = []" using dist(2) by (cases ys) (auto simp: now_def)
  have fe: "free_end s = last_or (xs @ ys)" and ffs: "linked (fr_nx s) (free_free_structs s) bs"
    and dis: "set (xs @ ys) \<inter> set bs = {}" and srt: "sorted_wrt before (regs s (xs @ ys))"
    and oks: "\<forall>r \<in> set (regs s (xs @ ys)). reg_ok r"
    using rep by (simp_all add: kmem_rep_def)
  let ?fn = "\<lparr>fr_size = full, fr_base = hdr, fr_next = now\<rparr>"
  have s1: "s1 = wr_free new ?fn s" by (simp add: s1_def now_def)
  have rn: "reg ?fn = (unat hdr, unat full)" by (simp add: reg_def)
  have core: "kmem_rep (if now = NULL then s2\<lparr>free_end := new\<rparr> else s2) (xs @ new # ys) bs"
    if s2: "chain (fr_nx s2) (free_list s2) xs new" "fr_nx s2 new = now" "\<And>x. x \<notin> set xs \<Longrightarrow> x \<noteq> new \<Longrightarrow> fr_nx s2 x = fr_nx s x"
      "free_free_structs s2 = free_free_structs s" "dom (m_frees s2) = insert new (dom (m_frees s))"
      "free_end s2 = free_end s" "regs s2 xs = regs s xs" "regs s2 ys = regs s ys" "m_frees s2 new = Some ?fn" for s2
  proof -
    let ?t = "if now = NULL then s2\<lparr>free_end := new\<rparr> else s2"
    have t: "m_frees ?t = m_frees s2" "free_list ?t = free_list s2" "free_free_structs ?t = free_free_structs s"
      "free_end ?t = last_or (xs @ new # ys)"
      using s2(4,6) fe n0 by (auto simp: last_or_append)
    note tc = mem_cong [OF t(1)]
    have "linked (fr_nx s2) now ys" using c(2) m chain_cong [of ys "fr_nx s2" "fr_nx s"] s2(3) new(1) dist(1) by fastforce
    moreover have "linked (fr_nx s2) (free_free_structs s) bs"
      using ffs chain_cong [of bs "fr_nx s2" "fr_nx s"] s2(3) new(2) dis by fastforce
    ultimately show ?thesis
      using t tc s2 new dom dis srt oks rn r lo hi unfolding kmem_rep_def
      by (auto simp: chain_append sorted_wrt_append)
  qed
  show ?thesis
  proof (cases "xs = []")
    case True
    let ?s2 = "s1\<lparr>free_list := new\<rparr>"
    have sel: "m_frees ?s2 = (m_frees s)(new \<mapsto> ?fn)" by (simp add: s1)
    have "kmem_rep (if now = NULL then ?s2\<lparr>free_end := new\<rparr> else ?s2) (xs @ new # ys) bs"
      by (rule core) (use True new sel in \<open>auto simp: s1 fr_nx_def regs_def\<close>)
    moreover have "\<forall>cs. new \<notin> set cs \<longrightarrow> regs ?s2 cs = regs s cs" using sel by (auto simp: regs_def)
    ultimately show ?thesis using True sel by (auto simp: s1 same_rest_def)
  next
    case False
    from kmem_rep_last [OF rep False] obtain us u fu where
      u: "xs = us @ [u]" "last_or xs = u" "u \<noteq> NULL" "m_frees s u = Some fu" "u \<notin> set us" "u \<notin> set ys" "u \<notin> set bs" .
    have un: "u \<noteq> new" using new u by auto
    let ?s2 = "wr_free u (fu\<lparr>fr_next := new\<rparr>) s1"
    have "chain (fr_nx s) (free_list s) us u" using c(1) u(1) by (auto simp: chain_append)
    then have ch: "chain (fr_nx ?s2) (free_list ?s2) xs new" using u new un by (auto simp: s1 chain_append)
    have rg: "regs ?s2 cs = regs s cs" if "new \<notin> set cs" for cs using that u(4) un by (auto simp: s1 regs_def)
    have sel: "m_frees ?s2 new = Some ?fn" using un by (simp add: s1)
    have "kmem_rep (if now = NULL then ?s2\<lparr>free_end := new\<rparr> else ?s2) (xs @ new # ys) bs"
      by (rule core) (use ch rg u un new in \<open>auto simp: s1\<close>)
    moreover have "rd_free s1 u = Inr fu" using u(4) un by (simp add: s1)
    ultimately show ?thesis using u(2,3) rg sel by (auto simp: s1 same_rest_def)
  qed
qed

lemma regs_eq_Nil [simp]: "regs s as = [] \<longleftrightarrow> as = []"
  by (simp add: regs_def)

lemma last_regs: "as \<noteq> [] \<Longrightarrow> last (regs s as) = (case m_frees s (last as) of Some f \<Rightarrow> reg f)"
  by (simp add: regs_def last_map)

text \<open>A list of regions stays apart when its tail is replaced by one that starts at the same place.\<close>

lemma gap_replace:
  assumes "successively gap (rs @ r # qs)" and "successively gap (q # qs')" and "fst q = fst r"
  shows "successively gap (rs @ q # qs')"
  using assms by (auto simp: successively_append_iff gap_def)

text \<open>The new entry is merged with its successor and then its predecessor with it.\<close>

lemma kmem_merge_around:
  assumes rep: "kmem_rep s (xs @ new # ys) bs" and f: "m_frees s new = Some f"
  shows "\<exists>s' zs bs'. bindE (kmem_merge_free new s) (\<lambda>t. if last_or xs \<noteq> NULL then kmem_merge_free (last_or xs) t else Inr t) = Inr s' \<and>
     kmem_rep s' zs bs' \<and> free_space s' zs = free_space s (xs @ new # ys) \<and> set zs \<union> set bs' = set (xs @ new # ys) \<union> set bs \<and>
     length bs \<le> length bs' \<and> (successively gap (regs s (xs @ ys)) \<longrightarrow> successively gap (regs s' zs)) \<and> same_rest s s'"
proof -
  from kmem_merge_free_rep [OF rep f] obtain s4 ys' bs' g where
    s4: "kmem_merge_free new s = Inr s4" "kmem_rep s4 (xs @ new # ys') bs'" "m_frees s4 new = Some g"
      "fst (reg g) = fst (reg f)" "regs s4 xs = regs s xs" "free_space s4 (new # ys') = free_space s (new # ys)"
      and set4: "set (xs @ new # ys') \<union> set bs' = set (xs @ new # ys) \<union> set bs" "length bs \<le> length bs'" and s4':
      "successively gap (regs s ys) \<longrightarrow> successively gap (regs s4 (new # ys'))" "same_rest s s4"
    by auto
  have fs4: "free_space s4 (xs @ new # ys') = free_space s (xs @ new # ys)" using s4(5,6) by (auto simp: free_space_def)
  show ?thesis
  proof (cases "xs = []")
    case True
    then show ?thesis using s4(1,2) fs4 set4 s4' by (intro exI [of _ s4] exI [of _ "new # ys'"] exI [of _ bs']) simp
  next
    case False
    from kmem_rep_last [OF s4(2) False] obtain us u fu where
      u: "xs = us @ [u]" "last_or xs = u" "u \<noteq> NULL" "m_frees s4 u = Some fu" .
    have rep4: "kmem_rep s4 (us @ u # new # ys') bs'" using s4(2) u(1) by simp
    from kmem_merge_free_rep [OF rep4 u(4)] obtain s5 zs bs'' g' where
      s5: "kmem_merge_free u s4 = Inr s5" "kmem_rep s5 (us @ u # zs) bs''" "m_frees s5 u = Some g'"
        "fst (reg g') = fst (reg fu)" "regs s5 us = regs s4 us"
        "free_space s5 (u # zs) = free_space s4 (u # new # ys')"
        and set5: "set (us @ u # zs) \<union> set bs'' = set (us @ u # new # ys') \<union> set bs'" "length bs' \<le> length bs''" and s5':
        "successively gap (regs s4 (new # ys')) \<longrightarrow> successively gap (regs s5 (u # zs))" "same_rest s4 s5" by blast
    have "free_space s5 (us @ u # zs) = free_space s4 (xs @ new # ys')" using s5(5,6) u(1) by (auto simp: free_space_def)
    moreover have "successively gap (regs s5 (us @ u # zs))" if gp: "successively gap (regs s (xs @ ys))"
    proof -
      have x: "regs s xs = regs s us @ [reg fu]" using s4(5) u(1,4) by simp
      have gx: "successively gap (regs s us @ reg fu # regs s ys)" using gp x by simp
      have "successively gap (regs s ys)" using gp by (simp add: successively_append_iff)
      then have "successively gap (reg g' # regs s5 zs)" using s4'(1) s5(3) s5'(1) by simp
      from gap_replace [OF gx this s5(4)] show ?thesis using s5(3,5) s4(5) u(1) by simp
    qed
    moreover have "set (us @ u # zs) \<union> set bs'' = set (xs @ new # ys) \<union> set bs" using set5(1) set4(1) u(1) by auto
    ultimately show ?thesis
      using u(2,3) s4(1) s5(1,2) fs4 set4(2) set5(2) same_rest_trans [OF s4'(2) s5'(2)]
      by (intro exI [of _ s5] exI [of _ "us @ u # zs"] exI [of _ bs'']) simp
  qed
qed

lemma kmem_insert_free_rep:
  assumes rep: "kmem_rep s as bs" and new: "new \<notin> set as" "new \<notin> set bs" "new \<noteq> NULL"
    and r: "reg_ok (unat hdr, unat full)" and dis: "reg_bytes (unat hdr, unat full) \<inter> free_space s as = {}"
  shows "\<exists>s' as' bs'. kmem_insert_free new hdr full s = Inr s' \<and> kmem_rep s' as' bs' \<and>
     free_space s' as' = free_space s as \<union> reg_bytes (unat hdr, unat full) \<and>
     set as' \<union> set bs' = insert new (set as \<union> set bs) \<and> length bs \<le> length bs' \<and>
     (successively gap (regs s as) \<longrightarrow> successively gap (regs s' as')) \<and> same_rest s s'"
proof (cases "as = []")
  case True
  let ?f = "\<lparr>fr_size = full, fr_base = hdr, fr_next = NULL\<rparr>"
  let ?s' = "(wr_free new ?f s)\<lparr>free_list := new, free_end := new\<rparr>"
  have nx: "fr_nx ?s' = (fr_nx s)(new := NULL)" by (auto simp: fr_nx_def)
  have "kmem_rep ?s' [new] bs"
    using rep new r True nx by (auto simp: kmem_rep_def reg_def)
  moreover have "free_list s = NULL" using rep True by (simp add: kmem_rep_def)
  ultimately show ?thesis using True
    by (intro exI [of _ ?s'] exI [of _ "[new]"] exI [of _ bs])
      (simp add: kmem_insert_free_def same_rest_def reg_def)
next
  case False
  define xs where "xs = takeWhile (\<lambda>a. base_of s a < hdr) as"
  define ys where "ys = dropWhile (\<lambda>a. base_of s a < hdr) as"
  note pos = insert_position [OF rep r dis, folded xs_def ys_def]
  let ?now = "if ys = [] then NULL else hd ys"
  from rep False have fl: "free_list s \<noteq> NULL" by (cases as) (auto simp: kmem_rep_def)
  have "kmem_locate hdr NULL (free_list s) s = Some (Inr (if xs = [] then NULL else last_or xs, ?now))"
    by (rule kmem_locate_splits) (use rep pos in \<open>auto simp: kmem_rep_def\<close>)
  then have loc: "kmem_locate hdr NULL (free_list s) s = Some (Inr (last_or xs, ?now))"
    by (cases "xs = []") simp_all
  have rep2: "kmem_rep s (xs @ ys) bs" using rep pos(1) by simp
  from kmem_link_new [OF rep2 _ new(2,3) r pos(4,5)] new(1) pos(1) obtain s2 where
    link: "(if last_or xs \<noteq> NULL then bindE (rd_free (wr_free new \<lparr>fr_size = full, fr_base = hdr, fr_next = ?now\<rparr> s) (last_or xs))
        (\<lambda>pf. Inr (wr_free (last_or xs) (pf\<lparr>fr_next := new\<rparr>) (wr_free new \<lparr>fr_size = full, fr_base = hdr, fr_next = ?now\<rparr> s)))
         else Inr ((wr_free new \<lparr>fr_size = full, fr_base = hdr, fr_next = ?now\<rparr> s)\<lparr>free_list := new\<rparr>)) = Inr s2"
    and rep3: "kmem_rep (if ?now = NULL then s2\<lparr>free_end := new\<rparr> else s2) (xs @ new # ys) bs"
    and f2: "m_frees s2 new = Some \<lparr>fr_size = full, fr_base = hdr, fr_next = ?now\<rparr>"
    and rg2: "\<And>cs. new \<notin> set cs \<Longrightarrow> regs s2 cs = regs s cs" and sr2: "same_rest s s2" by force
  define s3 where "s3 = (if ?now = NULL then s2\<lparr>free_end := new\<rparr> else s2)"
  have m3: "m_frees s3 = m_frees s2" by (simp add: s3_def)
  have f3: "m_frees s3 new = Some \<lparr>fr_size = full, fr_base = hdr, fr_next = ?now\<rparr>" using f2 m3 by simp
  have rg3: "regs s3 cs = regs s cs" if "new \<notin> set cs" for cs using rg2 [OF that] mem_cong(2) [OF m3] by simp
  have sr3: "same_rest s s3" using sr2 by (simp add: s3_def same_rest_def)
  have nn: "new \<notin> set xs" "new \<notin> set ys" using new(1) pos(1) by auto
  from kmem_merge_around [OF rep3 [folded s3_def] f3] obtain s' zs bs' where
    s': "bindE (kmem_merge_free new s3) (\<lambda>t. if last_or xs \<noteq> NULL then kmem_merge_free (last_or xs) t else Inr t) = Inr s'" "kmem_rep s' zs bs'"
      "free_space s' zs = free_space s3 (xs @ new # ys)" "set zs \<union> set bs' = set (xs @ new # ys) \<union> set bs" "length bs \<le> length bs'"
      "successively gap (regs s3 (xs @ ys)) \<longrightarrow> successively gap (regs s' zs)" "same_rest s3 s'" by blast
  have "free_space s' zs = free_space s as \<union> reg_bytes (unat hdr, unat full)"
    using s'(3) f3 rg3 [OF nn(1)] rg3 [OF nn(2)] pos(1) by (auto simp: free_space_def reg_def)
  moreover have "kmem_insert_free new hdr full s = Inr s'" using fl loc link s'(1) by (simp add: kmem_insert_free_def s3_def Let_def)
  moreover have "set zs \<union> set bs' = insert new (set as \<union> set bs)" using s'(4) pos(1) by auto
  moreover have "regs s3 (xs @ ys) = regs s as" using rg3 [of "xs @ ys"] nn pos(1) by simp
  ultimately show ?thesis using s'(2,5,6) same_rest_trans [OF sr3 s'(7)] by (intro exI [of _ s'] exI [of _ zs] exI [of _ bs']) simp
qed

section \<open>\<open>kfree\<close>\<close>

definition freed_hdr :: "kmem_header \<Rightarrow> kmem_header" where
  "freed_hdr hr = hr\<lparr>hd_sentinel := SENTINEL_FREED\<rparr>"

lemma sentinels_differ [simp]: "SENTINEL_FREED \<noteq> SENTINEL_VAL" "SENTINEL_VAL \<noteq> SENTINEL_FREED"
  by (simp_all add: SENTINEL_FREED_def SENTINEL_VAL_def)

text \<open>Marking a block as freed takes it out of the blocks in use; nothing else changes.\<close>

lemma kmem_mark_inv:
  assumes inv: "kmem_inv s as bs" and lv: "live s h hr" and nn: "h + 8 \<notin> set as \<union> set bs"
  defines "s0 \<equiv> wr_hdr h (freed_hdr hr) s"
  shows "kmem_inv s0 as bs" "free_space s0 as = free_space s as"
    "live s0 x xr \<longleftrightarrow> x \<noteq> h \<and> live s x xr"
    "live s0 x xr \<Longrightarrow> block_bytes x xr \<inter> block_bytes h hr = {}"
    "block_bytes h hr \<inter> free_space s as = {}" "reg_ok (unat h, unat (hd_size hr) + 8)"
proof -
  have lv0: "live s0 x xr \<longleftrightarrow> x \<noteq> h \<and> live s x xr" for x xr
    by (auto simp: live_def s0_def freed_hdr_def)
  then show "live s0 x xr \<longleftrightarrow> x \<noteq> h \<and> live s x xr" .
  from inv have ok: "blocks_ok s as" and nok: "nodes_ok s (set as \<union> set bs)" and rep: "kmem_rep s as bs"
    by (simp_all add: kmem_inv_def)
  show fs: "free_space s0 as = free_space s as" by (rule mem_cong) (simp add: s0_def)
  show "live s0 x xr \<Longrightarrow> block_bytes x xr \<inter> block_bytes h hr = {}"
    "block_bytes h hr \<inter> free_space s as = {}" "reg_ok (unat h, unat (hd_size hr) + 8)"
    using ok lv lv0 unfolding blocks_ok_def by blast+
  have "kmem_rep s0 as bs" using rep by (subst kmem_rep_cong [of s0 s]) (simp_all add: s0_def)
  moreover have "blocks_ok s0 as" using ok lv0 fs unfolding blocks_ok_def by metis
  moreover have "a - 8 \<noteq> h" if "a \<in> set as \<union> set bs" for a using that nn by auto
  then have "nodes_ok s0 (set as \<union> set bs)" using nok lv0 unfolding nodes_ok_def by blast
  ultimately show "kmem_inv s0 as bs" by (simp add: kmem_inv_def)
qed

text \<open>Adding the region of a block that is no longer in use, with a fresh structure.\<close>

lemma kmem_give_back:
  assumes rep: "kmem_rep s as bs" and ok: "blocks_ok s as" and nok: "nodes_ok s (insert new (set as \<union> set bs))"
    and new: "new \<notin> set as \<union> set bs" "new \<noteq> NULL"
    and r: "reg_ok (unat h, unat (hd_size hr) + 8)" and dis: "block_bytes h hr \<inter> free_space s as = {}"
    and lv: "\<And>x xr. live s x xr \<Longrightarrow> block_bytes x xr \<inter> block_bytes h hr = {}"
  shows "\<exists>s' as' bs'. kmem_insert_free new h (hd_size hr + 8) s = Inr s' \<and> kmem_inv s' as' bs' \<and>
     free_space s' as' = free_space s as \<union> block_bytes h hr \<and>
     set as' \<union> set bs' = insert new (set as \<union> set bs) \<and> length bs \<le> length bs' \<and>
     (successively gap (regs s as) \<longrightarrow> successively gap (regs s' as')) \<and> same_rest s s'"
proof -
  have full: "unat (hd_size hr + 8) = unat (hd_size hr) + 8"
    using r by (subst unat_add_lt) (auto simp: reg_ok_def)
  have bb: "reg_bytes (unat h, unat (hd_size hr + 8)) = block_bytes h hr" by (simp add: block_bytes_def full)
  have "new \<notin> set as" "new \<notin> set bs" using new(1) by auto
  from kmem_insert_free_rep [OF rep this new(2), of h "hd_size hr + 8", unfolded bb] r dis obtain s' as' bs' where
    s': "kmem_insert_free new h (hd_size hr + 8) s = Inr s'" "kmem_rep s' as' bs'"
      "free_space s' as' = free_space s as \<union> block_bytes h hr" "set as' \<union> set bs' = insert new (set as \<union> set bs)"
      "successively gap (regs s as) \<longrightarrow> successively gap (regs s' as')" "length bs \<le> length bs'" and sr: "same_rest s s'"
    unfolding full by auto
  have lv': "live s' x xr \<longleftrightarrow> live s x xr" for x xr using sr by (simp add: live_def same_rest_def)
  have "blocks_ok s' as'"
    unfolding blocks_ok_def
  proof (intro conjI allI impI)
    fix x xr assume "live s' x xr"
    then have l: "live s x xr" using lv' by simp
    then show "reg_ok (unat x, unat (hd_size xr) + 8)" using ok unfolding blocks_ok_def by blast
    from l have "block_bytes x xr \<inter> free_space s as = {}" using ok unfolding blocks_ok_def by blast
    with lv [OF l] show "block_bytes x xr \<inter> free_space s' as' = {}" unfolding s'(3) by blast
  next
    fix x xr y yr assume "live s' x xr" "live s' y yr" "x \<noteq> y"
    then show "block_bytes x xr \<inter> block_bytes y yr = {}" using ok lv' unfolding blocks_ok_def by blast
  qed
  moreover have "nodes_ok s' (set as' \<union> set bs')" using nok lv' unfolding s'(4) nodes_ok_def by blast
  ultimately show ?thesis using s' sr
    by (intro exI [of _ s'] exI [of _ as'] exI [of _ bs']) (simp add: kmem_inv_def)
qed

lemma get_struct_spare:
  assumes "kmem_rep s as (b # bs)"
  shows "\<exists>s'. get_struct k s = Inr (b, s') \<and> kmem_rep s' as bs \<and> m_frees s' = m_frees s \<and> same_rest s s'"
proof -
  from assms obtain f where f: "m_frees s b = Some f" and ffs: "free_free_structs s = b" "b \<noteq> NULL"
    by (auto simp: kmem_rep_def)
  let ?s' = "s\<lparr>free_free_structs := fr_next f\<rparr>"
  have "kmem_rep ?s' as bs"
    using assms f mem_cong [of ?s' s] by (auto simp: kmem_rep_def)
  with f ffs show ?thesis by (auto simp: get_struct_def Let_def same_rest_def)
qed

text \<open>Freeing a block when a spare structure is at hand: the bytes of the block become free.\<close>

lemma kfree_nolock_spare:
  assumes inv: "kmem_inv s as (b # bs)" and lv: "live s (ptr - 8) hr" and nn: "ptr \<notin> set as \<union> set (b # bs)"
    and p: "ptr \<noteq> NULL"
  shows "\<exists>s' as' bs'. kfree_nolock k ptr s = Inr s' \<and> kmem_inv s' as' bs' \<and>
     free_space s' as' = free_space s as \<union> block_bytes (ptr - 8) hr \<and>
     (successively gap (regs s as) \<longrightarrow> successively gap (regs s' as')) \<and>
     m_hdrs s' = (m_hdrs s)(ptr - 8 \<mapsto> freed_hdr hr) \<and> memory_used s' = memory_used s - (hd_size hr + 8) \<and>
     m_mutex s' = m_mutex s \<and> m_eflags s' = m_eflags s \<and> set as' \<union> set bs' = set as \<union> set (b # bs) \<and> length bs \<le> length bs'"
proof -
  let ?h = "ptr - 8"
  let ?s0 = "wr_hdr ?h (freed_hdr hr) s"
  have nn': "?h + 8 \<notin> set as \<union> set (b # bs)" using nn by simp
  note mk = kmem_mark_inv [OF inv lv nn']
  from mk(1) have rep0: "kmem_rep ?s0 as (b # bs)" and ok0: "blocks_ok ?s0 as"
    and nok0: "nodes_ok ?s0 (insert b (set as \<union> set bs))" by (simp_all add: kmem_inv_def insert_commute)
  from get_struct_spare [OF rep0] obtain s1 where
    s1: "get_struct k ?s0 = Inr (b, s1)" "kmem_rep s1 as bs" "m_frees s1 = m_frees ?s0" "same_rest ?s0 s1" by blast
  have lv1: "live s1 x xr \<longleftrightarrow> live ?s0 x xr" for x xr using s1(4) by (simp add: live_def same_rest_def)
  note fs1 = mem_cong [OF s1(3)]
  have "blocks_ok s1 as" using ok0 lv1 fs1(3) unfolding blocks_ok_def by simp
  moreover have "nodes_ok s1 (insert b (set as \<union> set bs))" using nok0 lv1 unfolding nodes_ok_def by blast
  moreover have "b \<notin> set as \<union> set bs" "b \<noteq> NULL"
    using kmem_rep_distinct [OF rep0] rep0 by (auto simp: kmem_rep_def)
  moreover have "block_bytes ?h hr \<inter> free_space s1 as = {}" using mk(2,5) fs1(3) by simp
  moreover have "block_bytes x xr \<inter> block_bytes ?h hr = {}" if "live s1 x xr" for x xr
    using that mk(4) lv1 by blast
  ultimately obtain s2 as' bs' where s2: "kmem_insert_free b ?h (hd_size hr + 8) s1 = Inr s2" "kmem_inv s2 as' bs'"
      "free_space s2 as' = free_space s1 as \<union> block_bytes ?h hr" "set as' \<union> set bs' = insert b (set as \<union> set bs)"
      "successively gap (regs s1 as) \<longrightarrow> successively gap (regs s2 as')" "same_rest s1 s2" "length bs \<le> length bs'"
    using kmem_give_back [OF s1(2) _ _ _ _ mk(6)] by blast
  let ?s' = "s2\<lparr>memory_used := memory_used s2 - (hd_size hr + 8)\<rparr>"
  have hd2: "m_hdrs s2 = (m_hdrs s)(?h \<mapsto> freed_hdr hr)" "memory_used s2 = memory_used s" "m_mutex s2 = m_mutex s"
    "m_eflags s2 = m_eflags s" using s2(6) s1(4) by (simp_all add: same_rest_def)
  have hr: "m_hdrs s ?h = Some hr" "hd_sentinel hr = SENTINEL_VAL" using lv by (simp_all add: live_def)
  have "kfree_nolock k ptr s = Inr ?s'"
    using p hr s1(1) s2(1) hd2(1) by (simp add: kfree_nolock_def Let_def freed_hdr_def)
  moreover have "kmem_inv ?s' as' bs'"
    using s2(2) kmem_rep_cong [of ?s' s2] mem_cong [of ?s' s2]
    by (simp add: kmem_inv_def blocks_ok_def nodes_ok_def live_def)
  moreover have "free_space ?s' as' = free_space s as \<union> block_bytes ?h hr" "regs ?s' as' = regs s2 as'" "regs s1 as = regs s as"
    using mem_cong [of ?s' s2] s2(3) fs1(2,3) mem_cong [of ?s0 s] by simp_all
  ultimately show ?thesis using s2(4,5,7) hd2
    by (intro exI [of _ ?s'] exI [of _ as'] exI [of _ bs']) auto
qed

text \<open>Freeing when a structure has to be allocated first, from the reserved area.\<close>

lemma kfree_nolock_no_spare:
  assumes inv: "kmem_inv s as []" and lv: "live s (ptr - 8) hr" and nn: "ptr \<notin> set as" and p: "ptr \<noteq> NULL"
    and can: "kmem_can sizeof_free (KMALLOC_RESERVED OR KMALLOC_NOLOCK) s as"
  shows "\<exists>s' as' bs'. kfree_nolock (Suc (Suc k)) ptr s = Inr s' \<and> kmem_inv s' as' bs' \<and>
     block_bytes (ptr - 8) hr \<subseteq> free_space s' as' \<and> \<not> (\<exists>hr'. live s' (ptr - 8) hr') \<and>
     m_mutex s' = m_mutex s \<and> m_eflags s' = m_eflags s"
proof -
  let ?h = "ptr - 8"
  let ?s0 = "wr_hdr ?h (freed_hdr hr) s" and ?fl = "KMALLOC_RESERVED OR KMALLOC_NOLOCK"
  have nn': "?h + 8 \<notin> set as \<union> set []" using nn by simp
  note mk = kmem_mark_inv [OF inv lv nn']
  have "kmem_can sizeof_free ?fl ?s0 as"
    using can by (simp add: kmem_can_def kmem_too_full_def fits_def)
  then obtain new s1 where g: "kmalloc (Suc (Suc k)) sizeof_free ?fl ?s0 = Inr (new, s1)"
    and tk: "took (kmem_round sizeof_free) ?s0 as [] new s1"
    using kmalloc_fits [OF mk(1), of sizeof_free ?fl k] by (auto simp: flag_defs)
  from tk obtain as1 bs1 nr where
    i1: "new \<noteq> NULL" "kmem_inv s1 as1 bs1" "new \<notin> set as1 \<union> set bs1" "live s1 (new - 8) nr"
      "block_bytes (new - 8) nr \<subseteq> free_space s as"
      "free_space s1 as1 = free_space s as - block_bytes (new - 8) nr"
      "m_hdrs s1 = (m_hdrs ?s0)(new - 8 \<mapsto> nr)" "m_mutex s1 = m_mutex s" "m_eflags s1 = m_eflags s"
    unfolding took_def mk(2) by auto
  from i1(2) have r1: "kmem_rep s1 as1 bs1" "blocks_ok s1 as1" "nodes_ok s1 (insert new (set as1 \<union> set bs1))"
    using i1(4) by (auto simp: kmem_inv_def nodes_ok_def)
  have ff: "free_free_structs ?s0 = NULL" using inv by (simp add: kmem_inv_def kmem_rep_def)
  have dis: "block_bytes x xr \<inter> block_bytes ?h hr = {}" if l: "live s1 x xr" for x xr
  proof (cases "x = new - 8")
    case True
    then have "xr = nr" using l i1(7) by (simp add: live_def)
    with True i1(5) mk(5) show ?thesis by blast
  next
    case False
    then have "live ?s0 x xr" using l i1(7) by (simp add: live_def)
    then show ?thesis by (rule mk(4))
  qed
  have hin: "unat ?h \<in> block_bytes ?h hr" by (simp add: block_bytes_def reg_bytes_def)
  have hne: "?h \<noteq> new - 8"
  proof
    assume e: "?h = new - 8"
    have "unat ?h \<in> block_bytes ?h nr" by (simp add: block_bytes_def reg_bytes_def)
    with e i1(5) mk(5) hin show False by auto
  qed
  have d1: "block_bytes ?h hr \<inter> free_space s1 as1 = {}" using i1(6) mk(5) by blast
  obtain s2 as' bs' where
    s2: "kmem_insert_free new ?h (hd_size hr + 8) s1 = Inr s2" "kmem_inv s2 as' bs'"
      "free_space s2 as' = free_space s1 as1 \<union> block_bytes ?h hr" "same_rest s1 s2"
    using kmem_give_back [OF r1 i1(3,1) mk(6) d1 dis] by blast
  let ?s' = "s2\<lparr>memory_used := memory_used s2 - (hd_size hr + 8)\<rparr>"
  have "m_hdrs s2 = m_hdrs s1" using s2(4) by (simp add: same_rest_def)
  then have h2: "m_hdrs s2 ?h = Some (freed_hdr hr)" using hne by (simp only: i1(7)) simp
  have "kfree_nolock (Suc (Suc k)) ptr s = Inr ?s'"
    using p lv g s2(1) h2 ff by (simp del: kmalloc.simps add: kfree_nolock_def get_struct_def live_def Let_def freed_hdr_def)
  moreover have "kmem_inv ?s' as' bs'"
    using s2(2) kmem_rep_cong [of ?s' s2] mem_cong [of ?s' s2]
    by (simp add: kmem_inv_def blocks_ok_def nodes_ok_def live_def)
  moreover have "block_bytes ?h hr \<subseteq> free_space ?s' as'" using s2(3) mem_cong [of ?s' s2] by simp
  moreover have "\<not> (\<exists>hr'. live ?s' ?h hr')" using h2 by (simp add: live_def freed_hdr_def)
  ultimately show ?thesis using s2(4) i1(8,9)
    by (intro exI [of _ ?s'] exI [of _ as'] exI [of _ bs']) (simp add: same_rest_def)
qed

text \<open>\<open>kfree\<close> with the mutex taken and given back.\<close>

lemma kfree_spare:
  assumes "kmem_inv s as bs" and "\<not> m_mutex s" and "bs \<noteq> []" and "ptr \<noteq> NULL" and "live s (ptr - 8) hr"
    and "ptr \<notin> set as \<union> set bs"
  shows "\<exists>s' as' bs'. kfree k ptr s = Inr s' \<and> kmem_inv s' as' bs' \<and>
     free_space s' as' = free_space s as \<union> block_bytes (ptr - 8) hr \<and>
     (\<forall>h xr. live s' h xr \<longleftrightarrow> h \<noteq> ptr - 8 \<and> live s h xr) \<and>
     (successively gap (regs s as) \<longrightarrow> successively gap (regs s' as')) \<and>
     memory_used s' = memory_used s - (hd_size hr + 8) \<and> \<not> m_mutex s' \<and> m_eflags s' = m_eflags s \<and>
     kfree k ptr s' = Inl (Panic ''Suspected double free found!'') \<and>
     set as' \<union> set bs' = set as \<union> set bs \<and> length bs \<le> Suc (length bs')"
proof -
  let ?t = "s\<lparr>m_mutex := True, m_eflags := snd (push_cli (m_eflags s))\<rparr>"
  from assms(3) obtain b cs where b: "bs = b # cs" by (cases bs) auto
  have "\<exists>s' as' bs'. kfree_nolock k ptr ?t = Inr s' \<and> kmem_inv s' as' bs' \<and>
     free_space s' as' = free_space ?t as \<union> block_bytes (ptr - 8) hr \<and>
     (successively gap (regs ?t as) \<longrightarrow> successively gap (regs s' as')) \<and>
     m_hdrs s' = (m_hdrs ?t)(ptr - 8 \<mapsto> freed_hdr hr) \<and> memory_used s' = memory_used ?t - (hd_size hr + 8) \<and>
     m_mutex s' = m_mutex ?t \<and> m_eflags s' = m_eflags ?t \<and> set as' \<union> set bs' = set as \<union> set (b # cs) \<and> length cs \<le> length bs'"
    by (rule kfree_nolock_spare) (use assms b in \<open>simp_all add: live_def\<close>)
  then obtain s1 as' bs' where s1: "kfree_nolock k ptr ?t = Inr s1" "kmem_inv s1 as' bs'"
     "free_space s1 as' = free_space s as \<union> block_bytes (ptr - 8) hr"
     "successively gap (regs s as) \<longrightarrow> successively gap (regs s1 as')"
     "m_hdrs s1 = (m_hdrs s)(ptr - 8 \<mapsto> freed_hdr hr)" "memory_used s1 = memory_used s - (hd_size hr + 8)"
     "set as' \<union> set bs' = set as \<union> set bs" "length bs \<le> Suc (length bs')"
    using b mem_cong [of ?t s] by auto
  let ?s' = "s1\<lparr>m_mutex := False, m_eflags := m_eflags s\<rparr>"
  have free: "kfree k ptr s = Inr ?s'"
    using s1(1) assms(2) by (simp add: kfree_def mem_lock_enter leave_if_simps)
  have again: "kfree k ptr ?s' = Inl (Panic ''Suspected double free found!'')"
    using s1(5) assms(4) by (simp add: kfree_def mem_lock_enter kfree_nolock_def freed_hdr_def)
  have "\<forall>h xr. live ?s' h xr \<longleftrightarrow> h \<noteq> ptr - 8 \<and> live s h xr"
    using s1(5) by (auto simp: live_def freed_hdr_def)
  then show ?thesis
    using free again s1(2,3,4,6,7,8) mem_cong [of ?s' s1]
    by (intro exI [of _ ?s'] exI [of _ as'] exI [of _ bs']) simp
qed

section \<open>Properties\<close>

text \<open>C1: When a request of up to \<open>2^32 - 32\<close> bytes is allowed to use the pool and some free block is large
  enough, \<open>kmalloc\<close> returns: the block it hands out was free memory, holds at least the requested bytes after its
  header, overlaps no block in use, the free memory shrinks by exactly this block, all other headers are
  untouched, the allocator's invariant is kept and the mutex and the interrupt flags are as before.\<close>

theorem kmalloc_hands_out_free_memory:
  assumes "kmem_inv s as bs" and "\<not> m_mutex s" and "sz \<noteq> 0" and "unat sz + 32 \<le> 2 ^ 32"
    and "kmem_can sz flags s as"
  shows "\<exists>ptr s' as' bs' hr. kmalloc (Suc (Suc k)) sz flags s = Inr (ptr, s') \<and> ptr \<noteq> NULL \<and>
     kmem_inv s' as' bs' \<and> live s' (ptr - 8) hr \<and> unat sz \<le> unat (hd_size hr) \<and>
     block_bytes (ptr - 8) hr \<subseteq> free_space s as \<and>
     free_space s' as' = free_space s as - block_bytes (ptr - 8) hr \<and>
     (\<forall>h xr. live s h xr \<longrightarrow> live s' h xr \<and> block_bytes h xr \<inter> block_bytes (ptr - 8) hr = {}) \<and>
     memory_used s' = memory_used s + (hd_size hr + 8) \<and>
     \<not> m_mutex s' \<and> m_eflags s' = m_eflags s"
proof -
  from kmalloc_fits [OF assms(1,3,4,5)] assms(2) obtain ptr s' where
    k: "kmalloc (Suc (Suc k)) sz flags s = Inr (ptr, s')" "took (kmem_round sz) s as bs ptr s'" by blast
  from k(2) obtain as' bs' hr where t: "ptr \<noteq> NULL" "kmem_inv s' as' bs'" "live s' (ptr - 8) hr"
    "unat (kmem_round sz) \<le> unat (hd_size hr)" "block_bytes (ptr - 8) hr \<subseteq> free_space s as"
    "free_space s' as' = free_space s as - block_bytes (ptr - 8) hr" "m_hdrs s' = (m_hdrs s)(ptr - 8 \<mapsto> hr)"
    "memory_used s' = memory_used s + (hd_size hr + 8)" "m_mutex s' = m_mutex s" "m_eflags s' = m_eflags s"
    unfolding took_def by blast
  have "live s' h xr \<and> block_bytes h xr \<inter> block_bytes (ptr - 8) hr = {}" if l: "live s h xr" for h xr
  proof -
    have d: "block_bytes h xr \<inter> free_space s as = {}" using assms(1) l unfolding kmem_inv_def blocks_ok_def by blast
    have "h \<noteq> ptr - 8"
    proof
      assume e: "h = ptr - 8"
      have "unat h \<in> block_bytes h xr" "unat h \<in> block_bytes h hr" by (simp_all add: block_bytes_def reg_bytes_def)
      with d t(5) e show False by blast
    qed
    with l t(7) d t(5) show ?thesis by (auto simp: live_def)
  qed
  with k(1) t kmem_round_bounds(1) [OF assms(4)] assms(2) show ?thesis
    by (intro exI [of _ ptr] exI [of _ s'] exI [of _ as'] exI [of _ bs'] exI [of _ hr]) (simp del: kmalloc.simps)
qed

text \<open>A pool as \<open>init\<close> leaves it, with a second free block and a spare structure: three live blocks holding
  structures, one live block of 32 bytes at \<open>0xC1000078\<close>.\<close>

definition kmem_example :: mem where
  "kmem_example = \<lparr>m_frees = [0xC1000024 \<mapsto> \<lparr>fr_size = 0x800, fr_base = 0xC1000100, fr_next = NULL\<rparr>,
       0xC1000038 \<mapsto> \<lparr>fr_size = 0, fr_base = 0, fr_next = NULL\<rparr>],
     m_hdrs = [0xC100001C \<mapsto> \<lparr>hd_size = 12, hd_sentinel = SENTINEL_VAL\<rparr>,
       0xC1000030 \<mapsto> \<lparr>hd_size = 20, hd_sentinel = SENTINEL_VAL\<rparr>,
       0xC1000078 \<mapsto> \<lparr>hd_size = 32, hd_sentinel = SENTINEL_VAL\<rparr>],
     m_pages = Map.empty, m_slots = Map.empty, m_ptes = (\<lambda>_. 0), m_flushed = [], m_mutex = False, m_eflags = 0x202,
     free_list = 0xC1000024, free_end = 0xC1000024, free_free_structs = 0xC1000038, kernel_start = 0,
     memory_total = 0x4000, memory_used = 0x100, memory_end = 0xC1001000, used_start = 0,
     static_page = \<lparr>page_id = 0, mem_base = 0, pg_flags = 0, consecutive = 0, pg_next = 0\<rparr>,
     page_id_counter = 0, allocation_pointer = 0, cursor = 0, mem_table = [], current_map = 0,
     virtual_pointer = 0xC1001000, page_dir = 0, page_free_head = 0, empty_slot = 0\<rparr>"

lemma kmem_example_live:
  "live kmem_example h hr \<longleftrightarrow> h = 0xC100001C \<and> hr = \<lparr>hd_size = 12, hd_sentinel = SENTINEL_VAL\<rparr> \<or>
     h = 0xC1000030 \<and> hr = \<lparr>hd_size = 20, hd_sentinel = SENTINEL_VAL\<rparr> \<or>
     h = 0xC1000078 \<and> hr = \<lparr>hd_size = 32, hd_sentinel = SENTINEL_VAL\<rparr>"
  by (auto simp: live_def kmem_example_def)

lemma kmem_example_inv: "kmem_inv kmem_example [0xC1000024] [0xC1000038]"
proof -
  have rep: "kmem_rep kmem_example [0xC1000024] [0xC1000038]"
    by (simp add: kmem_rep_def kmem_example_def fr_nx_def last_or_def reg_def reg_ok_def KERNEL_VM_BASE_val)
  have fs: "free_space kmem_example [0xC1000024] = {0xC1000100 ..< 0xC1000900}"
    by (simp add: free_space_def regs_def kmem_example_def reg_def reg_bytes_def)
  have "blocks_ok kmem_example [0xC1000024]"
    unfolding blocks_ok_def fs
  proof (intro conjI allI impI)
    fix h hr assume "live kmem_example h hr"
    then show "reg_ok (unat h, unat (hd_size hr) + 8)" "block_bytes h hr \<inter> {0xC1000100 ..< 0xC1000900} = {}"
      unfolding kmem_example_live by (auto simp: reg_ok_def KERNEL_VM_BASE_val block_bytes_def reg_bytes_def)
  next
    fix h hr h' hr' assume "live kmem_example h hr" "live kmem_example h' hr'" "h \<noteq> h'"
    then show "block_bytes h hr \<inter> block_bytes h' hr' = {}"
      unfolding kmem_example_live by (auto simp: block_bytes_def reg_bytes_def)
  qed
  moreover have "nodes_ok kmem_example (set [0xC1000024] \<union> set [0xC1000038])"
    by (auto simp: nodes_ok_def kmem_example_live)
  ultimately show ?thesis using rep by (simp add: kmem_inv_def)
qed

lemma kmem_example_can: "kmem_can 100 0 kmem_example [0xC1000024]"
  by (simp add: kmem_can_def kmem_too_full_def fits_def kmem_example_def kmem_round_def MINIMUM_PAGES_def
      PAGE_SIZE_def Let_def)

theorem kmalloc_hands_out_free_memory_witness:
  "\<exists>ptr s' hr. kmalloc (Suc (Suc 0)) 100 0 kmem_example = Inr (ptr, s') \<and> live s' (ptr - 8) hr \<and>
     100 \<le> unat (hd_size hr)"
proof -
  have "\<not> m_mutex kmem_example" by (simp add: kmem_example_def)
  from kmalloc_hands_out_free_memory [OF kmem_example_inv this _ _ kmem_example_can, of 0]
  show ?thesis by (auto simp del: kmalloc.simps)
qed



end
