(* ===== verification/KmemExt.thy ===== *)
theory KmemExt
  imports KmemInv
begin

text \<open>
  More about the kernel heap: the consistency check \<open>_verify\<close> accepts every state of the invariant, \<open>init\<close>
  establishes it, a request that does not fit extends the pool and then succeeds, and what happens to sizes near
  \<open>2^32\<close>.
\<close>

section \<open>\<open>_verify\<close>\<close>

lemma kmem_in_structs_absent:
  "linked (fr_nx s) p bs \<Longrightarrow> set bs \<subseteq> dom (m_frees s) \<Longrightarrow> a \<notin> set bs \<Longrightarrow> kmem_in_structs a p s = Some (Inr False)"
proof (induction bs arbitrary: p)
  case Nil
  then show ?case by (subst kmem_in_structs.simps) simp
next
  case (Cons b bs)
  then obtain f where "m_frees s b = Some f" by auto
  with Cons show ?case by (subst kmem_in_structs.simps) auto
qed

lemma kmem_check_node_ok:
  assumes rep: "kmem_rep s (xs @ a # ys) bs"
  shows "kmem_check_node (last_or xs) a s = Inr ()"
proof -
  from rep obtain f where f: "m_frees s a = Some f" by (auto simp: kmem_rep_def)
  note p = kmem_rep_at [OF rep f]
  have spare: "kmem_in_structs a (free_free_structs s) s = Some (Inr False)"
    using rep p(9) by (intro kmem_in_structs_absent [of _ _ bs]) (auto simp: kmem_rep_def)
  have low: "\<not> fr_base f < 0xc01000" using p(4) by (simp add: reg_ok_def wordlt_nat KERNEL_VM_BASE_val)
  have prev: "(if last_or xs = NULL then Inr () else bindE (rd_free s (last_or xs)) (\<lambda>q.
      if fr_base q = fr_base f then Inl (Panic ''Memory corruption, same start address'')
      else if fr_base q + fr_size q > fr_base f then Inl (Panic ''Memory corruption, overlapping free'')
      else Inr ())) = Inr ()"
  proof (cases "xs = []")
    case False
    from kmem_rep_last [OF rep False] obtain us u fu where
      u: "xs = us @ [u]" "last_or xs = u" "u \<noteq> NULL" "m_frees s u = Some fu" .
    have b: "before (reg fu) (reg f)" and ok: "reg_ok (reg fu)"
      using p(5) u rep by (auto simp: kmem_rep_def)
    have "fr_base fu \<noteq> fr_base f" using b ok by (auto simp: before_def reg_ok_def)
    moreover have "\<not> fr_base f < fr_base fu + fr_size fu"
      using b unat_end [OF ok] by (simp add: before_def wordlt_nat)
    ultimately show ?thesis using u by simp
  qed simp
  show ?thesis
  proof (cases ys)
    case Nil
    then have "fr_next f = NULL" using p(3) by simp
    with f spare show ?thesis by (simp add: kmem_check_node_def)
  next
    case (Cons b zs)
    with rep obtain n where n: "m_frees s b = Some n" by (auto simp: kmem_rep_def)
    have nb: "fr_next f = b" "b \<noteq> NULL" "b \<noteq> a" using p(3,8) Cons by auto
    have "\<not> fr_base n < fr_base f" using p(6) Cons n by (auto simp: before_def wordlt_nat)
    with f n nb low prev spare show ?thesis by (simp add: kmem_check_node_def)
  qed
qed

lemma kmem_verify_loop_ok:
  "kmem_rep s (xs @ ys) bs \<Longrightarrow> chain (fr_nx s) (free_list s) xs now \<Longrightarrow>
   kmem_verify_loop (last_or xs) now s = Some (Inr (last_or (xs @ ys)))"
proof (induction ys arbitrary: xs now)
  case Nil
  then have "now = NULL" using chain_end_unique by (fastforce simp: kmem_rep_def)
  then show ?case by (subst kmem_verify_loop.simps) simp
next
  case (Cons a ys)
  from Cons.prems(1) obtain f where f: "m_frees s a = Some f" by (auto simp: kmem_rep_def)
  note p = kmem_rep_at [OF Cons.prems(1) f]
  have now: "now = a" using Cons.prems(2) p(2) chain_end_unique by blast
  have "kmem_verify_loop (last_or (xs @ [a])) (fr_next f) s = Some (Inr (last_or ((xs @ [a]) @ ys)))"
    by (rule Cons.IH) (use Cons.prems now f p(1) in \<open>auto simp: chain_append\<close>)
  with now f p(1) kmem_check_node_ok [OF Cons.prems(1)] show ?case
    by (subst kmem_verify_loop.simps) simp
qed

text \<open>In every state of the allocator's invariant the consistency check \<open>_verify\<close> runs to its end without a
  panic: the free list is in order, without overlaps, self-links or structures that are also on the spare list, and
  \<open>free_end\<close> is its last element.\<close>

theorem kmem_verify_accepts_invariant:
  assumes "kmem_inv s as bs"
  shows "kmem_verify s = Inr ()"
proof -
  from assms have rep: "kmem_rep s ([] @ as) bs" by (simp add: kmem_inv_def)
  have "kmem_verify_loop NULL (free_list s) s = Some (Inr (last_or as))"
    using kmem_verify_loop_ok [OF rep, of "free_list s"] by simp
  then show ?thesis using rep by (simp add: kmem_verify_def kmem_rep_def)
qed

theorem kmem_verify_accepts_invariant_witness: "kmem_verify kmem_example = Inr ()"
  by (rule kmem_verify_accepts_invariant [OF kmem_example_inv])

section \<open>Sizes near the end of the address space\<close>

lemma do_kmalloc_found:
  assumes "sz \<noteq> 0" and "kmem_round sz + 8 = needed" and "\<not> kmem_too_full needed s \<or> flags AND KMALLOC_RESERVED \<noteq> 0"
    and "kmem_find needed NULL (free_list s) s = Some (Inr (prev, a))" and "a \<noteq> NULL"
  shows "do_kmalloc (Suc k) sz flags s = kmem_take (kmem_round sz) needed prev a s"
  using assms by (auto simp: Let_def)

text \<open>C39: A request of \<open>2^32 - 8\<close> bytes overflows the size computation: \<open>kmalloc\<close> returns a pointer into the first free
  block, records the requested size in a header there, and leaves the block on the free list, so that the next
  request is given the same memory. (The documentation says it panics when the memory cannot be had.)\<close>

theorem kmalloc_huge_overlaps_free_list:
  assumes "kmem_inv s (a # ys) bs" and "m_frees s a = Some f" and "8 < fr_size f" and "\<not> m_mutex s"
    and "\<not> kmem_too_full 0 s \<or> flags AND KMALLOC_RESERVED \<noteq> 0"
  shows "\<exists>s'. kmalloc (Suc (Suc k)) 0xFFFFFFF8 flags s = Inr (fr_base f + 8, s') \<and>
     m_hdrs s' (fr_base f) = Some \<lparr>hd_size = 0xFFFFFFF8, hd_sentinel = SENTINEL_VAL\<rparr> \<and>
     m_frees s' a = Some f \<and> free_list s' = a \<and> memory_used s' = memory_used s"
proof -
  let ?hr = "\<lparr>hd_size = 0xFFFFFFF8, hd_sentinel = SENTINEL_VAL\<rparr>"
  have a: "free_list s = a" "a \<noteq> NULL" using assms(1) by (auto simp: kmem_inv_def kmem_rep_def)
  have r: "kmem_round 0xFFFFFFF8 = 0xFFFFFFF8" by (simp add: kmem_round_def Let_def)
  have z: "kmem_round 0xFFFFFFF8 + 8 = 0" unfolding r by (simp add: word_eq_iff_unsigned)
  have fs: "f\<lparr>fr_size := fr_size f, fr_base := fr_base f\<rparr> = f" by (cases f) simp
  have step: "do_kmalloc (Suc k) 0xFFFFFFF8 flags t =
      Inr (fr_base f + 8, (wr_hdr (fr_base f) ?hr (wr_free a f t))\<lparr>memory_used := memory_used t\<rparr>)"
    if t: "m_frees t = m_frees s" "free_list t = a" "memory_used t = memory_used s" "memory_total t = memory_total s" for t
  proof -
    have "kmem_find 0 NULL (free_list t) t = Some (Inr (NULL, a))"
      using t a(2) assms(2) by (subst kmem_find.simps) simp
    moreover have "\<not> kmem_too_full 0 t \<or> flags AND KMALLOC_RESERVED \<noteq> 0"
      using assms(5) t by (simp add: kmem_too_full_def)
    ultimately have "do_kmalloc (Suc k) 0xFFFFFFF8 flags t = kmem_take (kmem_round 0xFFFFFFF8) 0 NULL a t"
      using z a(2) by (intro do_kmalloc_found) simp_all
    also have "\<dots> = Inr (fr_base f + 8, (wr_hdr (fr_base f) ?hr (wr_free a f t))\<lparr>memory_used := memory_used t\<rparr>)"
      using assms(2,3) t fs unfolding r by (auto simp: kmem_take_def kmem_take_start_def Let_def)
    finally show ?thesis .
  qed
  show ?thesis
  proof (cases "flags AND KMALLOC_NOLOCK = 0")
    case True
    then show ?thesis using assms(4) a step
      by (simp del: do_kmalloc.simps add: mem_lock_enter leave_if_simps)
  next
    case False
    then show ?thesis using a step by (simp del: do_kmalloc.simps add: enter_if_def leave_if_simps)
  qed
qed

theorem kmalloc_huge_overlaps_free_list_witness:
  "\<exists>s'. kmalloc (Suc (Suc 0)) 0xFFFFFFF8 0 kmem_example = Inr (0xC1000108, s') \<and> free_list s' = 0xC1000024 \<and>
     m_frees s' 0xC1000024 = m_frees kmem_example 0xC1000024"
proof -
  have "m_frees kmem_example 0xC1000024 = Some \<lparr>fr_size = 0x800, fr_base = 0xC1000100, fr_next = NULL\<rparr>"
    "\<not> m_mutex kmem_example" "\<not> kmem_too_full 0 kmem_example"
    by (simp_all add: kmem_example_def kmem_too_full_def MINIMUM_PAGES_def PAGE_SIZE_def)
  with kmalloc_huge_overlaps_free_list [OF kmem_example_inv, of _ 0 0]
  show ?thesis by (auto simp del: kmalloc.simps)
qed

section \<open>Initialisation\<close>

lemma unat_ucast_64: "unat (ucast (x :: u32) :: u64) = unat x"
proof -
  have "unat x < 2 ^ 64" using less_trans [OF unat_lt_32 [of x], of "2 ^ 64"] by simp
  then show ?thesis by (simp add: unsigned_ucast_eq take_bit_nat_eq_self)
qed

text \<open>One page from the current region when it does not reach the end of the region.\<close>

lemma alloc_nokmalloc_within:
  assumes "current_map s < length (mem_table s)" and "\<not> m_mutex s"
    and room: "unat (allocation_pointer s) + unat (count * PAGE_SIZE) < 2 ^ 32"
      "ucast (allocation_pointer s + count * PAGE_SIZE) < region_end (mem_table s ! current_map s)"
  shows "alloc_nokmalloc flags count s = Inr (s\<lparr>page_id_counter := page_id_counter s + 1,
      static_page := \<lparr>page_id = page_id_counter s, mem_base = allocation_pointer s, pg_flags = FLAG_ALLOCATED OR flags,
        consecutive = count * PAGE_SIZE div PAGE_SIZE, pg_next = NULL\<rparr>,
      allocation_pointer := allocation_pointer s + count * PAGE_SIZE\<rparr>)"
proof (cases "flags AND FLAG_NOLOCK = 0")
  case True
  then show ?thesis using assms by (cases s) (auto simp: alloc_nokmalloc_def mem_lock_enter leave_if_simps Let_def not_le)
next
  case False
  then show ?thesis using assms by (cases s) (auto simp: alloc_nokmalloc_def enter_if_def leave_if_simps Let_def not_le)
qed

lemma kinstall_append_one:
  assumes "consecutive pg = 1" and "pg_next pg = NULL" and "\<not> m_mutex s" and "virtual_pointer s \<noteq> 0"
    and "unat (virtual_pointer s) < TOTAL_VM_SIZE - unat PAGE_SIZE"
  shows "kinstall_append pg fl True s = Some (Inr (virtual_pointer s,
     s\<lparr>m_ptes := (m_ptes s)(cursor s := mem_base pg OR fl OR PAGE_TABLE_PRESENT),
       virtual_pointer := virtual_pointer s + PAGE_SIZE, cursor := cursor s + 4,
       memory_end := virtual_pointer s + PAGE_SIZE\<rparr>))"
  using assms by (subst kinstall_append.simps) (cases s, simp add: mem_lock_def mem_unlock_def Let_def)

text \<open>The state that \<open>kmem::init\<close> leaves: two blocks and one free region in the first page.\<close>

lemma first_page_inv:
  assumes st: "m_hdrs s' = [v \<mapsto> \<lparr>hd_size = 20, hd_sentinel = SENTINEL_VAL\<rparr>, v + 28 \<mapsto> \<lparr>hd_size = 12, hd_sentinel = SENTINEL_VAL\<rparr>]"
      "m_frees s' (v + 36) = Some \<lparr>fr_size = 4048, fr_base = v + 48, fr_next = NULL\<rparr>"
      "free_list s' = v + 36" "free_end s' = v + 36" "free_free_structs s' = NULL"
    and v: "KERNEL_VM_BASE \<le> v" "unat v + 8192 < 2 ^ 32"
  shows "free_space s' [v + 36] = {unat v + 48 ..< unat v + 4096}" and "kmem_inv s' [v + 36] []"
proof -
  have plus: "unat (v + n) = unat v + unat n" if "unat n < 4096" for n
    using that v(2) by (intro unat_add_lt) simp
  have nz: "v + 36 \<noteq> NULL"
  proof
    assume e: "v + 36 = NULL"
    show False using plus [of 36] unfolding e by simp
  qed
  have lv: "live s' h hr \<longleftrightarrow> h = v \<and> hr = \<lparr>hd_size = 20, hd_sentinel = SENTINEL_VAL\<rparr> \<or>
      h = v + 28 \<and> hr = \<lparr>hd_size = 12, hd_sentinel = SENTINEL_VAL\<rparr>" for h hr
    unfolding live_def st(1) by auto
  have rg: "regs s' [v + 36] = [(unat v + 48, 4048)]" using st(2) plus [of 48] by (simp add: reg_def)
  have lo: "0xC0000000 \<le> unat v" using v(1) by (simp add: wordle_nat KERNEL_VM_BASE_val)
  have rep: "kmem_rep s' [v + 36] []"
    using st(2-5) nz rg lo v(2) unfolding kmem_rep_def by (auto simp: reg_ok_def KERNEL_VM_BASE_val)
  show fs: "free_space s' [v + 36] = {unat v + 48 ..< unat v + 4096}"
    unfolding free_space_def rg by (auto simp: reg_bytes_def)
  have bb: "block_bytes v \<lparr>hd_size = 20, hd_sentinel = SENTINEL_VAL\<rparr> = {unat v ..< unat v + 28}"
    "block_bytes (v + 28) \<lparr>hd_size = 12, hd_sentinel = SENTINEL_VAL\<rparr> = {unat v + 28 ..< unat v + 48}"
    using plus [of 28] by (auto simp: block_bytes_def reg_bytes_def)
  have "blocks_ok s' [v + 36]" unfolding blocks_ok_def fs
  proof (intro conjI allI impI)
    fix h hr assume "live s' h hr"
    then show "reg_ok (unat h, unat (hd_size hr) + 8)" "block_bytes h hr \<inter> {unat v + 48 ..< unat v + 4096} = {}"
      unfolding lv using bb lo v(2) plus [of 28] by (auto simp: reg_ok_def KERNEL_VM_BASE_val)
  next
    fix h hr h' hr' assume "live s' h hr" "live s' h' hr'" "h \<noteq> h'"
    then show "block_bytes h hr \<inter> block_bytes h' hr' = {}" unfolding lv using bb by auto
  qed
  moreover have "nodes_ok s' (set [v + 36] \<union> set [])" by (auto simp: nodes_ok_def lv)
  ultimately show "kmem_inv s' [v + 36] []" using rep by (simp add: kmem_inv_def)
qed

text \<open>C3: \<open>kmem::init\<close> returns and establishes the allocator's invariant, if the memory map has a region with a page to
  spare after the page tables and the kernel's tables end in the upper quarter below the last two pages: one free
  block, the rest of the first page after the first \<open>Page\<close> and the first free-list structure.\<close>

theorem kmem_init_establishes_invariant:
  assumes "vm_end (kmem_map map_low ro rw) = v"
    and "first_region (mem_table s) 0 (v - KERNEL_VM_BASE) = Inr i" and "i < length (mem_table s)"
    and "unat (v - KERNEL_VM_BASE) + 4096 < unat (region_end (mem_table s ! i))"
    and "KERNEL_VM_BASE \<le> v" and "unat v + 8192 < 2 ^ 32" and "\<not> m_mutex s" and "free_free_structs s = NULL"
    and "m_hdrs s = Map.empty"
  shows "\<exists>s'. kmem_init map_low ro rw s = Inr s' \<and> kmem_inv s' [v + 36] [] \<and>
     free_space s' [v + 36] = {unat v + 48 ..< unat v + 4096} \<and> memory_end s' = v + PAGE_SIZE \<and>
     \<not> m_mutex s' \<and> m_eflags s' = m_eflags s"
proof -
  let ?m = "kmem_map map_low ro rw"
  have ms: "memory_start ?m = v" using assms(1) by (simp add: kmem_map_def Let_def)
  obtain s1 where s1: "page_init ?m s = Inr s1" "allocation_pointer s1 = v - KERNEL_VM_BASE" "current_map s1 = i"
    "virtual_pointer s1 = v" "mem_table s1 = mem_table s" "m_mutex s1 = m_mutex s" "m_eflags s1 = m_eflags s"
    "free_free_structs s1 = free_free_structs s" "m_hdrs s1 = m_hdrs s"
    using assms(1,2) ms by (simp add: page_init_def Let_def)
  have p1: "(1 * PAGE_SIZE) div PAGE_SIZE = (1 :: u32)" by (simp add: PAGE_SIZE_def)
  have ap: "unat (v - KERNEL_VM_BASE) = unat v - 0xC0000000" using assms(5) unat_sub_le [OF assms(5)]
    by (simp add: KERNEL_VM_BASE_val)
  have "unat (v - KERNEL_VM_BASE + 4096) = unat (v - KERNEL_VM_BASE) + 4096"
    using ap assms(6) by (subst unat_add_lt) simp_all
  then have "ucast (v - KERNEL_VM_BASE + 4096) < region_end (mem_table s ! i)"
    using assms(4) by (simp add: word_less_nat_alt unat_ucast_64)
  then have within: "ucast (allocation_pointer s1 + 1 * PAGE_SIZE) < region_end (mem_table s1 ! current_map s1)"
    using s1 by (simp add: PAGE_SIZE_def)
  let ?pg = "\<lparr>page_id = page_id_counter s1, mem_base = v - KERNEL_VM_BASE, pg_flags = FLAG_ALLOCATED OR FLAG_KERNEL,
    consecutive = 1, pg_next = NULL\<rparr>"
  obtain s2 where s2: "alloc_nokmalloc FLAG_KERNEL 1 s1 = Inr s2" "static_page s2 = ?pg" "virtual_pointer s2 = v"
    "m_mutex s2 = m_mutex s" "m_eflags s2 = m_eflags s" "free_free_structs s2 = NULL" "m_hdrs s2 = Map.empty"
    using alloc_nokmalloc_within [of s1 1 FLAG_KERNEL] within s1 assms(3,6,7,8,9) ap p1 by simp
  have vp: "virtual_pointer s2 \<noteq> 0" "unat (virtual_pointer s2) < TOTAL_VM_SIZE - unat PAGE_SIZE"
    using assms(5,6) s2(3) by (auto simp: TOTAL_VM_SIZE_def KERNEL_VM_BASE_val)
  obtain s3 where s3: "kinstall_append (static_page s2) PAGE_TABLE_RW True s2 = Some (Inr (v, s3))"
    "m_mutex s3 = m_mutex s" "m_eflags s3 = m_eflags s" "free_free_structs s3 = NULL" "m_hdrs s3 = Map.empty"
    using kinstall_append_one [of "static_page s2" s2 PAGE_TABLE_RW] vp s2 assms(7) by simp
  let ?vl = "SENTINEL_VAL"
  obtain s' where s': "kmem_init map_low ro rw s = Inr s'"
    "m_hdrs s' = [v \<mapsto> \<lparr>hd_size = 20, hd_sentinel = ?vl\<rparr>, v + 28 \<mapsto> \<lparr>hd_size = 12, hd_sentinel = ?vl\<rparr>]"
    "m_frees s' (v + 36) = Some \<lparr>fr_size = 4048, fr_base = v + 48, fr_next = NULL\<rparr>"
    "free_list s' = v + 36" "free_end s' = v + 36" "free_free_structs s' = NULL" "memory_end s' = v + PAGE_SIZE"
    "m_mutex s' = m_mutex s" "m_eflags s' = m_eflags s"
    using s1(1) s2(1) s3 by (simp add: kmem_init_def wr_hdr_def wr_free_def wr_page_def Let_def PAGE_SIZE_def add.assoc)
  then show ?thesis using first_page_inv [OF s'(2-6) assms(5,6)] assms(7) by simp
qed

definition boot_example :: mem where
  "boot_example = kmem_example\<lparr>m_hdrs := Map.empty, free_free_structs := NULL,
     mem_table := [\<lparr>mm_base = 0x100000, mm_length = 0x7F00000, mm_type = 1\<rparr>]\<rparr>"

definition map_low_example :: map_t where
  "map_low_example = \<lparr>kernel_ro_start = 0x100000, kernel_ro_end = 0x140000, kernel_rw_start = 0x140000,
     kernel_rw_end = 0x180000, kernel_info_start = 0x180000, kernel_info_end = 0x190000,
     vm_start = 0x190000, vm_end = 0x291000, memory_start = 0x291000\<rparr>"

theorem kmem_init_establishes_invariant_witness:
  "\<exists>s'. kmem_init map_low_example 0xC0140000 0xC0180000 boot_example = Inr s' \<and> kmem_inv s' [0xC0291024] []"
proof -
  have v: "vm_end (kmem_map map_low_example 0xC0140000 0xC0180000) = 0xC0291000"
    by (simp add: kmem_map_def map_low_example_def Let_def PAGE_TABLE_LENGTH_def KERNEL_VM_PAGE_TABLES_val)
  have "first_region (mem_table boot_example) 0 (0xC0291000 - KERNEL_VM_BASE) = Inr 0"
    by (subst first_region.simps) (simp add: boot_example_def region_end_def KERNEL_VM_BASE_val)
  from kmem_init_establishes_invariant [OF v this] show ?thesis
    by (auto simp: boot_example_def kmem_example_def region_end_def KERNEL_VM_BASE_val)
qed

end
