(* ===== verification/Page.thy ===== *)
theory Page
  imports KmemInv
begin

text \<open>
  The rest of \<open>src/mem/page.cpp\<close>: creating, freeing, splitting and counting chains of physical pages, and mapping
  them into holes of the kernel's address space (\<open>kinstall\<close>, \<open>kuninstall\<close>). \<open>page::alloc\<close>,
  \<open>alloc_nokmalloc\<close>, \<open>used\<close>, \<open>kinstall_append\<close> and \<open>init\<close> are in the theory of the kernel heap, which
  calls them. \<open>k\<close> is the fuel for the heap operations.
\<close>

section \<open>Operations\<close>

definition page_merge_free :: "nat \<Rightarrow> u32 \<Rightarrow> mem \<Rightarrow> mem result" where
  "page_merge_free k first s = bindE (rd_page s first) (\<lambda>f.
     if pg_next f = NULL then Inr s
     else bindE (rd_page s (pg_next f)) (\<lambda>n.
       if mem_base f + consecutive f * PAGE_SIZE = mem_base n
       then let hold = pg_next f;
                s1 = wr_page first (f\<lparr>consecutive := consecutive f + consecutive n, pg_next := pg_next n\<rparr>) s
            in kfree_nolock k hold s1
       else Inr s))"

definition merge_free_slots :: "nat \<Rightarrow> u32 \<Rightarrow> mem \<Rightarrow> mem result" where
  "merge_free_slots k first s = bindE (rd_slot s first) (\<lambda>f.
     if vs_next f = NULL then Inr s
     else bindE (rd_slot s (vs_next f)) (\<lambda>n.
       if vs_base f + vs_pages f * PAGE_SIZE = vs_base n
       then let hold = vs_next f;
                s1 = wr_slot first (f\<lparr>vs_pages := vs_pages f + vs_pages n, vs_next := vs_next n\<rparr>) s
            in kfree_nolock k hold s1
       else Inr s))"

definition page_create :: "nat \<Rightarrow> u32 \<Rightarrow> u8 \<Rightarrow> u32 \<Rightarrow> mem \<Rightarrow> (u32 \<times> mem) result" where
  "page_create k base flags count s = bindE (mem_lock s) (\<lambda>s0.
     bindE (kmalloc k sizeof_Page (KMALLOC_RESERVED OR KMALLOC_NOLOCK) s0) (\<lambda>(write, s1).
     let s2 = wr_page write \<lparr>page_id = page_id_counter s1, mem_base = base, pg_flags = FLAG_ALLOCATED OR flags,
                consecutive = count, pg_next = NULL\<rparr> s1;
         s3 = s2\<lparr>page_id_counter := page_id_counter s2 + 1\<rparr>
     in Inr (write, mem_unlock s3)))"

text \<open>The search for the place of a freed page, by address.\<close>

partial_function (option) page_locate :: "u32 \<Rightarrow> u32 \<Rightarrow> u32 \<Rightarrow> mem \<Rightarrow> (u32 \<times> u32) result option" where
  "page_locate base prev now s = (if now = NULL then Some (Inr (prev, NULL))
     else case m_pages s now of None \<Rightarrow> Some (Inl Fault)
     | Some f \<Rightarrow> if mem_base f < base then page_locate base now (pg_next f) s else Some (Inr (prev, now)))"

text \<open>\<open>free\<close> of one page structure, after the rest of its chain.\<close>

definition page_free_one :: "nat \<Rightarrow> u32 \<Rightarrow> mem \<Rightarrow> mem result" where
  "page_free_one k p s = bindE (mem_lock s) (\<lambda>s0.
     bindE (rd_page s0 p) (\<lambda>pg.
     bindE (bindE (loopE (page_locate (mem_base pg) NULL (page_free_head s0) s0)) (\<lambda>r. r)) (\<lambda>(prev, now).
     bindE (if prev \<noteq> NULL then bindE (rd_page s0 prev) (\<lambda>pf. Inr (wr_page prev (pf\<lparr>pg_next := p\<rparr>) s0))
            else Inr (s0\<lparr>page_free_head := p\<rparr>)) (\<lambda>s1.
     bindE (rd_page s1 p) (\<lambda>pg1.
     bindE (page_merge_free k p (wr_page p (pg1\<lparr>pg_next := now\<rparr>) s1)) (\<lambda>s2.
     bindE (if prev \<noteq> NULL then page_merge_free k prev s2 else Inr s2) (\<lambda>s3.
     Inr (mem_unlock s3))))))))"

partial_function (option) page_free :: "nat \<Rightarrow> u32 \<Rightarrow> mem \<Rightarrow> mem result option" where
  "page_free k p s = (if p = NULL then Some (Inr s)
     else case m_pages s p of None \<Rightarrow> Some (Inl Fault)
     | Some pg \<Rightarrow> if pg_next pg \<noteq> NULL
                   then Option.bind (page_free k (pg_next pg) s) (\<lambda>r. Some (bindE r (page_free_one k p)))
                   else Some (page_free_one k p s))"

partial_function (option) page_count :: "u32 \<Rightarrow> u32 \<Rightarrow> mem \<Rightarrow> u32 result option" where
  "page_count acc p s = (if p = NULL then Some (Inr acc)
     else case m_pages s p of None \<Rightarrow> Some (Inl Fault)
     | Some pg \<Rightarrow> page_count (acc + consecutive pg) (pg_next pg) s)"

partial_function (option) page_split :: "nat \<Rightarrow> u32 \<Rightarrow> u32 \<Rightarrow> mem \<Rightarrow> (u32 \<times> mem) result option" where
  "page_split k p count s = (case m_pages s p of None \<Rightarrow> Some (Inl Fault)
     | Some pg \<Rightarrow>
       if count > consecutive pg then page_split k (pg_next pg) (count - consecutive pg) s
       else Some (bindE (page_create k (mem_base pg + count * PAGE_SIZE) (pg_flags pg) (consecutive pg - count) s)
             (\<lambda>(created, s1).
              bindE (rd_page s1 created) (\<lambda>c. bindE (rd_page s1 p) (\<lambda>pg1.
              let s2 = wr_page created (c\<lparr>pg_next := pg_next pg1\<rparr>) s1
              in Inr (created, wr_page p (pg1\<lparr>pg_next := NULL, consecutive := count\<rparr>) s2))))))"

section \<open>Mapping into the kernel's address space\<close>

partial_function (option) slot_find :: "u32 \<Rightarrow> u32 \<Rightarrow> u32 \<Rightarrow> mem \<Rightarrow> (u32 \<times> u32) result option" where
  "slot_find total_pages prev slot s = (if slot = NULL then Some (Inr (prev, NULL))
     else case m_slots s slot of None \<Rightarrow> Some (Inl Fault)
     | Some f \<Rightarrow> if vs_pages f < total_pages then slot_find total_pages slot (vs_next f) s else Some (Inr (prev, slot)))"

text \<open>Taking \<open>total_pages\<close> pages of address space from a slot.\<close>

definition slot_take :: "nat \<Rightarrow> u32 \<Rightarrow> u32 \<Rightarrow> u32 \<Rightarrow> mem \<Rightarrow> (u32 \<times> mem) result" where
  "slot_take k total_pages prev slot s = bindE (rd_slot s slot) (\<lambda>f.
     if vs_pages f = total_pages
     then bindE (if prev \<noteq> NULL then bindE (rd_slot s prev) (\<lambda>pf. Inr (wr_slot prev (pf\<lparr>vs_next := vs_next f\<rparr>) s))
                 else Inr (s\<lparr>empty_slot := vs_next f\<rparr>)) (\<lambda>s1.
          bindE (kfree_nolock k slot s1) (\<lambda>s2. Inr (vs_base f, s2)))
     else Inr (vs_base f, wr_slot slot (f\<lparr>vs_pages := vs_pages f - total_pages, vs_base := vs_base f + total_pages * PAGE_SIZE\<rparr>) s))"

text \<open>The inner loop of \<open>kinstall\<close>: \<open>n\<close> is the number of pages of the \<^emph>\<open>first\<close> chunk, whichever chunk
  is being mapped, and the address invalidated is the physical one.\<close>

fun map_loop :: "nat \<Rightarrow> u32 \<Rightarrow> u32 \<Rightarrow> u32 \<Rightarrow> u32 \<Rightarrow> mem \<Rightarrow> u32 \<times> mem" where
  "map_loop 0 i base page_flags entry s = (entry, s)"
| "map_loop (Suc n) i base page_flags entry s =
     map_loop n (i + 1) base page_flags (entry + 4)
       (s\<lparr>m_ptes := (m_ptes s)(entry := (base + PAGE_SIZE * i) OR page_flags OR PAGE_TABLE_PRESENT),
          m_flushed := (base + PAGE_SIZE * i) # m_flushed s\<rparr>)"

partial_function (option) map_chain :: "u32 \<Rightarrow> u32 \<Rightarrow> u32 \<Rightarrow> u32 \<Rightarrow> mem \<Rightarrow> mem result option" where
  "map_chain first_consecutive current page_flags entry s = (if current = NULL then Some (Inr s)
     else case m_pages s current of None \<Rightarrow> Some (Inl Fault)
     | Some pg \<Rightarrow> (case map_loop (unat first_consecutive) 0 (mem_base pg) page_flags entry s of (entry', s') \<Rightarrow>
                   map_chain first_consecutive (pg_next pg) page_flags entry' s'))"

definition table_entry :: "u32 \<Rightarrow> mem \<Rightarrow> u32" where
  "table_entry base s = page_dir s + 4096 + 4 * ((base - KERNEL_VM_BASE) div PAGE_SIZE)"

definition kinstall :: "nat \<Rightarrow> u32 \<Rightarrow> u32 \<Rightarrow> mem \<Rightarrow> (u32 \<times> mem) result" where
  "kinstall k p page_flags s =
     bindE (bindE (loopE (page_count 0 p s)) (\<lambda>r. r)) (\<lambda>total_pages.
     bindE (enter_if True s) (\<lambda>(saved, s0).
     bindE (bindE (loopE (slot_find total_pages NULL (empty_slot s) s0)) (\<lambda>r. r)) (\<lambda>(prev_slot, slot).
     bindE (rd_page s0 p) (\<lambda>pg.
     let append = (\<lambda>s1. let s2 = leave_if True saved s1 in
           bindE (rd_page s2 p) (\<lambda>pg2. bindE (loopE (kinstall_append pg2 page_flags True s2)) (\<lambda>r. r)))
     in if slot \<noteq> NULL
        then bindE (slot_take k total_pages prev_slot slot s0) (\<lambda>(base, s1).
             if base \<noteq> 0
             then bindE (bindE (loopE (map_chain (consecutive pg) p page_flags (table_entry base s1) s1)) (\<lambda>r. r)) (\<lambda>s2.
                  Inr (base, leave_if True saved s2))
             else append s1)
        else append s0))))"

partial_function (option) slot_locate :: "u32 \<Rightarrow> u32 \<Rightarrow> u32 \<Rightarrow> mem \<Rightarrow> (u32 \<times> u32) result option" where
  "slot_locate base prev now s = (if now = NULL then Some (Inr (prev, NULL))
     else case m_slots s now of None \<Rightarrow> Some (Inl Fault)
     | Some f \<Rightarrow> if vs_base f < base then slot_locate base now (vs_next f) s else Some (Inr (prev, now)))"

fun unmap_loop :: "nat \<Rightarrow> u32 \<Rightarrow> u32 \<Rightarrow> mem \<Rightarrow> u32 \<times> mem" where
  "unmap_loop 0 base entry s = (base, s)"
| "unmap_loop (Suc n) base entry s = unmap_loop n (base + PAGE_SIZE) (entry + 4)
     (s\<lparr>m_ptes := (m_ptes s)(entry := 0), m_flushed := base # m_flushed s\<rparr>)"

text \<open>One chunk of \<open>kuninstall\<close>; the result is the address after it.\<close>

definition kuninstall_one :: "nat \<Rightarrow> u32 \<Rightarrow> page \<Rightarrow> mem \<Rightarrow> (u32 \<times> mem) result" where
  "kuninstall_one k base pg s =
     bindE (enter_if True s) (\<lambda>(saved, s0).
     bindE (bindE (loopE (slot_locate base NULL (empty_slot s0) s0)) (\<lambda>r. r)) (\<lambda>(prev, now).
     bindE (kmalloc k 12 KMALLOC_NOLOCK s0) (\<lambda>(new_slot, s1).
     bindE (if prev \<noteq> NULL then bindE (rd_slot s1 prev) (\<lambda>pf. Inr (wr_slot prev (pf\<lparr>vs_next := new_slot\<rparr>) s1))
            else Inr (s1\<lparr>empty_slot := new_slot\<rparr>)) (\<lambda>s2.
     let s3 = wr_slot new_slot \<lparr>vs_base = base, vs_pages = consecutive pg, vs_next = now\<rparr> s2 in
     case unmap_loop (unat (consecutive pg)) base (table_entry base s3) s3 of (base', s4) \<Rightarrow>
     bindE (merge_free_slots k new_slot s4) (\<lambda>s5.
     bindE (if prev \<noteq> NULL then merge_free_slots k prev s5 else Inr s5) (\<lambda>s6.
     Inr (base', leave_if True saved s6)))))))"

partial_function (option) kuninstall :: "nat \<Rightarrow> u32 \<Rightarrow> u32 \<Rightarrow> mem \<Rightarrow> mem result option" where
  "kuninstall k base p s = (if p = NULL then Some (Inr s)
     else case m_pages s p of None \<Rightarrow> Some (Inl Fault)
     | Some pg \<Rightarrow> (case kuninstall_one k base pg s of Inl e \<Rightarrow> Some (Inl e)
        | Inr (base', s1) \<Rightarrow> (case m_pages s1 p of None \<Rightarrow> Some (Inl Fault)
            | Some pg1 \<Rightarrow> if pg_next pg1 \<noteq> NULL then kuninstall k base' (pg_next pg1) s1 else Some (Inr s1))))"

section \<open>Chains of pages\<close>

definition pg_nx :: "mem \<Rightarrow> u32 \<Rightarrow> u32" where
  "pg_nx s a = (case m_pages s a of None \<Rightarrow> NULL | Some f \<Rightarrow> pg_next f)"

definition page_chain :: "mem \<Rightarrow> u32 \<Rightarrow> u32 list \<Rightarrow> bool" where
  "page_chain s p ps \<longleftrightarrow> linked (pg_nx s) p ps \<and> set ps \<subseteq> dom (m_pages s)"

definition page_sizes :: "mem \<Rightarrow> u32 list \<Rightarrow> nat list" where
  "page_sizes s ps = map (\<lambda>a. case m_pages s a of Some pg \<Rightarrow> unat (consecutive pg)) ps"

text \<open>The physical frames of a chunk and of a chain, in order.\<close>

definition chunk_frames :: "page \<Rightarrow> u32 list" where
  "chunk_frames pg = map (\<lambda>i. mem_base pg + of_nat i * PAGE_SIZE) [0 ..< unat (consecutive pg)]"

definition chain_frames :: "mem \<Rightarrow> u32 list \<Rightarrow> u32 list" where
  "chain_frames s ps = concat (map (\<lambda>a. case m_pages s a of Some pg \<Rightarrow> chunk_frames pg) ps)"

lemma m_pages_wr [simp]:
  "m_pages (wr_page p f s) = (m_pages s)(p \<mapsto> f)" "pg_nx (wr_page p f s) = (pg_nx s)(p := pg_next f)"
  by (auto simp: wr_page_def pg_nx_def)

lemma rd_page_Some [simp]: "m_pages s p = Some f \<Longrightarrow> rd_page s p = Inr f"
  by (simp add: rd_page_def)

lemma pg_nx_Some [simp]: "m_pages s a = Some f \<Longrightarrow> pg_nx s a = pg_next f"
  by (simp add: pg_nx_def)

lemma chain_frames_simps [simp]:
  "chain_frames s [] = []" "chain_frames s (ps @ qs) = chain_frames s ps @ chain_frames s qs"
  "chain_frames s (a # ps) = (case m_pages s a of Some pg \<Rightarrow> chunk_frames pg) @ chain_frames s ps"
  by (simp_all add: chain_frames_def)

lemma chain_frames_wr [simp]: "p \<notin> set ps \<Longrightarrow> chain_frames (wr_page p f s) ps = chain_frames s ps"
  by (auto simp: chain_frames_def intro!: arg_cong [of _ _ concat])

lemma page_chain_cong:
  assumes "m_pages s = m_pages t"
  shows "page_chain s p ps = page_chain t p ps" "chain_frames s ps = chain_frames t ps" "pg_nx s = pg_nx t"
proof -
  show "pg_nx s = pg_nx t" using assms by (simp add: pg_nx_def fun_eq_iff)
  then show "page_chain s p ps = page_chain t p ps" "chain_frames s ps = chain_frames t ps"
    using assms by (simp_all add: page_chain_def chain_frames_def)
qed

lemma page_chain_simps:
  "page_chain s p [] \<longleftrightarrow> p = NULL"
  "page_chain s p (a # ps) \<longleftrightarrow> p = a \<and> a \<noteq> NULL \<and> (\<exists>pg. m_pages s a = Some pg \<and> page_chain s (pg_next pg) ps)"
  by (auto simp: page_chain_def)

lemma length_chunk_frames [simp]: "length (chunk_frames pg) = unat (consecutive pg)"
  by (simp add: chunk_frames_def)

lemma page_count_sums:
  "page_chain s p ps \<Longrightarrow> page_count n p s = Some (Inr (n + of_nat (length (chain_frames s ps))))"
proof (induction ps arbitrary: p n)
  case Nil
  then show ?case by (subst page_count.simps) (simp add: page_chain_simps)
next
  case (Cons a ps)
  then obtain pg where pg: "p = a" "a \<noteq> NULL" "m_pages s a = Some pg" "page_chain s (pg_next pg) ps"
    by (auto simp: page_chain_simps)
  with Cons.IH [OF pg(4), of "n + consecutive pg"] show ?case
    by (subst page_count.simps) (simp add: add.assoc)
qed

section \<open>Heap operations that fit leave the pages alone\<close>

definition heap_frame :: "mem \<Rightarrow> mem \<Rightarrow> bool" where
  "heap_frame s t \<longleftrightarrow> m_pages s = m_pages t \<and> m_slots s = m_slots t \<and> m_ptes s = m_ptes t \<and>
     page_free_head s = page_free_head t \<and> empty_slot s = empty_slot t \<and> page_dir s = page_dir t \<and>
     used_start s = used_start t \<and> page_id_counter s = page_id_counter t \<and>
     virtual_pointer s = virtual_pointer t \<and> cursor s = cursor t \<and> allocation_pointer s = allocation_pointer t \<and>
     mem_table s = mem_table t \<and> current_map s = current_map t"

lemma kmem_take_frame: "kmem_take sz needed prev a s = Inr (ptr, s') \<Longrightarrow> heap_frame s s'"
  unfolding kmem_take_def
  by (auto simp: kmem_take_whole_def kmem_take_start_def heap_frame_def Let_def wr_free_def wr_hdr_def result_iff
      split: if_splits)

lemma kmalloc_fits_frame:
  assumes inv: "kmem_inv s as bs" and sz: "sz \<noteq> 0" "unat sz + 32 \<le> 2 ^ 32" and can: "kmem_can sz flags s as"
    and nl: "flags AND KMALLOC_NOLOCK \<noteq> 0"
  shows "\<exists>ptr s'. kmalloc (Suc (Suc k)) sz flags s = Inr (ptr, s') \<and> took (kmem_round sz) s as bs ptr s' \<and> heap_frame s s'"
proof -
  from kmalloc_fits [OF inv sz can] nl obtain ptr s' where
    k: "kmalloc (Suc (Suc k)) sz flags s = Inr (ptr, s')" "took (kmem_round sz) s as bs ptr s'" by blast
  have "do_kmalloc (Suc k) sz flags s = Inr (ptr, s')"
    using k(1) nl by (auto simp del: do_kmalloc.simps simp: enter_if_def leave_if_simps result_iff)
  moreover have "kmem_find (kmem_round sz + 8) NULL (free_list s) s \<noteq> Some (Inr (x, NULL))" for x
  proof -
    from can obtain a where "a \<in> set as" "fits s (kmem_round sz + 8) a" by (auto simp: kmem_can_def)
    then obtain xs b ys where as: "as = xs @ b # ys" and fit: "fits s (kmem_round sz + 8) b"
      and no: "\<forall>x \<in> set xs. \<not> fits s (kmem_round sz + 8) x"
      using first_fit [of as s "kmem_round sz + 8"] by blast
    have b0: "b \<noteq> NULL" using kmem_rep_distinct(3) [of s as bs] inv as by (auto simp: kmem_inv_def)
    have "kmem_find (kmem_round sz + 8) NULL (free_list s) s = Some (Inr (if xs = [] then NULL else last_or xs, b))"
      by (rule kmem_find_first [of s _ xs b "fr_nx s b"])
        (use inv as fit no in \<open>auto simp: kmem_inv_def kmem_rep_def chain_append\<close>)
    with b0 show ?thesis by simp
  qed
  ultimately have "heap_frame s s'"
    using can sz(1) by (auto simp: kmem_can_def result_iff Let_def split: if_splits intro: kmem_take_frame)
  with k show ?thesis by blast
qed

lemma kmem_mutex [simp]:
  "kmem_inv (s\<lparr>m_mutex := b\<rparr>) as bs = kmem_inv s as bs" "kmem_can sz fl (s\<lparr>m_mutex := b\<rparr>) as = kmem_can sz fl s as"
  "free_space (s\<lparr>m_mutex := b\<rparr>) as = free_space s as"
proof -
  have e: "s\<lparr>m_mutex := b\<rparr> = s\<lparr>m_mutex := b, m_eflags := m_eflags s\<rparr>" by (cases s) simp
  show "kmem_inv (s\<lparr>m_mutex := b\<rparr>) as bs = kmem_inv s as bs" by (subst e) (rule kmem_inv_locks)
  show "kmem_can sz fl (s\<lparr>m_mutex := b\<rparr>) as = kmem_can sz fl s as" by (subst e) (rule kmem_cong_locks)
  show "free_space (s\<lparr>m_mutex := b\<rparr>) as = free_space s as" by (subst e) (rule kmem_cong_locks)
qed

text \<open>A block just handed out was in no block in use.\<close>

lemma took_fresh:
  assumes "kmem_inv s as bs" and "took sz s as bs ptr s'"
  shows "\<not> live s (ptr - 8) hr" and "live s h xr \<Longrightarrow> live s' h xr"
proof -
  from assms(2) obtain nr where n: "block_bytes (ptr - 8) nr \<subseteq> free_space s as" "m_hdrs s' = (m_hdrs s)(ptr - 8 \<mapsto> nr)"
    unfolding took_def by blast
  have "unat (ptr - 8) \<in> block_bytes (ptr - 8) x" for x by (simp add: block_bytes_def reg_bytes_def)
  with n(1) have no: "\<not> live s (ptr - 8) x" for x using assms(1) unfolding kmem_inv_def blocks_ok_def by blast
  then show "\<not> live s (ptr - 8) hr" .
  show "live s h xr \<Longrightarrow> live s' h xr" using no n(2) by (auto simp: live_def)
qed

lemma page_create_ok:
  assumes inv: "kmem_inv s as bs" and m: "\<not> m_mutex s"
    and can: "kmem_can sizeof_Page (KMALLOC_RESERVED OR KMALLOC_NOLOCK) s as"
  shows "\<exists>w s' as' bs'. page_create (Suc (Suc k)) base flags count s = Inr (w, s') \<and> w \<noteq> NULL \<and>
     (\<forall>hr. \<not> live s (w - 8) hr) \<and> kmem_inv s' as' bs' \<and> \<not> m_mutex s' \<and>
     m_pages s' = (m_pages s)(w \<mapsto> \<lparr>page_id = page_id_counter s, mem_base = base, pg_flags = FLAG_ALLOCATED OR flags,
       consecutive = count, pg_next = NULL\<rparr>) \<and>
     m_ptes s' = m_ptes s \<and> empty_slot s' = empty_slot s \<and> virtual_pointer s' = virtual_pointer s \<and> cursor s' = cursor s"
proof -
  let ?t = "s\<lparr>m_mutex := True\<rparr>" and ?fl = "KMALLOC_RESERVED OR KMALLOC_NOLOCK"
  have "\<exists>w s1. kmalloc (Suc (Suc k)) sizeof_Page ?fl ?t = Inr (w, s1) \<and> took (kmem_round sizeof_Page) ?t as bs w s1 \<and> heap_frame ?t s1"
    by (rule kmalloc_fits_frame) (use inv can in \<open>simp_all add: flag_defs\<close>)
  then obtain w s1 where w: "kmalloc (Suc (Suc k)) sizeof_Page ?fl ?t = Inr (w, s1)"
    "took (kmem_round sizeof_Page) ?t as bs w s1" "heap_frame ?t s1" by blast
  have fresh: "\<not> live s (w - 8) hr" for hr using took_fresh(1) [OF _ w(2), of hr] inv by (simp add: live_def)
  from w(2) obtain as' bs' where i1: "w \<noteq> NULL" "kmem_inv s1 as' bs'" unfolding took_def by blast
  let ?pg = "\<lparr>page_id = page_id_counter s1, mem_base = base, pg_flags = FLAG_ALLOCATED OR flags, consecutive = count, pg_next = NULL\<rparr>"
  let ?s' = "mem_unlock ((wr_page w ?pg s1)\<lparr>page_id_counter := page_id_counter s1 + 1\<rparr>)"
  have eq: "page_create (Suc (Suc k)) base flags count s = Inr (w, ?s')"
    using w(1) m by (simp del: kmalloc.simps add: page_create_def mem_lock_def Let_def wr_page_def)
  have "kmem_inv ?s' as' bs'"
    using i1(2) kmem_rep_cong [of ?s' s1] mem_cong [of ?s' s1]
    by (simp add: kmem_inv_def blocks_ok_def nodes_ok_def live_def mem_unlock_def wr_page_def)
  moreover have "m_pages ?s' = (m_pages s)(w \<mapsto> ?pg)" "page_id_counter s1 = page_id_counter s" "\<not> m_mutex ?s'"
    "m_ptes ?s' = m_ptes s" "empty_slot ?s' = empty_slot s" "virtual_pointer ?s' = virtual_pointer s" "cursor ?s' = cursor s"
    using w(3) by (simp_all add: mem_unlock_def wr_page_def heap_frame_def)
  ultimately show ?thesis using eq i1(1) fresh by auto
qed

text \<open>Splitting at the chunk that contains the boundary.\<close>

lemma chunk_frames_split:
  assumes "unat c \<le> unat (consecutive pg)"
  shows "chunk_frames (pg\<lparr>consecutive := c, pg_next := x\<rparr>) = take (unat c) (chunk_frames pg)"
    and "mem_base q = mem_base pg + c * PAGE_SIZE \<Longrightarrow> unat (consecutive q) = unat (consecutive pg) - unat c \<Longrightarrow>
      chunk_frames q = drop (unat c) (chunk_frames pg)"
proof -
  show "chunk_frames (pg\<lparr>consecutive := c, pg_next := x\<rparr>) = take (unat c) (chunk_frames pg)"
    using assms by (simp add: chunk_frames_def take_map take_upt)
  assume q: "mem_base q = mem_base pg + c * PAGE_SIZE" "unat (consecutive q) = unat (consecutive pg) - unat c"
  have c: "of_nat (unat c) = c" by simp
  show "chunk_frames q = drop (unat c) (chunk_frames pg)"
    using q assms by (intro nth_equalityI) (simp_all add: chunk_frames_def drop_map algebra_simps)
qed

definition split_result :: "mem \<Rightarrow> u32 \<Rightarrow> u32 list \<Rightarrow> nat \<Rightarrow> u32 \<times> mem \<Rightarrow> bool" where
  "split_result s p ps n r \<longleftrightarrow> (\<exists>qs rs. page_chain (snd r) p qs \<and> page_chain (snd r) (fst r) rs \<and>
     chain_frames (snd r) qs = take n (chain_frames s ps) \<and> chain_frames (snd r) rs = drop n (chain_frames s ps) \<and>
     \<not> m_mutex (snd r) \<and> (\<exists>as' bs'. kmem_inv (snd r) as' bs'))"

lemma page_split_here:
  assumes inv: "kmem_inv s as bs" "\<not> m_mutex s" "kmem_can sizeof_Page (KMALLOC_RESERVED OR KMALLOC_NOLOCK) s as"
    and ch: "page_chain s r (xs @ p # ys)" and nodes: "nodes_ok s (set (xs @ p # ys))"
    and pg: "m_pages s p = Some pg" and c: "count \<le> consecutive pg"
  shows "\<exists>w s'. page_split (Suc (Suc k)) p count s = Some (Inr (w, s')) \<and>
     split_result s r (xs @ p # ys) (length (chain_frames s xs) + unat count) (w, s')"
proof -
  let ?base = "mem_base pg + count * PAGE_SIZE" and ?n = "consecutive pg - count"
  obtain w s1 as' bs' where w: "page_create (Suc (Suc k)) ?base (pg_flags pg) ?n s = Inr (w, s1)" "w \<noteq> NULL"
    "\<And>hr. \<not> live s (w - 8) hr" "kmem_inv s1 as' bs'" "\<not> m_mutex s1"
    "m_pages s1 = (m_pages s)(w \<mapsto> \<lparr>page_id = page_id_counter s, mem_base = ?base,
       pg_flags = FLAG_ALLOCATED OR pg_flags pg, consecutive = ?n, pg_next = NULL\<rparr>)"
    using page_create_ok [OF inv, of k ?base "pg_flags pg" ?n] by blast
  have new: "w \<notin> set (xs @ p # ys)" using nodes w(3) unfolding nodes_ok_def by blast
  then have wp: "w \<noteq> p" by auto
  let ?cr = "\<lparr>page_id = page_id_counter s, mem_base = ?base, pg_flags = FLAG_ALLOCATED OR pg_flags pg,
    consecutive = ?n, pg_next = pg_next pg\<rparr>"
  let ?pg = "pg\<lparr>pg_next := NULL, consecutive := count\<rparr>"
  let ?s' = "wr_page p ?pg (wr_page w ?cr s1)"
  have eq: "page_split (Suc (Suc k)) p count s = Some (Inr (w, ?s'))"
    using pg leD [OF c] w(1,6) wp by (subst page_split.simps) (simp add: Let_def)
  have mp: "m_pages ?s' = m_pages (wr_page p ?pg (wr_page w ?cr s))" using w(6) by simp
  let ?t = "wr_page p ?pg (wr_page w ?cr s)"
  note cong = page_chain_cong [OF mp]
  have l: "linked (pg_nx s) r (xs @ p # ys)" and d: "set (xs @ p # ys) \<subseteq> dom (m_pages s)"
    using ch by (simp_all add: page_chain_def)
  have dist: "distinct (xs @ p # ys)" using l by (rule linked_distinct)
  have cx: "chain (pg_nx s) r xs p" "p \<noteq> NULL" "linked (pg_nx s) (pg_next pg) ys"
    using l pg by (auto simp: chain_append)
  have "page_chain ?s' r (xs @ [p])" "page_chain ?s' w (w # ys)"
    unfolding cong(1) unfolding page_chain_def using cx dist new wp w(2) d by (auto simp: chain_append)
  moreover have "unat (consecutive ?cr) = unat (consecutive pg) - unat count"
    using unat_sub_le [OF c] by simp
  then have "chunk_frames ?cr = drop (unat count) (chunk_frames pg)"
    using c by (intro chunk_frames_split(2)) (simp_all add: wordle_nat)
  moreover have "chunk_frames ?pg = take (unat count) (chunk_frames pg)"
    using chunk_frames_split(1) [of count pg NULL] c by (simp add: wordle_nat chunk_frames_def)
  ultimately have "chain_frames ?s' (xs @ [p]) = take (length (chain_frames s xs) + unat count) (chain_frames s (xs @ p # ys))"
    "chain_frames ?s' (w # ys) = drop (length (chain_frames s xs) + unat count) (chain_frames s (xs @ p # ys))"
    unfolding cong(2) using pg new wp dist c by (auto simp: wordle_nat)
  moreover have "kmem_inv ?s' as' bs'" "\<not> m_mutex ?s'"
    using w(4,5) kmem_rep_cong [of ?s' s1] mem_cong [of ?s' s1]
    by (simp_all add: kmem_inv_def blocks_ok_def nodes_ok_def live_def wr_page_def)
  ultimately show ?thesis using eq \<open>page_chain ?s' r (xs @ [p])\<close> \<open>page_chain ?s' w (w # ys)\<close>
    unfolding split_result_def by fastforce
qed

lemma page_split_walks:
  assumes inv: "kmem_inv s as bs" "\<not> m_mutex s" "kmem_can sizeof_Page (KMALLOC_RESERVED OR KMALLOC_NOLOCK) s as"
    and nodes: "nodes_ok s (set ps)" and ch: "page_chain s r ps"
  shows "ps = xs @ ys \<Longrightarrow> ys \<noteq> [] \<Longrightarrow> unat count \<le> length (chain_frames s ys) \<Longrightarrow>
    \<exists>w s'. page_split (Suc (Suc k)) (hd ys) count s = Some (Inr (w, s')) \<and>
      split_result s r ps (length (chain_frames s xs) + unat count) (w, s')"
proof (induction ys arbitrary: xs count)
  case Nil
  then show ?case by simp
next
  case (Cons p ys)
  from Cons.prems(1) ch obtain pg where pg: "m_pages s p = Some pg" by (auto simp: page_chain_def)
  show ?case
  proof (cases "count \<le> consecutive pg")
    case True
    then show ?thesis
      using page_split_here [OF inv ch [unfolded Cons.prems(1)] nodes [unfolded Cons.prems(1)] pg] Cons.prems(1) by simp
  next
    case False
    then have le: "consecutive pg \<le> count" and gt: "count > consecutive pg" by auto
    have u: "unat (count - consecutive pg) = unat count - unat (consecutive pg)" by (rule unat_sub_le [OF le])
    have more: "unat (consecutive pg) < unat count" using gt by (simp add: wordlt_nat)
    have rest: "unat (count - consecutive pg) \<le> length (chain_frames s ys)" using Cons.prems(3) pg u by simp
    have ne: "ys \<noteq> []" using Cons.prems(3) pg more by auto
    have nx: "pg_next pg = hd ys"
      using ch Cons.prems(1) pg ne by (cases ys) (auto simp: page_chain_def chain_append)
    have sum: "length (chain_frames s (xs @ [p])) + unat (count - consecutive pg) = length (chain_frames s xs) + unat count"
      using pg u more by simp
    have "page_split (Suc (Suc k)) p count s = page_split (Suc (Suc k)) (hd ys) (count - consecutive pg) s"
      using pg gt nx by (subst page_split.simps) simp
    with Cons.IH [of "xs @ [p]", OF _ ne rest] Cons.prems(1) show ?thesis unfolding sum by simp
  qed
qed

section \<open>Page table entries\<close>

definition pte :: "u32 \<Rightarrow> u32 \<Rightarrow> nat \<Rightarrow> u32" where
  "pte base fl j = (base + PAGE_SIZE * of_nat j) OR fl OR PAGE_TABLE_PRESENT"

lemma entry_neq:
  assumes "i \<noteq> j" and "i < 2 ^ 30" and "j < 2 ^ 30"
  shows "(e :: u32) + 4 * of_nat i \<noteq> e + 4 * of_nat j"
proof
  assume "e + 4 * of_nat i = e + 4 * of_nat j"
  then have w: "(of_nat (4 * i) :: u32) = of_nat (4 * j)" by simp
  have "4 * i < 2 ^ LENGTH(32)" "4 * j < 2 ^ LENGTH(32)" using assms by simp_all
  with w have "4 * i = 4 * j" by (metis unat_of_nat_lt)
  with assms show False by simp
qed

lemma map_loop_maps:
  "m + n < 2 ^ 30 \<Longrightarrow> \<exists>pt fl'. map_loop n (of_nat i) base fl (e + 4 * of_nat m) s =
      (e + 4 * of_nat (m + n), s\<lparr>m_ptes := pt, m_flushed := fl'\<rparr>) \<and>
    (\<forall>j < n. pt (e + 4 * of_nat (m + j)) = pte base fl (i + j)) \<and>
    (\<forall>x. (\<forall>j. m \<le> j \<longrightarrow> j < m + n \<longrightarrow> x \<noteq> e + 4 * of_nat j) \<longrightarrow> pt x = m_ptes s x)"
proof (induction n arbitrary: m i s)
  case 0
  show ?case by (intro exI [of _ "m_ptes s"] exI [of _ "m_flushed s"]) simp
next
  case (Suc n)
  let ?s1 = "s\<lparr>m_ptes := (m_ptes s)(e + 4 * of_nat m := pte base fl i),
      m_flushed := (base + PAGE_SIZE * of_nat i) # m_flushed s\<rparr>"
  have step: "map_loop (Suc n) (of_nat i) base fl (e + 4 * of_nat m) s =
      map_loop n (of_nat (Suc i)) base fl (e + 4 * of_nat (Suc m)) ?s1"
    by (simp add: pte_def algebra_simps)
  have "Suc m + n < 2 ^ 30" using Suc.prems by simp
  from Suc.IH [OF this, of "Suc i" ?s1] obtain pt fl' where
    ih: "map_loop n (of_nat (Suc i)) base fl (e + 4 * of_nat (Suc m)) ?s1 =
        (e + 4 * of_nat (Suc m + n), ?s1\<lparr>m_ptes := pt, m_flushed := fl'\<rparr>)"
      "\<forall>j < n. pt (e + 4 * of_nat (Suc m + j)) = pte base fl (Suc i + j)"
      "\<forall>x. (\<forall>j. Suc m \<le> j \<longrightarrow> j < Suc m + n \<longrightarrow> x \<noteq> e + 4 * of_nat j) \<longrightarrow> pt x = m_ptes ?s1 x" by blast
  have first: "pt (e + 4 * of_nat m) = pte base fl i"
  proof -
    have "\<forall>j. Suc m \<le> j \<longrightarrow> j < Suc m + n \<longrightarrow> e + 4 * of_nat m \<noteq> e + 4 * of_nat j"
      using entry_neq [of m _ e] Suc.prems by auto
    with ih(3) show ?thesis by simp
  qed
  have a: "pt (e + 4 * of_nat (m + j)) = pte base fl (i + j)" if "j < Suc n" for j
    using that first ih(2) by (cases j) simp_all
  have b: "pt x = m_ptes s x" if "\<forall>j. m \<le> j \<longrightarrow> j < m + Suc n \<longrightarrow> x \<noteq> e + 4 * of_nat j" for x
    using that [rule_format, of m] that ih(3) by simp
  show ?case unfolding step ih(1) using a b by (intro exI [of _ pt] exI [of _ fl']) simp
qed

text \<open>A slot larger than needed gives up its first pages.\<close>

lemma kinstall_slot:
  assumes ch: "page_chain s p ps" "ps \<noteq> []" and pg: "m_pages s p = Some pg" and m: "\<not> m_mutex s"
    and slot: "empty_slot s = a" "a \<noteq> NULL" "m_slots s a = Some f" "vs_base f \<noteq> 0"
    and big: "of_nat (length (chain_frames s ps)) < vs_pages f"
  defines "t \<equiv> wr_slot a (f\<lparr>vs_pages := vs_pages f - of_nat (length (chain_frames s ps)),
      vs_base := vs_base f + of_nat (length (chain_frames s ps)) * PAGE_SIZE\<rparr>)
      (s\<lparr>m_mutex := True, m_eflags := snd (push_cli (m_eflags s))\<rparr>)"
  shows "kinstall k p fl s = bindE (bindE (loopE (map_chain (consecutive pg) p fl (table_entry (vs_base f) s) t)) (\<lambda>r. r))
     (\<lambda>s2. Inr (vs_base f, leave_if True (m_eflags s) s2))"
proof -
  let ?n = "of_nat (length (chain_frames s ps)) :: u32"
  let ?s0 = "s\<lparr>m_mutex := True, m_eflags := snd (push_cli (m_eflags s))\<rparr>"
  have ct: "page_count 0 p s = Some (Inr ?n)" using page_count_sums [OF ch(1), of 0] by simp
  have nl: "\<not> vs_pages f < ?n" "vs_pages f \<noteq> ?n" using big by auto
  have sf: "slot_find ?n NULL a ?s0 = Some (Inr (NULL, a))"
    using slot nl by (subst slot_find.simps) simp
  have tk: "slot_take k ?n NULL a ?s0 = Inr (vs_base f, t)"
    using slot nl by (simp add: slot_take_def rd_slot_def t_def)
  have te: "table_entry (vs_base f) t = table_entry (vs_base f) s" by (simp add: table_entry_def t_def wr_slot_def)
  show ?thesis
    using ct m sf tk te slot pg by (simp add: kinstall_def mem_lock_enter Let_def)
qed

section \<open>Properties\<close>

text \<open>C24: \<open>Page::split(count)\<close> on a chain with at least \<open>count\<close> pages returns: the old chain is left with exactly the
  first \<open>count\<close> physical frames, the new chain has exactly the others, in the same order, whatever chunks they
  are spread over; the heap invariant is kept and the mutex released. (The new \<open>Page\<close> structure must fit in the
  heap's reserved area.)\<close>

theorem page_split_partitions_frames:
  assumes "kmem_inv s as bs" and "\<not> m_mutex s" and "kmem_can sizeof_Page (KMALLOC_RESERVED OR KMALLOC_NOLOCK) s as"
    and "page_chain s p ps" and "ps \<noteq> []" and "nodes_ok s (set ps)" and "unat count \<le> length (chain_frames s ps)"
  shows "\<exists>created s' qs rs. page_split (Suc (Suc k)) p count s = Some (Inr (created, s')) \<and>
     page_chain s' p qs \<and> page_chain s' created rs \<and>
     chain_frames s' qs = take (unat count) (chain_frames s ps) \<and>
     chain_frames s' rs = drop (unat count) (chain_frames s ps) \<and>
     \<not> m_mutex s' \<and> (\<exists>as' bs'. kmem_inv s' as' bs')"
proof -
  have "p = hd ps" using assms(4,5) by (cases ps) (auto simp: page_chain_def)
  with page_split_walks [OF assms(1,2,3,6,4), of "[]" ps count k] assms(5,7) show ?thesis
    by (auto simp: split_result_def)
qed

definition page_example :: mem where
  "page_example = kmem_example\<lparr>m_pages := [0xC1000080 \<mapsto>
     \<lparr>page_id = 1, mem_base = 0x400000, pg_flags = 1, consecutive = 3, pg_next = NULL\<rparr>]\<rparr>"

lemma page_example_facts:
  "kmem_inv page_example [0xC1000024] [0xC1000038]" "\<not> m_mutex page_example"
  "kmem_can sizeof_Page (KMALLOC_RESERVED OR KMALLOC_NOLOCK) page_example [0xC1000024]"
  "page_chain page_example 0xC1000080 [0xC1000080]" "nodes_ok page_example (set [0xC1000080])"
  "chain_frames page_example [0xC1000080] = [0x400000, 0x401000, 0x402000]"
proof -
  show "kmem_inv page_example [0xC1000024] [0xC1000038]"
    using kmem_example_inv kmem_rep_cong [of page_example kmem_example] mem_cong [of page_example kmem_example]
    by (simp add: page_example_def kmem_inv_def blocks_ok_def nodes_ok_def live_def)
  show "\<not> m_mutex page_example" by (simp add: page_example_def kmem_example_def)
  show "kmem_can sizeof_Page (KMALLOC_RESERVED OR KMALLOC_NOLOCK) page_example [0xC1000024]"
    by (simp add: kmem_can_def page_example_def kmem_example_def fits_def kmem_round_def flag_defs Let_def)
  show "page_chain page_example 0xC1000080 [0xC1000080]" by (simp add: page_chain_simps page_example_def)
  show "nodes_ok page_example (set [0xC1000080])"
    by (simp add: nodes_ok_def live_def page_example_def kmem_example_def)
  show "chain_frames page_example [0xC1000080] = [0x400000, 0x401000, 0x402000]"
    by (simp add: page_example_def chunk_frames_def PAGE_SIZE_def upt_rec)
qed

theorem page_split_partitions_frames_witness:
  "\<exists>c s' qs. page_split (Suc (Suc 0)) 0xC1000080 2 page_example = Some (Inr (c, s')) \<and>
     page_chain s' 0xC1000080 qs \<and> chain_frames s' qs = [0x400000, 0x401000]"
  using page_split_partitions_frames [OF page_example_facts(1-4) _ page_example_facts(5), of 2 0] page_example_facts(6)
  by fastforce


definition slot_example :: mem where
  "slot_example = page_example\<lparr>m_slots := [0xC1000040 \<mapsto> \<lparr>vs_base = 0xC2000000, vs_pages = 8, vs_next = NULL\<rparr>],
     empty_slot := 0xC1000040, page_dir := 0xC0190000\<rparr>"


text \<open>\<open>kinstall\<close> of a chain of two chunks writes, for the second chunk too, as many page table entries as the
  \<^emph>\<open>first\<close> chunk has pages: when the second chunk is longer, its remaining pages are left unmapped.\<close>

theorem kinstall_second_chunk_cut_short:
  assumes "m_pages s p = Some pg" and "p \<noteq> NULL" and "pg_next pg = q" and "m_pages s q = Some pq" and "q \<noteq> NULL"
    and "pg_next pq = NULL" and "\<not> m_mutex s" and "empty_slot s = a" and "a \<noteq> NULL" and "m_slots s a = Some f"
    and "vs_base f \<noteq> 0" and "consecutive pg + consecutive pq < vs_pages f"
    and "unat (consecutive pg) \<le> j" and "j < unat (consecutive pq)" and "unat (consecutive pg) + unat (consecutive pq) < 2 ^ 30"
  shows "\<exists>s'. kinstall k p fl s = Inr (vs_base f, s') \<and>
     m_ptes s' (table_entry (vs_base f) s + 4 * of_nat (unat (consecutive pg) + j)) =
     m_ptes s (table_entry (vs_base f) s + 4 * of_nat (unat (consecutive pg) + j))"
proof -
  have ch: "page_chain s p [p, q]" "[p, q] \<noteq> []" using assms(1-6) by (simp_all add: page_chain_simps)
  have len: "of_nat (length (chain_frames s [p, q])) = consecutive pg + consecutive pq" using assms(1,4) by simp
  let ?t = "wr_slot a (f\<lparr>vs_pages := vs_pages f - (consecutive pg + consecutive pq),
      vs_base := vs_base f + (consecutive pg + consecutive pq) * PAGE_SIZE\<rparr>)
      (s\<lparr>m_mutex := True, m_eflags := snd (push_cli (m_eflags s))\<rparr>)"
  let ?e = "table_entry (vs_base f) s" and ?n = "unat (consecutive pg)"
  note ks = kinstall_slot [OF ch assms(1,7,8,9,10,11), unfolded len, OF assms(12), of k fl]
  let ?x = "?e + 4 * of_nat (?n + j)"
  from map_loop_maps [of 0 ?n 0 "mem_base pg" fl ?e ?t] assms(15) obtain pt fs where
    m1: "map_loop ?n 0 (mem_base pg) fl ?e ?t = (?e + 4 * of_nat ?n, ?t\<lparr>m_ptes := pt, m_flushed := fs\<rparr>)"
    and p1: "\<forall>x. (\<forall>i. 0 \<le> i \<longrightarrow> i < 0 + ?n \<longrightarrow> x \<noteq> ?e + 4 * of_nat i) \<longrightarrow> pt x = m_ptes ?t x" by force
  let ?u = "?t\<lparr>m_ptes := pt, m_flushed := fs\<rparr>"
  have "?n + ?n < 2 ^ 30" using assms(13-15) by linarith
  from map_loop_maps [OF this, of 0 "mem_base pq" fl ?e ?u] obtain pt2 fs2 where
    m2: "map_loop ?n 0 (mem_base pq) fl (?e + 4 * of_nat ?n) ?u = (?e + 4 * of_nat (?n + ?n), ?u\<lparr>m_ptes := pt2, m_flushed := fs2\<rparr>)"
    and p2: "\<forall>x. (\<forall>i. ?n \<le> i \<longrightarrow> i < ?n + ?n \<longrightarrow> x \<noteq> ?e + 4 * of_nat i) \<longrightarrow> pt2 x = m_ptes ?u x" by force
  have no: "?x \<noteq> ?e + 4 * of_nat i" if "i < ?n + ?n" for i
    using that assms(13-15) by (intro entry_neq) linarith+
  have "pt ?x = m_ptes ?t ?x" using p1 [rule_format, of ?x] no by fastforce
  moreover have "pt2 ?x = m_ptes ?u ?x" using p2 [rule_format, of ?x] no by blast
  ultimately have kept: "pt2 ?x = m_ptes s ?x" by (simp add: wr_slot_def)
  have "map_chain (consecutive pg) q fl (?e + 4 * of_nat ?n) ?u = Some (Inr (?u\<lparr>m_ptes := pt2, m_flushed := fs2\<rparr>))"
    using assms(4-6) m2 by (subst map_chain.simps) (simp add: wr_slot_def map_chain.simps [of _ 0])
  then have "map_chain (consecutive pg) p fl ?e ?t = Some (Inr (?u\<lparr>m_ptes := pt2, m_flushed := fs2\<rparr>))"
    using assms(1-3) m1 by (subst map_chain.simps) (simp add: wr_slot_def)
  with ks kept show ?thesis by (simp add: leave_if_simps wr_slot_def)
qed

definition chain_example :: mem where
  "chain_example = slot_example\<lparr>m_pages := [0xC1000080 \<mapsto>
     \<lparr>page_id = 1, mem_base = 0x400000, pg_flags = 1, consecutive = 1, pg_next = 0xC1000038\<rparr>, 0xC1000038 \<mapsto>
     \<lparr>page_id = 2, mem_base = 0x500000, pg_flags = 1, consecutive = 2, pg_next = NULL\<rparr>]\<rparr>"

theorem kinstall_second_chunk_cut_short_witness:
  "\<exists>s'. kinstall 0 0xC1000080 2 chain_example = Inr (0xC2000000, s') \<and> m_ptes s' 0xC0199008 = 0"
proof -
  have "\<exists>s'. kinstall 0 0xC1000080 2 chain_example = Inr (0xC2000000, s') \<and>
     m_ptes s' (table_entry 0xC2000000 chain_example + 4 * of_nat (1 + 1)) =
     m_ptes chain_example (table_entry 0xC2000000 chain_example + 4 * of_nat (1 + 1))"
  proof -
    let ?p = "\<lparr>page_id = 1, mem_base = 0x400000, pg_flags = 1, consecutive = 1, pg_next = 0xC1000038\<rparr>"
    let ?q = "\<lparr>page_id = 2, mem_base = 0x500000, pg_flags = 1, consecutive = 2, pg_next = NULL\<rparr>"
    let ?f = "\<lparr>vs_base = 0xC2000000, vs_pages = 8, vs_next = NULL\<rparr>"
    have facts: "m_pages chain_example 0xC1000080 = Some ?p" "m_pages chain_example 0xC1000038 = Some ?q"
      "\<not> m_mutex chain_example" "empty_slot chain_example = 0xC1000040" "m_slots chain_example 0xC1000040 = Some ?f"
      by (simp_all add: chain_example_def slot_example_def page_example_def kmem_example_def)
    show ?thesis
      using kinstall_second_chunk_cut_short [OF facts(1) _ _ facts(2) _ _ facts(3,4) _ facts(5), of 1 0 2] by simp
  qed
  moreover have "table_entry 0xC2000000 chain_example + 4 * of_nat (1 + 1) = 0xC0199008"
    by (simp add: table_entry_def chain_example_def slot_example_def KERNEL_VM_BASE_val PAGE_SIZE_def)
  moreover have "m_ptes chain_example x = 0" for x
    by (simp add: chain_example_def slot_example_def page_example_def kmem_example_def)
  ultimately show ?thesis by auto
qed

end
