(* ===== verification/Devices.thy ===== *)
theory Devices
  imports Page KmemExt
begin

text \<open>
  Memory-mapped devices. The text screen, the interrupt controllers and the AHCI driver reach the registers of a device in the same
  way: \<open>page::create\<close> makes a page structure for the physical page, and \<open>page::kinstall\<close> maps it in the kernel's half. Here the two
  calls are shown to return and to map the page, for a heap that has room for the structure, when no released range of
  addresses is waiting to be used again.
\<close>

lemma kinstall_new_range:
  assumes "m_pages s p = Some pg" and "p \<noteq> NULL" and "consecutive pg = 1" and "pg_next pg = NULL" and "\<not> m_mutex s" and "empty_slot s = NULL"
    and "virtual_pointer s \<noteq> 0" and "unat (virtual_pointer s) < TOTAL_VM_SIZE - unat PAGE_SIZE"
  shows "kinstall k p fl s = Inr (virtual_pointer s,
     s\<lparr>m_ptes := (m_ptes s)(cursor s := mem_base pg OR fl OR PAGE_TABLE_PRESENT),
       virtual_pointer := virtual_pointer s + PAGE_SIZE, cursor := cursor s + 4, memory_end := virtual_pointer s + PAGE_SIZE\<rparr>)"
proof -
  have c: "page_count 0 p s = Some (Inr 1)"
    using assms(1-4) by (subst page_count.simps) (simp add: page_count.simps [of _ 0])
  let ?t = "s\<lparr>m_mutex := True, m_eflags := snd (push_cli (m_eflags s))\<rparr>"
  have f: "slot_find 1 NULL (empty_slot s) ?t = Some (Inr (NULL, NULL))" using assms(6) by (simp add: slot_find.simps)
  have l: "leave_if True (m_eflags s) ?t = s" using assms(5) by (cases s) (simp add: leave_if_simps)
  have a: "kinstall_append pg fl True s = Some (Inr (virtual_pointer s,
     s\<lparr>m_ptes := (m_ptes s)(cursor s := mem_base pg OR fl OR PAGE_TABLE_PRESENT),
       virtual_pointer := virtual_pointer s + PAGE_SIZE, cursor := cursor s + 4, memory_end := virtual_pointer s + PAGE_SIZE\<rparr>))"
    using assms(3,4,5,7,8) by (rule kinstall_append_one)
  show ?thesis unfolding kinstall_def c using assms(1,5) f l a by (simp add: mem_lock_enter)
qed

lemma device_page:
  assumes "kmem_inv s as bs" and "\<not> m_mutex s" and "kmem_can sizeof_Page (KMALLOC_RESERVED OR KMALLOC_NOLOCK) s as"
    and "empty_slot s = NULL" and "virtual_pointer s \<noteq> 0" and "unat (virtual_pointer s) < TOTAL_VM_SIZE - unat PAGE_SIZE"
  obtains p s1 s2 as' bs' where "page_create (Suc (Suc k)) base flags 1 s = Inr (p, s1)" and "kinstall j p fl s1 = Inr (virtual_pointer s, s2)"
    and "m_ptes s2 = (m_ptes s)(cursor s := base OR fl OR PAGE_TABLE_PRESENT)" and "kmem_inv s2 as' bs'" and "\<not> m_mutex s2"
    and "virtual_pointer s2 = virtual_pointer s + PAGE_SIZE" and "cursor s2 = cursor s + 4" and "empty_slot s2 = NULL"
proof -
  from page_create_ok [OF assms(1-3), of k base flags 1] obtain p s1 as' bs' where
    c: "page_create (Suc (Suc k)) base flags 1 s = Inr (p, s1)" "p \<noteq> NULL" "kmem_inv s1 as' bs'" "\<not> m_mutex s1"
      "m_pages s1 = (m_pages s)(p \<mapsto> \<lparr>page_id = page_id_counter s, mem_base = base, pg_flags = FLAG_ALLOCATED OR flags, consecutive = 1, pg_next = NULL\<rparr>)"
      "m_ptes s1 = m_ptes s" "empty_slot s1 = empty_slot s" "virtual_pointer s1 = virtual_pointer s" "cursor s1 = cursor s" by blast
  let ?s2 = "s1\<lparr>m_ptes := (m_ptes s1)(cursor s1 := base OR fl OR PAGE_TABLE_PRESENT),
       virtual_pointer := virtual_pointer s1 + PAGE_SIZE, cursor := cursor s1 + 4, memory_end := virtual_pointer s1 + PAGE_SIZE\<rparr>"
  have k: "kinstall j p fl s1 = Inr (virtual_pointer s, ?s2)"
    using kinstall_new_range [of s1 p _ j fl] c assms(4-6) by simp
  have "kmem_inv ?s2 as' bs'" using c(3) kmem_rep_cong [of ?s2 s1] mem_cong [of ?s2 s1]
    by (simp add: kmem_inv_def blocks_ok_def nodes_ok_def live_def)
  then show ?thesis using that [OF c(1) k] c(4,6-9) assms(4) by simp
qed

end
