(* ===== verification/PageFree.thy ===== *)
theory PageFree
  imports Page
begin

text \<open>
  The list of free physical pages of \<open>src/mem/page.cpp\<close>: its consistency check \<open>_verify\<close>, which is compiled out by \<open>DEBUG_MEM\<close>, and the
  correctness of \<open>page::free\<close>. The list is sorted by address and its chunks do not overlap; its structures are blocks of the kernel
  heap, and chunks that touch are joined, which gives the structure of one of them back to the heap.
\<close>

section \<open>\<open>_verify\<close>\<close>

partial_function (option) page_verify_loop :: "u32 \<Rightarrow> u32 \<Rightarrow> mem \<Rightarrow> unit result option" where
  "page_verify_loop prev now s = (if now = NULL then Some (Inr ())
     else case m_pages s now of None \<Rightarrow> Some (Inl Fault)
     | Some f \<Rightarrow> if pg_next f = NULL then page_verify_loop now (pg_next f) s
       else case m_pages s (pg_next f) of None \<Rightarrow> Some (Inl Fault)
       | Some n \<Rightarrow> if mem_base n < mem_base f then Some (Inl (Panic ''Free page list corruption, List out of order''))
         else if prev = NULL then page_verify_loop now (pg_next f) s
         else case m_pages s prev of None \<Rightarrow> Some (Inl Fault)
         | Some q \<Rightarrow> if mem_base f < mem_base q + consecutive q * PAGE_SIZE then Some (Inl (Panic ''Free page list corruption, Overlapping pages''))
           else page_verify_loop now (pg_next f) s)"

definition page_verify :: "mem \<Rightarrow> unit result" where
  "page_verify s = bindE (loopE (page_verify_loop NULL (page_free_head s) s)) (\<lambda>r. r)"

section \<open>The free list\<close>

definition preg :: "page \<Rightarrow> region" where
  "preg f = (unat (mem_base f), 4096 * unat (consecutive f))"

definition preg_ok :: "region \<Rightarrow> bool" where
  "preg_ok r \<longleftrightarrow> 0 < snd r \<and> fst r + snd r < 2 ^ 32"

definition pregs :: "mem \<Rightarrow> u32 list \<Rightarrow> region list" where
  "pregs s ps = map (\<lambda>a. case m_pages s a of Some f \<Rightarrow> preg f) ps"

definition page_space :: "mem \<Rightarrow> u32 list \<Rightarrow> nat set" where
  "page_space s ps = \<Union> (reg_bytes ` set (pregs s ps))"

text \<open>The pointer \<open>p\<close> leads through the structures \<open>ps\<close>, whose chunks are in order.\<close>

definition pages_rep :: "mem \<Rightarrow> u32 \<Rightarrow> u32 list \<Rightarrow> bool" where
  "pages_rep s p ps \<longleftrightarrow> page_chain s p ps \<and> (\<forall>r \<in> set (pregs s ps). preg_ok r) \<and> sorted_wrt before (pregs s ps)"

text \<open>A structure that the heap holds for its owner.\<close>

definition owned :: "mem \<Rightarrow> u32 list \<Rightarrow> u32 list \<Rightarrow> u32 \<Rightarrow> bool" where
  "owned s as bs x \<longleftrightarrow> x \<noteq> NULL \<and> x \<notin> set as \<union> set bs \<and> (\<exists>hr. live s (x - 8) hr)"

definition free_pages :: "mem \<Rightarrow> u32 list \<Rightarrow> u32 list \<Rightarrow> u32 list \<Rightarrow> bool" where
  "free_pages s ps as bs \<longleftrightarrow> kmem_inv s as bs \<and> pages_rep s (page_free_head s) ps \<and> (\<forall>x \<in> set ps. owned s as bs x)"

lemma pregs_simps [simp]:
  "pregs s [] = []" "pregs s (a # ps) = (case m_pages s a of Some f \<Rightarrow> preg f) # pregs s ps" "pregs s (ps @ qs) = pregs s ps @ pregs s qs"
  by (simp_all add: pregs_def)

lemma pregs_eq_Nil [simp]: "pregs s ps = [] \<longleftrightarrow> ps = []"
  by (simp add: pregs_def)

lemma page_space_simps [simp]:
  "page_space s [] = {}" "page_space s (a # ps) = reg_bytes (case m_pages s a of Some f \<Rightarrow> preg f) \<union> page_space s ps"
  "page_space s (ps @ qs) = page_space s ps \<union> page_space s qs"
  by (simp_all add: page_space_def)

lemma pregs_cong: "\<forall>x \<in> set ps. \<exists>f g. m_pages s x = Some f \<and> m_pages t x = Some g \<and> preg f = preg g \<Longrightarrow> pregs s ps = pregs t ps"
  by (induction ps) auto

lemma page_space_cong: "pregs s ps = pregs t qs \<Longrightarrow> page_space s ps = page_space t qs"
  by (simp add: page_space_def)

lemma preg_end: "preg_ok (preg f) \<Longrightarrow> unat (mem_base f + consecutive f * PAGE_SIZE) = fst (preg f) + snd (preg f)"
proof -
  assume ok: "preg_ok (preg f)"
  then have m: "unat (consecutive f * PAGE_SIZE) = 4096 * unat (consecutive f)"
    by (subst unat_mult_lem [THEN iffD1]) (simp_all add: preg_ok_def preg_def)
  then show ?thesis using ok by (subst unat_add_lt) (simp_all add: preg_ok_def preg_def)
qed

text \<open>The check accepts every list in order. Where it looks, it also finds every disorder of neighbours.\<close>

lemma page_verify_loop_ok:
  assumes "pages_rep s (page_free_head s) (xs @ ys)" and "page_chain s now ys"
  shows "page_verify_loop (last_or xs) now s = Some (Inr ())"
  using assms
proof (induction ys arbitrary: xs now)
  case Nil
  then show ?case by (subst page_verify_loop.simps) (simp add: page_chain_simps)
next
  case (Cons a ys)
  then obtain f where f: "now = a" "a \<noteq> NULL" "m_pages s a = Some f" "page_chain s (pg_next f) ys" by (auto simp: page_chain_simps)
  have IH: "page_verify_loop a (pg_next f) s = Some (Inr ())" using Cons.IH [of "xs @ [a]" "pg_next f"] Cons.prems f by simp
  show ?case
  proof (cases ys)
    case Nil
    then show ?thesis using f IH by (subst page_verify_loop.simps) (simp add: page_chain_simps)
  next
    case (Cons b zs)
    then obtain n where n: "pg_next f = b" "b \<noteq> NULL" "m_pages s b = Some n" using f(4) by (auto simp: page_chain_simps)
    have "before (preg f) (preg n)" using Cons.prems Cons f n by (auto simp: pages_rep_def sorted_wrt_append)
    then have lt: "\<not> mem_base n < mem_base f" by (auto simp: before_def preg_def word_less_nat_alt)
    have ov: "\<not> mem_base f < mem_base q + consecutive q * PAGE_SIZE" if q: "last_or xs \<noteq> NULL" "m_pages s (last_or xs) = Some q" for q
    proof -
      have "xs \<noteq> []" using q(1) by auto
      then have "last_or xs \<in> set xs" by (simp add: last_or_def)
      then have "preg q \<in> set (pregs s xs)" using q(2) by (force simp: pregs_def)
      then have "before (preg q) (preg f)" "preg_ok (preg q)" using Cons.prems f by (auto simp: pages_rep_def sorted_wrt_append)
      then show ?thesis using preg_end [of q] by (simp add: word_less_nat_alt before_def) (simp add: preg_def)
    qed
    have d: "last_or xs \<noteq> NULL \<Longrightarrow> \<exists>q. m_pages s (last_or xs) = Some q"
      using Cons.prems(1) last_in_set [of xs] by (cases "xs = []") (auto simp: pages_rep_def page_chain_def last_or_def dest!: subsetD)
    show ?thesis using f n lt ov d IH by (subst page_verify_loop.simps) auto
  qed
qed

lemma page_verify_accepts: "free_pages s ps as bs \<Longrightarrow> page_verify s = Inr ()"
  using page_verify_loop_ok [of s "[]" ps "page_free_head s"] by (simp add: free_pages_def page_verify_def loopE_def pages_rep_def)

text \<open>It does not look at the last pair: two chunks that overlap are accepted when the second one ends the list.\<close>

lemma page_verify_misses_last_overlap:
  assumes "page_free_head s = a" and "a \<noteq> NULL" and "m_pages s a = Some f" and "pg_next f = b" and "b \<noteq> NULL" and "m_pages s b = Some n"
    and "pg_next n = NULL" and "mem_base f \<le> mem_base n" and "mem_base n < mem_base f + consecutive f * PAGE_SIZE"
  shows "page_verify s = Inr ()"
proof -
  have "page_verify_loop b NULL s = Some (Inr ())" by (subst page_verify_loop.simps) simp
  then have "page_verify_loop a b s = Some (Inr ())" using assms by (subst page_verify_loop.simps) simp
  then have "page_verify_loop NULL a s = Some (Inr ())" using assms by (subst page_verify_loop.simps) (simp add: not_less [symmetric])
  then show ?thesis using assms(1) by (simp add: page_verify_def loopE_def)
qed

section \<open>Giving a structure back\<close>

lemma kmem_merge_frame: "kmem_merge_free a s = Inr s' \<Longrightarrow> heap_frame s s'"
  by (auto simp: kmem_merge_free_def heap_frame_def Let_def wr_free_def result_iff split: if_splits)

lemma kmem_insert_frame: "kmem_insert_free new h sz s = Inr s' \<Longrightarrow> heap_frame s s'"
  by (auto simp: kmem_insert_free_def Let_def result_iff wr_free_def heap_frame_def split: if_splits prod.splits dest!: kmem_merge_frame)

lemma kfree_nolock_frame: "kfree_nolock k ptr s = Inr s' \<Longrightarrow> free_free_structs s \<noteq> NULL \<Longrightarrow> heap_frame s s'"
  by (auto simp: kfree_nolock_def get_struct_def Let_def result_iff wr_hdr_def heap_frame_def split: if_splits dest!: kmem_insert_frame)

text \<open>What stays outside a set of structures.\<close>

definition keeps :: "u32 set \<Rightarrow> mem \<Rightarrow> mem \<Rightarrow> bool" where
  "keeps A s s' \<longleftrightarrow> allocation_pointer s' = allocation_pointer s \<and> (\<forall>x. x \<notin> A \<longrightarrow> m_pages s' x = m_pages s x \<and> (\<forall>hr. live s (x - 8) hr \<longrightarrow> live s' (x - 8) hr))"

lemma keeps_refl [simp]: "keeps A s s"
  by (simp add: keeps_def)

lemma keeps_trans: "keeps A s t \<Longrightarrow> keeps B t u \<Longrightarrow> A \<subseteq> C \<Longrightarrow> B \<subseteq> C \<Longrightarrow> keeps C s u"
  unfolding keeps_def by (metis subsetD)

lemma owned_keeps: "owned s as bs x \<Longrightarrow> keeps A s s' \<Longrightarrow> x \<notin> A \<Longrightarrow> set as' \<union> set bs' = set as \<union> set bs \<Longrightarrow> owned s' as' bs' x"
  by (auto simp: owned_def keeps_def)

lemma release:
  assumes inv: "kmem_inv s as bs" and bs: "bs \<noteq> []" and x: "owned s as bs x"
  shows "\<exists>s' as' bs'. kfree_nolock k x s = Inr s' \<and> kmem_inv s' as' bs' \<and> set as' \<union> set bs' = set as \<union> set bs \<and>
    length bs \<le> Suc (length bs') \<and> heap_frame s s' \<and> m_mutex s' = m_mutex s \<and> keeps {x} s s'"
proof -
  from bs obtain b cs where b: "bs = b # cs" by (cases bs) auto
  from x obtain hr where hr: "live s (x - 8) hr" "x \<noteq> NULL" "x \<notin> set as \<union> set (b # cs)" by (auto simp: owned_def b)
  have ff: "free_free_structs s \<noteq> NULL" using inv b by (auto simp: kmem_inv_def kmem_rep_def)
  from kfree_nolock_spare [OF inv [unfolded b] hr(1,3,2), of k] obtain s' as' bs' where
    s': "kfree_nolock k x s = Inr s'" "kmem_inv s' as' bs'" "m_hdrs s' = (m_hdrs s)(x - 8 \<mapsto> freed_hdr hr)" "m_mutex s' = m_mutex s"
      "set as' \<union> set bs' = set as \<union> set (b # cs)" "length cs \<le> length bs'" by blast
  have fr: "heap_frame s s'" by (rule kfree_nolock_frame [OF s'(1) ff])
  then have "keeps {x} s s'" using s'(3) by (auto simp: keeps_def live_def heap_frame_def)
  then show ?thesis using s' fr b by (intro exI [of _ s'] exI [of _ as'] exI [of _ bs']) simp
qed

section \<open>Joining chunks\<close>

lemma pages_rep_at:
  assumes "pages_rep s p (xs @ a # ys)" and "m_pages s a = Some f"
  shows "a \<noteq> NULL" and "page_chain s (pg_next f) ys" and "preg_ok (preg f)" and "\<forall>r \<in> set (pregs s xs). before r (preg f)"
    and "\<forall>r \<in> set (pregs s ys). before (preg f) r" and "a \<notin> set xs" and "a \<notin> set ys" and "set xs \<inter> set ys = {}"
  using assms linked_distinct [of "pg_nx s" p "xs @ a # ys"] by (auto simp: pages_rep_def page_chain_def chain_append sorted_wrt_append)

text \<open>Replacing the chunk of \<open>a\<close> and its successor by the joined chunk.\<close>

lemma pages_rep_join:
  assumes rep: "pages_rep s p (xs @ a # b # ys)" and f: "m_pages s a = Some f" and n: "m_pages s b = Some n"
    and touch: "mem_base f + consecutive f * PAGE_SIZE = mem_base n"
  defines "g \<equiv> f\<lparr>consecutive := consecutive f + consecutive n, pg_next := pg_next n\<rparr>"
  shows "preg g = (fst (preg f), snd (preg f) + snd (preg n))" and "fst (preg n) = fst (preg f) + snd (preg f)"
    and "m_pages t = (m_pages s)(a \<mapsto> g) \<Longrightarrow> pages_rep t p (xs @ a # ys) \<and> pregs t xs = pregs s xs \<and> pregs t ys = pregs s ys"
proof -
  note pa = pages_rep_at [OF rep f]
  have rep2: "pages_rep s p ((xs @ [a]) @ b # ys)" using rep by simp
  note pb = pages_rep_at [OF rep2 n]
  show e: "fst (preg n) = fst (preg f) + snd (preg f)" using preg_end [OF pa(3)] touch by (simp add: preg_def)
  have c: "unat (consecutive f + consecutive n) = unat (consecutive f) + unat (consecutive n)"
    by (rule unat_add_lt) (use e pb(3) in \<open>simp add: preg_ok_def preg_def\<close>)
  show pg: "preg g = (fst (preg f), snd (preg f) + snd (preg n))" using c by (simp add: g_def preg_def)
  assume t: "m_pages t = (m_pages s)(a \<mapsto> g)"
  have nx: "pg_nx t = (pg_nx s)(a := pg_next n)" using t by (auto simp: pg_nx_def g_def)
  have x: "pregs t xs = pregs s xs" "pregs t ys = pregs s ys" using t pa(6,7) by (auto simp: pregs_def)
  have "chain (pg_nx s) p xs a" "linked (pg_nx s) (pg_next n) ys" using rep f n by (auto simp: pages_rep_def page_chain_def chain_append)
  then have "linked (pg_nx t) p (xs @ a # ys)" using pa(1,6,7) by (auto simp: nx chain_append)
  moreover have "set (xs @ a # ys) \<subseteq> dom (m_pages t)" using rep t by (auto simp: pages_rep_def page_chain_def)
  moreover have "preg_ok (preg g)" using pb(3) e pa(3) by (simp add: pg preg_ok_def)
  moreover have "\<forall>r \<in> set (pregs s xs). before r (preg g)" "\<forall>r \<in> set (pregs s ys). before (preg g) r" 
    using pa(4) pb(5) e by (auto simp: pg before_def)
  ultimately show "pages_rep t p (xs @ a # ys) \<and> pregs t xs = pregs s xs \<and> pregs t ys = pregs s ys"
    using rep x t by (auto simp: pages_rep_def page_chain_def sorted_wrt_append)
qed

lemma page_merge_ok:
  assumes fp: "free_pages s (xs @ a # ys) as bs" and f: "m_pages s a = Some f" and bs: "bs \<noteq> []"
  shows "\<exists>s' ys' as' bs' g. page_merge_free k a s = Inr s' \<and> free_pages s' (xs @ a # ys') as' bs' \<and> m_pages s' a = Some g \<and>
    fst (preg g) = fst (preg f) \<and> pregs s' xs = pregs s xs \<and> page_space s' (a # ys') = page_space s (a # ys) \<and>
    (successively gap (pregs s ys) \<longrightarrow> successively gap (pregs s' (a # ys'))) \<and> set ys' \<subseteq> set ys \<and> keeps (insert a (set ys)) s s' \<and>
    set as' \<union> set bs' = set as \<union> set bs \<and> length bs \<le> Suc (length bs') \<and> m_mutex s' = m_mutex s"
proof (cases "\<exists>b zs n. ys = b # zs \<and> m_pages s b = Some n \<and> mem_base f + consecutive f * PAGE_SIZE = mem_base n")
  case False
  have rep: "pages_rep s (page_free_head s) (xs @ a # ys)" using fp by (simp add: free_pages_def)
  note pa = pages_rep_at [OF rep f]
  have "page_merge_free k a s = Inr s \<and> (successively gap (pregs s ys) \<longrightarrow> successively gap (pregs s (a # ys)))"
  proof (cases ys)
    case Nil
    then show ?thesis using pa(2) f by (simp add: page_merge_free_def page_chain_simps)
  next
    case (Cons b zs)
    then obtain n where n: "pg_next f = b" "b \<noteq> NULL" "m_pages s b = Some n" using pa(2) by (auto simp: page_chain_simps)
    then have ne: "mem_base f + consecutive f * PAGE_SIZE \<noteq> mem_base n" using False Cons by blast
    have "before (preg f) (preg n)" using pa(5) Cons n by simp
    then have "gap (preg f) (preg n)" using ne preg_end [OF pa(3)] by (auto simp: gap_def before_def order_le_less preg_def word_unat_eq_iff)
    then show ?thesis using f n ne Cons by (simp add: page_merge_free_def)
  qed
  then show ?thesis using fp f by (intro exI [of _ s] exI [of _ ys] exI [of _ as] exI [of _ bs] exI [of _ f]) simp
next
  case True
  then obtain b zs n where ys: "ys = b # zs" and n: "m_pages s b = Some n" and touch: "mem_base f + consecutive f * PAGE_SIZE = mem_base n" by blast
  have rep: "pages_rep s (page_free_head s) (xs @ a # b # zs)" and inv: "kmem_inv s as bs" and own: "\<forall>x \<in> set (xs @ a # b # zs). owned s as bs x"
    using fp ys by (simp_all add: free_pages_def)
  note pa = pages_rep_at [OF rep f]
  have nb: "pg_next f = b" "b \<noteq> NULL" "b \<noteq> a" using pa(2,7) by (auto simp: page_chain_simps)
  have bz: "b \<notin> set zs" "b \<notin> set xs" using linked_distinct [of "pg_nx s" "page_free_head s" "xs @ a # b # zs"] rep by (auto simp: pages_rep_def page_chain_def)
  define g where "g = f\<lparr>consecutive := consecutive f + consecutive n, pg_next := pg_next n\<rparr>"
  define s1 where "s1 = wr_page a g s"
  note join = pages_rep_join [OF rep f n touch, folded g_def]
  have k1: "kmem_inv s1 as bs" using inv kmem_rep_cong [of s1 s] mem_cong [of s1 s]
    by (simp add: kmem_inv_def blocks_ok_def nodes_ok_def live_def s1_def wr_page_def)
  have "owned s1 as bs b" using own by (simp add: owned_def live_def s1_def wr_page_def)
  from release [OF k1 bs this, of k] obtain s' as' bs' where r: "kfree_nolock k b s1 = Inr s'" "kmem_inv s' as' bs'"
    "set as' \<union> set bs' = set as \<union> set bs" "length bs \<le> Suc (length bs')" "heap_frame s1 s'" "m_mutex s' = m_mutex s1" "keeps {b} s1 s'" by blast
  have m: "m_pages s' = (m_pages s)(a \<mapsto> g)" "page_free_head s' = page_free_head s" "m_mutex s' = m_mutex s"
    using r(5,6) by (simp_all add: heap_frame_def s1_def wr_page_def)
  note jt = join(3) [OF m(1)]
  have kp: "keeps (insert a (set ys)) s s'" using r(7) ys by (auto simp: keeps_def s1_def live_def wr_page_def)
  have "owned s' as' bs' x" if "x \<in> set (xs @ a # zs)" for x
  proof -
    have "owned s1 as bs x" using own that by (auto simp: owned_def live_def s1_def wr_page_def)
    then show ?thesis by (rule owned_keeps [OF _ r(7) _ r(3)]) (use that bz nb in auto)
  qed
  then have "free_pages s' (xs @ a # zs) as' bs'" using r(2) jt m(2) by (simp add: free_pages_def)
  moreover have "page_merge_free k a s = Inr s'" using f n nb touch r(1) by (simp add: page_merge_free_def g_def s1_def Let_def)
  moreover have "m_pages s' a = Some g" "fst (preg g) = fst (preg f)" using m join(1) by simp_all
  moreover have "reg_bytes (preg g) = reg_bytes (preg f) \<union> reg_bytes (preg n)" using join(1,2) by (auto simp: reg_bytes_def)
  then have "page_space s' (a # zs) = page_space s (a # ys)" using jt m(1) f n ys by (auto simp: page_space_def)
  moreover have "successively gap (pregs s' (a # zs))" if "successively gap (pregs s ys)"
    using that jt m(1) n ys join(1,2) by (cases zs) (auto simp: gap_def)
  ultimately show ?thesis using jt kp r(3,4) m(3) ys
    by (intro exI [of _ s'] exI [of _ zs] exI [of _ as'] exI [of _ bs'] exI [of _ g]) auto
qed

section \<open>Inserting a chunk\<close>

definition pbase :: "mem \<Rightarrow> u32 \<Rightarrow> u32" where
  "pbase s a = (case m_pages s a of Some f \<Rightarrow> mem_base f)"

lemma page_locate_splits:
  "page_chain s p (xs @ ys) \<Longrightarrow> \<forall>x \<in> set xs. pbase s x < b \<Longrightarrow> (ys \<noteq> [] \<Longrightarrow> \<not> pbase s (hd ys) < b) \<Longrightarrow>
   page_locate b prev p s = Some (Inr (if xs = [] then prev else last_or xs, if ys = [] then NULL else hd ys))"
proof (induction xs arbitrary: p prev)
  case Nil
  then show ?case by (subst page_locate.simps) (cases ys; auto simp: pbase_def page_chain_simps)
next
  case (Cons x xs)
  then obtain f where f: "m_pages s x = Some f" "p = x" "x \<noteq> NULL" "page_chain s (pg_next f) (xs @ ys)" by (auto simp: page_chain_simps)
  have "page_locate b x (pg_next f) s = Some (Inr (if xs = [] then x else last_or xs, if ys = [] then NULL else hd ys))"
    by (rule Cons.IH) (use Cons.prems f in auto)
  with Cons.prems f show ?case by (subst page_locate.simps) (auto simp: pbase_def)
qed

lemma page_position:
  assumes rep: "pages_rep s p ps" and r: "preg_ok (preg f)" and dis: "reg_bytes (preg f) \<inter> page_space s ps = {}"
  defines "xs \<equiv> takeWhile (\<lambda>a. pbase s a < mem_base f) ps" and "ys \<equiv> dropWhile (\<lambda>a. pbase s a < mem_base f) ps"
  shows "ps = xs @ ys" "\<forall>x \<in> set xs. pbase s x < mem_base f" "ys \<noteq> [] \<Longrightarrow> \<not> pbase s (hd ys) < mem_base f"
    "\<forall>x \<in> set (pregs s xs). before x (preg f)" "\<forall>y \<in> set (pregs s ys). before (preg f) y"
proof -
  show ps: "ps = xs @ ys" by (simp add: xs_def ys_def)
  show lo: "\<forall>x \<in> set xs. pbase s x < mem_base f" by (auto simp: xs_def dest: set_takeWhileD)
  show hi: "ys \<noteq> [] \<Longrightarrow> \<not> pbase s (hd ys) < mem_base f" using hd_dropWhile unfolding ys_def by metis
  have at: "\<exists>g. m_pages s a = Some g \<and> preg g \<in> set (pregs s ps) \<and> preg_ok (preg g) \<and> reg_bytes (preg f) \<inter> reg_bytes (preg g) = {}" if "a \<in> set ps" for a
  proof -
    from that rep obtain g where g: "m_pages s a = Some g" by (auto simp: pages_rep_def page_chain_def)
    then have "preg g \<in> set (pregs s ps)" using that by (force simp: pregs_def)
    then show ?thesis using g rep dis by (auto simp: pages_rep_def page_space_def)
  qed
  have apart: "before (preg g) (preg f)" if "mem_base g < mem_base f" "reg_bytes (preg f) \<inter> reg_bytes (preg g) = {}" "preg_ok (preg g)" for g
  proof (rule ccontr)
    assume "\<not> before (preg g) (preg f)"
    then have "unat (mem_base f) \<in> reg_bytes (preg f) \<inter> reg_bytes (preg g)" using that r
      by (auto simp: before_def reg_bytes_def preg_ok_def preg_def word_less_nat_alt)
    with that(2) show False by blast
  qed
  have apart': "before (preg f) (preg g)" if "\<not> mem_base g < mem_base f" "reg_bytes (preg f) \<inter> reg_bytes (preg g) = {}" "preg_ok (preg g)" for g
  proof (rule ccontr)
    assume "\<not> before (preg f) (preg g)"
    then have "unat (mem_base g) \<in> reg_bytes (preg f) \<inter> reg_bytes (preg g)" using that r
      by (auto simp: before_def reg_bytes_def preg_ok_def preg_def word_less_nat_alt)
    with that(2) show False by blast
  qed
  show "\<forall>x \<in> set (pregs s xs). before x (preg f)"
  proof
    fix x assume "x \<in> set (pregs s xs)"
    then obtain a where a: "a \<in> set xs" "x = (case m_pages s a of Some g \<Rightarrow> preg g)" by (auto simp: pregs_def)
    with at [of a] ps lo show "before x (preg f)" by (auto simp: pbase_def intro!: apart)
  qed
  show "\<forall>y \<in> set (pregs s ys). before (preg f) y"
  proof (cases ys)
    case (Cons b zs)
    with at [of b] ps obtain g where g: "m_pages s b = Some g" "preg_ok (preg g)" "reg_bytes (preg f) \<inter> reg_bytes (preg g) = {}" by auto
    with hi Cons have b: "before (preg f) (preg g)" by (auto simp: pbase_def intro!: apart')
    have "\<forall>y \<in> set (pregs s zs). before (preg g) y" using rep ps Cons g by (auto simp: pages_rep_def sorted_wrt_append)
    then show ?thesis using b g Cons by (auto simp: before_def)
  qed simp
qed

text \<open>Linking the structure \<open>p\<close> between \<open>xs\<close> and \<open>ys\<close>.\<close>

lemma page_link:
  assumes rep: "pages_rep s (page_free_head s) (xs @ ys)" and f: "m_pages s p = Some f" and p: "p \<noteq> NULL" "p \<notin> set xs" "p \<notin> set ys"
    and r: "preg_ok (preg f)" and lo: "\<forall>x \<in> set (pregs s xs). before x (preg f)" and hi: "\<forall>y \<in> set (pregs s ys). before (preg f) y"
  defines "now \<equiv> if ys = [] then NULL else hd ys"
  shows "\<exists>s1. (if last_or xs \<noteq> NULL then bindE (rd_page s (last_or xs)) (\<lambda>pf. Inr (wr_page (last_or xs) (pf\<lparr>pg_next := p\<rparr>) s))
      else Inr (s\<lparr>page_free_head := p\<rparr>)) = Inr s1 \<and> m_pages s1 p = Some f \<and>
    (let t = wr_page p (f\<lparr>pg_next := now\<rparr>) s1 in pages_rep t (page_free_head t) (xs @ p # ys) \<and> pregs t xs = pregs s xs \<and> pregs t ys = pregs s ys \<and>
      (\<exists>pm h. t = s\<lparr>m_pages := pm, page_free_head := h\<rparr>) \<and> (\<forall>x. x \<noteq> p \<longrightarrow> x \<notin> set xs \<longrightarrow> m_pages t x = m_pages s x))"
proof -
  let ?f = "f\<lparr>pg_next := now\<rparr>"
  have lk: "linked (pg_nx s) (page_free_head s) (xs @ ys)" and dom: "set (xs @ ys) \<subseteq> dom (m_pages s)" using rep by (auto simp: pages_rep_def page_chain_def)
  have dist: "distinct (xs @ ys)" by (rule linked_distinct [OF lk])
  from lk obtain m where c: "chain (pg_nx s) (page_free_head s) xs m" "linked (pg_nx s) m ys" by (auto simp: chain_append)
  have m: "m = now" using c(2) by (cases ys) (auto simp: now_def)
  have core: "pages_rep t (page_free_head t) (xs @ p # ys) \<and> pregs t xs = pregs s xs \<and> pregs t ys = pregs s ys"
    if t: "chain (pg_nx t) (page_free_head t) xs p" "m_pages t p = Some ?f" "\<forall>x. x \<noteq> p \<longrightarrow> x \<notin> set xs \<longrightarrow> m_pages t x = m_pages s x"
      "\<forall>x \<in> set xs. \<exists>g h. m_pages t x = Some g \<and> m_pages s x = Some h \<and> preg g = preg h" for t
  proof -
    have y: "\<forall>x \<in> set ys. m_pages t x = m_pages s x" using t(3) p(3) dist by auto
    have "linked (pg_nx t) now ys" using c(2) m chain_cong [of ys "pg_nx t" "pg_nx s"] y by (simp add: pg_nx_def)
    moreover have pr: "pregs t xs = pregs s xs" "pregs t ys = pregs s ys" using t(4) y dom by (auto intro!: pregs_cong)
    moreover have "preg ?f = preg f" by (simp add: preg_def)
    moreover have "set (xs @ p # ys) \<subseteq> dom (m_pages t)" using t(2,4) y dom by force
    ultimately show ?thesis using t(1,2) p(1) rep r lo hi by (auto simp: pages_rep_def page_chain_def chain_append sorted_wrt_append)
  qed
  show ?thesis
  proof (cases "xs = []")
    case True
    let ?t = "wr_page p ?f (s\<lparr>page_free_head := p\<rparr>)"
    have "pages_rep ?t (page_free_head ?t) (xs @ p # ys) \<and> pregs ?t xs = pregs s xs \<and> pregs ?t ys = pregs s ys"
      by (rule core) (use True in \<open>auto simp: wr_page_def\<close>)
    moreover have "\<exists>pm h. ?t = s\<lparr>m_pages := pm, page_free_head := h\<rparr>" unfolding wr_page_def by (cases s) auto
    ultimately show ?thesis using True f by (intro exI [of _ "s\<lparr>page_free_head := p\<rparr>"]) (simp add: Let_def)
  next
    case False
    then obtain us u where u: "xs = us @ [u]" by (meson rev_exhaust)
    with dom obtain g where g: "m_pages s u = Some g" by auto
    have l: "last_or xs = u" "u \<noteq> NULL" "u \<noteq> p" "u \<notin> set us" using u c(1) p dist by (auto simp: last_or_def chain_append)
    let ?s1 = "wr_page u (g\<lparr>pg_next := p\<rparr>) s" let ?t = "wr_page p ?f ?s1"
    have "chain (pg_nx s) (page_free_head s) us u" using c(1) u by (auto simp: chain_append)
    then have "chain (pg_nx ?t) (page_free_head s) xs p" using u l p by (simp add: chain_append)
    moreover have "page_free_head ?t = page_free_head s" by (simp add: wr_page_def)
    moreover have "\<forall>x \<in> set xs. \<exists>g h. m_pages ?t x = Some g \<and> m_pages s x = Some h \<and> preg g = preg h" using u g l dom p by (auto simp: preg_def)
    ultimately have "pages_rep ?t (page_free_head ?t) (xs @ p # ys) \<and> pregs ?t xs = pregs s xs \<and> pregs ?t ys = pregs s ys"
      by (intro core) (use u in auto)
    moreover have "\<exists>pm h. ?t = s\<lparr>m_pages := pm, page_free_head := h\<rparr>" unfolding wr_page_def by (cases s) auto
    ultimately show ?thesis using l g f u by (intro exI [of _ ?s1]) (simp add: Let_def)
  qed
qed

section \<open>\<open>page::free\<close>\<close>

lemma free_pages_mutex [simp]: "free_pages (s\<lparr>m_mutex := b\<rparr>) ps as bs = free_pages s ps as bs"
  "pregs (s\<lparr>m_mutex := b\<rparr>) ps = pregs s ps" "page_space (s\<lparr>m_mutex := b\<rparr>) ps = page_space s ps" "owned (s\<lparr>m_mutex := b\<rparr>) as bs x = owned s as bs x"
  "keeps A (s\<lparr>m_mutex := b\<rparr>) t = keeps A s t" "keeps A t (s\<lparr>m_mutex := b\<rparr>) = keeps A t s"
  using page_chain_cong [of "s\<lparr>m_mutex := b\<rparr>" s]
  by (simp_all add: free_pages_def pages_rep_def pregs_def page_space_def owned_def live_def keeps_def)

text \<open>Insertion and the join with the successor.\<close>

lemma page_insert_ok:
  assumes fp: "free_pages s ps as bs" and f: "m_pages s p = Some f" and own: "owned s as bs p" "p \<notin> set ps"
    and r: "preg_ok (preg f)" and dis: "reg_bytes (preg f) \<inter> page_space s ps = {}" and bs: "bs \<noteq> []"
  shows "\<exists>xs ys now s1 s2 ys' as' bs' g. ps = xs @ ys \<and> page_locate (mem_base f) NULL (page_free_head s) s = Some (Inr (last_or xs, now)) \<and>
    (if last_or xs \<noteq> NULL then bindE (rd_page s (last_or xs)) (\<lambda>pf. Inr (wr_page (last_or xs) (pf\<lparr>pg_next := p\<rparr>) s))
      else Inr (s\<lparr>page_free_head := p\<rparr>)) = Inr s1 \<and> m_pages s1 p = Some f \<and>
    page_merge_free k p (wr_page p (f\<lparr>pg_next := now\<rparr>) s1) = Inr s2 \<and> free_pages s2 (xs @ p # ys') as' bs' \<and> m_pages s2 p = Some g \<and>
    fst (preg g) = fst (preg f) \<and> pregs s2 xs = pregs s xs \<and> page_space s2 (p # ys') = reg_bytes (preg f) \<union> page_space s ys \<and>
    (successively gap (pregs s ys) \<longrightarrow> successively gap (pregs s2 (p # ys'))) \<and> set ys' \<subseteq> set ys \<and> keeps (insert p (set ps)) s s2 \<and>
    set as' \<union> set bs' = set as \<union> set bs \<and> length bs \<le> Suc (length bs') \<and> m_mutex s2 = m_mutex s"
proof -
  have rep: "pages_rep s (page_free_head s) ps" and inv: "kmem_inv s as bs" using fp by (simp_all add: free_pages_def)
  note pos = page_position [OF rep r dis]
  define xs where "xs = takeWhile (\<lambda>a. pbase s a < mem_base f) ps"
  define ys where "ys = dropWhile (\<lambda>a. pbase s a < mem_base f) ps"
  note pos = pos [folded xs_def ys_def]
  let ?now = "if ys = [] then NULL else hd ys"
  have "page_locate (mem_base f) NULL (page_free_head s) s = Some (Inr (if xs = [] then NULL else last_or xs, ?now))"
    by (rule page_locate_splits) (use rep pos in \<open>auto simp: pages_rep_def\<close>)
  then have loc: "page_locate (mem_base f) NULL (page_free_head s) s = Some (Inr (last_or xs, ?now))" by (cases "xs = []") simp_all
  have rep2: "pages_rep s (page_free_head s) (xs @ ys)" and px: "p \<notin> set xs" "p \<notin> set ys" "p \<noteq> NULL" using rep pos(1) own by (auto simp: owned_def)
  from page_link [OF rep2 f px(3,1,2) r pos(4,5)] obtain s1 where s1: "(if last_or xs \<noteq> NULL then bindE (rd_page s (last_or xs)) (\<lambda>pf. Inr (wr_page (last_or xs) (pf\<lparr>pg_next := p\<rparr>) s))
      else Inr (s\<lparr>page_free_head := p\<rparr>)) = Inr s1" "m_pages s1 p = Some f"
    and lk: "let t = wr_page p (f\<lparr>pg_next := ?now\<rparr>) s1 in pages_rep t (page_free_head t) (xs @ p # ys) \<and> pregs t xs = pregs s xs \<and> pregs t ys = pregs s ys \<and>
      (\<exists>pm h. t = s\<lparr>m_pages := pm, page_free_head := h\<rparr>) \<and> (\<forall>x. x \<noteq> p \<longrightarrow> x \<notin> set xs \<longrightarrow> m_pages t x = m_pages s x)" by blast
  define t where "t = wr_page p (f\<lparr>pg_next := ?now\<rparr>) s1"
  have t: "pages_rep t (page_free_head t) (xs @ p # ys)" "pregs t xs = pregs s xs" "pregs t ys = pregs s ys" "m_pages t p = Some (f\<lparr>pg_next := ?now\<rparr>)"
    and kt: "\<forall>x. x \<noteq> p \<longrightarrow> x \<notin> set xs \<longrightarrow> m_pages t x = m_pages s x" using lk by (simp_all add: t_def Let_def)
  from lk obtain pm h where ts: "t = s\<lparr>m_pages := pm, page_free_head := h\<rparr>" by (auto simp: t_def Let_def)
  have "kmem_inv t as bs" using inv kmem_rep_cong [of t s] mem_cong [of t s] by (simp add: kmem_inv_def blocks_ok_def nodes_ok_def live_def ts)
  moreover have "owned t as bs x = owned s as bs x" for x by (simp add: owned_def live_def ts)
  ultimately have fpt: "free_pages t (xs @ p # ys) as bs" using t(1) fp own(1) pos(1) by (auto simp: free_pages_def)
  have k0: "keeps (insert p (set ps)) s t" using kt pos(1) by (auto simp: keeps_def live_def ts)
  from page_merge_ok [OF fpt t(4) bs, of k] obtain s2 ys' as' bs' g where
    m: "page_merge_free k p t = Inr s2" "free_pages s2 (xs @ p # ys') as' bs'" "m_pages s2 p = Some g" "fst (preg g) = fst (preg f)"
      "pregs s2 xs = pregs s xs" "page_space s2 (p # ys') = page_space t (p # ys)" "successively gap (pregs s ys) \<longrightarrow> successively gap (pregs s2 (p # ys'))"
      "set ys' \<subseteq> set ys" "keeps (insert p (set ys)) t s2" "set as' \<union> set bs' = set as \<union> set bs" "length bs \<le> Suc (length bs')" "m_mutex s2 = m_mutex t"
    unfolding t(2,3) by (auto simp: preg_def)
  have sp: "page_space t (p # ys) = reg_bytes (preg f) \<union> page_space s ys" using t(3,4) page_space_cong [OF t(3)] by (simp add: preg_def)
  have k: "keeps (insert p (set ps)) s s2" by (rule keeps_trans [OF k0 m(9)]) (use pos(1) in auto)
  have mx: "m_mutex s2 = m_mutex s" using m(12) by (simp add: ts)
  have sp2: "page_space s2 (p # ys') = reg_bytes (preg f) \<union> page_space s ys" using m(6) sp by (rule trans)
  show ?thesis
    by (intro exI [of _ xs] exI [of _ ys] exI [of _ ?now] exI [of _ s1] exI [of _ s2] exI [of _ ys'] exI [of _ as'] exI [of _ bs'] exI [of _ g] conjI;
        fact pos(1) loc s1 m(1) [unfolded t_def] m(2-5) sp2 m(7,8) k m(10,11) mx)
qed

lemma page_free_one_ok:
  assumes fp: "free_pages s ps as bs" and mx: "\<not> m_mutex s" and f: "m_pages s p = Some f" and own: "owned s as bs p" "p \<notin> set ps"
    and r: "preg_ok (preg f)" and dis: "reg_bytes (preg f) \<inter> page_space s ps = {}" and bs: "2 \<le> length bs"
  shows "\<exists>s' ps' as' bs'. page_free_one k p s = Inr s' \<and> free_pages s' ps' as' bs' \<and> page_space s' ps' = page_space s ps \<union> reg_bytes (preg f) \<and>
    (successively gap (pregs s ps) \<longrightarrow> successively gap (pregs s' ps')) \<and> \<not> m_mutex s' \<and> set ps' \<subseteq> insert p (set ps) \<and>
    keeps (insert p (set ps)) s s' \<and> set as' \<union> set bs' = set as \<union> set bs \<and> length bs \<le> length bs' + 2"
proof -
  let ?s = "s\<lparr>m_mutex := True\<rparr>"
  have a: "free_pages ?s ps as bs" "m_pages ?s p = Some f" "owned ?s as bs p" "reg_bytes (preg f) \<inter> page_space ?s ps = {}" "bs \<noteq> []" using assms by auto
  from page_insert_ok [OF a(1-3) own(2) r a(4,5), of k, unfolded free_pages_mutex] obtain xs ys now s1 s2 ys' as' bs' g where
    ps: "ps = xs @ ys" and loc: "page_locate (mem_base f) NULL (page_free_head ?s) ?s = Some (Inr (last_or xs, now))"
    and s1: "(if last_or xs \<noteq> NULL then bindE (rd_page ?s (last_or xs)) (\<lambda>pf. Inr (wr_page (last_or xs) (pf\<lparr>pg_next := p\<rparr>) ?s))
      else Inr (?s\<lparr>page_free_head := p\<rparr>)) = Inr s1" "m_pages s1 p = Some f" and mg: "page_merge_free k p (wr_page p (f\<lparr>pg_next := now\<rparr>) s1) = Inr s2"
    and s2: "free_pages s2 (xs @ p # ys') as' bs'" "m_pages s2 p = Some g" "fst (preg g) = fst (preg f)" "pregs s2 xs = pregs s xs"
      "page_space s2 (p # ys') = reg_bytes (preg f) \<union> page_space s ys" "successively gap (pregs s ys) \<longrightarrow> successively gap (pregs s2 (p # ys'))"
      "set ys' \<subseteq> set ys" "keeps (insert p (set ps)) s s2" "set as' \<union> set bs' = set as \<union> set bs" "length bs \<le> Suc (length bs')" "m_mutex s2 = m_mutex ?s"
    by (elim exE conjE) (rule that)
  have eq: "page_free_one k p s = bindE (if last_or xs \<noteq> NULL then page_merge_free k (last_or xs) s2 else Inr s2) (\<lambda>s3. Inr (s3\<lparr>m_mutex := False\<rparr>))"
    using mx f loc s1 mg by (simp add: page_free_one_def mem_lock_def mem_unlock_def loopE_def)
  have sp: "page_space s2 (xs @ p # ys') = page_space s ps \<union> reg_bytes (preg f)"
    using s2(4,5) page_space_cong [OF s2(4)] ps by auto
  show ?thesis
  proof (cases "xs = []")
    case True
    then have "page_free_one k p s = Inr (s2\<lparr>m_mutex := False\<rparr>)" using eq by simp
    then show ?thesis using s2 sp ps True
      by (intro exI [of _ "s2\<lparr>m_mutex := False\<rparr>"] exI [of _ "p # ys'"] exI [of _ as'] exI [of _ bs']) auto
  next
    case False
    then obtain us u where u: "xs = us @ [u]" by (meson rev_exhaust)
    have rep2: "pages_rep s2 (page_free_head s2) (xs @ p # ys')" using s2(1) by (simp add: free_pages_def)
    then obtain fu where fu: "m_pages s2 u = Some fu" using u by (auto simp: pages_rep_def page_chain_def)
    have l: "last_or xs = u" "u \<noteq> NULL" using u pages_rep_at(1) [of s2 _ us u "p # ys'" fu] rep2 fu by (auto simp: last_or_def)
    have fp2: "free_pages s2 (us @ u # p # ys') as' bs'" and b2: "bs' \<noteq> []" using s2(1,10) u bs by auto
    from page_merge_ok [OF fp2 fu b2, of k] obtain s3 zs as3 bs3 g' where
      s3: "page_merge_free k u s2 = Inr s3" "free_pages s3 (us @ u # zs) as3 bs3" "m_pages s3 u = Some g'" "fst (preg g') = fst (preg fu)"
        "pregs s3 us = pregs s2 us" "page_space s3 (u # zs) = page_space s2 (u # p # ys')"
        "successively gap (pregs s2 (p # ys')) \<longrightarrow> successively gap (pregs s3 (u # zs))" "set zs \<subseteq> set (p # ys')"
        "keeps (insert u (set (p # ys'))) s2 s3" "set as3 \<union> set bs3 = set as' \<union> set bs'" "length bs' \<le> Suc (length bs3)" "m_mutex s3 = m_mutex s2" by blast
    have "page_free_one k p s = Inr (s3\<lparr>m_mutex := False\<rparr>)" using eq l s3(1) by simp
    moreover have "page_space s3 (us @ u # zs) = page_space s ps \<union> reg_bytes (preg f)"
      using s3(5,6) page_space_cong [OF s3(5)] sp u by auto
    moreover have "successively gap (pregs s3 (us @ u # zs))" if gp: "successively gap (pregs s ps)"
    proof -
      have x: "pregs s us @ [preg fu] = pregs s xs" "pregs s3 us = pregs s us" using s2(4) s3(5) u fu by (cases "m_pages s u"; simp)+
      have "successively gap (pregs s us @ preg fu # pregs s ys)" using gp ps x(1) by (metis append.assoc append_Cons append_Nil pregs_simps(3))
      moreover have "successively gap (pregs s ys)" using gp ps by (simp add: successively_append_iff)
      then have "successively gap (preg g' # pregs s3 zs)" using s2(6) s3(3,7) by simp
      ultimately show ?thesis using gap_replace s3(3,4) x(2) by simp
    qed
    moreover have "keeps (insert p (set ps)) s s3" by (rule keeps_trans [OF s2(8) s3(9)]) (use u ps s2(7) in auto)
    moreover have "set (us @ u # zs) \<subseteq> insert p (set ps)" using s3(8) s2(7) u ps by auto
    ultimately show ?thesis using s3(2,10,11) s2(9,10)
      by (intro exI [of _ "s3\<lparr>m_mutex := False\<rparr>"] exI [of _ "us @ u # zs"] exI [of _ as3] exI [of _ bs3]) auto
  qed
qed

text \<open>The chain handed to \<open>free\<close>: its structures belong to the caller, its chunks are disjoint from each other and from the free ones.\<close>

definition used_chain :: "mem \<Rightarrow> u32 \<Rightarrow> u32 list \<Rightarrow> u32 list \<Rightarrow> u32 list \<Rightarrow> u32 list \<Rightarrow> bool" where
  "used_chain s p qs ps as bs \<longleftrightarrow> page_chain s p qs \<and> (\<forall>q \<in> set qs. owned s as bs q) \<and> set qs \<inter> set ps = {} \<and>
     (\<forall>r \<in> set (pregs s qs). preg_ok r) \<and> sorted_wrt (\<lambda>r q. reg_bytes r \<inter> reg_bytes q = {}) (pregs s qs) \<and> page_space s qs \<inter> page_space s ps = {}"

lemma used_chain_Cons:
  assumes "used_chain s p (a # qs) ps as bs"
  shows "\<exists>f. p = a \<and> a \<noteq> NULL \<and> m_pages s a = Some f \<and> used_chain s (pg_next f) qs ps as bs \<and> owned s as bs a \<and> a \<notin> set qs \<union> set ps \<and>
    preg_ok (preg f) \<and> reg_bytes (preg f) \<inter> (page_space s ps \<union> page_space s qs) = {}"
proof -
  from assms obtain f where f: "p = a" "a \<noteq> NULL" "m_pages s a = Some f" "page_chain s (pg_next f) qs" by (auto simp: used_chain_def page_chain_simps)
  have "a \<notin> set qs" using assms linked_distinct [of "pg_nx s" p "a # qs"] by (auto simp: used_chain_def page_chain_def)
  then show ?thesis using assms f by (auto simp: used_chain_def page_space_def)
qed

lemma page_free_chain:
  assumes "free_pages s ps as bs" and "\<not> m_mutex s" and "used_chain s p qs ps as bs" and "2 * length qs \<le> length bs"
  shows "\<exists>s' ps' as' bs'. page_free k p s = Some (Inr s') \<and> free_pages s' ps' as' bs' \<and> page_space s' ps' = page_space s ps \<union> page_space s qs \<and>
    (successively gap (pregs s ps) \<longrightarrow> successively gap (pregs s' ps')) \<and> \<not> m_mutex s' \<and> set ps' \<subseteq> set qs \<union> set ps \<and>
    keeps (set qs \<union> set ps) s s' \<and> set as' \<union> set bs' = set as \<union> set bs \<and> length bs \<le> length bs' + 2 * length qs"
  using assms(3,4)
proof (induction qs arbitrary: p)
  case Nil
  then have "p = NULL" by (simp add: used_chain_def page_chain_simps)
  then have "page_free k p s = Some (Inr s)" by (subst page_free.simps) simp
  then show ?case using assms(1,2) by (intro exI [of _ s] exI [of _ ps] exI [of _ as] exI [of _ bs]) simp
next
  case (Cons a qs)
  from used_chain_Cons [OF Cons.prems(1)] obtain f where f: "p = a" "a \<noteq> NULL" "m_pages s a = Some f" "used_chain s (pg_next f) qs ps as bs"
    "owned s as bs a" "a \<notin> set qs \<union> set ps" "preg_ok (preg f)" "reg_bytes (preg f) \<inter> (page_space s ps \<union> page_space s qs) = {}" by blast
  from Cons.IH [OF f(4)] Cons.prems(2) obtain s1 ps1 as1 bs1 where
    s1: "page_free k (pg_next f) s = Some (Inr s1)" "free_pages s1 ps1 as1 bs1" "page_space s1 ps1 = page_space s ps \<union> page_space s qs"
      "successively gap (pregs s ps) \<longrightarrow> successively gap (pregs s1 ps1)" "\<not> m_mutex s1" "set ps1 \<subseteq> set qs \<union> set ps"
      "keeps (set qs \<union> set ps) s s1" "set as1 \<union> set bs1 = set as \<union> set bs" "length bs \<le> length bs1 + 2 * length qs" by auto
  have a1: "m_pages s1 a = Some f" "owned s1 as1 bs1 a" "a \<notin> set ps1" "reg_bytes (preg f) \<inter> page_space s1 ps1 = {}" "2 \<le> length bs1"
    using f s1(3,6,7,9) owned_keeps [OF f(5) s1(7) f(6) s1(8)] Cons.prems(2) by (auto simp: keeps_def)
  from page_free_one_ok [OF s1(2,5) a1(1-3) f(7) a1(4,5), of k] obtain s' ps' as' bs' where
    s': "page_free_one k a s1 = Inr s'" "free_pages s' ps' as' bs'" "page_space s' ps' = page_space s1 ps1 \<union> reg_bytes (preg f)"
      "successively gap (pregs s1 ps1) \<longrightarrow> successively gap (pregs s' ps')" "\<not> m_mutex s'" "set ps' \<subseteq> insert a (set ps1)"
      "keeps (insert a (set ps1)) s1 s'" "set as' \<union> set bs' = set as1 \<union> set bs1" "length bs1 \<le> length bs' + 2" by blast
  have "page_free k p s = Some (Inr s')"
  proof (cases "pg_next f = NULL")
    case True
    then have "s1 = s" using s1(1) by (subst (asm) page_free.simps) simp
    then show ?thesis using f True s'(1) by (subst page_free.simps) simp
  next
    case False
    then show ?thesis using f s1(1) s'(1) by (subst page_free.simps) simp
  qed
  moreover have "page_space s' ps' = page_space s ps \<union> page_space s (a # qs)" using s'(3) s1(3) f(3) by auto
  moreover have "keeps (set (a # qs) \<union> set ps) s s'" by (rule keeps_trans [OF s1(7) s'(7)]) (use s1(6) in auto)
  moreover have "set ps' \<subseteq> set (a # qs) \<union> set ps" using s'(6) s1(6) by auto
  ultimately show ?case using s1(4,8,9) s'(2,4,5,8,9)
    by (intro exI [of _ s'] exI [of _ ps'] exI [of _ as'] exI [of _ bs']) auto
qed

section \<open>Properties\<close>


text \<open>Two spare structures, and free chunks on both sides of the frame \<open>0x402000\<close>, which is in use.\<close>

definition pages_example :: mem where
  "pages_example = kmem_example\<lparr>
     m_frees := [0xC1000024 \<mapsto> \<lparr>fr_size = 0x800, fr_base = 0xC1000200, fr_next = NULL\<rparr>,
       0xC1000038 \<mapsto> \<lparr>fr_size = 0, fr_base = 0, fr_next = 0xC1000050\<rparr>, 0xC1000050 \<mapsto> \<lparr>fr_size = 0, fr_base = 0, fr_next = NULL\<rparr>],
     m_hdrs := map_of (map (\<lambda>h. (h, \<lparr>hd_size = 12, hd_sentinel = SENTINEL_VAL\<rparr>)) [0xC100001C, 0xC1000030, 0xC1000048, 0xC1000078, 0xC1000098, 0xC10000B8]),
     m_pages := [0xC1000080 \<mapsto> \<lparr>page_id = 1, mem_base = 0x400000, pg_flags = 0, consecutive = 2, pg_next = 0xC10000A0\<rparr>,
       0xC10000A0 \<mapsto> \<lparr>page_id = 2, mem_base = 0x403000, pg_flags = 0, consecutive = 1, pg_next = NULL\<rparr>,
       0xC10000C0 \<mapsto> \<lparr>page_id = 3, mem_base = 0x402000, pg_flags = 1, consecutive = 1, pg_next = NULL\<rparr>],
     page_free_head := 0xC1000080\<rparr>"

lemma pages_example_live:
  "live pages_example h hr \<longleftrightarrow> h \<in> {0xC100001C, 0xC1000030, 0xC1000048, 0xC1000078, 0xC1000098, 0xC10000B8} \<and> hr = \<lparr>hd_size = 12, hd_sentinel = SENTINEL_VAL\<rparr>"
  by (auto simp: live_def pages_example_def split: if_splits)

lemma pages_example_inv: "kmem_inv pages_example [0xC1000024] [0xC1000038, 0xC1000050]"
proof -
  have rep: "kmem_rep pages_example [0xC1000024] [0xC1000038, 0xC1000050]"
    by (simp add: kmem_rep_def pages_example_def kmem_example_def fr_nx_def last_or_def reg_def reg_ok_def KERNEL_VM_BASE_val)
  have fs: "free_space pages_example [0xC1000024] = {0xC1000200 ..< 0xC1000A00}"
    by (simp add: free_space_def regs_def pages_example_def reg_def reg_bytes_def)
  have "blocks_ok pages_example [0xC1000024]"
    unfolding blocks_ok_def fs
  proof (intro conjI allI impI)
    fix h hr assume "live pages_example h hr"
    then show "reg_ok (unat h, unat (hd_size hr) + 8)" "block_bytes h hr \<inter> {0xC1000200 ..< 0xC1000A00} = {}"
      unfolding pages_example_live by (auto simp: reg_ok_def KERNEL_VM_BASE_val block_bytes_def reg_bytes_def)
  next
    fix h hr h' hr' assume "live pages_example h hr" "live pages_example h' hr'" "h \<noteq> h'"
    then show "block_bytes h hr \<inter> block_bytes h' hr' = {}"
      unfolding pages_example_live by (auto simp: block_bytes_def reg_bytes_def)
  qed
  moreover have "nodes_ok pages_example (set [0xC1000024] \<union> set [0xC1000038, 0xC1000050])"
    by (auto simp: nodes_ok_def pages_example_live)
  ultimately show ?thesis using rep by (simp add: kmem_inv_def)
qed

lemma pages_example_free: "free_pages pages_example [0xC1000080, 0xC10000A0] [0xC1000024] [0xC1000038, 0xC1000050]"
proof -
  have "pages_rep pages_example (page_free_head pages_example) [0xC1000080, 0xC10000A0]"
    by (simp add: pages_rep_def page_chain_simps pages_example_def preg_def preg_ok_def before_def)
  then show ?thesis using pages_example_inv by (simp add: free_pages_def owned_def pages_example_live)
qed

lemma pages_example_chain: "used_chain pages_example 0xC10000C0 [0xC10000C0] [0xC1000080, 0xC10000A0] [0xC1000024] [0xC1000038, 0xC1000050]"
  by (simp add: used_chain_def page_chain_simps owned_def pages_example_live)
    (simp add: pages_example_def preg_def preg_ok_def reg_bytes_def Int_Un_distrib)


end
