(* ===== verification/PageAlloc.thy ===== *)
theory PageAlloc
  imports PageFree
begin

text \<open>
  \<open>page::alloc\<close> of \<open>src/mem/page.cpp\<close> on a list with enough free pages: what it takes from the list and that \<open>page::free\<close> puts it back.
  Only the last chunk of a chain is split, so that one structure is allocated at most and the recursion is as deep as the list is long.
\<close>

section \<open>Frames are counted\<close>

definition pages_in :: "mem \<Rightarrow> u32 list \<Rightarrow> nat" where
  "pages_in s ps = sum_list (page_sizes s ps)"

lemma pages_in_simps [simp]:
  "pages_in s [] = 0" "pages_in s (a # ps) = (case m_pages s a of Some f \<Rightarrow> unat (consecutive f)) + pages_in s ps"
  by (simp_all add: pages_in_def page_sizes_def)

lemma pages_in_cong: "\<forall>x \<in> set ps. m_pages s x = m_pages t x \<Longrightarrow> pages_in s ps = pages_in t ps"
  by (induction ps) auto

text \<open>Structures of a list, and structures that the heap does not hold for anybody.\<close>

definition available :: "mem \<Rightarrow> u32 list \<Rightarrow> u32 \<Rightarrow> bool" where
  "available s ps x \<longleftrightarrow> x \<in> set ps \<or> (\<forall>hr. \<not> live s (x - 8) hr)"

text \<open>What an allocation does: the chain \<open>qs\<close> of \<open>count\<close> pages and the list \<open>ps'\<close> make up the old list.\<close>

definition allocated :: "nat \<Rightarrow> mem \<Rightarrow> u32 list \<Rightarrow> u32 list \<Rightarrow> u32 list \<Rightarrow> u32 \<times> mem \<Rightarrow> u32 list \<Rightarrow> u32 list \<Rightarrow> u32 list \<Rightarrow> u32 list \<Rightarrow> bool" where
  "allocated n s ps as bs r qs ps' as' bs' \<longleftrightarrow> (case r of (p, s') \<Rightarrow> free_pages s' ps' as' bs' \<and> used_chain s' p qs ps' as' bs' \<and>
     page_space s' ps' \<union> page_space s' qs = page_space s ps \<and> pages_in s' qs = n \<and> length qs \<le> length ps \<and>
     (\<forall>x. \<not> available s ps x \<longrightarrow> m_pages s' x = m_pages s x) \<and> (\<forall>h hr. live s h hr \<longrightarrow> live s' h hr) \<and> (\<forall>x \<in> set ps' \<union> set qs. available s ps x) \<and>
     set as' \<union> set bs' = set as \<union> set bs \<and> length bs \<le> length bs' \<and> m_mutex s' = m_mutex s \<and>
     allocation_pointer s' = allocation_pointer s)"

section \<open>Splitting the first chunk\<close>

lemma pages_rep_shrink:
  assumes rep: "pages_rep s p (a # ps)" and f: "m_pages s a = Some f" and c: "0 < c" "c < consecutive f"
    and t: "m_pages t a = Some (f\<lparr>mem_base := mem_base f + c * PAGE_SIZE, consecutive := consecutive f - c\<rparr>)" "\<forall>x \<in> set ps. m_pages t x = m_pages s x"
    and np: "m_pages t w = Some g" "mem_base g = mem_base f" "consecutive g = c"
  shows "pages_rep t p (a # ps)" and "preg_ok (preg g)" and "reg_bytes (preg g) \<inter> page_space t (a # ps) = {}"
    and "page_space t (a # ps) \<union> reg_bytes (preg g) = page_space s (a # ps)"
proof -
  let ?f = "f\<lparr>mem_base := mem_base f + c * PAGE_SIZE, consecutive := consecutive f - c\<rparr>"
  have ok: "preg_ok (preg f)" using rep f by (simp add: pages_rep_def)
  have cc: "unat c < unat (consecutive f)" "0 < unat c" using c by (simp_all add: word_less_nat_alt)
  have "preg_ok (preg g)" using ok cc np by (simp add: preg_ok_def preg_def)
  then show gok: "preg_ok (preg g)" .
  have b: "unat (mem_base f + c * PAGE_SIZE) = unat (mem_base f) + 4096 * unat c" using preg_end [OF gok] np by (simp add: preg_def)
  have d: "unat (consecutive f - c) = unat (consecutive f) - unat c" using cc by (simp add: unat_sub word_le_nat_alt)
  have pf: "preg ?f = (fst (preg f) + snd (preg g), snd (preg f) - snd (preg g))" "fst (preg g) = fst (preg f)" "snd (preg g) < snd (preg f)" "0 < snd (preg g)"
    using b d cc np by (simp_all add: preg_def diff_mult_distrib2)
  have ps: "pregs t ps = pregs s ps" using t(2) by (simp add: pregs_def)
  have bf: "\<forall>r \<in> set (pregs s ps). before (preg f) r" using rep f by (simp add: pages_rep_def)
  have nx: "pg_nx t a = pg_nx s a" "\<forall>x \<in> set ps. pg_nx t x = pg_nx s x" using t f by (simp_all add: pg_nx_def)
  have "page_chain t p (a # ps)" using rep t nx chain_cong [of ps "pg_nx t" "pg_nx s"] by (auto simp: pages_rep_def page_chain_def)
  then show "pages_rep t p (a # ps)" using rep t(1) ps pf bf f ok by (auto simp: pages_rep_def before_def preg_ok_def)
  show "reg_bytes (preg g) \<inter> page_space t (a # ps) = {}"
  proof -
    have "reg_bytes (preg g) \<inter> reg_bytes (preg ?f) = {}" using pf by (auto simp: reg_bytes_def)
    moreover have "reg_bytes (preg g) \<inter> reg_bytes r = {}" if "r \<in> set (pregs s ps)" for r
      using bf that pf by (fastforce simp: reg_bytes_def before_def)
    ultimately show ?thesis using t(1) ps by (auto simp: page_space_def)
  qed
  have "reg_bytes (preg ?f) \<union> reg_bytes (preg g) = reg_bytes (preg f)" using pf by (auto simp: reg_bytes_def)
  then show "page_space t (a # ps) \<union> reg_bytes (preg g) = page_space s (a # ps)" using t(1) f ps by (auto simp: page_space_def)
qed

section \<open>Writing a structure outside a list\<close>

lemma kmem_inv_pages [simp]: "kmem_inv (s\<lparr>m_pages := pm\<rparr>) as bs = kmem_inv s as bs" "kmem_inv (s\<lparr>page_free_head := h\<rparr>) as bs = kmem_inv s as bs"
  "kmem_inv (s\<lparr>page_id_counter := i\<rparr>) as bs = kmem_inv s as bs"
  using kmem_rep_cong [of "s\<lparr>m_pages := pm\<rparr>" s] mem_cong [of "s\<lparr>m_pages := pm\<rparr>" s] kmem_rep_cong [of "s\<lparr>page_free_head := h\<rparr>" s]
    mem_cong [of "s\<lparr>page_free_head := h\<rparr>" s] kmem_rep_cong [of "s\<lparr>page_id_counter := i\<rparr>" s] mem_cong [of "s\<lparr>page_id_counter := i\<rparr>" s]
  by (simp_all add: kmem_inv_def blocks_ok_def nodes_ok_def live_def)

lemma live_pages [simp]: "live (s\<lparr>m_pages := pm\<rparr>) h hr = live s h hr" "live (s\<lparr>page_free_head := p\<rparr>) h hr = live s h hr"
  "live (s\<lparr>page_id_counter := i\<rparr>) h hr = live s h hr"
  by (simp_all add: live_def)

lemma pages_agree:
  assumes "\<forall>x \<in> set ps. m_pages t x = m_pages s x"
  shows "pregs t ps = pregs s ps" "page_space t ps = page_space s ps" "pages_in t ps = pages_in s ps" "page_chain t p ps = page_chain s p ps" "pages_rep t p ps = pages_rep s p ps"
proof -
  show p: "pregs t ps = pregs s ps" using assms by (simp add: pregs_def)
  then show "page_space t ps = page_space s ps" by (rule page_space_cong)
  show "pages_in t ps = pages_in s ps" using assms by (rule pages_in_cong)
  show c: "page_chain t p ps = page_chain s p ps" using assms chain_cong [of ps "pg_nx t" "pg_nx s" p NULL] by (force simp: page_chain_def pg_nx_def)
  show "pages_rep t p ps = pages_rep s p ps" using p c by (simp add: pages_rep_def)
qed

lemma free_pages_not_live: "free_pages s ps as bs \<Longrightarrow> \<forall>hr. \<not> live s (w - 8) hr \<Longrightarrow> w \<notin> set ps"
  by (auto simp: free_pages_def owned_def)

lemma owned_more: "owned s as bs x \<Longrightarrow> \<forall>h hr. live s h hr \<longrightarrow> live t h hr \<Longrightarrow> set as' \<union> set bs' = set as \<union> set bs \<Longrightarrow> owned t as' bs' x"
  unfolding owned_def by blast

lemma used_chain_single:
  assumes "m_pages s w = Some g" and "pg_next g = NULL" and "owned s as bs w" and "w \<notin> set ps" and "preg_ok (preg g)" and "reg_bytes (preg g) \<inter> page_space s ps = {}"
  shows "used_chain s w [w] ps as bs"
  using assms by (simp add: used_chain_def page_chain_simps owned_def)

section \<open>Taking from the list\<close>

definition alloc_flag :: "u8 \<Rightarrow> u8" where
  "alloc_flag flags = (if flags AND FLAG_RESERVED \<noteq> 0 then KMALLOC_RESERVED else 0) OR KMALLOC_NOLOCK"

lemma alloc_flag_nolock: "alloc_flag flags AND KMALLOC_NOLOCK \<noteq> 0"
  by (simp add: alloc_flag_def flag_defs)

lemma page_alloc_split:
  assumes fp: "free_pages s (a # ps) as bs" and f: "m_pages s a = Some f" and c: "c \<noteq> 0" "c < consecutive f"
    and nl: "flags AND FLAG_NOLOCK \<noteq> 0" and can: "kmem_can sizeof_Page (alloc_flag flags) s as"
  shows "\<exists>r w as' bs'. page_alloc (Suc (Suc (Suc k))) flags c s = Inr r \<and> allocated (unat c) s (a # ps) as bs r [w] (a # ps) as' bs'"
proof -
  have inv: "kmem_inv s as bs" and rep: "pages_rep s (page_free_head s) (a # ps)" and own: "\<forall>x \<in> set (a # ps). owned s as bs x" using fp by (simp_all add: free_pages_def)
  have "page_chain s (page_free_head s) (a # ps)" using rep by (simp add: pages_rep_def)
  then have hd: "page_free_head s = a" "a \<noteq> NULL" by (simp_all add: page_chain_simps)
  have an: "a \<notin> set ps" using pages_rep_at(7) [of s "page_free_head s" "[]" a ps f] rep f by simp
  from kmalloc_fits_frame [OF inv _ _ can alloc_flag_nolock, of k] obtain w s1 where
    w: "kmalloc (Suc (Suc k)) sizeof_Page (alloc_flag flags) s = Inr (w, s1)" "took (kmem_round sizeof_Page) s as bs w s1" "heap_frame s s1" by (auto simp del: kmalloc.simps)
  from w(2) obtain as' bs' hr where tk: "w \<noteq> NULL" "kmem_inv s1 as' bs'" "set as' \<union> set bs' = set as \<union> set bs" "length bs \<le> length bs'" "w \<notin> set as \<union> set bs"
    "live s1 (w - 8) hr" "m_mutex s1 = m_mutex s" unfolding took_def by blast
  note fr = took_fresh [OF inv w(2)]
  have wn: "w \<notin> set (a # ps)" using free_pages_not_live [OF fp] fr(1) by blast
  have fm: "m_pages s1 = m_pages s" "page_free_head s1 = a" using w(3) hd by (simp_all add: heap_frame_def)
  let ?g = "\<lparr>page_id = page_id_counter s1, mem_base = mem_base f, pg_flags = flags, consecutive = c, pg_next = NULL\<rparr>"
  let ?f = "f\<lparr>mem_base := mem_base f + c * PAGE_SIZE, consecutive := consecutive f - c\<rparr>"
  define t where "t = s1\<lparr>m_pages := (m_pages s)(w \<mapsto> ?g, a \<mapsto> ?f), page_id_counter := page_id_counter s1 + 1\<rparr>"
  have tm: "m_pages t a = Some ?f" "m_pages t w = Some ?g" "\<forall>x \<in> set ps. m_pages t x = m_pages s x" "page_free_head t = a" "m_mutex t = m_mutex s \<and> allocation_pointer t = allocation_pointer s"
    using wn hd an tk(7) fm w(3) by (auto simp: t_def heap_frame_def)
  have eq: "page_alloc (Suc (Suc (Suc k))) flags c s = Inr (w, t)"
    using c nl hd f w(1) fm wn by (simp del: kmalloc.simps add: enter_if_def leave_if_def alloc_flag_def [symmetric] Let_def wr_page_def t_def fun_upd_twist)
  have c0: "0 < c" using c(1) by (simp add: word_neq_0_conv)
  note sh = pages_rep_shrink [OF rep f c0 c(2) tm(1,3,2), simplified]
  have lv: "live t h x = live s1 h x" for h x by (simp add: t_def)
  have ow: "owned t as' bs' x" if "x \<in> set (a # ps)" for x
    using owned_more [of s as bs x t as' bs'] own that fr(2) tk(3) lv by blast
  then have "free_pages t (a # ps) as' bs'" using tk(2) sh(1) tm(4) hd by (auto simp: free_pages_def t_def)
  moreover have "used_chain t w [w] (a # ps) as' bs'"
    by (rule used_chain_single [OF tm(2)]) (use tk sh(2,3) wn in \<open>auto simp: owned_def lv\<close>)
  moreover have "page_space t (a # ps) \<union> page_space t [w] = page_space s (a # ps)" using sh(4) tm(2) by simp
  moreover have "m_pages t x = m_pages s x" if "\<not> available s (a # ps) x" for x using that fr(1) by (auto simp: available_def t_def)
  moreover have "available s (a # ps) w" using fr(1) by (simp add: available_def)
  ultimately have "allocated (unat c) s (a # ps) as bs (w, t) [w] (a # ps) as' bs'"
    using tm tk(3,4) fr(2) lv by (simp add: allocated_def) (simp add: available_def)
  with eq show ?thesis by blast
qed

text \<open>Taking the whole first chunk.\<close>

definition take_head :: "u8 \<Rightarrow> u32 \<Rightarrow> page \<Rightarrow> mem \<Rightarrow> mem" where
  "take_head flags a f s = (wr_page a (f\<lparr>pg_flags := flags, pg_next := NULL\<rparr>) s)\<lparr>page_free_head := pg_next f\<rparr>"

lemma page_take_head:
  fixes flags :: u8
  assumes fp: "free_pages s (a # ps) as bs" and f: "m_pages s a = Some f"
  defines "t \<equiv> take_head flags a f s"
  shows "free_pages t ps as bs" and "page_space t ps = page_space s ps" and "pages_in t ps = pages_in s ps" and "owned t as bs a" and "a \<notin> set ps"
    and "preg_ok (preg f)" and "reg_bytes (preg f) \<inter> page_space t ps = {}" and "page_free_head s = a" and "a \<noteq> NULL"
    and "m_pages t = (m_pages s)(a \<mapsto> f\<lparr>pg_flags := flags, pg_next := NULL\<rparr>)" and "live t = live s" and "m_mutex t = m_mutex s"
    and "kmem_can sz fl t as = kmem_can sz fl s as"
proof -
  have rep: "pages_rep s (page_free_head s) ([] @ a # ps)" using fp by (simp add: free_pages_def)
  note pa = pages_rep_at [OF rep f]
  show a: "a \<notin> set ps" "preg_ok (preg f)" "a \<noteq> NULL" using pa by auto
  show "page_free_head s = a" using rep by (simp add: pages_rep_def page_chain_simps)
  show tm: "m_pages t = (m_pages s)(a \<mapsto> f\<lparr>pg_flags := flags, pg_next := NULL\<rparr>)" by (simp add: t_def take_head_def)
  show lv: "live t = live s" by (intro ext) (simp add: live_def t_def take_head_def wr_page_def)
  show "m_mutex t = m_mutex s" by (simp add: t_def take_head_def wr_page_def)
  show "kmem_can sz fl t as = kmem_can sz fl s as" by (simp add: kmem_can_def kmem_too_full_def fits_def t_def take_head_def wr_page_def)
  have "\<forall>x \<in> set ps. m_pages t x = m_pages s x" using a(1) tm by auto
  note ag = pages_agree [OF this]
  show sp: "page_space t ps = page_space s ps" "pages_in t ps = pages_in s ps" by (rule ag)+
  have o: "owned t as bs x = owned s as bs x" for x by (simp add: owned_def lv)
  show "owned t as bs a" using fp by (simp add: o free_pages_def)
  have "pages_rep t (pg_next f) ps" using rep pa(2) by (simp add: ag pages_rep_def)
  then show "free_pages t ps as bs" using fp by (simp add: free_pages_def o) (simp add: t_def take_head_def wr_page_def)
  have "reg_bytes (preg f) \<inter> reg_bytes r = {}" if "r \<in> set (pregs s ps)" for r
    using pa(5) that by (fastforce simp: reg_bytes_def before_def)
  then show "reg_bytes (preg f) \<inter> page_space t ps = {}" unfolding sp by (auto simp: page_space_def)
qed

text \<open>Putting the taken chunk in front of the chain that the recursive call returns.\<close>

lemma allocated_Cons:
  fixes flags :: u8
  assumes fp: "free_pages s (a # ps) as bs" and f: "m_pages s a = Some f"
  defines "t \<equiv> take_head flags a f s"
  assumes al: "allocated n t ps as bs (rest, s5) qs ps' as' bs'"
  shows "m_pages s5 a = Some (f\<lparr>pg_flags := flags, pg_next := NULL\<rparr>)"
    and "allocated (unat (consecutive f) + n) s (a # ps) as bs (a, wr_page a (f\<lparr>pg_flags := flags, pg_next := rest\<rparr>) s5) (a # qs) ps' as' bs'"
proof -
  have tk: "owned t as bs a" "a \<notin> set ps" "m_pages t = (m_pages s)(a \<mapsto> f\<lparr>pg_flags := flags, pg_next := NULL\<rparr>)" "reg_bytes (preg f) \<inter> page_space t ps = {}"
    "preg_ok (preg f)" "a \<noteq> NULL" "page_space t ps = page_space s ps" "live t = live s" "m_mutex t = m_mutex s" unfolding t_def by (rule page_take_head [OF fp f])+
  have r: "free_pages s5 ps' as' bs'" "used_chain s5 rest qs ps' as' bs'" "page_space s5 ps' \<union> page_space s5 qs = page_space t ps" "pages_in s5 qs = n \<and> length qs \<le> length ps"
    "\<forall>x. \<not> available t ps x \<longrightarrow> m_pages s5 x = m_pages t x" "\<forall>h hr. live t h hr \<longrightarrow> live s5 h hr" "\<forall>x \<in> set ps' \<union> set qs. available t ps x"
    "set as' \<union> set bs' = set as \<union> set bs" "length bs \<le> length bs'" "m_mutex s5 = m_mutex t \<and> allocation_pointer s5 = allocation_pointer t" using al by (simp_all add: allocated_def)
  have na: "\<not> available t ps a" using tk(1,2) by (auto simp: available_def owned_def)
  then have an: "a \<notin> set ps'" "a \<notin> set qs" using r(7) by auto
  show m5: "m_pages s5 a = Some (f\<lparr>pg_flags := flags, pg_next := NULL\<rparr>)" using r(5) na tk(3) by simp
  let ?g = "f\<lparr>pg_flags := flags, pg_next := rest\<rparr>" let ?u = "wr_page a ?g s5"
  have lu: "live ?u h x = live s5 h x" for h x by (simp add: live_def wr_page_def)
  have o: "owned ?u as' bs' x = owned s5 as' bs' x" for x by (simp add: owned_def lu)
  have "\<forall>x \<in> set ps'. m_pages ?u x = m_pages s5 x" "\<forall>x \<in> set qs. m_pages ?u x = m_pages s5 x" using an by auto
  note agp = pages_agree [OF this(1)] and agq = pages_agree [OF this(2)]
  have k: "kmem_inv ?u as' bs' = kmem_inv s5 as' bs'" by (simp add: wr_page_def)
  have pg: "preg ?g = preg f" by (simp add: preg_def)
  have "free_pages ?u ps' as' bs'" using r(1) by (simp add: free_pages_def agp o k) (simp add: wr_page_def)
  moreover have dis: "reg_bytes (preg f) \<inter> (page_space s5 ps' \<union> page_space s5 qs) = {}" using tk(4) r(3) by simp
  moreover have "owned s5 as' bs' a" using owned_more [OF tk(1)] r(6,8) by blast
  then have "used_chain ?u a (a # qs) ps' as' bs'" using r(2) dis an tk(5,6)
    by (auto simp: used_chain_def page_chain_simps agp agq o pg page_space_def)
  moreover have "page_space ?u ps' \<union> page_space ?u (a # qs) = page_space s (a # ps)" using r(3) tk(7) f by (auto simp: agp agq pg)
  moreover have "available s (a # ps) x" if "available t ps x" for x using that tk(8) by (auto simp: available_def)
  moreover have "m_pages ?u x = m_pages s x" if "\<not> available s (a # ps) x" for x
  proof -
    have "\<not> available t ps x" "x \<noteq> a" using that tk(8) by (auto simp: available_def)
    then show ?thesis using r(5) tk(3) by simp
  qed
  moreover have "available s (a # ps) a" by (simp add: available_def)
  moreover have "m_mutex ?u = m_mutex s \<and> allocation_pointer ?u = allocation_pointer s" using r(10) tk(9) by (simp add: wr_page_def t_def take_head_def)
  ultimately show "allocated (unat (consecutive f) + n) s (a # ps) as bs (a, ?u) (a # qs) ps' as' bs'"
    using r(4,6,7,8,9) tk(8) by (simp add: allocated_def agq lu)
qed

lemma allocated_head:
  assumes fp: "free_pages s (a # ps) as bs" and f: "m_pages s a = Some f"
  shows "allocated (unat (consecutive f)) s (a # ps) as bs (a, take_head flags a f s) [a] ps as bs"
proof -
  let ?t = "take_head flags a f s"
  have tk: "free_pages ?t ps as bs" "owned ?t as bs a" "a \<notin> set ps" "m_pages ?t = (m_pages s)(a \<mapsto> f\<lparr>pg_flags := flags, pg_next := NULL\<rparr>)"
    "reg_bytes (preg f) \<inter> page_space ?t ps = {}" "preg_ok (preg f)" "page_space ?t ps = page_space s ps" "live ?t = live s" "m_mutex ?t = m_mutex s"
    by (rule page_take_head [OF fp f])+
  have "allocated 0 ?t ps as bs (NULL, ?t) [] ps as bs" using tk(1) by (simp add: allocated_def used_chain_def page_chain_simps available_def)
  from allocated_Cons(2) [OF fp f this] have "allocated (unat (consecutive f)) s (a # ps) as bs (a, wr_page a (f\<lparr>pg_flags := flags, pg_next := NULL\<rparr>) ?t) [a] ps as bs" by simp
  moreover have "wr_page a (f\<lparr>pg_flags := flags, pg_next := NULL\<rparr>) ?t = ?t" using tk(4) by (simp add: wr_page_def fun_upd_idem)
  ultimately show ?thesis by simp
qed

lemma page_alloc_list:
  assumes "free_pages s ps as bs" and "flags AND FLAG_NOLOCK \<noteq> 0" and "c \<noteq> 0" and "unat c \<le> pages_in s ps"
    and "kmem_can sizeof_Page (alloc_flag flags) s as" and "length ps + 2 \<le> k"
  shows "\<exists>r qs ps' as' bs'. page_alloc k flags c s = Inr r \<and> allocated (unat c) s ps as bs r qs ps' as' bs'"
  using assms
proof (induction ps arbitrary: s c k)
  case Nil
  then show ?case by (simp add: unat_eq_0)
next
  case (Cons a ps)
  note nl = Cons.prems(2)
  from Cons.prems(1) obtain f where f: "m_pages s a = Some f" by (auto simp: free_pages_def pages_rep_def page_chain_simps)
  note hd = page_take_head(8,9) [OF Cons.prems(1) f]
  from Cons.prems(6) obtain j where k: "k = Suc (Suc (Suc j))" by (metis add_2_eq_Suc' Suc_le_D Suc_le_mono length_Cons add_Suc)
  let ?t = "take_head flags a f s"
  consider "c < consecutive f" | "c = consecutive f" | "consecutive f < c" by (rule linorder_cases)
  then show ?case
  proof cases
    case 1
    from page_alloc_split [OF Cons.prems(1) f Cons.prems(3) 1 nl Cons.prems(5), of j] k show ?thesis by blast
  next
    case 2
    have "page_alloc k flags c s = Inr (a, ?t)"
      using Cons.prems(3) nl hd f 2 by (simp del: kmalloc.simps add: k enter_if_def leave_if_def Let_def take_head_def wr_page_def)
    with allocated_head [OF Cons.prems(1) f] 2 show ?thesis by blast
  next
    case 3
    have u: "unat (c - consecutive f) = unat c - unat (consecutive f)" using 3 by (simp add: unat_sub word_le_nat_alt word_less_nat_alt)
    have d: "c - consecutive f \<noteq> 0" and nc: "\<not> c < consecutive f" using 3 by auto
    have "free_pages ?t ps as bs" "unat (c - consecutive f) \<le> pages_in ?t ps" "kmem_can sizeof_Page (alloc_flag flags) ?t as" "length ps + 2 \<le> Suc (Suc j)"
      using page_take_head(1,3,13) [OF Cons.prems(1) f] Cons.prems(4-6) f u k by simp_all
    from Cons.IH [OF this(1) nl d this(2-4)] obtain rest s5 qs ps' as' bs' where
      al: "page_alloc (Suc (Suc j)) flags (c - consecutive f) ?t = Inr (rest, s5)" "allocated (unat (c - consecutive f)) ?t ps as bs (rest, s5) qs ps' as' bs'" by auto
    note ac = allocated_Cons [OF Cons.prems(1) f al(2)]
    have ta: "m_pages ?t a = Some (f\<lparr>pg_flags := flags, pg_next := NULL\<rparr>)" by (simp add: take_head_def)
    have "page_alloc k flags c s = Inr (a, wr_page a (f\<lparr>pg_flags := flags, pg_next := rest\<rparr>) s5)"
      using Cons.prems(3) nl hd f 3 nc al(1) ac(1) ta
      by (subst k, subst page_alloc.simps) (simp del: kmalloc.simps page_alloc.simps add: enter_if_def leave_if_def Let_def take_head_def [symmetric])
    moreover have "unat (consecutive f) + unat (c - consecutive f) = unat c" using u 3 by (simp add: word_less_nat_alt)
    ultimately show ?thesis using ac(2) by metis
  qed
qed

section \<open>Properties\<close>



text \<open>C40: An allocation that takes the mutex itself and finds a first free chunk that is too small waits for itself: the recursive call for the
  rest of the pages takes the mutex again.\<close>

theorem page_alloc_waits_for_itself:
  assumes "flags AND FLAG_NOLOCK = 0" and "\<not> m_mutex s" and "page_free_head s = a" and "a \<noteq> NULL" and "m_pages s a = Some f" and "consecutive f < c"
  shows "page_alloc (Suc (Suc k)) flags c s = Inl Hang"
proof -
  have c: "c \<noteq> 0" "c - consecutive f \<noteq> 0" "\<not> c < consecutive f" using assms(6) by auto
  have inner: "page_alloc (Suc k) flags (c - consecutive f) t = Inl Hang" if "m_mutex t" for t
    using that c(2) assms(1) by (simp add: enter_if_def mem_lock_def Let_def)
  let ?s = "s\<lparr>m_mutex := True, m_eflags := snd (push_cli (m_eflags s))\<rparr>"
  have e: "enter_if True s = Inr (fst (push_cli (m_eflags s)), ?s)" using assms(2) by (simp add: enter_if_def mem_lock_def)
  have "page_alloc (Suc k) flags (c - consecutive f) ((wr_page a (f\<lparr>pg_flags := flags, pg_next := NULL\<rparr>) ?s)\<lparr>page_free_head := pg_next f\<rparr>) = Inl Hang"
    by (rule inner) (simp add: wr_page_def)
  then show ?thesis using assms c e by (subst page_alloc.simps) (simp del: page_alloc.simps kmalloc.simps add: Let_def)
qed

text \<open>A list with one chunk of four pages.\<close>

definition pages_example_one :: mem where
  "pages_example_one = pages_example\<lparr>m_pages := [0xC1000080 \<mapsto> \<lparr>page_id = 1, mem_base = 0x400000, pg_flags = 0, consecutive = 4, pg_next = NULL\<rparr>]\<rparr>"

lemma pages_example_one_free: "free_pages pages_example_one [0xC1000080] [0xC1000024] [0xC1000038, 0xC1000050]"
proof -
  have "kmem_inv pages_example_one [0xC1000024] [0xC1000038, 0xC1000050]" using pages_example_inv by (simp add: pages_example_one_def)
  moreover have "pages_rep pages_example_one (page_free_head pages_example_one) [0xC1000080]"
    by (simp add: pages_rep_def page_chain_simps pages_example_one_def pages_example_def preg_def preg_ok_def)
  moreover have "live pages_example_one = live pages_example" by (intro ext) (simp add: pages_example_one_def)
  ultimately show ?thesis by (simp add: free_pages_def owned_def pages_example_live)
qed

lemma pages_example_one_facts:
  "kmem_can sizeof_Page (alloc_flag (FLAG_RESERVED OR FLAG_NOLOCK)) pages_example_one [0xC1000024]" "(FLAG_RESERVED OR FLAG_NOLOCK) AND FLAG_NOLOCK \<noteq> 0"
  "pages_in pages_example_one [0xC1000080] = 4" "\<not> m_mutex pages_example_one" "page_space pages_example_one [0xC1000080] = {0x400000 ..< 0x404000}"
  by (simp_all add: kmem_can_def fits_def pages_example_one_def pages_example_def kmem_example_def kmem_round_def alloc_flag_def flag_defs
      FLAG_RESERVED_def FLAG_NOLOCK_def preg_def reg_bytes_def)



theorem page_alloc_waits_for_itself_witness: "page_alloc 2 0 3 pages_example = Inl Hang"
proof -
  have f: "m_pages pages_example 0xC1000080 = Some \<lparr>page_id = 1, mem_base = 0x400000, pg_flags = 0, consecutive = 2, pg_next = 0xC10000A0\<rparr>"
    by (simp add: pages_example_def)
  have "page_alloc (Suc (Suc 0)) 0 3 pages_example = Inl Hang"
    by (rule page_alloc_waits_for_itself [OF _ _ _ _ f]) (simp_all add: pages_example_def kmem_example_def)
  then show ?thesis by (simp only: numeral_2_eq_2)
qed

end
