(* ===== verification/PhysMem.thy ===== *)
theory PhysMem
  imports PageAlloc KmemExt
begin

text \<open>
  The physical memory as a state machine: clients of \<open>src/mem/page.cpp\<close> and \<open>src/mem/kmem.cpp\<close> take and give back chains of pages and
  blocks of the heap in any order. A state is the memory and the chains in use; \<open>T\<close> is the memory that \<open>page::alloc\<close> has taken under
  management so far, which grows when the free list is empty and the next pages of the current region are used.
\<close>

section \<open>The invariant\<close>

type_synonym chains = "(u32 \<times> u32 list) list"

definition chains_apart :: "mem \<Rightarrow> chains \<Rightarrow> bool" where
  "chains_apart s cs \<longleftrightarrow> sorted_wrt (\<lambda>c d. set (snd c) \<inter> set (snd d) = {} \<and> page_space s (snd c) \<inter> page_space s (snd d) = {}) cs"

definition chains_space :: "mem \<Rightarrow> chains \<Rightarrow> nat set" where
  "chains_space s cs = (\<Union>c \<in> set cs. page_space s (snd c))"

definition phys_rep :: "nat set \<Rightarrow> mem \<Rightarrow> chains \<Rightarrow> u32 list \<Rightarrow> u32 list \<Rightarrow> u32 list \<Rightarrow> bool" where
  "phys_rep T s cs ps as bs \<longleftrightarrow> free_pages s ps as bs \<and> (\<forall>c \<in> set cs. used_chain s (fst c) (snd c) ps as bs) \<and> chains_apart s cs \<and>
     page_space s ps \<union> chains_space s cs = T \<and> T \<subseteq> {..< unat (allocation_pointer s)}"

definition phys_inv :: "nat set \<Rightarrow> mem \<Rightarrow> chains \<Rightarrow> bool" where
  "phys_inv T s cs \<longleftrightarrow> (\<exists>ps as bs. phys_rep T s cs ps as bs)"

text \<open>Chains whose structures an operation leaves alone.\<close>

lemma chains_agree:
  assumes "\<forall>c \<in> set cs. \<forall>x \<in> set (snd c). m_pages t x = m_pages s x"
  shows "chains_apart t cs = chains_apart s cs" and "chains_space t cs = chains_space s cs"
proof -
  have sp: "page_space t (snd c) = page_space s (snd c)" if "c \<in> set cs" for c using assms that by (intro pages_agree) blast
  then show "chains_space t cs = chains_space s cs" by (simp add: chains_space_def)
  show "chains_apart t cs = chains_apart s cs" unfolding chains_apart_def using sp by (induction cs) auto
qed

lemma used_chain_kept:
  assumes "used_chain s p qs ps as bs" and "\<forall>x \<in> set qs. m_pages t x = m_pages s x" and "\<forall>x \<in> set qs. owned t as' bs' x"
    and "set qs \<inter> set ps' = {}" and "page_space s qs \<inter> page_space t ps' = {}"
  shows "used_chain t p qs ps' as' bs'"
  using assms pages_agree [OF assms(2)] by (simp add: used_chain_def)

lemma chains_disjoint:
  assumes "phys_rep T s cs ps as bs" and "c \<in> set cs"
  shows "set (snd c) \<inter> set ps = {}" and "page_space s (snd c) \<inter> page_space s ps = {}" and "x \<in> set (snd c) \<Longrightarrow> owned s as bs x"
  using assms by (auto simp: phys_rep_def used_chain_def)

text \<open>The free list and the structures are unique.\<close>

lemma free_pages_unique:
  assumes "free_pages s ps as bs" and "free_pages s ps' as' bs'"
  shows "ps' = ps" and "as' = as" and "bs' = bs"
proof -
  have l: "linked (pg_nx s) (page_free_head s) ps" "linked (fr_nx s) (free_list s) as" "linked (fr_nx s) (free_free_structs s) bs"
    using assms(1) by (simp_all add: free_pages_def pages_rep_def page_chain_def kmem_inv_def kmem_rep_def)
  have l': "linked (pg_nx s) (page_free_head s) ps'" "linked (fr_nx s) (free_list s) as'" "linked (fr_nx s) (free_free_structs s) bs'"
    using assms(2) by (simp_all add: free_pages_def pages_rep_def page_chain_def kmem_inv_def kmem_rep_def)
  show "ps' = ps" "as' = as" "bs' = bs" using linked_functional [OF l'(1) l(1)] linked_functional [OF l'(2) l(2)] linked_functional [OF l'(3) l(3)] by simp_all
qed

text \<open>What an operation has to leave alone, so that the chains \<open>cs\<close> stay in use.\<close>

lemma chains_kept:
  assumes rep: "phys_rep T s ds ps as bs" and cs: "set cs \<subseteq> set ds"
    and x: "\<forall>c \<in> set cs. \<forall>x \<in> set (snd c). m_pages s' x = m_pages s x \<and> owned s' as' bs' x \<and> x \<notin> set ps'"
    and sp: "\<forall>c \<in> set cs. page_space s (snd c) \<inter> page_space s' ps' = {}"
  shows "\<forall>c \<in> set cs. used_chain s' (fst c) (snd c) ps' as' bs'" and "chains_space s' cs = chains_space s cs"
    and "chains_apart s cs \<Longrightarrow> chains_apart s' cs"
proof -
  have m: "\<forall>c \<in> set cs. \<forall>x \<in> set (snd c). m_pages s' x = m_pages s x" using x by blast
  show "chains_space s' cs = chains_space s cs" "chains_apart s cs \<Longrightarrow> chains_apart s' cs" using chains_agree [OF m] by simp_all
  show "\<forall>c \<in> set cs. used_chain s' (fst c) (snd c) ps' as' bs'"
  proof
    fix c assume c: "c \<in> set cs"
    have "used_chain s (fst c) (snd c) ps as bs" using rep c cs by (auto simp: phys_rep_def)
    then show "used_chain s' (fst c) (snd c) ps' as' bs'" by (rule used_chain_kept) (use x sp c in auto)
  qed
qed

section \<open>Each operation keeps it\<close>

lemma phys_alloc_list:
  assumes rep: "phys_rep T s cs ps as bs" and al: "allocated n s ps as bs (p, s') qs ps' as' bs'"
  shows "phys_rep T s' ((p, qs) # cs) ps' as' bs'"
proof -
  have r: "free_pages s' ps' as' bs'" "used_chain s' p qs ps' as' bs'" "page_space s' ps' \<union> page_space s' qs = page_space s ps"
    "\<forall>x. \<not> available s ps x \<longrightarrow> m_pages s' x = m_pages s x" "\<forall>h hr. live s h hr \<longrightarrow> live s' h hr" "\<forall>x \<in> set ps' \<union> set qs. available s ps x"
    "set as' \<union> set bs' = set as \<union> set bs" "allocation_pointer s' = allocation_pointer s" using al by (simp_all add: allocated_def)
  have na: "\<not> available s ps x" if "c \<in> set cs" "x \<in> set (snd c)" for c x
    using chains_disjoint(1,3) [OF rep that(1)] that(2) by (auto simp: available_def owned_def)
  have sub: "page_space s (snd c) \<inter> page_space s ps = {}" if "c \<in> set cs" for c by (rule chains_disjoint(2) [OF rep that])
  have kept: "m_pages s' x = m_pages s x \<and> owned s' as' bs' x \<and> x \<notin> set ps'" if c: "c \<in> set cs" "x \<in> set (snd c)" for c x
    using na [OF c] r(4,6) owned_more [OF chains_disjoint(3) [OF rep c] r(5,7)] by blast
  have ap: "page_space s (snd c) \<inter> page_space s' ps' = {}" if "c \<in> set cs" for c using sub [OF that] r(3) by blast
  have "\<forall>c \<in> set cs. \<forall>x \<in> set (snd c). m_pages s' x = m_pages s x \<and> owned s' as' bs' x \<and> x \<notin> set ps'"
    "\<forall>c \<in> set cs. page_space s (snd c) \<inter> page_space s' ps' = {}" using kept ap by blast+
  note ch = chains_kept [OF rep subset_refl this]
  have apart: "chains_apart s cs" using rep by (simp add: phys_rep_def)
  have "set qs \<inter> set (snd c) = {}" "page_space s' qs \<inter> page_space s' (snd c) = {}" if c: "c \<in> set cs" for c
  proof -
    show "set qs \<inter> set (snd c) = {}" using na [OF c] r(6) by blast
    have "page_space s' (snd c) = page_space s (snd c)" using kept [OF c] by (intro pages_agree) blast
    then show "page_space s' qs \<inter> page_space s' (snd c) = {}" using sub [OF c] r(3) by blast
  qed
  then have "chains_apart s' ((p, qs) # cs)" using ch(3) [OF apart] by (simp add: chains_apart_def)
  moreover have "page_space s' ps' \<union> chains_space s' ((p, qs) # cs) = T" using rep ch(2) r(3) by (auto simp: phys_rep_def chains_space_def)
  ultimately show ?thesis using r(1,2,8) ch(1) rep by (simp add: phys_rep_def)
qed

lemma phys_free:
  assumes rep: "phys_rep T s (us @ (p, qs) # vs) ps as bs" and m: "\<not> m_mutex s" and len: "2 * length qs \<le> length bs"
  shows "\<exists>s' ps' as' bs'. page_free k p s = Some (Inr s') \<and> phys_rep T s' (us @ vs) ps' as' bs' \<and> \<not> m_mutex s'"
proof -
  have fp: "free_pages s ps as bs" "used_chain s p qs ps as bs" using rep by (simp_all add: phys_rep_def)
  from page_free_chain [OF fp(1) m fp(2) len, of k] obtain s' ps' as' bs' where
    r: "page_free k p s = Some (Inr s')" "free_pages s' ps' as' bs'" "page_space s' ps' = page_space s ps \<union> page_space s qs"
      "\<not> m_mutex s'" "set ps' \<subseteq> set qs \<union> set ps" "keeps (set qs \<union> set ps) s s'" "set as' \<union> set bs' = set as \<union> set bs" by blast
  have apart: "chains_apart s (us @ (p, qs) # vs)" using rep by (simp add: phys_rep_def)
  have oth: "set (snd c) \<inter> set qs = {}" "page_space s (snd c) \<inter> page_space s qs = {}" if "c \<in> set (us @ vs)" for c
    using apart that by (auto simp: chains_apart_def sorted_wrt_append)
  have sub: "c \<in> set (us @ (p, qs) # vs)" if "c \<in> set (us @ vs)" for c using that by auto
  have kept: "m_pages s' x = m_pages s x \<and> owned s' as' bs' x \<and> x \<notin> set ps'" if c: "c \<in> set (us @ vs)" "x \<in> set (snd c)" for c x
  proof -
    have "x \<notin> set qs \<union> set ps" using oth(1) [OF c(1)] chains_disjoint(1) [OF rep sub [OF c(1)]] c(2) by blast
    then show ?thesis using r(5,6) owned_keeps [OF chains_disjoint(3) [OF rep sub [OF c(1)] c(2)] r(6) _ r(7)] by (auto simp: keeps_def)
  qed
  have ap: "page_space s (snd c) \<inter> page_space s' ps' = {}" if c: "c \<in> set (us @ vs)" for c
    using oth(2) [OF c] chains_disjoint(2) [OF rep sub [OF c]] r(3) by blast
  have ss: "set (us @ vs) \<subseteq> set (us @ (p, qs) # vs)" by auto
  have "\<forall>c \<in> set (us @ vs). \<forall>x \<in> set (snd c). m_pages s' x = m_pages s x \<and> owned s' as' bs' x \<and> x \<notin> set ps'"
    "\<forall>c \<in> set (us @ vs). page_space s (snd c) \<inter> page_space s' ps' = {}" using kept ap by blast+
  note ch = chains_kept [OF rep ss this]
  have "chains_apart s (us @ vs)" using apart by (auto simp: chains_apart_def sorted_wrt_append)
  from ch(3) [OF this] have "chains_apart s' (us @ vs)" .
  moreover have "page_space s' ps' \<union> chains_space s' (us @ vs) = T" using rep ch(2) r(3) by (auto simp: phys_rep_def chains_space_def)
  moreover have "allocation_pointer s' = allocation_pointer s" using r(6) by (simp add: keeps_def)
  ultimately have "phys_rep T s' (us @ vs) ps' as' bs'" using r(2) ch(1) rep by (simp add: phys_rep_def)
  with r(1,4) show ?thesis by blast
qed

text \<open>Operations on the heap alone.\<close>

definition structs :: "chains \<Rightarrow> u32 list \<Rightarrow> u32 set" where
  "structs cs ps = set ps \<union> (\<Union>c \<in> set cs. set (snd c))"

lemma phys_heap:
  assumes rep: "phys_rep T s cs ps as bs" and inv: "kmem_inv s' as' bs'" and fr: "heap_frame s s'"
    and own: "\<forall>x \<in> structs cs ps. owned s' as' bs' x"
  shows "phys_rep T s' cs ps as' bs'"
proof -
  have m: "m_pages s' = m_pages s" "page_free_head s' = page_free_head s" "allocation_pointer s' = allocation_pointer s" using fr by (simp_all add: heap_frame_def)
  have "\<forall>x \<in> set ps. m_pages s' x = m_pages s x" using m(1) by simp
  note ag = pages_agree [OF this]
  have own': "owned s' as' bs' x" if "x \<in> set ps \<or> (\<exists>c \<in> set cs. x \<in> set (snd c))" for x using own that unfolding structs_def by blast
  have "pages_rep s (page_free_head s) ps" using rep by (simp add: phys_rep_def free_pages_def)
  then have fp: "free_pages s' ps as' bs'" using inv own' by (simp add: free_pages_def m(2) ag(5))
  have kept: "\<forall>c \<in> set cs. \<forall>x \<in> set (snd c). m_pages s' x = m_pages s x \<and> owned s' as' bs' x \<and> x \<notin> set ps"
  proof (intro ballI conjI)
    fix c x assume c: "c \<in> set cs" "x \<in> set (snd c)"
    show "m_pages s' x = m_pages s x" by (simp add: m(1))
    show "owned s' as' bs' x" using own' c by blast
    show "x \<notin> set ps" using chains_disjoint(1) [OF rep c(1)] c(2) by blast
  qed
  have dis: "\<forall>c \<in> set cs. page_space s (snd c) \<inter> page_space s' ps = {}" unfolding ag(2) using chains_disjoint(2) [OF rep] by blast
  from chains_kept [OF rep subset_refl kept dis] fp show ?thesis using rep by (simp add: phys_rep_def ag(2) m(3))
qed

lemma phys_owned: "phys_rep T s cs ps as bs \<Longrightarrow> x \<in> structs cs ps \<Longrightarrow> owned s as bs x"
proof -
  assume rep: "phys_rep T s cs ps as bs" and "x \<in> structs cs ps"
  then consider "x \<in> set ps" | c where "c \<in> set cs" "x \<in> set (snd c)" by (auto simp: structs_def)
  then show "owned s as bs x"
  proof cases
    case 1
    then show ?thesis using rep by (simp add: phys_rep_def free_pages_def)
  next
    case (2 c)
    then show ?thesis by (rule chains_disjoint(3) [OF rep])
  qed
qed

lemma phys_kmalloc:
  assumes rep: "phys_rep T s cs ps as bs" and sz: "sz \<noteq> 0" "unat sz + 32 \<le> 2 ^ 32" and can: "kmem_can sz flags s as" and nl: "flags AND KMALLOC_NOLOCK \<noteq> 0"
  shows "\<exists>ptr s' as' bs'. kmalloc (Suc (Suc k)) sz flags s = Inr (ptr, s') \<and> phys_rep T s' cs ps as' bs' \<and> owned s' as' bs' ptr \<and> ptr \<notin> structs cs ps \<and>
    heap_frame s s' \<and> m_mutex s' = m_mutex s"
proof -
  have inv: "kmem_inv s as bs" using rep by (simp add: phys_rep_def free_pages_def)
  from kmalloc_fits_frame [OF inv sz can nl, of k] obtain ptr s' where
    k: "kmalloc (Suc (Suc k)) sz flags s = Inr (ptr, s')" "took (kmem_round sz) s as bs ptr s'" "heap_frame s s'" by blast
  from k(2) obtain as' bs' hr where tk: "ptr \<noteq> NULL" "kmem_inv s' as' bs'" "set as' \<union> set bs' = set as \<union> set bs" "ptr \<notin> set as \<union> set bs" "live s' (ptr - 8) hr"
    "m_mutex s' = m_mutex s" unfolding took_def by blast
  note fr = took_fresh [OF inv k(2)]
  have lv: "\<forall>h hr. live s h hr \<longrightarrow> live s' h hr" using fr(2) by blast
  have "phys_rep T s' cs ps as' bs'"
    by (rule phys_heap [OF rep tk(2) k(3)]) (use owned_more [OF phys_owned [OF rep] lv tk(3)] in blast)
  moreover have "owned s' as' bs' ptr" using tk by (auto simp: owned_def)
  moreover have "ptr \<notin> structs cs ps" using phys_owned [OF rep, of ptr] fr(1) by (auto simp: owned_def)
  ultimately show ?thesis using k(1,3) tk(6) by blast
qed

lemma phys_kfree:
  assumes rep: "phys_rep T s cs ps as bs" and x: "owned s as bs x" "x \<notin> structs cs ps" and bs: "bs \<noteq> []"
  shows "\<exists>s' as' bs'. kfree_nolock k x s = Inr s' \<and> phys_rep T s' cs ps as' bs' \<and> m_mutex s' = m_mutex s"
proof -
  have inv: "kmem_inv s as bs" using rep by (simp add: phys_rep_def free_pages_def)
  from release [OF inv bs x(1), of k] obtain s' as' bs' where r: "kfree_nolock k x s = Inr s'" "kmem_inv s' as' bs'" "set as' \<union> set bs' = set as \<union> set bs"
    "heap_frame s s'" "m_mutex s' = m_mutex s" "keeps {x} s s'" by blast
  have "owned s' as' bs' y" if "y \<in> structs cs ps" for y
    by (rule owned_keeps [OF phys_owned [OF rep that] r(6) _ r(3)]) (use that x(2) in auto)
  then have "phys_rep T s' cs ps as' bs'" by (intro phys_heap [OF rep r(2,4)]) blast
  with r(1,5) show ?thesis by blast
qed

text \<open>Pages that were not under management before.\<close>

lemma alloc_nokmalloc_nolock:
  assumes "flags AND FLAG_NOLOCK \<noteq> 0" and "current_map s < length (mem_table s)" and "unat (allocation_pointer s) + unat (count * PAGE_SIZE) < 2 ^ 32"
    and "ucast (allocation_pointer s + count * PAGE_SIZE) < region_end (mem_table s ! current_map s)"
  shows "alloc_nokmalloc flags count s = Inr (s\<lparr>page_id_counter := page_id_counter s + 1,
      static_page := \<lparr>page_id = page_id_counter s, mem_base = allocation_pointer s, pg_flags = FLAG_ALLOCATED OR flags,
        consecutive = count * PAGE_SIZE div PAGE_SIZE, pg_next = NULL\<rparr>,
      allocation_pointer := allocation_pointer s + count * PAGE_SIZE\<rparr>)"
  using assms by (cases s) (auto simp: alloc_nokmalloc_def enter_if_def leave_if_simps Let_def not_le)

lemma nolock_set: "(flags OR FLAG_NOLOCK) AND FLAG_NOLOCK \<noteq> 0"
proof -
  have "(flags OR FLAG_NOLOCK) AND FLAG_NOLOCK = FLAG_NOLOCK" by (rule bit_word_eqI) (auto simp: bit_simps)
  then show ?thesis by (simp add: FLAG_NOLOCK_def)
qed

lemma phys_alloc_fresh:
  assumes rep: "phys_rep T s cs [] as bs" and nl: "flags AND FLAG_NOLOCK \<noteq> 0" and c: "c \<noteq> 0" and can: "kmem_can sizeof_Page (alloc_flag flags) s as"
    and room: "current_map s < length (mem_table s)" "unat (allocation_pointer s) + 4096 * unat c < 2 ^ 32"
      "ucast (allocation_pointer s + c * PAGE_SIZE) < region_end (mem_table s ! current_map s)"
  defines "new \<equiv> {unat (allocation_pointer s) ..< unat (allocation_pointer s) + 4096 * unat c}"
  shows "\<exists>p s' as' bs'. page_alloc (Suc (Suc (Suc k))) flags c s = Inr (p, s') \<and> phys_rep (T \<union> new) s' ((p, [p]) # cs) [] as' bs' \<and> new \<inter> T = {} \<and> m_mutex s' = m_mutex s"
proof -
  from phys_kmalloc [OF rep _ _ can alloc_flag_nolock, of k] obtain p s1 as' bs' where
    k: "kmalloc (Suc (Suc k)) sizeof_Page (alloc_flag flags) s = Inr (p, s1)" "phys_rep T s1 cs [] as' bs'" "owned s1 as' bs' p" "p \<notin> structs cs []"
      "heap_frame s s1" "m_mutex s1 = m_mutex s" by (auto simp del: kmalloc.simps)
  have fr: "current_map s1 = current_map s" "mem_table s1 = mem_table s" "allocation_pointer s1 = allocation_pointer s" using k(5) by (simp_all add: heap_frame_def)
  have mul: "unat (c * PAGE_SIZE) = 4096 * unat c" by (subst unat_mult_lem [THEN iffD1]) (use room(2) in simp_all)
  then have cc: "c * PAGE_SIZE div PAGE_SIZE = c" by (simp add: word_unat_eq_iff unat_div_distrib)
  let ?g = "\<lparr>page_id = page_id_counter s1, mem_base = allocation_pointer s, pg_flags = FLAG_ALLOCATED OR (flags OR FLAG_NOLOCK), consecutive = c, pg_next = NULL\<rparr>"
  define s2 where "s2 = s1\<lparr>page_id_counter := page_id_counter s1 + 1, static_page := ?g, allocation_pointer := allocation_pointer s + c * PAGE_SIZE\<rparr>"
  have a: "alloc_nokmalloc (flags OR FLAG_NOLOCK) c s1 = Inr s2"
    using alloc_nokmalloc_nolock [OF nolock_set, of s1 c flags] room mul cc by (simp add: fr s2_def)
  define s' where "s' = wr_page p ?g s2"
  have hd: "page_free_head s = NULL" using rep by (simp add: phys_rep_def free_pages_def pages_rep_def page_chain_simps)
  have m: "m_pages s' p = Some ?g" "\<And>x. x \<noteq> p \<Longrightarrow> m_pages s' x = m_pages s1 x" by (simp_all add: s'_def s2_def)
  have eq: "page_alloc (Suc (Suc (Suc k))) flags c s = Inr (p, s')"
    using c nl hd k(1) a m(1) by (simp del: kmalloc.simps add: enter_if_def leave_if_def alloc_flag_def [symmetric] Let_def s2_def s'_def)
  have ap: "unat (allocation_pointer s') = unat (allocation_pointer s) + 4096 * unat c"
    using unat_add_lt [of "allocation_pointer s" "c * PAGE_SIZE"] mul room(2) by (simp add: s'_def s2_def wr_page_def)
  have T: "T \<subseteq> {..< unat (allocation_pointer s)}" "chains_space s1 cs = T" "chains_apart s1 cs" "free_pages s1 [] as' bs'" using k(2) fr(3) by (simp_all add: phys_rep_def)
  have new: "new \<inter> T = {}" using T(1) by (auto simp: new_def)
  have g: "page_space s' [p] = new" "preg_ok (preg ?g)" using m(1) c room(2) by (simp_all add: new_def preg_def reg_bytes_def preg_ok_def unat_gt_0)
  have lv: "live s' h x = live s1 h x" for h x by (simp add: live_def s'_def s2_def wr_page_def)
  have ow: "owned s' as' bs' x = owned s1 as' bs' x" for x by (simp add: owned_def lv)
  have "kmem_inv s' as' bs'" using T(4) kmem_rep_cong [of s' s1] mem_cong [of s' s1]
    by (simp add: free_pages_def kmem_inv_def blocks_ok_def nodes_ok_def lv) (simp add: s'_def s2_def wr_page_def)
  then have fp: "free_pages s' [] as' bs'" using T(4) by (simp add: free_pages_def pages_rep_def page_chain_simps s'_def s2_def wr_page_def)
  have np: "x \<noteq> p" if "d \<in> set cs" "x \<in> set (snd d)" for d x using k(4) that by (auto simp: structs_def)
  have kept: "\<forall>d \<in> set cs. \<forall>x \<in> set (snd d). m_pages s' x = m_pages s1 x \<and> owned s' as' bs' x \<and> x \<notin> set []"
    using np m(2) chains_disjoint(3) [OF k(2)] ow by simp
  note ch = chains_kept [OF k(2) subset_refl kept, simplified]
  have "used_chain s' p [p] [] as' bs'" by (rule used_chain_single [OF m(1)]) (use k(3) ow g(2) in simp_all)
  moreover have "chains_apart s' ((p, [p]) # cs)"
  proof -
    have "p \<notin> set (snd d)" "new \<inter> page_space s' (snd d) = {}" if d: "d \<in> set cs" for d
      using np [OF d] new ch(2) T(2) d by (auto simp: chains_space_def)
    then show ?thesis using ch(3) [OF T(3)] g(1) by (auto simp: chains_apart_def)
  qed
  moreover have "chains_space s' ((p, [p]) # cs) = T \<union> new" using ch(2) T(2) g(1) by (auto simp: chains_space_def)
  moreover have "T \<union> new \<subseteq> {..< unat (allocation_pointer s')}" using T(1) ap by (auto simp: new_def)
  ultimately have "phys_rep (T \<union> new) s' ((p, [p]) # cs) [] as' bs'" using fp ch(1) by (simp add: phys_rep_def)
  moreover have "m_mutex s' = m_mutex s" using k(6) by (simp add: s'_def s2_def wr_page_def)
  ultimately show ?thesis using eq new by blast
qed

section \<open>Runs\<close>

text \<open>The steps of the clients, each a call that has what it needs: pages from the list, pages from the current region when the list is
  empty, giving a chain back, and a block of the heap taken or given back.\<close>

inductive phys_step :: "nat set \<times> mem \<times> chains \<Rightarrow> nat set \<times> mem \<times> chains \<Rightarrow> bool" where
  take: "free_pages s ps as bs \<Longrightarrow> flags AND FLAG_NOLOCK \<noteq> 0 \<Longrightarrow> c \<noteq> 0 \<Longrightarrow> unat c \<le> pages_in s ps \<Longrightarrow> kmem_can sizeof_Page (alloc_flag flags) s as \<Longrightarrow>
    length ps + 2 \<le> k \<Longrightarrow> page_alloc k flags c s = Inr (p, s') \<Longrightarrow> page_chain s' p qs \<Longrightarrow> phys_step (T, s, cs) (T, s', (p, qs) # cs)"
| fresh: "free_pages s [] as bs \<Longrightarrow> flags AND FLAG_NOLOCK \<noteq> 0 \<Longrightarrow> c \<noteq> 0 \<Longrightarrow> kmem_can sizeof_Page (alloc_flag flags) s as \<Longrightarrow>
    current_map s < length (mem_table s) \<Longrightarrow> unat (allocation_pointer s) + 4096 * unat c < 2 ^ 32 \<Longrightarrow>
    ucast (allocation_pointer s + c * PAGE_SIZE) < region_end (mem_table s ! current_map s) \<Longrightarrow> page_alloc (Suc (Suc (Suc k))) flags c s = Inr (p, s') \<Longrightarrow>
    phys_step (T, s, cs) (T \<union> {unat (allocation_pointer s) ..< unat (allocation_pointer s) + 4096 * unat c}, s', (p, [p]) # cs)"
| give: "free_pages s ps as bs \<Longrightarrow> \<not> m_mutex s \<Longrightarrow> 2 * length qs \<le> length bs \<Longrightarrow> page_free k p s = Some (Inr s') \<Longrightarrow>
    phys_step (T, s, us @ (p, qs) # vs) (T, s', us @ vs)"
| malloc: "free_pages s ps as bs \<Longrightarrow> sz \<noteq> 0 \<Longrightarrow> unat sz + 32 \<le> 2 ^ 32 \<Longrightarrow> kmem_can sz flags s as \<Longrightarrow> flags AND KMALLOC_NOLOCK \<noteq> 0 \<Longrightarrow>
    kmalloc (Suc (Suc k)) sz flags s = Inr (ptr, s') \<Longrightarrow> phys_step (T, s, cs) (T, s', cs)"
| mfree: "free_pages s ps as bs \<Longrightarrow> owned s as bs x \<Longrightarrow> x \<notin> structs cs ps \<Longrightarrow> bs \<noteq> [] \<Longrightarrow> kfree_nolock k x s = Inr s' \<Longrightarrow>
    phys_step (T, s, cs) (T, s', cs)"

lemma phys_rep_at: "phys_inv T s cs \<Longrightarrow> free_pages s ps as bs \<Longrightarrow> phys_rep T s cs ps as bs"
  using free_pages_unique by (metis phys_inv_def phys_rep_def)

lemma page_chain_functional: "page_chain s p qs \<Longrightarrow> page_chain s p rs \<Longrightarrow> rs = qs"
  unfolding page_chain_def using linked_functional by blast

lemma phys_step_inv:
  assumes "phys_step x y" and "phys_inv (fst x) (fst (snd x)) (snd (snd x))"
  shows "phys_inv (fst y) (fst (snd y)) (snd (snd y)) \<and> fst x \<subseteq> fst y"
  using assms
proof (induction rule: phys_step.induct)
  case (take s ps as bs flags c k p s' qs T cs)
  then have rep: "phys_rep T s cs ps as bs" by (simp add: phys_rep_at)
  from page_alloc_list [OF take.hyps(1-6)] take.hyps(7) obtain rs ps' as' bs' where al: "allocated (unat c) s ps as bs (p, s') rs ps' as' bs'" by auto
  then have "page_chain s' p rs" by (simp add: allocated_def used_chain_def)
  with take.hyps(8) have "rs = qs" by (rule page_chain_functional)
  with phys_alloc_list [OF rep al] show ?case by (auto simp: phys_inv_def)
next
  case (fresh s as bs flags c k p s' T cs)
  then have rep: "phys_rep T s cs [] as bs" by (simp add: phys_rep_at)
  from phys_alloc_fresh [OF rep fresh.hyps(2-7), of k] fresh.hyps(8) show ?case by (auto simp: phys_inv_def simp del: page_alloc.simps)
next
  case (give s ps as bs qs k p s' T us vs)
  then have rep: "phys_rep T s (us @ (p, qs) # vs) ps as bs" by (simp add: phys_rep_at)
  from phys_free [OF rep give.hyps(2,3), of k] give.hyps(4) show ?case by (auto simp: phys_inv_def)
next
  case (malloc s ps as bs sz flags k ptr s' T cs)
  then have rep: "phys_rep T s cs ps as bs" by (simp add: phys_rep_at)
  from phys_kmalloc [OF rep malloc.hyps(2-5), of k] malloc.hyps(6) show ?case by (auto simp: phys_inv_def simp del: kmalloc.simps)
next
  case (mfree s ps as bs x cs k s' T)
  then have rep: "phys_rep T s cs ps as bs" by (simp add: phys_rep_at)
  from phys_kfree [OF rep mfree.hyps(2-4), of k] mfree.hyps(5) show ?case by (auto simp: phys_inv_def)
qed

lemma phys_run_inv:
  assumes "phys_step\<^sup>*\<^sup>* x y" and "phys_inv (fst x) (fst (snd x)) (snd (snd x))"
  shows "phys_inv (fst y) (fst (snd y)) (snd (snd y)) \<and> fst x \<subseteq> fst y"
  using assms
proof (induction rule: rtranclp_induct)
  case (step y z)
  from phys_step_inv [OF step.hyps(2)] step.IH [OF step.prems] show ?case by blast
qed simp

lemma phys_start: "kmem_inv s as bs \<Longrightarrow> page_free_head s = NULL \<Longrightarrow> phys_inv {} s []"
  unfolding phys_inv_def
  by (intro exI [of _ "[]"] exI [of _ as] exI [of _ bs]) (simp add: phys_rep_def free_pages_def pages_rep_def page_chain_simps chains_apart_def chains_space_def)

section \<open>Properties\<close>


text \<open>A heap with the region from 4 MiB to 5 MiB.\<close>

definition phys_example :: mem where
  "phys_example = kmem_example\<lparr>mem_table := [\<lparr>mm_base = 0x400000, mm_length = 0x100000, mm_type = 1\<rparr>], allocation_pointer := 0x400000\<rparr>"

lemma phys_example_inv: "kmem_inv phys_example [0xC1000024] [0xC1000038]"
  using kmem_example_inv kmem_rep_cong [of phys_example kmem_example] mem_cong [of phys_example kmem_example]
  by (simp add: phys_example_def kmem_inv_def blocks_ok_def nodes_ok_def live_def)

lemma phys_example_step: "\<exists>p s. phys_step ({}, phys_example, []) ({0x400000 ..< 0x402000}, s, [(p, [p])])"
proof -
  let ?fl = "FLAG_RESERVED OR FLAG_NOLOCK"
  have hd: "page_free_head phys_example = NULL" by (simp add: phys_example_def kmem_example_def)
  have rep: "phys_rep {} phys_example [] [] [0xC1000024] [0xC1000038]"
    using phys_example_inv hd by (simp add: phys_rep_def free_pages_def pages_rep_def page_chain_simps chains_apart_def chains_space_def)
  have fp: "free_pages phys_example [] [0xC1000024] [0xC1000038]" using rep by (simp add: phys_rep_def)
  have nl: "?fl AND FLAG_NOLOCK \<noteq> 0" "(2 :: u32) \<noteq> 0" by (rule nolock_set) simp
  have can: "kmem_can sizeof_Page (alloc_flag ?fl) phys_example [0xC1000024]"
    by (simp add: kmem_can_def fits_def phys_example_def kmem_example_def kmem_round_def alloc_flag_def flag_defs FLAG_RESERVED_def FLAG_NOLOCK_def)
  have room: "current_map phys_example < length (mem_table phys_example)" "unat (allocation_pointer phys_example) + 4096 * unat (2 :: u32) < 2 ^ 32"
    "ucast (allocation_pointer phys_example + 2 * PAGE_SIZE) < region_end (mem_table phys_example ! current_map phys_example)"
    "unat (allocation_pointer phys_example) = 0x400000"
    by (simp_all add: phys_example_def kmem_example_def region_end_def PAGE_SIZE_def)
  from phys_alloc_fresh [OF rep nl can room(1-3), of 0] obtain p s where "page_alloc (Suc (Suc (Suc 0))) ?fl 2 phys_example = Inr (p, s)" by blast
  from phys_step.fresh [OF fp nl can room(1-3) this, of "{}" "[]"] show ?thesis by (auto simp: room(4))
qed


end
