(* ===== verification/CString.thy ===== *)
theory CString
  imports Vector "HOL-Library.Signed_Division"
begin

text \<open>
  C strings and number text: the blocks of bytes that \<open>char *\<close> points to, \<open>strlen\<close> and \<open>memcpy\<close> of
  \<open>include/main/utils.hpp\<close>, the argument words of a \<open>va_list\<close> on i386, and the positional digits
  that the formatted-output routines of \<open>utf8.cpp\<close> and \<open>stream.cpp\<close> are compared with. A string
  pointer is the start of a block; reading past the block is \<open>Fault\<close>.
\<close>

type_synonym chars = "u8 buf_heap"

abbreviation ch :: "char \<Rightarrow> u8" where "ch c \<equiv> of_char c"

lemma bindE_cong [fundef_cong]:
  "m = m' \<Longrightarrow> (\<And>x. m' = Inr x \<Longrightarrow> f x = g x) \<Longrightarrow> bindE m f = bindE m' g"
  by (cases m') auto

section \<open>\<open>strlen\<close> and \<open>memcpy\<close>\<close>

function strlen_loop :: "chars \<Rightarrow> u32 \<Rightarrow> nat \<Rightarrow> nat result" where
  "strlen_loop h str p = (if p < 2 ^ 32 - 1
     then bindE (buf_read h str p) (\<lambda>c. if c = 0 then Inr p else strlen_loop h str (Suc p))
     else Inr (2 ^ 32 - 2))"
  by pat_completeness auto
termination by (relation "measure (\<lambda>(h, str, p). 2 ^ 32 - 1 - p)") auto

declare strlen_loop.simps [simp del]

definition strlen :: "chars \<Rightarrow> u32 \<Rightarrow> u32 result" where
  "strlen h str = (if str = NULL then Inl (Panic ''Null in _strlen'')
     else bindE (strlen_loop h str 0) (\<lambda>p. Inr (of_nat p)))"

fun memcpy_loop :: "u32 \<Rightarrow> u32 \<Rightarrow> nat \<Rightarrow> nat \<Rightarrow> chars \<Rightarrow> chars result" where
  "memcpy_loop destination source i 0 h = Inr h"
| "memcpy_loop destination source i (Suc n) h = bindE (buf_read h source i) (\<lambda>c.
     bindE (buf_write h destination i (Some c)) (memcpy_loop destination source (Suc i) n))"

definition memcpy :: "u32 \<Rightarrow> u32 \<Rightarrow> u32 \<Rightarrow> chars \<Rightarrow> chars result" where
  "memcpy destination source num h = memcpy_loop destination source 0 (unat num) h"

text \<open>The block at \<open>p\<close> starts with the bytes \<open>xs\<close>; it holds the C string \<open>xs\<close>.\<close>

definition has_bytes :: "chars \<Rightarrow> u32 \<Rightarrow> u8 list \<Rightarrow> bool" where
  "has_bytes h p xs \<longleftrightarrow> (\<exists>cs. h p = Some cs \<and> length xs \<le> length cs \<and> take (length xs) cs = map Some xs)"

definition cstr :: "chars \<Rightarrow> u32 \<Rightarrow> u8 list \<Rightarrow> bool" where
  "cstr h p xs \<longleftrightarrow> p \<noteq> NULL \<and> 0 \<notin> set xs \<and> has_bytes h p (xs @ [0]) \<and> length xs < 2 ^ 31 - 1"

lemma has_bytes_read:
  assumes "has_bytes h p xs" and "i < length xs"
  shows "buf_read h p i = Inr (xs ! i)"
proof -
  from assms obtain cs where cs: "h p = Some cs" "length xs \<le> length cs" "take (length xs) cs = map Some xs"
    by (auto simp: has_bytes_def)
  have "cs ! i = take (length xs) cs ! i" using assms(2) by simp
  also have "\<dots> = Some (xs ! i)" using assms(2) by (simp add: cs(3))
  finally show ?thesis using cs assms(2) by (simp add: buf_read_def)
qed

lemma cstr_read:
  assumes "cstr h p xs" and "i < length xs"
  shows "buf_read h p i = Inr (xs ! i)" and "xs ! i \<noteq> 0"
proof -
  from assms have "has_bytes h p (xs @ [0])" by (simp add: cstr_def)
  from has_bytes_read [OF this, of i] assms(2) show "buf_read h p i = Inr (xs ! i)"
    by (simp add: nth_append)
  have "xs ! i \<in> set xs" using assms(2) by (rule nth_mem)
  moreover from assms have "0 \<notin> set xs" by (simp add: cstr_def)
  ultimately show "xs ! i \<noteq> 0" by metis
qed

lemma cstr_read_end:
  assumes "cstr h p xs"
  shows "buf_read h p (length xs) = Inr 0"
proof -
  from assms have "has_bytes h p (xs @ [0])" by (simp add: cstr_def)
  from has_bytes_read [OF this, of "length xs"] show ?thesis by simp
qed

lemma cstr_nth:
  assumes "cstr h p xs" and "i \<le> length xs"
  shows "buf_read h p i = Inr ((xs @ [0]) ! i)"
  using assms cstr_read(1) [OF assms(1), of i] cstr_read_end [OF assms(1)]
  by (cases "i = length xs") (auto simp: nth_append)

lemma cstr_len: "cstr h p xs \<Longrightarrow> length xs < 2 ^ 31 - 1"
  by (simp add: cstr_def)

lemma cstr_unat_len [simp]: "cstr h p xs \<Longrightarrow> unat (of_nat (length xs) :: u32) = length xs"
  using cstr_len [of h p xs] by (intro unat_of_nat_lt) simp

lemma cstr_other:
  "cstr h p xs \<Longrightarrow> p \<noteq> q \<Longrightarrow> cstr (h(q := y)) p xs"
  by (simp add: cstr_def has_bytes_def)

lemma cstr_unique:
  assumes x: "cstr h p xs" and y: "cstr h p ys"
  shows "xs = ys"
proof -
  have le: "length ys \<le> length xs" if "cstr h p xs" "cstr h p ys" for xs ys
  proof (rule ccontr)
    assume "\<not> length ys \<le> length xs"
    with cstr_read [OF that(2), of "length xs"] cstr_read_end [OF that(1)] show False by simp
  qed
  have "length xs = length ys" using le [OF x y] le [OF y x] by simp
  moreover have "xs ! i = ys ! i" if "i < length xs" for i
    using cstr_read(1) [OF x that] cstr_read(1) [OF y, of i] that calculation by simp
  ultimately show ?thesis by (rule nth_equalityI)
qed

lemma strlen_loop_cstr:
  assumes "cstr h p xs" and "i \<le> length xs"
  shows "strlen_loop h p i = Inr (length xs)"
  using assms(2)
proof (induction "length xs - i" arbitrary: i)
  case 0
  then have "i = length xs" by simp
  with cstr_read_end [OF assms(1)] cstr_len [OF assms(1)] show ?case
    by (simp add: strlen_loop.simps)
next
  case (Suc k)
  then have i: "i < length xs" by simp
  with Suc have "strlen_loop h p (Suc i) = Inr (length xs)" by simp
  with cstr_read [OF assms(1) i] i cstr_len [OF assms(1)] show ?case
    by (subst strlen_loop.simps) simp
qed

lemma strlen_cstr: "cstr h p xs \<Longrightarrow> strlen h p = Inr (of_nat (length xs))"
  using strlen_loop_cstr [of h p xs 0] by (simp add: strlen_def cstr_def)

text \<open>A block being filled from the left: the first \<open>xs\<close> are written, \<open>n\<close> cells are still free.\<close>

definition filled :: "chars \<Rightarrow> u32 \<Rightarrow> u8 list \<Rightarrow> nat \<Rightarrow> bool" where
  "filled h p xs n \<longleftrightarrow> (\<exists>rest. h p = Some (map Some xs @ rest) \<and> length rest = n)"

lemma filled_write:
  assumes "filled h p xs (Suc n)"
  shows "\<exists>cs. buf_write h p (length xs) (Some c) = Inr (h(p \<mapsto> cs)) \<and> filled (h(p \<mapsto> cs)) p (xs @ [c]) n"
proof -
  from assms obtain y rest where "h p = Some (map Some xs @ y # rest)" "length rest = n"
    by (auto simp: filled_def length_Suc_conv)
  then show ?thesis
    by (intro exI [of _ "map Some xs @ Some c # rest"]) (simp add: buf_write_def list_update_append filled_def)
qed

lemma filled_has_bytes: "filled h p xs n \<Longrightarrow> has_bytes h p xs"
  by (auto simp: filled_def has_bytes_def)

lemma memcpy_loop_fills:
  assumes "has_bytes h source ys" and "filled h destination (take i ys) (n + m)"
    and "i + n \<le> length ys" and "source \<noteq> destination"
  shows "\<exists>cs. memcpy_loop destination source i n h = Inr (h(destination \<mapsto> cs)) \<and>
     filled (h(destination \<mapsto> cs)) destination (take (i + n) ys) m"
  using assms
proof (induction n arbitrary: i h)
  case 0
  then have "h(destination \<mapsto> the (h destination)) = h" by (auto simp: filled_def)
  with 0 show ?case by (intro exI [of _ "the (h destination)"]) simp
next
  case (Suc n)
  have r: "buf_read h source i = Inr (ys ! i)" by (rule has_bytes_read [OF Suc.prems(1)]) (use Suc.prems in simp)
  have l: "length (take i ys) = i" using Suc.prems by simp
  from filled_write [of h destination "take i ys" "n + m" "ys ! i"] Suc.prems obtain cs where
    w: "buf_write h destination i (Some (ys ! i)) = Inr (h(destination \<mapsto> cs))"
      "filled (h(destination \<mapsto> cs)) destination (take (Suc i) ys) (n + m)"
    by (auto simp: take_Suc_conv_app_nth l)
  have "\<exists>ds. memcpy_loop destination source (Suc i) n (h(destination \<mapsto> cs)) =
      Inr ((h(destination \<mapsto> cs))(destination \<mapsto> ds)) \<and>
      filled ((h(destination \<mapsto> cs))(destination \<mapsto> ds)) destination (take (Suc i + n) ys) m"
  proof (rule Suc.IH)
    show "has_bytes (h(destination \<mapsto> cs)) source ys" using Suc.prems by (simp add: has_bytes_def)
    show "filled (h(destination \<mapsto> cs)) destination (take (Suc i) ys) (n + m)" by (rule w(2))
  qed (use Suc.prems in simp_all)
  then have "\<exists>ds. memcpy_loop destination source (Suc i) n (h(destination \<mapsto> cs)) = Inr (h(destination \<mapsto> ds)) \<and>
      filled (h(destination \<mapsto> ds)) destination (take (i + Suc n) ys) m"
    by (simp only: fun_upd_upd add_Suc add_Suc_right)
  then show ?case by (simp only: memcpy_loop.simps r w(1) bindE_Inr)
qed

section \<open>Argument words\<close>

text \<open>\<open>va_arg\<close> on i386: \<open>int\<close>, \<open>long\<close> and pointers are one word of the argument area, \<open>long long\<close>
  is two, the low one first. Taking more arguments than there are is \<open>Fault\<close>.\<close>

fun va_word :: "u32 list \<Rightarrow> (u32 \<times> u32 list) result" where
  "va_word [] = Inl Fault"
| "va_word (w # ws) = Inr (w, ws)"

fun va_llong :: "u32 list \<Rightarrow> (u64 \<times> u32 list) result" where
  "va_llong (lo # hi # ws) = Inr (ucast lo + push_bit 32 (ucast hi), ws)"
| "va_llong _ = Inl Fault"

section \<open>Scanning a format string\<close>

text \<open>
  The loop that \<open>Utf8::format\<close> and \<open>Stream::writef\<close> share: \<open>rd\<close> reads a character of the format,
  \<open>lit\<close> handles an ordinary character and \<open>spec\<close> a specifier with its length. The label \<open>start\<close>
  skips the letters \<open>l\<close>; the length stays at most two. A \<open>%\<close> before the terminator makes the loop
  step over the terminator.
\<close>

partial_function (option) spec_scan ::
    "(u32 \<Rightarrow> u8 result) \<Rightarrow> u32 \<Rightarrow> nat \<Rightarrow> (u32 \<times> u8 \<times> nat) result option" where
  "spec_scan rd p len = (case rd (p + 1) of Inl e \<Rightarrow> Some (Inl e)
     | Inr cur \<Rightarrow> if cur = ch CHR ''l'' then spec_scan rd (p + 1) (min (Suc len) 2)
                 else Some (Inr (p + 1, cur, len)))"

partial_function (option) fmt_loop :: "(u32 \<Rightarrow> u8 result) \<Rightarrow> (u8 \<Rightarrow> 's \<Rightarrow> 's result) \<Rightarrow>
    (u8 \<Rightarrow> nat \<Rightarrow> 's \<Rightarrow> 's result) \<Rightarrow> u32 \<Rightarrow> 's \<Rightarrow> 's result option" where
  "fmt_loop rd lit spec p s = (case rd p of Inl e \<Rightarrow> Some (Inl e)
     | Inr cur \<Rightarrow> if cur = 0 then Some (Inr s)
       else if cur = ch CHR ''%''
       then Option.bind (spec_scan rd p 0) (\<lambda>r. case r of Inl e \<Rightarrow> Some (Inl e)
         | Inr (q, c, len) \<Rightarrow> (case spec c len s of Inl e \<Rightarrow> Some (Inl e)
             | Inr s1 \<Rightarrow> fmt_loop rd lit spec (q + 1) s1))
       else (case lit cur s of Inl e \<Rightarrow> Some (Inl e) | Inr s1 \<Rightarrow> fmt_loop rd lit spec (p + 1) s1))"

text \<open>The reference: a format is a sequence of pieces, run from left to right.\<close>

datatype piece = Lit u8 | Spec nat u8

fun piece_text :: "piece \<Rightarrow> u8 list" where
  "piece_text (Lit c) = [c]"
| "piece_text (Spec k c) = ch CHR ''%'' # replicate k (ch CHR ''l'') @ [c]"

fun piece_ok :: "piece \<Rightarrow> bool" where
  "piece_ok (Lit c) = (c \<noteq> 0 \<and> c \<noteq> ch CHR ''%'')"
| "piece_ok (Spec k c) = (c \<noteq> 0 \<and> c \<noteq> ch CHR ''l'')"

definition fmt_text :: "piece list \<Rightarrow> u8 list" where
  "fmt_text ps = concat (map piece_text ps)"

fun run_pieces :: "(u8 \<Rightarrow> 's \<Rightarrow> 's result) \<Rightarrow> (u8 \<Rightarrow> nat \<Rightarrow> 's \<Rightarrow> 's result) \<Rightarrow> piece list \<Rightarrow> 's \<Rightarrow> 's result" where
  "run_pieces lit spec [] s = Inr s"
| "run_pieces lit spec (Lit c # ps) s = bindE (lit c s) (run_pieces lit spec ps)"
| "run_pieces lit spec (Spec k c # ps) s = bindE (spec c (min k 2) s) (run_pieces lit spec ps)"

definition reads :: "(u32 \<Rightarrow> u8 result) \<Rightarrow> u32 \<Rightarrow> u8 list \<Rightarrow> bool" where
  "reads rd p xs \<longleftrightarrow> (\<forall>i < length xs. rd (p + of_nat i) = Inr (xs ! i))"

lemma reads_Cons: "reads rd p (x # xs) \<longleftrightarrow> rd p = Inr x \<and> reads rd (p + 1) xs"
  by (auto simp: reads_def nth_Cons' less_Suc_eq_0_disj algebra_simps)

lemma reads_append: "reads rd p (xs @ ys) \<longleftrightarrow> reads rd p xs \<and> reads rd (p + of_nat (length xs)) ys"
  by (induction xs arbitrary: p) (auto simp: reads_Cons algebra_simps reads_def [of _ _ "[]"])

lemma spec_scan_reads:
  assumes "reads rd (p + 1) (replicate k (ch CHR ''l'') @ [c])" and "c \<noteq> ch CHR ''l''"
  shows "spec_scan rd p len = Some (Inr (p + 1 + of_nat k, c, if k = 0 then len else min (len + k) 2))"
  using assms(1)
proof (induction k arbitrary: p len)
  case 0
  with assms(2) show ?case by (subst spec_scan.simps) (simp add: reads_Cons)
next
  case (Suc k)
  then have r: "rd (p + 1) = Inr (ch CHR ''l'')" "reads rd (p + 1 + 1) (replicate k (ch CHR ''l'') @ [c])"
    by (simp_all add: reads_Cons)
  have "spec_scan rd p len = spec_scan rd (p + 1) (min (Suc len) 2)"
    by (subst spec_scan.simps) (simp add: r)
  also have "\<dots> = Some (Inr (p + 1 + 1 + of_nat k, c, if k = 0 then min (Suc len) 2 else min (min (Suc len) 2 + k) 2))"
    by (rule Suc.IH [OF r(2)])
  also have "(if k = 0 then min (Suc len) 2 else min (min (Suc len) 2 + k) 2) = min (len + Suc k) 2" by auto
  finally show ?case by (simp add: algebra_simps)
qed

lemma fmt_loop_runs:
  assumes "reads rd p (fmt_text ps @ [0])" and "\<forall>q \<in> set ps. piece_ok q"
  shows "fmt_loop rd lit spec p s = Some (run_pieces lit spec ps s)"
  using assms
proof (induction ps arbitrary: p s)
  case Nil
  then show ?case by (subst fmt_loop.simps) (simp add: fmt_text_def reads_Cons)
next
  case (Cons q ps)
  show ?case
  proof (cases q)
    case (Lit c)
    with Cons.prems have r: "rd p = Inr c" "reads rd (p + 1) (fmt_text ps @ [0])" and c: "c \<noteq> 0" "c \<noteq> ch CHR ''%''"
      by (simp_all add: fmt_text_def reads_Cons)
    show ?thesis
    proof (cases "lit c s")
      case (Inr s1)
      with r c Lit Cons show ?thesis by (subst fmt_loop.simps) (simp del: of_char_Char)
    qed (use r c Lit in \<open>subst fmt_loop.simps; simp del: of_char_Char\<close>)
  next
    case (Spec k c)
    let ?ls = "replicate k (ch CHR ''l'')"
    from Cons.prems Spec have c: "c \<noteq> 0" "c \<noteq> ch CHR ''l''"
      and r: "reads rd p (ch CHR ''%'' # (?ls @ [c]) @ (fmt_text ps @ [0]))"
      by (simp_all add: fmt_text_def)
    then have r0: "rd p = Inr (ch CHR ''%'')" and r1: "reads rd (p + 1) (?ls @ [c])"
      and r2: "reads rd (p + 1 + of_nat (Suc k)) (fmt_text ps @ [0])"
      unfolding reads_Cons reads_append [of _ _ "?ls @ [c]"] by (simp_all del: of_char_Char of_nat_Suc)
    have sc: "spec_scan rd p 0 = Some (Inr (p + 1 + of_nat k, c, min k 2))"
      using spec_scan_reads [OF r1 c(2), of 0] by simp
    have r3: "reads rd (p + 1 + of_nat k + 1) (fmt_text ps @ [0])" using r2 by (simp add: algebra_simps)
    have pc: "(ch CHR ''%'') \<noteq> 0" by simp
    show ?thesis
    proof (cases "spec c (min k 2) s")
      case (Inr s1)
      with r0 sc pc Spec Cons.IH [OF r3] Cons.prems show ?thesis
        by (subst fmt_loop.simps) (simp del: of_char_Char)
    qed (use r0 sc pc Spec in \<open>subst fmt_loop.simps; simp del: of_char_Char\<close>)
  qed
qed

text \<open>A format that ends in a lone \<open>%\<close>: the loop goes on behind the terminator.\<close>

lemma fmt_loop_trailing:
  assumes "reads rd p [ch CHR ''%'', 0]" and "spec 0 0 s = Inr s"
  shows "fmt_loop rd lit spec p s = fmt_loop rd lit spec (p + 2) s"
proof -
  have r: "rd p = Inr (ch CHR ''%'')" "rd (p + 1) = Inr 0" using assms(1) by (simp_all add: reads_Cons)
  then have "spec_scan rd p 0 = Some (Inr (p + 1, 0, 0))" by (subst spec_scan.simps) simp
  moreover have "p + 1 + 1 = 2 + p" "p + 2 = 2 + p" by simp_all
  ultimately show ?thesis using r assms(2)
    by (subst fmt_loop.simps) (simp add: \<open>p + 2 = 2 + p\<close>)
qed

section \<open>Positional digits\<close>

text \<open>The reference: the digits of a number in a base, most significant first, without leading
  zeros.\<close>

function nat_digits :: "nat \<Rightarrow> nat \<Rightarrow> nat list" where
  "nat_digits b n = (if n < b \<or> b < 2 then [n] else nat_digits b (n div b) @ [n mod b])"
  by pat_completeness auto
termination by (relation "measure snd") auto

declare nat_digits.simps [simp del]

definition digits_value :: "nat \<Rightarrow> nat list \<Rightarrow> nat" where
  "digits_value b ds = foldl (\<lambda>a d. a * b + d) 0 ds"

lemma digits_value_snoc [simp]: "digits_value b (ds @ [d]) = digits_value b ds * b + d"
  by (simp add: digits_value_def)

lemma nat_digits_value: "2 \<le> b \<Longrightarrow> digits_value b (nat_digits b n) = n"
proof (induction b n rule: nat_digits.induct)
  case (1 b n)
  show ?case
  proof (cases "n < b")
    case True
    then show ?thesis by (simp add: nat_digits.simps digits_value_def)
  next
    case False
    with 1 show ?thesis by (subst nat_digits.simps) simp
  qed
qed

text \<open>The last \<open>k\<close> digits, leading zeros included, as the output buffers hold them.\<close>

fun fix_digits :: "nat \<Rightarrow> nat \<Rightarrow> nat \<Rightarrow> nat list" where
  "fix_digits 0 b n = []"
| "fix_digits (Suc k) b n = fix_digits k b (n div b) @ [n mod b]"

lemma fix_digits_length [simp]: "length (fix_digits k b n) = k"
  by (induction k arbitrary: n) auto

fun strip_zeros :: "nat list \<Rightarrow> nat list" where
  "strip_zeros (d # e # ds) = (if d = 0 then strip_zeros (e # ds) else d # e # ds)"
| "strip_zeros ds = ds"

lemma strip_zeros_zeros: "strip_zeros (replicate k 0 @ [d]) = [d]"
proof (induction k)
  case (Suc k)
  then show ?case by (cases k) auto
qed simp

lemma fix_digits_zero: "fix_digits k b 0 = replicate k 0"
  by (induction k) (auto simp: replicate_append_same)

lemma nat_digits_nonempty [simp]: "nat_digits b n \<noteq> []"
  by (subst nat_digits.simps) simp

lemma nat_digits_hd: "0 < n \<Longrightarrow> 2 \<le> b \<Longrightarrow> hd (nat_digits b n) \<noteq> 0"
proof (induction b n rule: nat_digits.induct)
  case (1 b n)
  show ?case
  proof (cases "n < b")
    case False
    with 1 have "hd (nat_digits b (n div b)) \<noteq> 0" by (simp add: div_greater_zero_iff)
    with False 1 show ?thesis by (subst nat_digits.simps) simp
  qed (use 1 in \<open>simp add: nat_digits.simps\<close>)
qed

lemma strip_zeros_pad: "ds \<noteq> [] \<Longrightarrow> hd ds \<noteq> 0 \<Longrightarrow> strip_zeros (replicate k 0 @ ds) = ds"
proof (induction k)
  case 0
  then show ?case by (cases ds rule: strip_zeros.cases) auto
next
  case (Suc k)
  then show ?case by (cases "replicate k 0 @ ds") auto
qed

lemma fix_digits_pad:
  "2 \<le> b \<Longrightarrow> n < b ^ Suc k \<Longrightarrow> \<exists>m. fix_digits (Suc k) b n = replicate m 0 @ nat_digits b n"
proof (induction k arbitrary: n)
  case 0
  then show ?case by (intro exI [of _ 0]) (simp add: nat_digits.simps)
next
  case (Suc k)
  show ?case
  proof (cases "n < b")
    case True
    with Suc show ?thesis
      by (intro exI [of _ "Suc k"]) (simp add: nat_digits.simps fix_digits_zero replicate_append_same)
  next
    case False
    have "n div b < b ^ Suc k" using Suc.prems by (simp add: less_mult_imp_div_less mult.commute)
    from Suc.IH [OF Suc.prems(1) this] obtain m where
      m: "fix_digits (Suc k) b (n div b) = replicate m 0 @ nat_digits b (n div b)" by blast
    have "fix_digits (Suc (Suc k)) b n = fix_digits (Suc k) b (n div b) @ [n mod b]" by simp
    also have "\<dots> = replicate m 0 @ nat_digits b n"
      using m False Suc.prems by (simp add: nat_digits.simps [of b n])
    finally show ?thesis by blast
  qed
qed

lemma strip_fix_digits:
  assumes b: "2 \<le> b" and n: "n < b ^ Suc k"
  shows "strip_zeros (fix_digits (Suc k) b n) = nat_digits b n"
proof -
  from fix_digits_pad [OF assms] obtain m where m: "fix_digits (Suc k) b n = replicate m 0 @ nat_digits b n" by blast
  show ?thesis
  proof (cases "n = 0")
    case True
    then have "nat_digits b n = [0]" using b by (simp add: nat_digits.simps)
    with m strip_zeros_zeros [of m 0] show ?thesis by simp
  next
    case False
    with m nat_digits_hd [of n b] b show ?thesis by (simp add: strip_zeros_pad)
  qed
qed

text \<open>The text of a digit, shared by both printers as a specification.\<close>

definition digit_text :: "bool \<Rightarrow> nat \<Rightarrow> u8" where
  "digit_text up d = (if d < 10 then of_nat d + 0x30 else if up then of_nat d + 0x37 else of_nat d + 0x57)"

definition num_text :: "bool \<Rightarrow> nat \<Rightarrow> nat \<Rightarrow> u8 list" where
  "num_text up b n = map (digit_text up) (nat_digits b n)"

section \<open>What formatted output should be\<close>

text \<open>
  A format and its arguments as a list of items, with the text each stands for. \<open>item_ok lim\<close> says
  that the values are in the range of the type, unsigned ones below \<open>lim\<close>.
\<close>

datatype fmt_item = IChar u8 | IPercent | IDec int | IUns u32 | IHex bool u32 | IOct u32 | IPtr u32 | IStr u32 "u8 list"

fun item_piece :: "fmt_item \<Rightarrow> piece" where
  "item_piece (IChar c) = Lit c"
| "item_piece IPercent = Spec 0 (ch CHR ''%'')"
| "item_piece (IDec i) = Spec 0 (ch CHR ''d'')"
| "item_piece (IUns w) = Spec 0 (ch CHR ''u'')"
| "item_piece (IHex up w) = Spec 0 (if up then ch CHR ''X'' else ch CHR ''x'')"
| "item_piece (IOct w) = Spec 0 (ch CHR ''o'')"
| "item_piece (IPtr w) = Spec 0 (ch CHR ''p'')"
| "item_piece (IStr p xs) = Spec 0 (ch CHR ''s'')"

fun item_args :: "fmt_item \<Rightarrow> u32 list" where
  "item_args (IDec i) = [of_int i]"
| "item_args (IUns w) = [w]"
| "item_args (IHex up w) = [w]"
| "item_args (IOct w) = [w]"
| "item_args (IPtr w) = [w]"
| "item_args (IStr p xs) = [p]"
| "item_args _ = []"

fun item_text :: "fmt_item \<Rightarrow> u8 list" where
  "item_text (IChar c) = [c]"
| "item_text IPercent = [ch CHR ''%'']"
| "item_text (IDec i) = (if i < 0 then ch CHR ''-'' # num_text False 10 (nat (- i)) else num_text False 10 (nat i))"
| "item_text (IUns w) = num_text False 10 (unat w)"
| "item_text (IHex up w) = num_text up 16 (unat w)"
| "item_text (IOct w) = num_text False 8 (unat w)"
| "item_text (IPtr w) = map ch ''0x'' @ num_text False 16 (unat w)"
| "item_text (IStr p xs) = xs"

fun item_ok :: "nat \<Rightarrow> chars \<Rightarrow> fmt_item \<Rightarrow> bool" where
  "item_ok lim h (IChar c) = (c \<noteq> 0 \<and> c \<noteq> ch CHR ''%'')"
| "item_ok lim h IPercent = True"
| "item_ok lim h (IDec i) = (- (2 ^ 31) < i \<and> i < 2 ^ 31)"
| "item_ok lim h (IUns w) = (unat w < lim)"
| "item_ok lim h (IHex up w) = (unat w < lim)"
| "item_ok lim h (IOct w) = (unat w < lim)"
| "item_ok lim h (IPtr w) = (unat w < lim)"
| "item_ok lim h (IStr p xs) = cstr h p xs"

lemma item_piece_ok: "item_ok lim h it \<Longrightarrow> piece_ok (item_piece it)"
  by (cases it) (auto split: if_splits)

lemma run_pieces_Cons: "run_pieces lit spec (q # qs) s = bindE (run_pieces lit spec [q] s) (run_pieces lit spec qs)"
proof (cases q)
  case (Lit c)
  then show ?thesis by (cases "lit c s") auto
next
  case (Spec k c)
  then show ?thesis by (cases "spec c (min k 2) s") auto
qed

lemma sint_of_int_32: "- (2 ^ 31) \<le> k \<Longrightarrow> k < 2 ^ 31 \<Longrightarrow> sint (of_int k :: u32) = k"
  by (simp add: signed_of_int signed_take_bit_int_eq_self)

lemma int_unat_less: "unat w < 2 ^ 31 \<Longrightarrow> int (unat w) < 2 ^ 31"
  by (metis of_nat_less_iff of_nat_numeral of_nat_power)

lemma sint_small_32:
  assumes "unat (w :: u32) < 2 ^ 31"
  shows "sint w = int (unat w)"
proof -
  have "(of_int (int (unat w)) :: u32) = w" by simp
  moreover have "- (2 ^ 31) \<le> int (unat w)" by (rule order_trans [of _ 0]) simp_all
  then have "sint (of_int (int (unat w)) :: u32) = int (unat w)"
    using int_unat_less [OF assms] by (rule sint_of_int_32)
  ultimately show ?thesis by simp
qed

text \<open>The bytes of a string argument, one read per byte.\<close>

fun read_chars :: "chars \<Rightarrow> u32 \<Rightarrow> nat \<Rightarrow> nat \<Rightarrow> u8 list result" where
  "read_chars h str i 0 = Inr []"
| "read_chars h str i (Suc n) = bindE (buf_read h str i) (\<lambda>c. bindE (read_chars h str (Suc i) n) (\<lambda>cs. Inr (c # cs)))"

lemma read_chars_cstr:
  assumes "cstr h p xs"
  shows "i + n = length xs \<Longrightarrow> read_chars h p i n = Inr (drop i xs)"
proof (induction n arbitrary: i)
  case (Suc n)
  then have i: "i < length xs" by simp
  with Suc cstr_read(1) [OF assms i] Cons_nth_drop_Suc [OF i] show ?case by simp
qed simp

end
