(* ===== verification/Utf8.thy ===== *)
theory Utf8
  imports CString SmartPtr
begin

text \<open>
  \<open>src/structures/utf8.cpp\<close> and \<open>include/structures/utf8.hpp\<close>: the string class. A \<open>Utf8\<close> is a pointer
  to a C string, its byte count and a \<open>shared_ptr\<close> that owns the buffer or is null. The blocks of
  characters are the objects of the shared-pointer model, so that a buffer goes with its last owner;
  string literals are blocks that no shared pointer owns. Variables of type \<open>Utf8\<close> are numbered, and
  the \<open>string_ptr\<close> of variable \<open>v\<close> is the shared pointer numbered \<open>v\<close>. Functions that only read take
  the blocks and the string values.
\<close>

record utf8 =
  string_of :: u32
  byte_count :: u32

record ustate =
  us_sp :: "u8 option list sp_state"
  us_vars :: "nat \<Rightarrow> utf8 option"
  us_empty :: u32

abbreviation us_chars :: "ustate \<Rightarrow> chars" where
  "us_chars s \<equiv> sp_objs (us_sp s)"

definition npos :: u32 where "npos = - 1"

definition u_get :: "nat \<Rightarrow> ustate \<Rightarrow> utf8 result" where
  "u_get v s = (case us_vars s v of None \<Rightarrow> Inl Fault | Some u \<Rightarrow> Inr u)"

definition u_put :: "nat \<Rightarrow> utf8 \<Rightarrow> ustate \<Rightarrow> ustate" where
  "u_put v u s = s\<lparr>us_vars := (us_vars s)(v \<mapsto> u)\<rparr>"

section \<open>Construction and assignment\<close>

text \<open>\<open>Utf8()\<close>: a null owner and the static empty string.\<close>

definition Utf8_empty :: "nat \<Rightarrow> ustate \<Rightarrow> ustate" where
  "Utf8_empty v s = u_put v \<lparr>string_of = us_empty s, byte_count = 0\<rparr>
     (s\<lparr>us_sp := sp_from_ptr NULL v NULL NULL (us_sp s)\<rparr>)"

text \<open>\<open>Utf8(const char *)\<close>: the owner is a default-constructed shared pointer.\<close>

definition Utf8_literal :: "nat \<Rightarrow> u32 \<Rightarrow> ustate \<Rightarrow> ustate result" where
  "Utf8_literal v str s = bindE (strlen (us_chars s) str) (\<lambda>n.
     Inr (u_put v \<lparr>string_of = str, byte_count = n\<rparr> (s\<lparr>us_sp := sp_new v (us_sp s)\<rparr>)))"

text \<open>\<open>Utf8::own\<close> into variable \<open>v\<close>; \<open>t\<close> is the temporary shared pointer, \<open>d\<close> its control block.\<close>

definition Utf8_own :: "nat \<Rightarrow> nat \<Rightarrow> u32 \<Rightarrow> u32 \<Rightarrow> u32 \<Rightarrow> ustate \<Rightarrow> ustate result" where
  "Utf8_own v t d buffer sz s = (let s1 = Utf8_empty v s in
     bindE (if sz = npos then strlen (us_chars s1) buffer else Inr sz) (\<lambda>n.
     bindE (sp_move_assign v t (sp_from_ptr NULL t d buffer (us_sp s1))) (\<lambda>p.
     bindE (sp_destroy t p) (\<lambda>p1.
     Inr (u_put v \<lparr>string_of = buffer, byte_count = n\<rparr> (s1\<lparr>us_sp := p1\<rparr>))))))"

definition Utf8_copy :: "nat \<Rightarrow> nat \<Rightarrow> ustate \<Rightarrow> ustate result" where
  "Utf8_copy v w s = bindE (u_get w s) (\<lambda>u. bindE (sp_copy_construct v w (us_sp s)) (\<lambda>p.
     Inr (u_put v u (s\<lparr>us_sp := p\<rparr>))))"

definition Utf8_move :: "nat \<Rightarrow> nat \<Rightarrow> ustate \<Rightarrow> ustate result" where
  "Utf8_move v w s = bindE (u_get w s) (\<lambda>u. bindE (sp_move_construct v w (us_sp s)) (\<lambda>p.
     Inr (u_put w \<lparr>string_of = us_empty s, byte_count = 0\<rparr> (u_put v u (s\<lparr>us_sp := p\<rparr>)))))"

definition Utf8_destroy :: "nat \<Rightarrow> ustate \<Rightarrow> ustate result" where
  "Utf8_destroy v s = bindE (sp_destroy v (us_sp s)) (\<lambda>p.
     Inr (s\<lparr>us_sp := p, us_vars := (us_vars s)(v := None)\<rparr>))"

text \<open>\<open>operator=(Utf8 &)\<close> and \<open>operator=(Utf8 &&)\<close>.\<close>

definition Utf8_assign :: "nat \<Rightarrow> nat \<Rightarrow> ustate \<Rightarrow> ustate result" where
  "Utf8_assign v w s = bindE (u_get w s) (\<lambda>u. bindE (sp_assign v w (us_sp s)) (\<lambda>p.
     Inr (u_put v u (s\<lparr>us_sp := p\<rparr>))))"

definition Utf8_move_assign :: "nat \<Rightarrow> nat \<Rightarrow> ustate \<Rightarrow> ustate result" where
  "Utf8_move_assign v w s = bindE (u_get w s) (\<lambda>u. bindE (sp_move_assign v w (us_sp s)) (\<lambda>p.
     Inr (u_put w \<lparr>string_of = us_empty s, byte_count = 0\<rparr> (u_put v u (s\<lparr>us_sp := p\<rparr>)))))"

section \<open>Reading\<close>

definition u_bytes :: "utf8 \<Rightarrow> u32" where
  "u_bytes u = byte_count u"

definition u_to_string :: "utf8 \<Rightarrow> u32" where
  "u_to_string u = string_of u"

definition u_is_empty :: "utf8 \<Rightarrow> bool" where
  "u_is_empty u \<longleftrightarrow> byte_count u = 0"

text \<open>\<open>string[x]\<close> with an unsigned index, and \<open>operator[]\<close>, whose index is a signed \<open>int\<close>.\<close>

definition u_raw :: "chars \<Rightarrow> utf8 \<Rightarrow> u32 \<Rightarrow> u8 result" where
  "u_raw h u x = buf_read h (string_of u) (unat x)"

definition u_index :: "chars \<Rightarrow> utf8 \<Rightarrow> u32 \<Rightarrow> u8 result" where
  "u_index h u x = (if 0x80000000 \<le> x then Inl Fault else buf_read h (string_of u) (unat x))"

function chars_loop :: "chars \<Rightarrow> u32 \<Rightarrow> nat \<Rightarrow> u32 \<Rightarrow> u32 result" where
  "chars_loop h str p c = (if p < 2 ^ 32 - 1
     then bindE (buf_read h str p) (\<lambda>x. if x = 0 then Inr c
          else let c1 = (if x AND 0x80 = 0 then c + 1 else c);
                   c2 = (if x AND 0xc0 \<noteq> 0 then c1 + 1 else c1)
               in chars_loop h str (Suc p) c2)
     else Inr c)"
  by pat_completeness auto
termination by (relation "measure (\<lambda>(h, str, p, c). 2 ^ 32 - 1 - p)") auto

declare chars_loop.simps [simp del]

definition u_chars :: "chars \<Rightarrow> utf8 \<Rightarrow> u32 result" where
  "u_chars h u = chars_loop h (string_of u) 0 0"

text \<open>The loop of \<open>compare\<close>: the difference at the first mismatch, if there is one. \<open>char\<close> is
  signed.\<close>

fun compare_loop :: "chars \<Rightarrow> utf8 \<Rightarrow> u32 \<Rightarrow> utf8 \<Rightarrow> u32 \<Rightarrow> nat \<Rightarrow> nat \<Rightarrow> int option result" where
  "compare_loop h u pos str subpos i 0 = Inr None"
| "compare_loop h u pos str subpos i (Suc n) = bindE (u_raw h u (pos + of_nat i)) (\<lambda>x.
     bindE (u_index h str (subpos + of_nat i)) (\<lambda>y.
     if x \<noteq> y then Inr (Some (sint x - sint y))
     else compare_loop h u pos str subpos (Suc i) n))"

definition u_compare_sub :: "chars \<Rightarrow> utf8 \<Rightarrow> u32 \<Rightarrow> u32 \<Rightarrow> utf8 \<Rightarrow> u32 \<Rightarrow> u32 \<Rightarrow> int result" where
  "u_compare_sub h u pos len str subpos sublen = (let count = (if sublen < len then sublen else len) in
     if string_of u = string_of str then Inr 0
     else bindE (compare_loop h u pos str subpos 0 (unat count)) (\<lambda>r. case r of Some d \<Rightarrow> Inr d
       | None \<Rightarrow> if sublen < len then Inr 1 else if len < sublen then Inr (- 1) else Inr 0))"

definition u_compare_pos :: "chars \<Rightarrow> utf8 \<Rightarrow> u32 \<Rightarrow> u32 \<Rightarrow> utf8 \<Rightarrow> int result" where
  "u_compare_pos h u pos len str = u_compare_sub h u pos len str 0 (u_bytes str)"

definition u_compare :: "chars \<Rightarrow> utf8 \<Rightarrow> utf8 \<Rightarrow> int result" where
  "u_compare h u str = u_compare_sub h u 0 (u_bytes u) str 0 (u_bytes str)"

text \<open>The search loops. The bound \<open>bytes() - str.bytes()\<close> wraps when the needle is longer; a loop
  whose counter wraps never ends.\<close>

partial_function (option) find_loop :: "chars \<Rightarrow> utf8 \<Rightarrow> utf8 \<Rightarrow> u32 \<Rightarrow> u32 result option" where
  "find_loop h u str pos = (if pos \<le> u_bytes u - u_bytes str
     then (case u_compare_pos h u pos (u_bytes str) str of Inl e \<Rightarrow> Some (Inl e)
       | Inr d \<Rightarrow> if d = 0 then Some (Inr pos) else find_loop h u str (pos + 1))
     else Some (Inr npos))"

definition u_find :: "chars \<Rightarrow> utf8 \<Rightarrow> utf8 \<Rightarrow> u32 \<Rightarrow> u32 result" where
  "u_find h u str pos = bindE (loopE (find_loop h u str pos)) (\<lambda>r. r)"

partial_function (option) find_char_loop :: "chars \<Rightarrow> utf8 \<Rightarrow> u8 \<Rightarrow> u32 \<Rightarrow> u32 result option" where
  "find_char_loop h u c pos = (if pos \<le> u_bytes u
     then (case u_raw h u pos of Inl e \<Rightarrow> Some (Inl e)
       | Inr x \<Rightarrow> if x = c then Some (Inr pos) else find_char_loop h u c (pos + 1))
     else Some (Inr npos))"

definition u_find_char :: "chars \<Rightarrow> utf8 \<Rightarrow> u8 \<Rightarrow> u32 \<Rightarrow> u32 result" where
  "u_find_char h u c pos = bindE (loopE (find_char_loop h u c pos)) (\<lambda>r. r)"

function eq_loop :: "chars \<Rightarrow> u32 \<Rightarrow> u32 \<Rightarrow> nat \<Rightarrow> bool result" where
  "eq_loop h str other p = (if p < 2 ^ 32 - 1
     then bindE (buf_read h str p) (\<lambda>x. bindE (buf_read h other p) (\<lambda>y.
          if x \<noteq> y then Inr False else if x = 0 then Inr True else eq_loop h str other (Suc p)))
     else Inr True)"
  by pat_completeness auto
termination by (relation "measure (\<lambda>(h, str, q, p). 2 ^ 32 - 1 - p)") auto

declare eq_loop.simps [simp del]

definition u_eq :: "chars \<Rightarrow> utf8 \<Rightarrow> utf8 \<Rightarrow> bool result" where
  "u_eq h u v = (if string_of u = string_of v then Inr True
     else if u_bytes u \<noteq> u_bytes v then Inr False
     else eq_loop h (string_of u) (string_of v) 0)"

definition u_neq :: "chars \<Rightarrow> utf8 \<Rightarrow> utf8 \<Rightarrow> bool result" where
  "u_neq h u v = bindE (u_eq h u v) (\<lambda>b. Inr (\<not> b))"

definition u_eq_cstr :: "chars \<Rightarrow> utf8 \<Rightarrow> u32 \<Rightarrow> bool result" where
  "u_eq_cstr h u p = eq_loop h (string_of u) p 0"

definition u_neq_cstr :: "chars \<Rightarrow> utf8 \<Rightarrow> u32 \<Rightarrow> bool result" where
  "u_neq_cstr h u p = bindE (u_eq_cstr h u p) (\<lambda>b. Inr (\<not> b))"

section \<open>New strings\<close>

text \<open>A copy loop \<open>newbuff[at + c] = string[pos + c]\<close> for \<open>c\<close> from \<open>i\<close>, \<open>n\<close> times.\<close>

fun copy_chars :: "u32 \<Rightarrow> u32 \<Rightarrow> u32 \<Rightarrow> u32 \<Rightarrow> nat \<Rightarrow> nat \<Rightarrow> chars \<Rightarrow> chars result" where
  "copy_chars newbuff at str pos i 0 h = Inr h"
| "copy_chars newbuff at str pos i (Suc n) h = bindE (buf_read h str (unat (pos + of_nat i))) (\<lambda>c.
     bindE (buf_write h newbuff (unat (at + of_nat i)) (Some c)) (copy_chars newbuff at str pos (Suc i) n))"

definition u_with_chars :: "chars \<Rightarrow> ustate \<Rightarrow> ustate" where
  "u_with_chars h s = s\<lparr>us_sp := (us_sp s)\<lparr>sp_objs := h\<rparr>\<rparr>"

definition u_substr :: "nat \<Rightarrow> nat \<Rightarrow> u32 \<Rightarrow> u32 \<Rightarrow> utf8 \<Rightarrow> u32 \<Rightarrow> u32 \<Rightarrow> ustate \<Rightarrow> ustate result" where
  "u_substr v t d a u pos len0 s = (let len = (if u_bytes u - pos < len0 then u_bytes u - pos else len0);
       (newbuff, h) = buf_alloc a 1 (len + 1) (us_chars s) in
     bindE (copy_chars newbuff 0 (string_of u) pos 0 (unat len) h) (\<lambda>h1.
     bindE (buf_write h1 newbuff (unat len) (Some 0)) (\<lambda>h2.
     Utf8_own v t d newbuff len (u_with_chars h2 s))))"

text \<open>The loop bound \<open>p < sb && ((p + sa) < UINT32_MAX - 1)\<close> of \<open>operator+\<close>, with the sum wrapping.\<close>

fun copy_bounded :: "u32 \<Rightarrow> u32 \<Rightarrow> u32 \<Rightarrow> nat \<Rightarrow> nat \<Rightarrow> chars \<Rightarrow> chars result" where
  "copy_bounded newbuff sa str i 0 h = Inr h"
| "copy_bounded newbuff sa str i (Suc n) h = (if of_nat i + sa < (- 1) - 1
     then bindE (buf_read h str i) (\<lambda>c.
          bindE (buf_write h newbuff (unat (sa + of_nat i)) (Some c)) (copy_bounded newbuff sa str (Suc i) n))
     else Inr h)"

definition concat_size :: "u32 \<Rightarrow> u32 \<Rightarrow> u32" where
  "concat_size sa sb = (if (- 1) - 1 - sb < sa \<or> (- 1) - 1 - sa < sb then (- 1) - 1 else sa + sb)"

definition concat_chars :: "nat \<Rightarrow> nat \<Rightarrow> u32 \<Rightarrow> u32 \<Rightarrow> u32 \<Rightarrow> u32 \<Rightarrow> u32 \<Rightarrow> u32 \<Rightarrow> ustate \<Rightarrow> ustate result" where
  "concat_chars v t d a str sa other sb s =
     (let st = concat_size sa sb; (newbuff, h) = buf_alloc a 1 (sa + sb + 1) (us_chars s) in
     bindE (copy_bounded newbuff 0 str 0 (unat sa) h) (\<lambda>h1.
     bindE (copy_bounded newbuff sa other 0 (unat sb) h1) (\<lambda>h2.
     bindE (buf_write h2 newbuff (unat st) (Some 0)) (\<lambda>h3.
     Utf8_own v t d newbuff st (u_with_chars h3 s)))))"

definition u_concat :: "nat \<Rightarrow> nat \<Rightarrow> u32 \<Rightarrow> u32 \<Rightarrow> utf8 \<Rightarrow> utf8 \<Rightarrow> ustate \<Rightarrow> ustate result" where
  "u_concat v t d a u other s =
     concat_chars v t d a (string_of u) (u_bytes u) (string_of other) (u_bytes other) s"

definition u_concat_cstr :: "nat \<Rightarrow> nat \<Rightarrow> u32 \<Rightarrow> u32 \<Rightarrow> utf8 \<Rightarrow> u32 \<Rightarrow> ustate \<Rightarrow> ustate result" where
  "u_concat_cstr v t d a u other s = bindE (strlen (us_chars s) other) (\<lambda>sb.
     concat_chars v t d a (string_of u) (u_bytes u) other sb s)"

section \<open>Formatting\<close>

definition num_to_str :: "u8 \<Rightarrow> bool \<Rightarrow> u8" where
  "num_to_str val uppercase = (if val < 10 then val + 0x30
     else if uppercase then val + 0x41 - 0xa else val + 0x61 - 0xa)"

text \<open>Filling \<open>output\<close> from its end: \<open>val\<close> is a C \<open>int\<close>, so that \<open>%\<close> and \<open>/\<close> truncate towards
  zero; the remainder is passed as a \<open>uint8_t\<close>.\<close>

fun output_loop :: "nat \<Rightarrow> int \<Rightarrow> bool \<Rightarrow> int \<Rightarrow> u8 list \<Rightarrow> u8 list" where
  "output_loop 0 base up val output = output"
| "output_loop (Suc i) base up val output =
     output_loop i base up (val sdiv base) (num_to_str (of_int (val smod base)) up # output)"

text \<open>\<open>while (output[start] == '0' && start < NUM_BUFFER_SIZE - 1) start++\<close>: the rest of the buffer
  from \<open>start\<close> on.\<close>

fun skip_start :: "u8 list \<Rightarrow> u8 list" where
  "skip_start (c # d # cs) = (if c = ch CHR ''0'' then skip_start (d # cs) else c # d # cs)"
| "skip_start cs = cs"

definition fmt_base :: "u8 \<Rightarrow> int" where
  "fmt_base cur = (if cur = ch CHR ''x'' \<or> cur = ch CHR ''X'' \<or> cur = ch CHR ''p'' then 16
     else if cur = ch CHR ''o'' then 8 else 10)"

text \<open>\<open>int val = va_arg(...)\<close>: whatever the length, the value ends up in an \<open>int\<close>.\<close>

definition fmt_val :: "nat \<Rightarrow> u32 list \<Rightarrow> (int \<times> u32 list) result" where
  "fmt_val len ap = (if len < 2 then bindE (va_word ap) (\<lambda>(w, ap1). Inr (sint w, ap1))
     else bindE (va_llong ap) (\<lambda>(w, ap1). Inr (sint (ucast w :: u32), ap1)))"

definition fmt_number :: "u8 \<Rightarrow> int \<Rightarrow> u8 list" where
  "fmt_number cur val = (let signed = cur = ch CHR ''d'' \<or> cur = ch CHR ''i''; neg = signed \<and> val < 0;
       val1 = (if neg then sint (- (of_int val :: u32)) else val) in
     (if neg then [ch CHR ''-''] else []) @
     skip_start (output_loop 20 (fmt_base cur) (cur = ch CHR ''X'') val1 []))"

record fmt_state =
  f_out :: "u8 list"
  f_ap :: "u32 list"
  f_ints :: "u32 \<Rightarrow> u32 option"

definition f_push :: "u8 list \<Rightarrow> fmt_state \<Rightarrow> fmt_state" where
  "f_push xs st = st\<lparr>f_out := f_out st @ xs\<rparr>"

text \<open>The \<open>switch\<close>. \<open>objs\<close> are the \<open>Utf8\<close> objects that \<open>%S\<close> arguments point to.\<close>

definition fmt_spec :: "chars \<Rightarrow> (u32 \<Rightarrow> utf8 option) \<Rightarrow> u8 \<Rightarrow> nat \<Rightarrow> fmt_state \<Rightarrow> fmt_state result" where
  "fmt_spec h objs cur len st =
     (if cur = ch CHR ''%'' then Inr (f_push [ch CHR ''%''] st)
      else if cur = ch CHR ''n'' then bindE (va_word (f_ap st)) (\<lambda>(slot, ap).
        if f_ints st slot = None then Inl Fault
        else Inr (st\<lparr>f_ap := ap, f_ints := (f_ints st)(slot \<mapsto> of_nat (length (f_out st)))\<rparr>))
      else if cur \<in> set (map ch ''pxXoudi'') then
        let st0 = (if cur = ch CHR ''p'' then f_push (map ch ''0x'') st else st) in
        bindE (fmt_val len (f_ap st0)) (\<lambda>(val, ap). Inr (f_push (fmt_number cur val) (st0\<lparr>f_ap := ap\<rparr>)))
      else if cur = ch CHR ''s'' then bindE (va_word (f_ap st)) (\<lambda>(str, ap).
        bindE (strlen h str) (\<lambda>n. bindE (read_chars h str 0 (unat n)) (\<lambda>xs.
        Inr (f_push xs (st\<lparr>f_ap := ap\<rparr>)))))
      else if cur = ch CHR ''S'' then bindE (va_word (f_ap st)) (\<lambda>(p, ap).
        case objs p of None \<Rightarrow> Inl Fault
        | Some u \<Rightarrow> bindE (read_chars h (string_of u) 0 (unat (u_bytes u))) (\<lambda>xs.
            Inr (f_push xs (st\<lparr>f_ap := ap\<rparr>))))
      else Inr st)"

definition fmt_lit :: "u8 \<Rightarrow> fmt_state \<Rightarrow> fmt_state result" where
  "fmt_lit cur st = Inr (f_push [cur] st)"

fun store_chars :: "u32 \<Rightarrow> nat \<Rightarrow> u8 list \<Rightarrow> chars \<Rightarrow> chars result" where
  "store_chars p i [] h = Inr h"
| "store_chars p i (c # cs) h = bindE (buf_write h p i (Some c)) (store_chars p (Suc i) cs)"

text \<open>\<open>format\<close>: the vector \<open>out\<close> is the sequence \<open>f_out\<close>; its bytes are copied into a new buffer.\<close>

definition u_format :: "nat \<Rightarrow> nat \<Rightarrow> u32 \<Rightarrow> u32 \<Rightarrow> (u32 \<Rightarrow> utf8 option) \<Rightarrow> u32 list \<Rightarrow>
    (u32 \<Rightarrow> u32 option) \<Rightarrow> utf8 \<Rightarrow> ustate \<Rightarrow> (ustate \<times> (u32 \<Rightarrow> u32 option)) result" where
  "u_format v t d a objs ap ints u s = (let h = us_chars s in
     bindE (loopE (fmt_loop (u_index h u) fmt_lit (fmt_spec h objs) 0
       \<lparr>f_out = [], f_ap = ap, f_ints = ints\<rparr>)) (\<lambda>r. bindE r (\<lambda>st.
     let n = of_nat (length (f_out st)); (out_buf, h1) = buf_alloc a 1 (n + 1) h in
     bindE (store_chars out_buf 0 (f_out st) h1) (\<lambda>h2.
     bindE (buf_write h2 out_buf (unat n) (Some 0)) (\<lambda>h3.
     bindE (Utf8_own v t d out_buf n (u_with_chars h3 s)) (\<lambda>s1. Inr (s1, f_ints st)))))))"

section \<open>What a string denotes\<close>

definition utf8_rep :: "chars \<Rightarrow> utf8 \<Rightarrow> u8 list \<Rightarrow> bool" where
  "utf8_rep h u xs \<longleftrightarrow> cstr h (string_of u) xs \<and> byte_count u = of_nat (length xs)"

lemma utf8_rep_bytes:
  assumes "utf8_rep h u xs"
  shows "unat (u_bytes u) = length xs" and "u_bytes u = of_nat (length xs)" and "length xs < 2 ^ 31 - 1"
  using assms cstr_len [of h "string_of u" xs] by (auto simp: utf8_rep_def u_bytes_def)

lemma utf8_read:
  assumes "utf8_rep h u xs" and "unat x \<le> length xs"
  shows "u_raw h u x = Inr ((xs @ [0]) ! unat x)" and "u_index h u x = Inr ((xs @ [0]) ! unat x)"
proof -
  show "u_raw h u x = Inr ((xs @ [0]) ! unat x)"
    using assms cstr_nth [of h "string_of u" xs "unat x"] by (simp add: u_raw_def utf8_rep_def)
  moreover have "unat x < 2 ^ 31" using assms utf8_rep_bytes(3) [OF assms(1)] by simp
  then have "\<not> 0x80000000 \<le> x" by (simp add: word_le_nat_alt)
  ultimately show "u_index h u x = Inr ((xs @ [0]) ! unat x)" by (simp add: u_index_def u_raw_def)
qed

section \<open>Comparison\<close>

text \<open>The reference: three-way comparison of byte sequences, bytes being signed.\<close>

fun cmp_spec :: "u8 list \<Rightarrow> u8 list \<Rightarrow> int" where
  "cmp_spec [] [] = 0"
| "cmp_spec [] (y # ys) = - 1"
| "cmp_spec (x # xs) [] = 1"
| "cmp_spec (x # xs) (y # ys) = (if x = y then cmp_spec xs ys else sint x - sint y)"

lemma sint_inj [simp]: "sint (x :: u8) = sint y \<longleftrightarrow> x = y"
  by (rule word_eq_iff_signed [symmetric])

lemma cmp_spec_0: "cmp_spec xs ys = 0 \<longleftrightarrow> xs = ys"
  by (induction xs ys rule: cmp_spec.induct) auto

lemma cmp_spec_neg:
  "cmp_spec xs ys < 0 \<longleftrightarrow> (map sint xs, map sint ys) \<in> lexord {(a, b). a < b}"
  by (induction xs ys rule: cmp_spec.induct) auto

lemma cmp_spec_swap: "cmp_spec ys xs = - cmp_spec xs ys"
  by (induction xs ys rule: cmp_spec.induct) auto

lemma add_of_nat_unat:
  fixes pos :: u32
  assumes "unat pos + i < 2 ^ 32"
  shows "unat (pos + of_nat i) = unat pos + i"
proof -
  have "i < 2 ^ 32" using assms by simp
  then have "unat (of_nat i :: u32) = i" by (simp add: unat_of_nat_lt)
  with assms show ?thesis by (subst unat_add_lt) simp_all
qed

text \<open>What \<open>compare\<close> computes from the loop's answer.\<close>

definition cmp_finish :: "nat \<Rightarrow> nat \<Rightarrow> int option \<Rightarrow> int" where
  "cmp_finish m n r = (case r of Some d \<Rightarrow> d | None \<Rightarrow> if n < m then 1 else if m < n then - 1 else 0)"

lemma compare_loop_spec:
  assumes u: "utf8_rep h u xs" and v: "utf8_rep h v ys"
    and x: "unat pos + (i + length as) \<le> length xs" and y: "unat subpos + (i + length bs) \<le> length ys"
    and as: "as = take (length as) (drop (unat pos + i) xs)" and bs: "bs = take (length bs) (drop (unat subpos + i) ys)"
  shows "\<exists>r. compare_loop h u pos v subpos i (min (length as) (length bs)) = Inr r \<and>
     cmp_finish (length as) (length bs) r = cmp_spec as bs"
  using x y as bs
proof (induction as bs arbitrary: i rule: cmp_spec.induct)
  case 1
  show ?case by (simp add: cmp_finish_def)
next
  case 2
  show ?case by (simp add: cmp_finish_def)
next
  case 3
  show ?case by (simp add: cmp_finish_def)
next
  case (4 a as b bs)
  have la: "length xs < 2 ^ 32" "length ys < 2 ^ 32"
    using utf8_rep_bytes(3) [OF u] utf8_rep_bytes(3) [OF v] by simp_all
  have px: "unat (pos + of_nat i) = unat pos + i" by (rule add_of_nat_unat) (use 4 la in simp)
  have py: "unat (subpos + of_nat i) = unat subpos + i" by (rule add_of_nat_unat) (use 4 la in simp)
  have da: "drop (unat pos + i) xs = xs ! (unat pos + i) # drop (unat pos + Suc i) xs"
    using 4(2) by (simp add: Cons_nth_drop_Suc)
  have db: "drop (unat subpos + i) ys = ys ! (unat subpos + i) # drop (unat subpos + Suc i) ys"
    using 4(3) by (simp add: Cons_nth_drop_Suc)
  have a: "a = xs ! (unat pos + i)" "as = take (length as) (drop (unat pos + Suc i) xs)"
    using 4(4) by (simp_all only: da length_Cons take_Suc_Cons list.inject)
  have b: "b = ys ! (unat subpos + i)" "bs = take (length bs) (drop (unat subpos + Suc i) ys)"
    using 4(5) by (simp_all only: db length_Cons take_Suc_Cons list.inject)
  have rx: "u_raw h u (pos + of_nat i) = Inr a"
    using utf8_read(1) [OF u, of "pos + of_nat i"] px 4(2) a(1) by (simp add: nth_append)
  have ry: "u_index h v (subpos + of_nat i) = Inr b"
    using utf8_read(2) [OF v, of "subpos + of_nat i"] py 4(3) b(1) by (simp add: nth_append)
  show ?case
  proof (cases "a = b")
    case True
    have "\<exists>r. compare_loop h u pos v subpos (Suc i) (min (length as) (length bs)) = Inr r \<and>
        cmp_finish (length as) (length bs) r = cmp_spec as bs"
      by (rule 4(1) [OF True _ _ a(2) b(2)]) (use 4 in simp_all)
    with True rx ry show ?thesis by (auto simp: cmp_finish_def split: option.splits)
  next
    case False
    with rx ry show ?thesis by (simp add: cmp_finish_def)
  qed
qed

lemma compare_sub_spec:
  assumes u: "utf8_rep h u xs" and v: "utf8_rep h v ys" and ne: "string_of u \<noteq> string_of v"
    and x: "unat pos + unat len \<le> length xs" and y: "unat subpos + unat sublen \<le> length ys"
  shows "u_compare_sub h u pos len v subpos sublen =
     Inr (cmp_spec (take (unat len) (drop (unat pos) xs)) (take (unat sublen) (drop (unat subpos) ys)))"
proof -
  let ?as = "take (unat len) (drop (unat pos) xs)" and ?bs = "take (unat sublen) (drop (unat subpos) ys)"
  have l: "length ?as = unat len" "length ?bs = unat sublen" using x y by simp_all
  have m: "unat (if sublen < len then sublen else len) = min (unat len) (unat sublen)"
    by (auto simp: word_less_nat_alt)
  have "\<exists>r. compare_loop h u pos v subpos 0 (min (length ?as) (length ?bs)) = Inr r \<and>
     cmp_finish (length ?as) (length ?bs) r = cmp_spec ?as ?bs"
    by (rule compare_loop_spec [OF u v]) (use x y l in simp_all)
  then obtain r where r: "compare_loop h u pos v subpos 0 (min (unat len) (unat sublen)) = Inr r"
    "cmp_finish (unat len) (unat sublen) r = cmp_spec ?as ?bs" unfolding l by blast
  have "u_compare_sub h u pos len v subpos sublen = Inr (cmp_finish (unat len) (unat sublen) r)"
    unfolding u_compare_sub_def Let_def m r(1) using ne
    by (cases r) (simp_all add: cmp_finish_def word_less_nat_alt)
  then show ?thesis by (simp only: r(2))
qed

lemma utf8_same_pointer:
  "utf8_rep h u xs \<Longrightarrow> utf8_rep h v ys \<Longrightarrow> string_of u = string_of v \<Longrightarrow> xs = ys"
  using cstr_unique [of h "string_of u" xs ys] by (simp add: utf8_rep_def)

lemma u_compare_spec:
  assumes u: "utf8_rep h u xs" and v: "utf8_rep h v ys"
  shows "u_compare h u v = Inr (cmp_spec xs ys)"
proof (cases "string_of u = string_of v")
  case True
  with utf8_same_pointer [OF u v] show ?thesis
    by (simp add: u_compare_def u_compare_sub_def cmp_spec_0)
next
  case False
  with compare_sub_spec [OF u v False, of 0 "u_bytes u" 0 "u_bytes v"] utf8_rep_bytes(1) [OF u] utf8_rep_bytes(1) [OF v]
  show ?thesis by (simp add: u_compare_def)
qed

lemma eq_loop_spec:
  assumes x: "cstr h p xs" and y: "cstr h q ys" and i: "i \<le> length xs" "length xs = length ys"
  shows "eq_loop h p q i = Inr (drop i xs = drop i ys)"
  using i
proof (induction "length xs - i" arbitrary: i)
  case 0
  then have "i = length xs" by simp
  with 0 cstr_read_end [OF x] cstr_read_end [OF y] cstr_len [OF x] show ?case
    by (simp add: eq_loop.simps)
next
  case (Suc k)
  then have l: "i < length xs" "i < length ys" by simp_all
  with Suc have "eq_loop h p q (Suc i) = Inr (drop (Suc i) xs = drop (Suc i) ys)" by simp
  moreover have "drop i xs = xs ! i # drop (Suc i) xs" "drop i ys = ys ! i # drop (Suc i) ys"
    using l by (simp_all add: Cons_nth_drop_Suc)
  ultimately show ?case using cstr_read [OF x l(1)] cstr_read(1) [OF y l(2)] l cstr_len [OF x]
    by (subst eq_loop.simps) simp
qed

lemma u_eq_spec:
  assumes u: "utf8_rep h u xs" and v: "utf8_rep h v ys"
  shows "u_eq h u v = Inr (xs = ys)"
proof -
  have "u_bytes u = u_bytes v \<longleftrightarrow> length xs = length ys"
    using utf8_rep_bytes [OF u] utf8_rep_bytes [OF v] by metis
  moreover have "eq_loop h (string_of u) (string_of v) 0 = Inr (xs = ys)" if "length xs = length ys"
    using eq_loop_spec [of h "string_of u" xs "string_of v" ys 0] u v that by (simp add: utf8_rep_def)
  ultimately show ?thesis using utf8_same_pointer [OF u v] by (auto simp: u_eq_def)
qed

section \<open>Search\<close>

definition first_occurrence :: "u8 list \<Rightarrow> u8 list \<Rightarrow> nat \<Rightarrow> nat option" where
  "first_occurrence xs ys p = List.find (\<lambda>q. take (length ys) (drop q xs) = ys) [p..<Suc (length xs - length ys)]"

definition position :: "nat option \<Rightarrow> u32" where
  "position r = (case r of None \<Rightarrow> npos | Some q \<Rightarrow> of_nat q)"

lemma first_occurrence_step:
  assumes "p \<le> length xs - length ys"
  shows "first_occurrence xs ys p = (if take (length ys) (drop p xs) = ys then Some p else first_occurrence xs ys (Suc p))"
  using assms by (simp add: first_occurrence_def upt_conv_Cons del: upt_Suc)

lemma bytes_diff:
  assumes "utf8_rep h u xs" and "utf8_rep h v ys" and "length ys \<le> length xs"
  shows "unat (u_bytes u - u_bytes v) = length xs - length ys"
proof -
  have "u_bytes v \<le> u_bytes u" using assms by (simp add: word_le_nat_alt utf8_rep_bytes(1))
  then show ?thesis using assms by (simp add: unat_sub_le utf8_rep_bytes(1))
qed

lemma word_suc_unat:
  assumes "unat (pos :: u32) < 2 ^ 31"
  shows "unat (pos + 1) = Suc (unat pos)"
  using assms unat_add_lt [of pos 1] by simp

lemma find_loop_spec:
  assumes u: "utf8_rep h u xs" and v: "utf8_rep h v ys" and ne: "string_of u \<noteq> string_of v"
    and le: "length ys \<le> length xs"
  shows "unat pos \<le> Suc (length xs - length ys) \<Longrightarrow>
     find_loop h u v pos = Some (Inr (position (first_occurrence xs ys (unat pos))))"
proof (induction "Suc (length xs - length ys) - unat pos" arbitrary: pos)
  case 0
  then have e: "unat pos = Suc (length xs - length ys)" by simp
  then have "\<not> pos \<le> u_bytes u - u_bytes v" by (simp add: word_le_nat_alt bytes_diff [OF u v le])
  with e show ?case by (subst find_loop.simps) (simp add: first_occurrence_def position_def)
next
  case (Suc k)
  then have p: "unat pos \<le> length xs - length ys" by simp
  then have c: "pos \<le> u_bytes u - u_bytes v" by (simp add: word_le_nat_alt bytes_diff [OF u v le])
  have "unat pos + unat (u_bytes v) \<le> length xs" using p le by (simp add: utf8_rep_bytes(1) [OF v])
  from compare_sub_spec [OF u v ne this, of 0 "u_bytes v"] utf8_rep_bytes(1) [OF v]
  have cmp: "u_compare_pos h u pos (u_bytes v) v = Inr (cmp_spec (take (length ys) (drop (unat pos) xs)) ys)"
    by (simp add: u_compare_pos_def)
  have "unat pos < 2 ^ 31" using p utf8_rep_bytes(3) [OF u] by simp
  then have s: "unat (pos + 1) = Suc (unat pos)" by (rule word_suc_unat)
  with Suc p have "find_loop h u v (pos + 1) = Some (Inr (position (first_occurrence xs ys (Suc (unat pos)))))"
    by simp
  with c cmp p show ?case
    by (subst find_loop.simps) (simp add: cmp_spec_0 first_occurrence_step position_def)
qed

lemma first_occurrence_self:
  "first_occurrence xs xs p = (if p = 0 then Some 0 else None)"
  by (cases p) (simp_all add: first_occurrence_def)

lemma u_find_spec:
  assumes u: "utf8_rep h u xs" and v: "utf8_rep h v ys" and le: "length ys \<le> length xs"
    and p: "unat pos \<le> length xs"
  shows "u_find h u v pos = Inr (position (first_occurrence xs ys (unat pos)))"
proof (cases "string_of u = string_of v")
  case True
  then have xy: "xs = ys" "u_bytes u = u_bytes v" using utf8_same_pointer [OF u v] u v
    by (simp_all add: utf8_rep_def u_bytes_def)
  have cmp: "u_compare_pos h u pos (u_bytes v) v = Inr 0"
    using True by (simp add: u_compare_pos_def u_compare_sub_def Let_def)
  have "pos = 0 \<longleftrightarrow> unat pos = 0" by (simp add: unsigned_eq_0_iff)
  with xy cmp show ?thesis unfolding u_find_def
    by (subst find_loop.simps) (simp add: first_occurrence_self position_def)
next
  case False
  show ?thesis
  proof (cases "unat pos \<le> Suc (length xs - length ys)")
    case True
    with find_loop_spec [OF u v False le True] show ?thesis by (simp add: u_find_def)
  next
    case f: False
    then have "\<not> pos \<le> u_bytes u - u_bytes v" by (simp add: word_le_nat_alt bytes_diff [OF u v le])
    with f show ?thesis unfolding u_find_def
      by (subst find_loop.simps) (simp add: first_occurrence_def position_def)
  qed
qed

text \<open>A needle longer than the text: every comparison stops at the terminator at the latest.\<close>

lemma compare_loop_terminator:
  assumes u: "utf8_rep h u xs" and v: "utf8_rep h v ys"
    and "unat pos + i \<le> length xs" and "i + n = length ys" and "length xs - unat pos < length ys"
  shows "\<exists>d. d \<noteq> 0 \<and> compare_loop h u pos v 0 i n = Inr (Some d)"
  using assms(3-5)
proof (induction n arbitrary: i)
  case 0
  then show ?case by simp
next
  case (Suc n)
  have la: "length xs < 2 ^ 31" "length ys < 2 ^ 31"
    using utf8_rep_bytes(3) [OF u] utf8_rep_bytes(3) [OF v] by simp_all
  have px: "unat (pos + of_nat i) = unat pos + i" by (rule add_of_nat_unat) (use Suc la in simp)
  have py: "unat (of_nat i :: u32) = i" by (rule unat_of_nat_lt) (use Suc la in simp)
  have i: "i < length ys" using Suc by simp
  have rx: "u_raw h u (pos + of_nat i) = Inr ((xs @ [0]) ! (unat pos + i))"
    using utf8_read(1) [OF u, of "pos + of_nat i"] px Suc by simp
  have ry: "u_index h v (of_nat i) = Inr (ys ! i)"
    using utf8_read(2) [OF v, of "of_nat i"] py i by (simp add: nth_append)
  show ?case
  proof (cases "(xs @ [0]) ! (unat pos + i) = ys ! i")
    case True
    moreover have "ys ! i \<noteq> 0" using cstr_read(2) [of h "string_of v" ys i] v i by (simp add: utf8_rep_def)
    ultimately have "unat pos + i \<noteq> length xs" by (metis nth_append_length)
    with Suc have "\<exists>d. d \<noteq> 0 \<and> compare_loop h u pos v 0 (Suc i) n = Inr (Some d)" by simp
    with True rx ry show ?thesis by simp
  qed (use rx ry in simp)
qed

lemma bytes_diff_wraps:
  assumes u: "utf8_rep h u xs" and v: "utf8_rep h v ys" and lt: "length xs < length ys"
    and p: "unat pos \<le> Suc (length xs)"
  shows "pos \<le> u_bytes u - u_bytes v"
proof -
  have "\<not> u_bytes v \<le> u_bytes u" using lt by (simp add: word_le_nat_alt utf8_rep_bytes(1) [OF u] utf8_rep_bytes(1) [OF v])
  then have "unat (u_bytes u - u_bytes v) = 2 ^ 32 + length xs - length ys"
    using unat_sub_if' [of "u_bytes u" "u_bytes v"] by (simp add: word_le_nat_alt utf8_rep_bytes(1) [OF u] utf8_rep_bytes(1) [OF v])
  then show ?thesis using p utf8_rep_bytes(3) [OF u] utf8_rep_bytes(3) [OF v] by (simp add: word_le_nat_alt)
qed

lemma find_loop_overruns:
  assumes u: "utf8_rep h u xs" and v: "utf8_rep h v ys" and ne: "string_of u \<noteq> string_of v"
    and lt: "length xs < length ys" and block: "h (string_of u) = Some (map Some (xs @ [0]))"
  shows "unat pos \<le> Suc (length xs) \<Longrightarrow> find_loop h u v pos = Some (Inl Fault)"
proof (induction "Suc (length xs) - unat pos" arbitrary: pos)
  case 0
  then have e: "unat pos = Suc (length xs)" by simp
  from lt obtain n where n: "length ys = Suc n" by (cases "length ys") auto
  have "u_raw h u (pos + 0) = Inl Fault" using block e by (simp add: u_raw_def buf_read_def)
  then have "u_compare_pos h u pos (u_bytes v) v = Inl Fault"
    using ne n utf8_rep_bytes(1) [OF v] by (simp add: u_compare_pos_def u_compare_sub_def Let_def)
  moreover have "pos \<le> u_bytes u - u_bytes v" by (rule bytes_diff_wraps [OF u v lt]) (use e in simp)
  ultimately show ?case by (subst find_loop.simps) simp
next
  case (Suc k)
  then have p: "unat pos \<le> length xs" by simp
  have "\<exists>d. d \<noteq> 0 \<and> compare_loop h u pos v 0 0 (length ys) = Inr (Some d)"
    by (rule compare_loop_terminator [OF u v]) (use p lt in simp_all)
  then have "\<exists>d. d \<noteq> 0 \<and> u_compare_pos h u pos (u_bytes v) v = Inr d"
    using ne utf8_rep_bytes(1) [OF v] by (auto simp: u_compare_pos_def u_compare_sub_def Let_def)
  moreover have "pos \<le> u_bytes u - u_bytes v" by (rule bytes_diff_wraps [OF u v lt]) (use p in simp)
  moreover have "unat pos < 2 ^ 31" using p utf8_rep_bytes(3) [OF u] by simp
  then have "unat (pos + 1) = Suc (unat pos)" by (rule word_suc_unat)
  with Suc p have "find_loop h u v (pos + 1) = Some (Inl Fault)" by simp
  ultimately show ?case by (subst find_loop.simps) auto
qed

section \<open>Ownership\<close>

text \<open>
  Every string variable denotes a live C string; it owns the buffer, or the buffer is one that no
  shared pointer owns.
\<close>

definition us_owner_ok :: "ustate \<Rightarrow> nat \<Rightarrow> utf8 \<Rightarrow> bool" where
  "us_owner_ok s v u \<longleftrightarrow> (\<exists>ref d. sp_handles (us_sp s) v = Some (ref, d) \<and>
     (if ref = NULL then \<forall>g e. sp_handles (us_sp s) g \<noteq> Some (string_of u, e) else ref = string_of u))"

definition us_inv :: "ustate \<Rightarrow> bool" where
  "us_inv s \<longleftrightarrow> sp_inv (us_sp s) \<and> cstr (us_chars s) (us_empty s) [] \<and>
     (\<forall>g e. sp_handles (us_sp s) g \<noteq> Some (us_empty s, e)) \<and>
     (\<forall>v u. us_vars s v = Some u \<longrightarrow> us_owner_ok s v u \<and> (\<exists>xs. utf8_rep (us_chars s) u xs))"

lemma us_inv_var:
  assumes "us_inv s" and "us_vars s v = Some u"
  shows "us_owner_ok s v u" and "\<exists>xs. utf8_rep (us_chars s) u xs"
  using assms unfolding us_inv_def by simp_all

text \<open>The text of a variable.\<close>

definition us_text :: "ustate \<Rightarrow> nat \<Rightarrow> u8 list \<Rightarrow> bool" where
  "us_text s v xs \<longleftrightarrow> (\<exists>u. us_vars s v = Some u \<and> utf8_rep (us_chars s) u xs)"

text \<open>What making a new string needs: unused variables, an unused control block, a free block.\<close>

definition us_fresh :: "nat \<Rightarrow> nat \<Rightarrow> u32 \<Rightarrow> u32 \<Rightarrow> ustate \<Rightarrow> bool" where
  "us_fresh v t d a s \<longleftrightarrow> v \<noteq> t \<and> sp_handles (us_sp s) v = None \<and> sp_handles (us_sp s) t = None \<and>
     card (dom (sp_handles (us_sp s))) + 2 < 2 ^ 32 - 1 \<and> sp_data (us_sp s) d = None \<and>
     a \<noteq> NULL \<and> us_chars s a = None"

lemma sp_inv_unowned:
  "sp_inv s \<Longrightarrow> sp_objs s a = None \<Longrightarrow> a \<noteq> NULL \<Longrightarrow> sp_handles s g \<noteq> Some (a, e)"
  unfolding sp_inv_def by blast

lemma sp_inv_objs:
  assumes "sp_inv s" and "\<And>x. sp_objs s x \<noteq> None \<Longrightarrow> h x \<noteq> None"
  shows "sp_inv (s\<lparr>sp_objs := h\<rparr>)"
  using assms unfolding sp_inv_def by simp

lemma sp_destroy_null:
  assumes "sp_inv s" and "sp_handles s t = Some (NULL, e)"
  shows "sp_destroy t s = Inr (s\<lparr>sp_handles := (sp_handles s)(t := None)\<rparr>)"
    and "sp_inv (s\<lparr>sp_handles := (sp_handles s)(t := None)\<rparr>)"
proof -
  show "sp_destroy t s = Inr (s\<lparr>sp_handles := (sp_handles s)(t := None)\<rparr>)"
    using assms(2) by (simp add: sp_destroy_def sp_get_def decrement_usage_def)
  from sp_drop [OF assms, of None] show "sp_inv (s\<lparr>sp_handles := (sp_handles s)(t := None)\<rparr>)"
    by (auto simp: decrement_usage_def)
qed

lemma Utf8_own_ok:
  assumes inv: "sp_inv (us_sp s)" and vt: "v \<noteq> t" "sp_handles (us_sp s) v = None" "sp_handles (us_sp s) t = None"
    and size: "card (dom (sp_handles (us_sp s))) + 2 < 2 ^ 32 - 1" and d: "sp_data (us_sp s) d = None"
    and b: "buffer \<noteq> NULL" "us_chars s buffer \<noteq> None" "\<And>g e. sp_handles (us_sp s) g \<noteq> Some (buffer, e)"
    and sz: "sz \<noteq> npos"
  shows "\<exists>p. Utf8_own v t d buffer sz s =
       Inr (u_put v \<lparr>string_of = buffer, byte_count = sz\<rparr> (s\<lparr>us_sp := p\<rparr>)) \<and> sp_inv p \<and>
     sp_handles p = (sp_handles (us_sp s))(v \<mapsto> (buffer, d)) \<and> sp_objs p = us_chars s"
proof -
  let ?p0 = "us_sp s" and ?p1 = "sp_new v (us_sp s)"
  let ?p2 = "sp_from_ptr NULL t d buffer ?p1"
  have e: "us_sp (Utf8_empty v s) = ?p1"
    by (simp add: Utf8_empty_def u_put_def sp_from_ptr_def sp_new_def)
  have i1: "sp_inv ?p1" by (rule sp_new_inv [OF inv vt(2)]) (use size in simp)
  have fin: "finite (dom (sp_handles ?p0))" using inv by (simp add: sp_inv_def)
  have p1: "sp_handles ?p1 = (sp_handles ?p0)(v \<mapsto> (NULL, NULL))" "sp_data ?p1 = sp_data ?p0" "sp_objs ?p1 = sp_objs ?p0"
    by (simp_all add: sp_new_def sp_set_def)
  have i2: "sp_inv ?p2"
    by (rule sp_from_ptr_inv [OF i1])
      (use p1 vt size d b fin in \<open>auto simp: card_insert_if domIff\<close>)
  have p2: "sp_handles ?p2 = (sp_handles ?p0)(v \<mapsto> (NULL, NULL), t \<mapsto> (buffer, d))" "sp_objs ?p2 = sp_objs ?p0"
    using b(1) p1 by (simp_all add: sp_from_ptr_def sp_set_def)
  from sp_move_assign_inv [OF i2, of v "(NULL, NULL)" t "(buffer, d)"] p2 vt obtain p3 where
    p3: "sp_move_assign v t ?p2 = Inr p3" "sp_inv p3" "sp_objs p3 = sp_objs ?p0"
      "sp_handles p3 = (sp_handles ?p2)(v \<mapsto> (buffer, d), t \<mapsto> (NULL, NULL))" by (auto simp: sp_gone_def)
  let ?p4 = "p3\<lparr>sp_handles := (sp_handles p3)(t := None)\<rparr>"
  have p4: "sp_destroy t p3 = Inr ?p4" "sp_inv ?p4"
    using sp_destroy_null [OF p3(2), of t NULL] p3(4) by simp_all
  have "sp_handles ?p4 = (sp_handles ?p0)(v \<mapsto> (buffer, d))"
    using p3(4) p2(1) vt by (auto simp: fun_eq_iff)
  moreover have "Utf8_own v t d buffer sz s =
      Inr (u_put v \<lparr>string_of = buffer, byte_count = sz\<rparr> (s\<lparr>us_sp := ?p4\<rparr>))"
    using sz p3(1) p4(1) unfolding Utf8_own_def e Let_def by (simp add: Utf8_empty_def u_put_def)
  ultimately show ?thesis using p4(2) p3(3) by auto
qed

text \<open>Putting a new block under a string, and handing it to a variable.\<close>

lemma utf8_rep_block: "utf8_rep h u xs \<Longrightarrow> h a = None \<Longrightarrow> utf8_rep (h(a \<mapsto> cs)) u xs"
  by (cases "string_of u = a") (auto simp: utf8_rep_def cstr_def has_bytes_def)

lemma us_new_string:
  assumes inv: "us_inv s" and fresh: "us_fresh v t d a s"
    and c: "cstr ((us_chars s)(a \<mapsto> cs)) a xs"
  shows "\<exists>s'. Utf8_own v t d a (of_nat (length xs)) (u_with_chars ((us_chars s)(a \<mapsto> cs)) s) = Inr s' \<and>
     us_inv s' \<and> us_text s' v xs \<and> sp_handles (us_sp s') v = Some (a, d) \<and>
     (\<forall>w ys. w \<noteq> v \<longrightarrow> us_text s w ys \<longrightarrow> us_text s' w ys)"
proof -
  let ?h = "(us_chars s)(a \<mapsto> cs)" and ?H = "sp_handles (us_sp s)"
  let ?s = "u_with_chars ?h s"
  note f = fresh [unfolded us_fresh_def]
  have si: "sp_inv (us_sp s)" using inv by (simp add: us_inv_def)
  have fr: "us_chars ?s = ?h" "sp_handles (us_sp ?s) = ?H" "sp_data (us_sp ?s) = sp_data (us_sp s)"
    "us_vars ?s = us_vars s" "us_empty ?s = us_empty s" by (simp_all add: u_with_chars_def)
  have un: "?H g \<noteq> Some (a, e)" for g e using sp_inv_unowned [OF si, of a] f by simp
  have si': "sp_inv (us_sp ?s)" unfolding u_with_chars_def using sp_inv_objs [OF si, of ?h] by simp
  have "length xs < 2 ^ 31" using cstr_len [OF c] by simp
  then have "of_nat (length xs) \<noteq> npos"
    using unat_of_nat_lt [where 'a = 32, of "length xs"]
    by (auto simp: npos_def unsigned_minus_1_eq_mask mask_eq_exp_minus_1)
  from Utf8_own_ok [OF si', of v t d a "of_nat (length xs)"] f un this fr obtain p where
    p: "Utf8_own v t d a (of_nat (length xs)) ?s =
        Inr (u_put v \<lparr>string_of = a, byte_count = of_nat (length xs)\<rparr> (?s\<lparr>us_sp := p\<rparr>))" (is "_ = Inr ?s'")
      "sp_inv p" "sp_handles p = ?H(v \<mapsto> (a, d))" "sp_objs p = ?h" by auto
  have s': "us_sp ?s' = p" "us_empty ?s' = us_empty s"
    "us_vars ?s' = (us_vars s)(v \<mapsto> \<lparr>string_of = a, byte_count = of_nat (length xs)\<rparr>)"
    using fr by (simp_all add: u_put_def)
  have rep: "utf8_rep ?h u ys" if "utf8_rep (us_chars s) u ys" for u ys
    using utf8_rep_block [OF that] f by simp
  have em: "us_empty s \<noteq> a" using inv f by (auto simp: us_inv_def cstr_def has_bytes_def)
  have new: "utf8_rep ?h \<lparr>string_of = a, byte_count = of_nat (length xs)\<rparr> xs" using c by (simp add: utf8_rep_def)
  have "us_owner_ok ?s' w u \<and> (\<exists>ys. utf8_rep (us_chars ?s') u ys)" if w: "us_vars ?s' w = Some u" for w u
  proof (cases "w = v")
    case True
    with w s' p new f show ?thesis by (auto simp: us_owner_ok_def)
  next
    case False
    with w s' have u: "us_vars s w = Some u" by simp
    with us_inv_var [OF inv] obtain ys where o: "us_owner_ok s w u" and ys: "utf8_rep (us_chars s) u ys" by blast
    have "string_of u \<noteq> a" using ys f by (auto simp: utf8_rep_def cstr_def has_bytes_def)
    with o False have "us_owner_ok ?s' w u" by (auto simp: us_owner_ok_def s' p(3) split: if_splits)
    with rep [OF ys] show ?thesis unfolding s' p(4) by blast
  qed
  moreover have "cstr ?h (us_empty s) []" using inv em by (intro cstr_other) (simp_all add: us_inv_def)
  moreover have "\<forall>g e. (?H(v \<mapsto> (a, d))) g \<noteq> Some (us_empty s, e)" using inv em by (auto simp: us_inv_def)
  ultimately have "us_inv ?s'" using p unfolding us_inv_def by (simp add: s')
  moreover have "us_text ?s' v xs" using new p(4) by (simp add: us_text_def s')
  moreover have "\<forall>w ys. w \<noteq> v \<longrightarrow> us_text s w ys \<longrightarrow> us_text ?s' w ys"
    using rep p(4) by (auto simp: us_text_def s')
  ultimately show ?thesis using p(1,3) s' by auto
qed

section \<open>New strings\<close>

lemma filled_same: "filled h b xs n \<Longrightarrow> \<exists>cs. h = h(b \<mapsto> cs)"
  unfolding filled_def by (metis fun_upd_triv)

lemma has_bytes_other: "has_bytes h p xs \<Longrightarrow> p \<noteq> b \<Longrightarrow> has_bytes (h(b \<mapsto> cs)) p xs"
  by (simp add: has_bytes_def)

lemma copy_chars_fills:
  assumes "has_bytes h str ys" and "str \<noteq> b" and "filled h b (pre @ take i (drop (unat pos) ys)) (n + m)"
    and "length pre = unat at" and "unat pos + i + n \<le> length ys" and "unat at + i + n < 2 ^ 32" and "length ys < 2 ^ 32"
  shows "\<exists>cs. copy_chars b at str pos i n h = Inr (h(b \<mapsto> cs)) \<and>
     filled (h(b \<mapsto> cs)) b (pre @ take (i + n) (drop (unat pos) ys)) m"
  using assms
proof (induction n arbitrary: i h)
  case 0
  from filled_same [OF 0(3)] obtain cs where h: "h(b \<mapsto> cs) = h" by metis
  show ?case by (rule exI [of _ cs]) (use h 0(3) in \<open>simp only: h copy_chars.simps add_0 add_0_right\<close>)
next
  case (Suc n)
  let ?zs = "drop (unat pos) ys"
  have x: "unat (pos + of_nat i) = unat pos + i" by (rule add_of_nat_unat) (use Suc.prems in simp)
  have y: "unat (at + of_nat i) = unat at + i" by (rule add_of_nat_unat) (use Suc.prems in simp)
  have r: "buf_read h str (unat pos + i) = Inr (?zs ! i)"
    using has_bytes_read [OF Suc.prems(1), of "unat pos + i"] Suc.prems by simp
  have l: "length (pre @ take i ?zs) = unat at + i" using Suc.prems by simp
  have tk: "(pre @ take i ?zs) @ [?zs ! i] = pre @ take (Suc i) ?zs"
    using Suc.prems by (simp add: take_Suc_conv_app_nth)
  from filled_write [of h b "pre @ take i ?zs" "n + m" "?zs ! i"] Suc.prems obtain cs where
    w: "buf_write h b (unat at + i) (Some (?zs ! i)) = Inr (h(b \<mapsto> cs))"
      "filled (h(b \<mapsto> cs)) b (pre @ take (Suc i) ?zs) (n + m)"
    unfolding l tk by auto
  have "\<exists>ds. copy_chars b at str pos (Suc i) n (h(b \<mapsto> cs)) = Inr ((h(b \<mapsto> cs))(b \<mapsto> ds)) \<and>
      filled ((h(b \<mapsto> cs))(b \<mapsto> ds)) b (pre @ take (Suc i + n) ?zs) m"
    by (rule Suc.IH [OF has_bytes_other [OF Suc.prems(1,2)] Suc.prems(2) w(2)]) (use Suc.prems in simp_all)
  then have "\<exists>ds. copy_chars b at str pos (Suc i) n (h(b \<mapsto> cs)) = Inr (h(b \<mapsto> ds)) \<and>
      filled (h(b \<mapsto> ds)) b (pre @ take (i + Suc n) ?zs) m"
    by (simp only: fun_upd_upd add_Suc add_Suc_right)
  then show ?case by (simp only: copy_chars.simps x y r w(1) bindE_Inr)
qed

lemma copy_bounded_eq:
  assumes "unat sa + i + n < 2 ^ 32 - 2"
  shows "copy_bounded b sa str i n h = copy_chars b sa str 0 i n h"
  using assms
proof (induction n arbitrary: i h)
  case (Suc n)
  have "i < 2 ^ 32" using Suc.prems by simp
  then have i: "unat (of_nat i :: u32) = i" by (simp add: unat_of_nat_lt)
  have "unat (of_nat i + sa) = i + unat sa" using add_of_nat_unat [of sa i] Suc.prems by (simp add: add.commute)
  then have "of_nat i + sa < (- 1) - 1" using Suc.prems
    by (simp add: word_less_nat_alt unat_sub_if_size unsigned_minus_1_eq_mask mask_eq_exp_minus_1 word_size)
  moreover have "copy_bounded b sa str (Suc i) n = copy_chars b sa str 0 (Suc i) n"
    using Suc by (intro ext) simp
  ultimately show ?case by (simp only: copy_bounded.simps copy_chars.simps if_True i add_0)
qed simp

lemma has_bytes_prefix: "has_bytes h p (xs @ ys) \<Longrightarrow> has_bytes h p xs"
proof -
  assume "has_bytes h p (xs @ ys)"
  then obtain cs where cs: "h p = Some cs" "length xs + length ys \<le> length cs"
    "take (length xs + length ys) cs = map Some (xs @ ys)" by (auto simp: has_bytes_def)
  have "take (length xs) cs = take (length xs) (take (length xs + length ys) cs)" by simp
  also have "\<dots> = map Some xs" by (simp add: cs(3))
  finally show ?thesis using cs by (auto simp: has_bytes_def)
qed

lemma copy_whole:
  assumes "cstr h str ys" and "str \<noteq> b" and "filled h b pre (length ys + m)" and "length pre = unat at"
    and "unat at + length ys < 2 ^ 32 - 2"
  shows "\<exists>cs. copy_bounded b at str 0 (length ys) h = Inr (h(b \<mapsto> cs)) \<and> filled (h(b \<mapsto> cs)) b (pre @ ys) m"
proof -
  have hb: "has_bytes h str ys" using assms(1) by (auto simp: cstr_def intro: has_bytes_prefix)
  have "\<exists>cs. copy_chars b at str 0 0 (length ys) h = Inr (h(b \<mapsto> cs)) \<and>
      filled (h(b \<mapsto> cs)) b (pre @ take (0 + length ys) (drop (unat (0 :: u32)) ys)) m"
    by (rule copy_chars_fills [OF hb assms(2)]) (use assms in simp_all)
  then show ?thesis using copy_bounded_eq [of at 0 "length ys"] assms by simp
qed

lemma buf_alloc_fills:
  fixes n a :: u32
  assumes "0 < n"
  shows "buf_alloc a 1 n (h :: chars) = (a, h(a \<mapsto> replicate (unat n) None))"
    and "filled (h(a \<mapsto> replicate (unat n) None)) a [] (unat n)"
  using assms by (simp_all add: buf_alloc_def filled_def word_gt_0)

lemma filled_cstr:
  assumes "filled h a xs 1" and "a \<noteq> NULL" and "0 \<notin> set xs" and "length xs < 2 ^ 31 - 1"
  shows "\<exists>cs. buf_write h a (length xs) (Some 0) = Inr (h(a \<mapsto> cs)) \<and> cstr (h(a \<mapsto> cs)) a xs"
  using filled_write [of h a xs 0 0] assms by (auto simp: cstr_def dest: filled_has_bytes)

lemma of_nat_unat_id: "of_nat (unat w) = (w :: u32)"
  by simp

lemma of_nat_add_unat:
  assumes "m + n < 2 ^ 32"
  shows "unat (of_nat m + of_nat n :: u32) = m + n"
  using unat_of_nat_lt [where 'a = 32, of "m + n"] assms by simp

lemma concat_chars_ok:
  assumes inv: "us_inv s" and fresh: "us_fresh v t d a s"
    and x: "cstr (us_chars s) str xs" and y: "cstr (us_chars s) other ys" and fit: "length xs + length ys < 2 ^ 31 - 1"
  shows "\<exists>s'. concat_chars v t d a str (of_nat (length xs)) other (of_nat (length ys)) s = Inr s' \<and> us_inv s' \<and>
     us_text s' v (xs @ ys) \<and> sp_handles (us_sp s') v = Some (a, d) \<and>
     (\<forall>w zs. w \<noteq> v \<longrightarrow> us_text s w zs \<longrightarrow> us_text s' w zs)"
proof -
  let ?sa = "of_nat (length xs) :: u32" and ?sb = "of_nat (length ys) :: u32" and ?g = "us_chars s"
  have a: "a \<noteq> NULL" "?g a = None" using fresh by (simp_all add: us_fresh_def)
  have sa: "unat ?sa = length xs" and sb: "unat ?sb = length ys" and st: "unat (?sa + ?sb) = length xs + length ys"
    using x y fit of_nat_add_unat [of "length xs" "length ys"] by simp_all
  have n: "unat (?sa + ?sb + 1) = length xs + length ys + 1" using word_suc_unat [of "?sa + ?sb"] st fit by simp
  have mx: "unat ((- 1) - 1 :: u32) = 2 ^ 32 - 2" 
    by (simp add: unat_sub_if_size unsigned_minus_1_eq_mask mask_eq_exp_minus_1 word_size)
  have cs: "concat_size ?sa ?sb = ?sa + ?sb"
  proof -
    have "unat ((- 1) - 1 - ?sb) = 2 ^ 32 - 2 - length ys" "unat ((- 1) - 1 - ?sa) = 2 ^ 32 - 2 - length xs"
      using fit sa sb mx by (subst unat_sub_le; simp add: word_le_nat_alt)+
    moreover have "\<not> 2 ^ 32 - 2 - length ys < length xs" "\<not> 2 ^ 32 - 2 - length xs < length ys" using fit by simp_all
    ultimately show ?thesis unfolding concat_size_def word_less_nat_alt by (simp only: sa sb simp_thms if_False)
  qed
  let ?h = "?g(a \<mapsto> replicate (unat (?sa + ?sb + 1)) None)"
  have al: "buf_alloc a 1 (?sa + ?sb + 1) ?g = (a, ?h)" "filled ?h a [] (length xs + (length ys + 1))"
    using buf_alloc_fills [where n = "?sa + ?sb + 1" and a = a and h = ?g] n by (simp_all add: word_less_nat_alt)
  have ne: "str \<noteq> a" "other \<noteq> a" using x y a by (auto simp: cstr_def has_bytes_def)
  from copy_whole [OF cstr_other [OF x ne(1)] ne(1) al(2), of 0] fit obtain c1 where
    c1: "copy_bounded a 0 str 0 (length xs) ?h = Inr (?g(a \<mapsto> c1))" "filled (?g(a \<mapsto> c1)) a xs (length ys + 1)" by auto
  from copy_whole [OF cstr_other [OF y ne(2)] ne(2) c1(2), of ?sa] fit sa obtain c2 where
    c2: "copy_bounded a ?sa other 0 (length ys) (?g(a \<mapsto> c1)) = Inr (?g(a \<mapsto> c2))"
      "filled (?g(a \<mapsto> c2)) a (xs @ ys) 1" by auto
  have "0 \<notin> set (xs @ ys)" using x y by (simp add: cstr_def)
  from filled_cstr [OF c2(2) a(1) this] fit obtain c3 where
    c3: "buf_write (?g(a \<mapsto> c2)) a (length xs + length ys) (Some 0) = Inr (?g(a \<mapsto> c3))"
      "cstr (?g(a \<mapsto> c3)) a (xs @ ys)" by auto
  have "concat_chars v t d a str ?sa other ?sb s =
      Utf8_own v t d a (of_nat (length (xs @ ys))) (u_with_chars (?g(a \<mapsto> c3)) s)"
    unfolding concat_chars_def Let_def al(1) prod.case sa sb cs st c1(1) c2(1) c3(1) bindE_Inr by simp
  with us_new_string [OF inv fresh c3(2)] show ?thesis by simp
qed

lemma u_substr_ok:
  assumes inv: "us_inv s" and fresh: "us_fresh v t d a s" and u: "utf8_rep (us_chars s) u xs"
    and pos: "unat pos \<le> length xs"
  shows "\<exists>s'. u_substr v t d a u pos len s = Inr s' \<and> us_inv s' \<and>
     us_text s' v (take (unat len) (drop (unat pos) xs)) \<and>
     (\<forall>w zs. w \<noteq> v \<longrightarrow> us_text s w zs \<longrightarrow> us_text s' w zs)"
proof -
  let ?g = "us_chars s" and ?zs = "take (unat len) (drop (unat pos) xs)"
  let ?l = "if u_bytes u - pos < len then u_bytes u - pos else len"
  have c: "cstr ?g (string_of u) xs" using u by (simp add: utf8_rep_def)
  have a: "a \<noteq> NULL" "?g a = None" using fresh by (simp_all add: us_fresh_def)
  have lx: "length xs < 2 ^ 31 - 1" using cstr_len [OF c] .
  have "pos \<le> u_bytes u" using pos by (simp add: word_le_nat_alt utf8_rep_bytes(1) [OF u])
  then have "unat (u_bytes u - pos) = length xs - unat pos" by (simp add: unat_sub_le utf8_rep_bytes(1) [OF u])
  then have l: "unat ?l = length ?zs" by (simp add: word_less_nat_alt)
  then have n: "unat (?l + 1) = length ?zs + 1" using lx by (subst word_suc_unat) simp_all
  let ?h = "?g(a \<mapsto> replicate (unat (?l + 1)) None)"
  have al: "buf_alloc a 1 (?l + 1) ?g = (a, ?h)" "filled ?h a [] (length ?zs + 1)"
    using buf_alloc_fills [where n = "?l + 1" and a = a and h = ?g] n by (simp_all only: word_less_nat_alt unsigned_0 zero_less_Suc Suc_eq_plus1 [symmetric])
  have ne: "string_of u \<noteq> a" using c a by (auto simp: cstr_def has_bytes_def)
  have hb: "has_bytes ?h (string_of u) xs"
    using c ne by (auto simp: cstr_def intro!: has_bytes_other intro: has_bytes_prefix)
  have "\<exists>cs. copy_chars a 0 (string_of u) pos 0 (length ?zs) ?h = Inr (?h(a \<mapsto> cs)) \<and>
      filled (?h(a \<mapsto> cs)) a ([] @ take (0 + length ?zs) (drop (unat pos) xs)) 1"
    by (rule copy_chars_fills [OF hb ne]) (use al(2) lx pos in simp_all)
  then obtain c1 where c1: "copy_chars a 0 (string_of u) pos 0 (length ?zs) ?h = Inr (?g(a \<mapsto> c1))"
    "filled (?g(a \<mapsto> c1)) a ?zs 1" by (auto simp: take_eq_Nil)
      (metis (no_types, lifting) length_drop length_take take_take min.idem take_all_iff nle_le)
  have "0 \<notin> set ?zs" using c by (auto simp: cstr_def dest: in_set_takeD in_set_dropD)
  moreover have "length ?zs < 2 ^ 31 - 1"
    by (rule le_less_trans [OF _ lx]) simp
  ultimately obtain c2 where
    c2: "buf_write (?g(a \<mapsto> c1)) a (length ?zs) (Some 0) = Inr (?g(a \<mapsto> c2))"
      "cstr (?g(a \<mapsto> c2)) a ?zs" using filled_cstr [OF c1(2) a(1)] by auto
  have "of_nat (length ?zs) = ?l" unfolding l [symmetric] by (rule of_nat_unat_id)
  then have "u_substr v t d a u pos len s =
      Utf8_own v t d a (of_nat (length ?zs)) (u_with_chars (?g(a \<mapsto> c2)) s)"
    unfolding u_substr_def Let_def al(1) prod.case l c1(1) c2(1) bindE_Inr by (simp only:)
  with us_new_string [OF inv fresh c2(2)] show ?thesis by auto
qed

section \<open>Assignment\<close>

text \<open>The variable \<open>v\<close> gives up its buffer, which goes when no handle refers to it any more; the handles afterwards were there before.\<close>

lemma us_release:
  assumes inv: "us_inv s" and h0: "sp_handles (us_sp s) v = Some (r0, d0)"
    and p: "sp_inv p" "sp_objs p = sp_gone (Some (r0, d0)) (sp_handles p) (us_chars s)"
    and sub: "\<And>g ref e. sp_handles p g = Some (ref, e) \<Longrightarrow> ref \<noteq> NULL \<Longrightarrow> \<exists>g'. sp_handles (us_sp s) g' = Some (ref, e)"
    and vars: "\<And>x u. V x = Some u \<Longrightarrow> \<exists>ref d. sp_handles p x = Some (ref, d) \<and>
      (if ref = NULL then \<forall>g e. sp_handles (us_sp s) g \<noteq> Some (string_of u, e) else ref = string_of u) \<and> (\<exists>ys. utf8_rep (us_chars s) u ys)"
  shows "us_inv (s\<lparr>us_sp := p, us_vars := V\<rparr>)" and "V x = Some u \<Longrightarrow> utf8_rep (us_chars s) u ys \<Longrightarrow> utf8_rep (sp_objs p) u ys"
proof -
  let ?H = "sp_handles (us_sp s)"
  have si: "sp_inv (us_sp s)" and e: "cstr (us_chars s) (us_empty s) []" "\<And>g e. ?H g \<noteq> Some (us_empty s, e)" using inv by (auto simp: us_inv_def)
  have gone: "sp_objs p = (if r0 \<noteq> NULL \<and> (\<forall>g e. sp_handles p g \<noteq> Some (r0, e)) then (us_chars s)(r0 := None) else us_chars s)"
    unfolding p(2) by (rule sp_gone_ref [OF si h0]) (use sub in blast)
  have keep: "utf8_rep (sp_objs p) u ys" if x: "V x = Some u" and r: "utf8_rep (us_chars s) u ys" for x u ys
  proof -
    from vars [OF x] obtain ref d where re: "sp_handles p x = Some (ref, d)" "if ref = NULL then \<forall>g e. ?H g \<noteq> Some (string_of u, e) else ref = string_of u" by blast
    have "sp_objs p (string_of u) = us_chars s (string_of u)"
    proof (cases "r0 = string_of u")
      case True
      then have "ref \<noteq> NULL" using re(2) h0 by (cases "ref = NULL") auto
      then have "sp_handles p x = Some (r0, d)" using re True by simp
      then show ?thesis using gone by auto
    qed (use gone in auto)
    then show ?thesis using r by (simp add: utf8_rep_def cstr_def has_bytes_def)
  qed
  then show "V x = Some u \<Longrightarrow> utf8_rep (us_chars s) u ys \<Longrightarrow> utf8_rep (sp_objs p) u ys" .
  have own: "us_owner_ok (s\<lparr>us_sp := p, us_vars := V\<rparr>) x u \<and> (\<exists>ys. utf8_rep (sp_objs p) u ys)" if x: "V x = Some u" for x u
  proof -
    from vars [OF x] obtain ref d ys where re: "sp_handles p x = Some (ref, d)"
      "if ref = NULL then \<forall>g e. ?H g \<noteq> Some (string_of u, e) else ref = string_of u" "utf8_rep (us_chars s) u ys" by blast
    have "string_of u \<noteq> NULL" using re(3) by (simp add: utf8_rep_def cstr_def)
    then have "sp_handles p g \<noteq> Some (string_of u, e)" if "\<forall>g e. ?H g \<noteq> Some (string_of u, e)" for g e using sub that by blast
    then show ?thesis using re keep [OF x re(3)] unfolding us_owner_ok_def by (auto split: if_splits)
  qed
  have en: "us_empty s \<noteq> NULL" using e(1) by (simp add: cstr_def)
  have "sp_handles p g \<noteq> Some (us_empty s, e')" for g e' using sub e(2) en by blast
  moreover have "cstr (sp_objs p) (us_empty s) []" using e h0 unfolding gone by (auto intro: cstr_other)
  ultimately show "us_inv (s\<lparr>us_sp := p, us_vars := V\<rparr>)" using own p(1) by (simp add: us_inv_def)
qed

lemma Utf8_assign_ok:
  assumes inv: "us_inv s" and v: "us_vars s v = Some u0" and w: "us_vars s w = Some u"
  shows "\<exists>s'. Utf8_assign v w s = Inr s' \<and> us_inv s' \<and> us_vars s' = (us_vars s)(v \<mapsto> u) \<and>
     (\<forall>x ux ys. us_vars s' x = Some ux \<longrightarrow> utf8_rep (us_chars s) ux ys \<longrightarrow> utf8_rep (us_chars s') ux ys)"
proof -
  let ?H = "sp_handles (us_sp s)" and ?V = "(us_vars s)(v \<mapsto> u)"
  have si: "sp_inv (us_sp s)" using inv by (simp add: us_inv_def)
  from us_inv_var(1) [OF inv v] obtain r0 d0 where h0: "?H v = Some (r0, d0)" by (auto simp: us_owner_ok_def)
  from us_inv_var [OF inv w] obtain r d ys where h: "?H w = Some (r, d)"
    "if r = NULL then \<forall>g e. ?H g \<noteq> Some (string_of u, e) else r = string_of u" "utf8_rep (us_chars s) u ys" by (auto simp: us_owner_ok_def)
  from sp_share [OF si h0 h(1)] obtain p where
    p: "sp_assign v w (us_sp s) = Inr p" "sp_inv p" "sp_handles p = ?H(v \<mapsto> (r, d))" "sp_objs p = sp_gone (Some (r0, d0)) (sp_handles p) (us_chars s)" by blast
  have sub: "\<exists>g'. ?H g' = Some (ref, e)" if "sp_handles p g = Some (ref, e)" "ref \<noteq> NULL" for g ref e
    using that p(3) h(1) by (auto split: if_splits)
  have vars: "\<exists>ref d. sp_handles p x = Some (ref, d) \<and> (if ref = NULL then \<forall>g e. ?H g \<noteq> Some (string_of ux, e) else ref = string_of ux) \<and>
      (\<exists>ys. utf8_rep (us_chars s) ux ys)" if x: "?V x = Some ux" for x ux
  proof (cases "x = v")
    case True
    then show ?thesis using x h p(3) by auto
  next
    case False
    then show ?thesis using us_inv_var [OF inv, of x ux] x p(3) by (auto simp: us_owner_ok_def)
  qed
  have i: "us_inv (s\<lparr>us_sp := p, us_vars := ?V\<rparr>)" by (rule us_release(1) [OF inv h0 p(2,4)]) (fact sub, fact vars)
  have k: "utf8_rep (sp_objs p) ux zs" if "?V x = Some ux" "utf8_rep (us_chars s) ux zs" for x ux zs
    by (rule us_release(2) [OF inv h0 p(2,4), where V = ?V and x = x]) (fact sub, fact vars, fact that(1), fact that(2))
  have "Utf8_assign v w s = Inr (s\<lparr>us_sp := p, us_vars := ?V\<rparr>)" using w p(1) by (simp add: Utf8_assign_def u_get_def u_put_def)
  with i k show ?thesis by (intro exI [of _ "s\<lparr>us_sp := p, us_vars := ?V\<rparr>"]) simp
qed

section \<open>Counting and formatting\<close>

text \<open>What \<open>chars\<close> adds for a byte.\<close>

definition char_weight :: "u8 \<Rightarrow> nat" where
  "char_weight x = (if x AND 0x80 = 0 then 1 else 0) + (if x AND 0xc0 \<noteq> 0 then 1 else 0)"

lemma chars_loop_spec:
  assumes "cstr h p xs" and "i \<le> length xs"
  shows "chars_loop h p i c = Inr (c + of_nat (sum_list (map char_weight (drop i xs))))"
  using assms(2)
proof (induction "length xs - i" arbitrary: i c)
  case 0
  then have "i = length xs" by simp
  with cstr_read_end [OF assms(1)] cstr_len [OF assms(1)] show ?case by (simp add: chars_loop.simps)
next
  case (Suc k)
  then have i: "i < length xs" by simp
  let ?x = "xs ! i"
  have "drop i xs = ?x # drop (Suc i) xs" using i by (simp add: Cons_nth_drop_Suc)
  moreover have "chars_loop h p i c = chars_loop h p (Suc i) (c + of_nat (char_weight ?x))"
    using cstr_read [OF assms(1) i] i cstr_len [OF assms(1)]
    by (subst chars_loop.simps) (simp add: char_weight_def Let_def add.commute)
  ultimately show ?case using Suc i by (simp add: algebra_simps)
qed

lemma digit_char:
  "d < 16 \<Longrightarrow> num_to_str (of_nat d) up = digit_text up d"
proof -
  assume d: "d < 16"
  then have u: "unat (of_nat d :: u8) = d" by (intro unat_of_nat_lt) simp
  then have "(of_nat d :: u8) < 10 \<longleftrightarrow> d < 10" by (simp add: word_less_nat_alt)
  then show ?thesis by (simp add: num_to_str_def digit_text_def)
qed

lemma output_loop_digits:
  assumes "0 < b" and "b \<le> 16"
  shows "output_loop k (int b) up (int n) acc = map (digit_text up) (fix_digits k b n) @ acc"
proof (induction k arbitrary: n acc)
  case (Suc k)
  have "int n sdiv int b = int (n div b)" "int n smod int b = int (n mod b)"
    using assms by (simp_all add: signed_divide_int_def signed_modulo_int_def zdiv_int zmod_int sgn_if)
  moreover have "num_to_str (of_nat (n mod b)) up = digit_text up (n mod b)"
    by (rule digit_char) (use assms mod_less_divisor [of b n] in linarith)
  ultimately show ?case using Suc by simp
qed simp

lemma digit_text_0: "d < 16 \<Longrightarrow> digit_text up d = ch CHR ''0'' \<longleftrightarrow> d = 0"
proof -
  assume "d < 16"
  then have "d \<in> {0..<16}" by simp
  then have "d \<in> set [0..<16]" by simp
  then show ?thesis by (auto simp: digit_text_def upt_rec)
qed

lemma fix_digits_bound: "0 < b \<Longrightarrow> b \<le> 16 \<Longrightarrow> d \<in> set (fix_digits k b n) \<Longrightarrow> d < 16"
proof (induction k arbitrary: n)
  case (Suc k)
  then show ?case using mod_less_divisor [of b n] by (auto; linarith)
qed simp

lemma skip_start_digits:
  "\<forall>d \<in> set ds. d < 16 \<Longrightarrow> skip_start (map (digit_text up) ds) = map (digit_text up) (strip_zeros ds)"
  by (induction ds rule: strip_zeros.induct) (simp_all add: digit_text_0 del: of_char_Char)

lemma skip_output:
  assumes "2 \<le> b" and "b \<le> 16" and "n < b ^ 20"
  shows "skip_start (output_loop 20 (int b) up (int n) []) = num_text up b n"
proof -
  have "strip_zeros (fix_digits (Suc 19) b n) = nat_digits b n" by (rule strip_fix_digits) (use assms in simp_all)
  moreover have "Suc 19 = 20" by simp
  ultimately have "strip_zeros (fix_digits 20 b n) = nat_digits b n" by simp
  moreover have "\<forall>d \<in> set (fix_digits 20 b n). d < 16" using fix_digits_bound [of b _ 20 n] assms by auto
  ultimately show ?thesis
    using output_loop_digits [of b 20 up n "[]"] assms by (simp add: skip_start_digits num_text_def)
qed

lemma store_chars_fills:
  "filled h b pre (length xs + m) \<Longrightarrow> \<exists>cs. store_chars b (length pre) xs h = Inr (h(b \<mapsto> cs)) \<and>
     filled (h(b \<mapsto> cs)) b (pre @ xs) m"
proof (induction xs arbitrary: pre h)
  case Nil
  from filled_same [OF Nil] obtain cs where h: "h(b \<mapsto> cs) = h" by metis
  show ?case by (rule exI [of _ cs]) (use h Nil in \<open>simp only: h store_chars.simps append_Nil2 list.size add_0\<close>)
next
  case (Cons x xs)
  from filled_write [of h b pre "length xs + m" x] Cons.prems obtain cs where
    w: "buf_write h b (length pre) (Some x) = Inr (h(b \<mapsto> cs))" "filled (h(b \<mapsto> cs)) b (pre @ [x]) (length xs + m)" by auto
  from Cons.IH [OF w(2)] have "\<exists>ds. store_chars b (Suc (length pre)) xs (h(b \<mapsto> cs)) = Inr (h(b \<mapsto> ds)) \<and>
      filled (h(b \<mapsto> ds)) b (pre @ x # xs) m"
    by (simp only: fun_upd_upd append_assoc length_append list.size add_0_right append_Cons append_Nil add_Suc_right)
  then show ?case by (simp only: store_chars.simps w(1) bindE_Inr)
qed

lemma utf8_reads: 
  assumes "utf8_rep h u xs"
  shows "reads (u_index h u) 0 (xs @ [0])"
  unfolding reads_def
proof (intro allI impI)
  fix i
  assume i: "i < length (xs @ [0])"
  then have "i < 2 ^ 32" using utf8_rep_bytes(3) [OF assms] by simp
  then have "unat (of_nat i :: u32) = i" by (intro unat_of_nat_lt) simp
  with i show "u_index h u (0 + of_nat i) = Inr ((xs @ [0]) ! i)"
    using utf8_read(2) [OF assms, of "of_nat i"] by simp
qed

lemma u_format_ok:
  assumes inv: "us_inv s" and fresh: "us_fresh v t d a s"
    and u: "utf8_rep (us_chars s) u (fmt_text ps)" and ps: "\<forall>q \<in> set ps. piece_ok q"
    and run: "run_pieces fmt_lit (fmt_spec (us_chars s) objs) ps \<lparr>f_out = [], f_ap = ap, f_ints = ints\<rparr> = Inr st"
    and out: "0 \<notin> set (f_out st)" "length (f_out st) < 2 ^ 31 - 1"
  shows "\<exists>s'. u_format v t d a objs ap ints u s = Inr (s', f_ints st) \<and> us_inv s' \<and> us_text s' v (f_out st) \<and>
     (\<forall>w zs. w \<noteq> v \<longrightarrow> us_text s w zs \<longrightarrow> us_text s' w zs)"
proof -
  let ?g = "us_chars s" and ?xs = "f_out st"
  let ?n = "of_nat (length ?xs) :: u32"
  have a: "a \<noteq> NULL" "?g a = None" using fresh by (simp_all add: us_fresh_def)
  have loop: "fmt_loop (u_index ?g u) fmt_lit (fmt_spec ?g objs) 0 \<lparr>f_out = [], f_ap = ap, f_ints = ints\<rparr> = Some (Inr st)"
    unfolding run [symmetric] by (rule fmt_loop_runs [OF utf8_reads [OF u] ps])
  have n: "unat ?n = length ?xs" using out by (intro unat_of_nat_lt) simp
  then have n1: "unat (?n + 1) = length ?xs + 1" using out by (subst word_suc_unat) simp_all
  let ?h = "?g(a \<mapsto> replicate (unat (?n + 1)) None)"
  have al: "buf_alloc a 1 (?n + 1) ?g = (a, ?h)" "filled ?h a [] (length ?xs + 1)"
    using buf_alloc_fills [where n = "?n + 1" and a = a and h = ?g] n1
    by (simp_all only: word_less_nat_alt unsigned_0 zero_less_Suc Suc_eq_plus1 [symmetric])
  from store_chars_fills [OF al(2)] obtain c1 where
    c1: "store_chars a 0 ?xs ?h = Inr (?g(a \<mapsto> c1))" "filled (?g(a \<mapsto> c1)) a ?xs 1" by auto
  from filled_cstr [OF c1(2) a(1) out] obtain c2 where
    c2: "buf_write (?g(a \<mapsto> c1)) a (length ?xs) (Some 0) = Inr (?g(a \<mapsto> c2))" "cstr (?g(a \<mapsto> c2)) a ?xs" by auto
  from us_new_string [OF inv fresh c2(2)] obtain s' where
    s': "Utf8_own v t d a ?n (u_with_chars (?g(a \<mapsto> c2)) s) = Inr s'" "us_inv s'" "us_text s' v ?xs"
      "\<forall>w zs. w \<noteq> v \<longrightarrow> us_text s w zs \<longrightarrow> us_text s' w zs" by blast
  have "u_format v t d a objs ap ints u s = Inr (s', f_ints st)"
    unfolding u_format_def Let_def loop loopE_Some bindE_Inr al(1) prod.case c1(1) n c2(1) s'(1) by (rule refl)
  with s' show ?thesis by blast
qed

lemma fmt_number_nonneg:
  assumes "0 \<le> val" and "val < 2 ^ 31" and "cur \<in> set (map ch ''pxXoudi'')"
  shows "fmt_number cur val = num_text (cur = ch CHR ''X'') (nat (fmt_base cur)) (nat val)"
proof -
  have b: "fmt_base cur \<in> {8, 10, 16}" by (simp add: fmt_base_def)
  have "nat val < nat (fmt_base cur) ^ 20"
    using assms(2) b by auto
  with b have "skip_start (output_loop 20 (int (nat (fmt_base cur))) (cur = ch CHR ''X'') (int (nat val)) []) =
      num_text (cur = ch CHR ''X'') (nat (fmt_base cur)) (nat val)"
    by (intro skip_output) auto
  moreover have "int (nat (fmt_base cur)) = fmt_base cur" using b by auto
  ultimately show ?thesis using assms(1) by (simp add: fmt_number_def Let_def del: of_char_Char)
qed

lemma fmt_number_neg:
  assumes "- (2 ^ 31) < val" and "val < 0" and "cur = ch CHR ''d'' \<or> cur = ch CHR ''i''"
  shows "fmt_number cur val = ch CHR ''-'' # num_text False 10 (nat (- val))"
proof -
  have "sint (of_int (- val) :: u32) = - val" by (rule sint_of_int_32) (use assms in simp_all)
  then have v: "sint (- (of_int val :: u32)) = int (nat (- val))" using assms by simp
  have b: "fmt_base cur = int 10" using assms(3) by (auto simp: fmt_base_def)
  have "nat (- val) < 10 ^ 20" using assms by simp
  then have o: "skip_start (output_loop 20 (int 10) False (int (nat (- val))) []) = num_text False 10 (nat (- val))"
    by (intro skip_output) auto
  have X: "(cur = ch CHR ''X'') = False" using assms(3) by auto
  have g: "(cur = ch CHR ''d'' \<or> cur = ch CHR ''i'') = True" "(val < 0) = True" using assms by blast+
  show ?thesis unfolding fmt_number_def Let_def X b g simp_thms if_True v o append_Cons append_Nil ..
qed

lemma fmt_spec_number:
  assumes "cur \<in> set (map ch ''xXoudi'')" and "f_ap st = w # ap"
  shows "fmt_spec h objs cur 0 st = Inr (f_push (fmt_number cur (sint w)) (st\<lparr>f_ap := ap\<rparr>))"
  using assms by (auto simp: fmt_spec_def fmt_val_def)

lemma fmt_spec_pointer:
  "f_ap st = w # ap \<Longrightarrow> fmt_spec h objs (ch CHR ''p'') 0 st =
    Inr (f_push (map ch ''0x'' @ fmt_number (ch CHR ''p'') (sint w)) (st\<lparr>f_ap := ap\<rparr>))"
  by (simp add: fmt_spec_def fmt_val_def f_push_def)

lemma fmt_spec_string:
  "cstr h p xs \<Longrightarrow> f_ap st = p # ap \<Longrightarrow> fmt_spec h objs (ch CHR ''s'') 0 st = Inr (f_push xs (st\<lparr>f_ap := ap\<rparr>))"
  by (simp add: fmt_spec_def strlen_cstr read_chars_cstr [of h p xs 0 "length xs"])

lemma fmt_item_run:
  assumes "item_ok (2 ^ 31) h it" and "f_ap st = item_args it @ ap"
  shows "run_pieces fmt_lit (fmt_spec h objs) [item_piece it] st = Inr (f_push (item_text it) (st\<lparr>f_ap := ap\<rparr>))"
proof -
  have num: "fmt_number cur (sint w) = num_text (cur = ch CHR ''X'') (nat (fmt_base cur)) (unat w)"
    if w: "unat w < 2 ^ 31" and c: "cur \<in> set (map ch ''pxXoudi'')" for w :: u32 and cur
  proof -
    from fmt_number_nonneg [OF _ int_unat_less [OF w] c] sint_small_32 [OF w] show ?thesis
      by (simp del: of_char_Char)
  qed
  show ?thesis
  proof (cases it)
    case (IChar c)
    with assms(2) show ?thesis by (cases st) (simp add: fmt_lit_def)
  next
    case IPercent
    with assms(2) show ?thesis by (cases st) (simp add: fmt_spec_def)
  next
    case (IDec i)
    with assms have i: "- (2 ^ 31) < i" "i < 2 ^ 31" and w: "f_ap st = of_int i # ap" by simp_all
    have "sint (of_int i :: u32) = i" by (rule sint_of_int_32) (use i in simp_all)
    moreover have "fmt_number (ch CHR ''d'') i = item_text it"
      using fmt_number_neg [OF i(1), of "ch CHR ''d''"] fmt_number_nonneg [OF _ i(2), of "ch CHR ''d''"] IDec
      by (simp add: fmt_base_def)
    ultimately show ?thesis using fmt_spec_number [of "ch CHR ''d''" st "of_int i" ap h objs] w IDec
      by (simp del: of_char_Char)
  next
    case (IUns w)
    with assms fmt_spec_number [of "ch CHR ''u''" st w ap h objs] num [of w "ch CHR ''u''"] show ?thesis
      by (simp add: fmt_base_def)
  next
    case (IHex up w)
    with assms fmt_spec_number [of "ch CHR ''x''" st w ap h objs] num [of w "ch CHR ''x''"]
      fmt_spec_number [of "ch CHR ''X''" st w ap h objs] num [of w "ch CHR ''X''"] show ?thesis
      by (simp add: fmt_base_def)
  next
    case (IOct w)
    with assms fmt_spec_number [of "ch CHR ''o''" st w ap h objs] num [of w "ch CHR ''o''"] show ?thesis
      by (simp add: fmt_base_def)
  next
    case (IPtr w)
    with assms fmt_spec_pointer [of st w ap h objs] num [of w "ch CHR ''p''"] show ?thesis
      by (simp add: fmt_base_def)
  next
    case (IStr p xs)
    with assms fmt_spec_string [of h p xs st ap objs] show ?thesis by simp
  qed
qed

lemma fmt_items_run:
  assumes "\<forall>it \<in> set items. item_ok (2 ^ 31) h it" and "f_ap st = concat (map item_args items) @ ap"
  shows "run_pieces fmt_lit (fmt_spec h objs) (map item_piece items) st =
     Inr (f_push (concat (map item_text items)) (st\<lparr>f_ap := ap\<rparr>))"
  using assms
proof (induction items arbitrary: st)
  case Nil
  then show ?case by (cases st) (simp add: f_push_def)
next
  case (Cons it items)
  have "run_pieces fmt_lit (fmt_spec h objs) [item_piece it] st =
      Inr (f_push (item_text it) (st\<lparr>f_ap := concat (map item_args items) @ ap\<rparr>))"
    by (rule fmt_item_run) (use Cons.prems in simp_all)
  moreover have "run_pieces fmt_lit (fmt_spec h objs) (map item_piece items)
      (f_push (item_text it) (st\<lparr>f_ap := concat (map item_args items) @ ap\<rparr>)) =
      Inr (f_push (concat (map item_text (it # items))) (st\<lparr>f_ap := ap\<rparr>))"
    using Cons.IH [of "f_push (item_text it) (st\<lparr>f_ap := concat (map item_args items) @ ap\<rparr>)"] Cons.prems
    by (simp add: f_push_def)
  ultimately show ?case by (subst list.map, subst run_pieces_Cons) (simp only: bindE_Inr)
qed

section \<open>Properties\<close>

text \<open>Two literals, \<open>ab\<close> and \<open>abc\<close>, as variables 0 and 1.\<close>

definition u_example_a :: utf8 where "u_example_a = \<lparr>string_of = 0x100, byte_count = 2\<rparr>"
definition u_example_b :: utf8 where "u_example_b = \<lparr>string_of = 0x200, byte_count = 3\<rparr>"

definition us_example :: ustate where
  "us_example = \<lparr>us_sp = \<lparr>sp_objs = [0x100 \<mapsto> map Some [97, 98, 0], 0x200 \<mapsto> map Some [97, 98, 99, 0], 0x300 \<mapsto> [Some 0]],
     sp_data = Map.empty, sp_handles = [0 \<mapsto> (NULL, NULL), 1 \<mapsto> (NULL, NULL)]\<rparr>,
     us_vars = [0 \<mapsto> u_example_a, 1 \<mapsto> u_example_b], us_empty = 0x300\<rparr>"

lemma us_example_reps:
  "utf8_rep (us_chars us_example) u_example_a [97, 98]" "utf8_rep (us_chars us_example) u_example_b [97, 98, 99]"
  by (simp_all add: utf8_rep_def cstr_def has_bytes_def us_example_def u_example_a_def u_example_b_def)

lemma us_example_inv: "us_inv us_example"
proof -
  have "sp_users [0 \<mapsto> (NULL, NULL), 1 \<mapsto> (NULL, NULL)] d = {}" for d
    by (auto simp: sp_users_def split: if_splits)
  moreover have "sp_paired [0 \<mapsto> (NULL, NULL), 1 \<mapsto> (NULL, NULL)]"
    by (auto simp: sp_paired_def split: if_splits)
  ultimately have "sp_inv (us_sp us_example)"
    by (auto simp: sp_inv_def us_example_def split: if_splits)
  moreover have "us_owner_ok us_example 0 u_example_a" "us_owner_ok us_example 1 u_example_b"
    by (auto simp: us_owner_ok_def us_example_def u_example_a_def u_example_b_def split: if_splits)
  moreover have "us_owner_ok us_example v u \<and> (\<exists>xs. utf8_rep (us_chars us_example) u xs)"
    if v: "us_vars us_example v = Some u" for v u
  proof -
    have "v = 0 \<and> u = u_example_a \<or> v = 1 \<and> u = u_example_b" using v by (auto simp: us_example_def split: if_splits)
    with calculation us_example_reps show ?thesis by blast
  qed
  moreover have "cstr (us_chars us_example) (us_empty us_example) []"
    "\<forall>g e. sp_handles (us_sp us_example) g \<noteq> Some (us_empty us_example, e)"
    by (auto simp: us_example_def cstr_def has_bytes_def split: if_splits)
  ultimately show ?thesis unfolding us_inv_def by blast
qed

lemma us_example_fresh: "us_fresh 2 3 0x40 0x400 us_example"
  by (simp add: us_fresh_def us_example_def)

lemma us_example_text: "us_text us_example 0 [97, 98]" "us_text us_example 1 [97, 98, 99]"
  using us_example_reps by (simp_all add: us_text_def us_example_def)



text \<open>\<open>find\<close> returns the first position from \<open>pos\<close> on at which the needle occurs, and \<open>npos\<close> when
  there is none, for every needle not longer than the text.\<close>

theorem utf8_find_first:
  assumes "utf8_rep h u xs" and "utf8_rep h v ys" and "length ys \<le> length xs" and "unat pos \<le> length xs"
  shows "u_find h u v pos = Inr (position (first_occurrence xs ys (unat pos)))"
  by (rule u_find_spec [OF assms])

theorem utf8_find_first_witness: "u_find (us_chars us_example) u_example_b u_example_a 0 = Inr 0"
  using utf8_find_first [OF us_example_reps(2,1), of 0]
  by (simp add: first_occurrence_def position_def upt_rec)

text \<open>\<open>find\<close> with a needle longer than the text reads past the text's terminator: the bound
  \<open>bytes() - str.bytes()\<close> wraps, so the loop does not stop at the end of the buffer.\<close>

theorem utf8_find_longer_overruns:
  assumes "utf8_rep h u xs" and "utf8_rep h v ys" and "string_of u \<noteq> string_of v" and "length xs < length ys"
    and "h (string_of u) = Some (map Some (xs @ [0]))"
  shows "u_find h u v 0 = Inl Fault"
  using find_loop_overruns [OF assms, of 0] by (simp add: u_find_def)

theorem utf8_find_longer_overruns_witness: "u_find (us_chars us_example) u_example_a u_example_b 0 = Inl Fault"
  by (rule utf8_find_longer_overruns [OF us_example_reps])
    (simp_all add: us_example_def u_example_a_def u_example_b_def)

text \<open>\<open>operator+\<close> returns a new string that owns its buffer and whose text is the two texts one after
  the other; every other string variable keeps its text and every owner stays valid.\<close>

theorem utf8_concat_appends:
  assumes "us_inv s" and "us_fresh v t d a s" and "utf8_rep (us_chars s) u xs" and "utf8_rep (us_chars s) w ys"
    and "length xs + length ys < 2 ^ 31 - 1"
  shows "\<exists>s'. u_concat v t d a u w s = Inr s' \<and> us_inv s' \<and> us_text s' v (xs @ ys) \<and>
     sp_handles (us_sp s') v = Some (a, d) \<and> (\<forall>x zs. x \<noteq> v \<longrightarrow> us_text s x zs \<longrightarrow> us_text s' x zs)"
  using concat_chars_ok [OF assms(1,2), of "string_of u" xs "string_of w" ys] assms(3-5)
  by (auto simp: u_concat_def utf8_rep_def u_bytes_def)

theorem utf8_concat_appends_witness:
  "\<exists>s'. u_concat 2 3 0x40 0x400 u_example_a u_example_b us_example = Inr s' \<and> us_text s' 2 [97, 98, 97, 98, 99]"
  using utf8_concat_appends [OF us_example_inv us_example_fresh us_example_reps] by auto

text \<open>\<open>substr\<close> from a position inside the text returns the requested bytes, or the rest of the text when
  that is shorter, in a new string; the other strings keep their texts.\<close>

theorem utf8_substr_extracts:
  assumes "us_inv s" and "us_fresh v t d a s" and "utf8_rep (us_chars s) u xs" and "unat pos \<le> length xs"
  shows "\<exists>s'. u_substr v t d a u pos len s = Inr s' \<and> us_inv s' \<and>
     us_text s' v (take (unat len) (drop (unat pos) xs)) \<and> (\<forall>x zs. x \<noteq> v \<longrightarrow> us_text s x zs \<longrightarrow> us_text s' x zs)"
  by (rule u_substr_ok [OF assms])

theorem utf8_substr_extracts_witness:
  "\<exists>s'. u_substr 2 3 0x40 0x400 u_example_b 1 npos us_example = Inr s' \<and> us_text s' 2 [98, 99]"
  using utf8_substr_extracts [OF us_example_inv us_example_fresh us_example_reps(2), of 1 npos]
  by (auto simp: npos_def unsigned_minus_1_eq_mask mask_eq_exp_minus_1)

text \<open>Assigning one string to another (itself included) makes both denote the same text, keeps every other
  string's text and frees no buffer that a string still uses.\<close>

theorem utf8_assign_shares:
  assumes "us_inv s" and "us_text s v ys" and "us_text s w xs"
  shows "\<exists>s'. Utf8_assign v w s = Inr s' \<and> us_inv s' \<and> us_text s' v xs \<and> us_text s' w xs \<and>
     (\<forall>x zs. x \<noteq> v \<longrightarrow> us_text s x zs \<longrightarrow> us_text s' x zs)"
proof -
  from assms obtain u0 u where v: "us_vars s v = Some u0" and w: "us_vars s w = Some u" "utf8_rep (us_chars s) u xs"
    by (auto simp: us_text_def)
  from Utf8_assign_ok [OF assms(1) v w(1)] obtain s' where
    s': "Utf8_assign v w s = Inr s'" "us_inv s'" "us_vars s' = (us_vars s)(v \<mapsto> u)"
    and keep: "\<And>x ux ys. us_vars s' x = Some ux \<Longrightarrow> utf8_rep (us_chars s) ux ys \<Longrightarrow> utf8_rep (us_chars s') ux ys" by blast
  have "us_text s' v xs" "us_text s' w xs" using keep [of v u xs] keep [of w u xs] w s'(3) by (auto simp: us_text_def)
  moreover have "us_text s' x zs" if x: "x \<noteq> v" "us_text s x zs" for x zs
  proof -
    from x(2) obtain ux where "us_vars s x = Some ux" "utf8_rep (us_chars s) ux zs" by (auto simp: us_text_def)
    with keep [of x ux zs] x(1) s'(3) show ?thesis by (auto simp: us_text_def)
  qed
  ultimately show ?thesis using s' by blast
qed

theorem utf8_assign_shares_witness:
  "\<exists>s'. Utf8_assign 0 1 us_example = Inr s' \<and> us_text s' 0 [97, 98, 99]"
  using utf8_assign_shares [OF us_example_inv us_example_text] by auto


text \<open>The format \<open>%d %x\<close> as variable 0.\<close>

definition us_fmt_example :: ustate where
  "us_fmt_example = \<lparr>us_sp = \<lparr>sp_objs = [0x100 \<mapsto> map Some [37, 100, 32, 37, 120, 0], 0x300 \<mapsto> [Some 0]],
     sp_data = Map.empty, sp_handles = Map.empty\<rparr>, us_vars = Map.empty, us_empty = 0x300\<rparr>"

lemma us_fmt_example_ok:
  "us_inv us_fmt_example" "us_fresh 2 3 0x40 0x400 us_fmt_example"
  "utf8_rep (us_chars us_fmt_example) \<lparr>string_of = 0x100, byte_count = 5\<rparr>
     (fmt_text (map item_piece [IDec (- 69), IChar 32, IHex False 255]))"
  by (auto simp: us_inv_def sp_inv_def sp_users_def sp_paired_def us_fmt_example_def us_fresh_def utf8_rep_def
      cstr_def has_bytes_def fmt_text_def)


text \<open>An unsigned argument from \<open>2 ^ 31\<close> on is held in a signed \<open>int\<close> and its digits are negative
  remainders: \<open>%u\<close> of \<open>2 ^ 32 - 1\<close> gives a single \<open>V\<close>.\<close>

theorem utf8_format_unsigned_garbage:
  "fmt_spec h objs (ch CHR ''u'') 0 \<lparr>f_out = [], f_ap = [0xFFFFFFFF], f_ints = ints\<rparr> =
     Inr \<lparr>f_out = map ch ''V'', f_ap = [], f_ints = ints\<rparr> \<and>
   num_text False 10 (unat (0xFFFFFFFF :: u32)) = map ch ''4294967295''"
proof -
  have "skip_start (output_loop 20 10 False (- 1) []) = [86]" by code_simp
  moreover have "num_text False 10 4294967295 = map ch ''4294967295''"
    by (simp add: num_text_def nat_digits.simps digit_text_def)
  ultimately show ?thesis by (simp add: fmt_spec_def fmt_val_def f_push_def fmt_number_def fmt_base_def)
qed

end
