(* ===== verification/Utf8Life.thy ===== *)
theory Utf8Life
  imports Utf8
begin

text \<open>
  The life of strings (\<open>src/structures/utf8.cpp\<close>, \<open>include/structures/utf8.hpp\<close>): constructors, copies, moves, assignments and the destructor
  share and free buffers through \<open>shared_ptr\<close>. Shown here is that strings are values: each operation keeps the invariant of \<open>Utf8\<close> and does
  to the texts of the variables what it should, whatever buffers are shared.
\<close>

section \<open>New variables\<close>

text \<open>A new variable without a buffer of its own.\<close>

lemma us_new:
  assumes inv: "us_inv s" and v: "sp_handles (us_sp s) v = None" and n: "card (dom (sp_handles (us_sp s))) + 1 < 2 ^ 32 - 1"
  shows "us_inv (s\<lparr>us_sp := sp_new v (us_sp s)\<rparr>)" and "us_vars s v = None"
    and "utf8_rep (us_chars s) u xs \<Longrightarrow> \<forall>g e. sp_handles (us_sp s) g \<noteq> Some (string_of u, e) \<Longrightarrow> us_inv (u_put v u (s\<lparr>us_sp := sp_new v (us_sp s)\<rparr>))"
proof -
  have nv: "us_vars s v = None"
  proof (cases "us_vars s v")
    case (Some a)
    from us_inv_var(1) [OF inv this] v show ?thesis by (simp add: us_owner_ok_def)
  qed
  then show "us_vars s v = None" .
  have si: "sp_inv (sp_new v (us_sp s))" using inv v n by (intro sp_new_inv) (simp_all add: us_inv_def)
  have h: "sp_handles (sp_new v (us_sp s)) = (sp_handles (us_sp s))(v \<mapsto> (NULL, NULL))" "sp_objs (sp_new v (us_sp s)) = us_chars s"
    by (simp_all add: sp_new_def sp_set_def)
  have nn: "string_of u \<noteq> NULL" if "utf8_rep (us_chars s) u xs" for u xs using that by (simp add: utf8_rep_def cstr_def)
  have own: "us_owner_ok (s\<lparr>us_sp := sp_new v (us_sp s), us_vars := W\<rparr>) x w" if x: "us_vars s x = Some w" for x w W
  proof -
    from us_inv_var [OF inv x] obtain ys where ys: "us_owner_ok s x w" "utf8_rep (us_chars s) w ys" by blast
    moreover have "x \<noteq> v" using nv x by auto
    ultimately show ?thesis using nn [OF ys(2)] by (auto simp: us_owner_ok_def h split: if_splits)
  qed
  have em: "\<forall>g e. sp_handles (sp_new v (us_sp s)) g \<noteq> Some (us_empty s, e)" "cstr (us_chars s) (us_empty s) []"
    using inv by (auto simp: us_inv_def h cstr_def)
  have own0: "us_owner_ok (s\<lparr>us_sp := sp_new v (us_sp s)\<rparr>) x w" if "us_vars s x = Some w" for x w
    using own [OF that, of "us_vars s"] by simp
  show "us_inv (s\<lparr>us_sp := sp_new v (us_sp s)\<rparr>)" using si em own0 us_inv_var(2) [OF inv] by (simp add: us_inv_def h)
  assume u: "utf8_rep (us_chars s) u xs" "\<forall>g e. sp_handles (us_sp s) g \<noteq> Some (string_of u, e)"
  let ?s = "s\<lparr>us_sp := sp_new v (us_sp s), us_vars := (us_vars s)(v \<mapsto> u)\<rparr>"
  have "us_owner_ok ?s v u" using u nn [OF u(1)] by (auto simp: us_owner_ok_def h)
  then have "us_inv ?s" using si em own us_inv_var(2) [OF inv] u(1) by (auto simp: us_inv_def h)
  moreover have "u_put v u (s\<lparr>us_sp := sp_new v (us_sp s)\<rparr>) = ?s" by (simp add: u_put_def)
  ultimately show "us_inv (u_put v u (s\<lparr>us_sp := sp_new v (us_sp s)\<rparr>))" by simp
qed

section \<open>Texts of variables\<close>

text \<open>The abstraction: the text of each variable.\<close>

definition utexts :: "ustate \<Rightarrow> (nat \<Rightarrow> u8 list option) \<Rightarrow> bool" where
  "utexts s t \<longleftrightarrow> us_inv s \<and> dom t = dom (us_vars s) \<and> (\<forall>v xs. t v = Some xs \<longrightarrow> us_text s v xs)"

lemma utexts_var:
  assumes "utexts s t" and "t v = Some xs"
  shows "\<exists>u ref d. us_vars s v = Some u \<and> utf8_rep (us_chars s) u xs \<and> sp_handles (us_sp s) v = Some (ref, d) \<and>
    (if ref = NULL then \<forall>g e. sp_handles (us_sp s) g \<noteq> Some (string_of u, e) else ref = string_of u)"
proof -
  from assms have "us_text s v xs" and inv: "us_inv s" unfolding utexts_def by blast+
  then obtain u where u: "us_vars s v = Some u" "utf8_rep (us_chars s) u xs" by (auto simp: us_text_def)
  from us_inv_var(1) [OF inv u(1)] u show ?thesis by (auto simp: us_owner_ok_def)
qed

text \<open>After \<open>us_release\<close>, the abstraction is that of the new variables.\<close>

lemma utexts_release:
  assumes t: "utexts s t" and h0: "sp_handles (us_sp s) v = Some (r0, d0)"
    and p: "sp_inv p" "sp_objs p = sp_gone (Some (r0, d0)) (sp_handles p) (us_chars s)"
    and sub: "\<And>g ref e. sp_handles p g = Some (ref, e) \<Longrightarrow> ref \<noteq> NULL \<Longrightarrow> \<exists>g'. sp_handles (us_sp s) g' = Some (ref, e)"
    and d: "dom t' = dom V"
    and vars: "\<And>x xs. t' x = Some xs \<Longrightarrow> \<exists>u ref d. V x = Some u \<and> utf8_rep (us_chars s) u xs \<and> sp_handles p x = Some (ref, d) \<and>
      (if ref = NULL then \<forall>g e. sp_handles (us_sp s) g \<noteq> Some (string_of u, e) else ref = string_of u)"
  shows "utexts (s\<lparr>us_sp := p, us_vars := V\<rparr>) t'"
proof -
  have inv: "us_inv s" using t by (simp add: utexts_def)
  have v: "\<exists>ref d. sp_handles p x = Some (ref, d) \<and> (if ref = NULL then \<forall>g e. sp_handles (us_sp s) g \<noteq> Some (string_of u, e) else ref = string_of u) \<and>
      (\<exists>ys. utf8_rep (us_chars s) u ys)" if x: "V x = Some u" for x u
  proof -
    from x d obtain xs where "t' x = Some xs" by blast
    from vars [OF this] x show ?thesis by force
  qed
  note r = us_release [OF inv h0 p sub v]
  have "us_text (s\<lparr>us_sp := p, us_vars := V\<rparr>) x xs" if "t' x = Some xs" for x xs
    using vars [OF that] r(2) by (auto simp: us_text_def)
  then show ?thesis using r(1) d by (simp add: utexts_def)
qed

lemma Utf8_destroy_texts:
  assumes t: "utexts s t" and v: "t v = Some xs"
  shows "\<exists>s'. Utf8_destroy v s = Inr s' \<and> utexts s' (t(v := None))"
proof -
  let ?H = "sp_handles (us_sp s)"
  from utexts_var [OF t v] obtain u r0 d0 where u: "us_vars s v = Some u" "?H v = Some (r0, d0)" by blast
  have si: "sp_inv (us_sp s)" using t by (simp add: utexts_def us_inv_def)
  from sp_drop [OF si u(2), of None] obtain s1 where
    s1: "decrement_usage (r0, d0) (us_sp s) = Inr s1" "sp_handles s1 = ?H" "sp_objs s1 = sp_gone (Some (r0, d0)) (?H(v := None)) (us_chars s)"
      "sp_inv (s1\<lparr>sp_handles := ?H(v := None)\<rparr>)" by auto
  let ?p = "s1\<lparr>sp_handles := ?H(v := None)\<rparr>"
  have "utexts (s\<lparr>us_sp := ?p, us_vars := (us_vars s)(v := None)\<rparr>) (t(v := None))"
  proof (rule utexts_release [OF t u(2) s1(4)])
    fix x xs assume x: "(t(v := None)) x = Some xs"
    then have "x \<noteq> v" "t x = Some xs" by (auto split: if_splits)
    with utexts_var [OF t this(2)] show "\<exists>u ref d. ((us_vars s)(v := None)) x = Some u \<and> utf8_rep (us_chars s) u xs \<and> sp_handles ?p x = Some (ref, d) \<and>
      (if ref = NULL then \<forall>g e. ?H g \<noteq> Some (string_of u, e) else ref = string_of u)" by simp
  qed (use s1(3) t in \<open>auto simp: utexts_def split: if_splits\<close>)
  moreover have "Utf8_destroy v s = Inr (s\<lparr>us_sp := ?p, us_vars := (us_vars s)(v := None)\<rparr>)"
    using s1(1,2) u(2) by (simp add: Utf8_destroy_def sp_destroy_def sp_get_def)
  ultimately show ?thesis by blast
qed

lemma Utf8_assign_texts:
  assumes t: "utexts s t" and v: "t v = Some xs" and w: "t w = Some ys"
  shows "\<exists>s'. Utf8_assign v w s = Inr s' \<and> utexts s' (t(v \<mapsto> ys))"
proof -
  from utexts_var [OF t v] utexts_var [OF t w] obtain u0 u where u: "us_vars s v = Some u0" "us_vars s w = Some u" "utf8_rep (us_chars s) u ys" by blast
  have inv: "us_inv s" using t by (simp add: utexts_def)
  from Utf8_assign_ok [OF inv u(1,2)] obtain s' where s': "Utf8_assign v w s = Inr s'" "us_inv s'" "us_vars s' = (us_vars s)(v \<mapsto> u)"
    and k: "\<And>x ux zs. us_vars s' x = Some ux \<Longrightarrow> utf8_rep (us_chars s) ux zs \<Longrightarrow> utf8_rep (us_chars s') ux zs" by blast
  have "us_text s' x zs" if x: "(t(v \<mapsto> ys)) x = Some zs" for x zs
  proof (cases "x = v")
    case True
    then show ?thesis using x k [of v u ys] u(3) s'(3) by (auto simp: us_text_def)
  next
    case False
    then obtain ux where "us_vars s x = Some ux" "utf8_rep (us_chars s) ux zs" using utexts_var [OF t, of x zs] x by auto
    then show ?thesis using k [of x ux zs] False s'(3) by (auto simp: us_text_def)
  qed
  then have "utexts s' (t(v \<mapsto> ys))" using s'(2,3) t by (auto simp: utexts_def)
  with s'(1) show ?thesis by blast
qed

lemma Utf8_move_assign_texts:
  assumes t: "utexts s t" and v: "t v = Some xs" and w: "t w = Some ys" and ne: "v \<noteq> w"
  shows "\<exists>s'. Utf8_move_assign v w s = Inr s' \<and> utexts s' (t(v \<mapsto> ys, w \<mapsto> []))"
proof -
  let ?H = "sp_handles (us_sp s)" and ?E = "\<lparr>string_of = us_empty s, byte_count = 0\<rparr>"
  from utexts_var [OF t v] obtain r0 d0 where h0: "?H v = Some (r0, d0)" by blast
  from utexts_var [OF t w] obtain u r d where h: "us_vars s w = Some u" "utf8_rep (us_chars s) u ys" "?H w = Some (r, d)"
    "if r = NULL then \<forall>g e. ?H g \<noteq> Some (string_of u, e) else r = string_of u" by blast
  have si: "sp_inv (us_sp s)" and em: "utf8_rep (us_chars s) ?E []" "\<forall>g e. ?H g \<noteq> Some (us_empty s, e)"
    using t by (simp_all add: utexts_def us_inv_def utf8_rep_def)
  from sp_move_assign_inv [OF si h0 h(3) ne] obtain p where p: "sp_move_assign v w (us_sp s) = Inr p" "sp_inv p"
    "sp_handles p = ?H(v \<mapsto> (r, d), w \<mapsto> (NULL, NULL))" "sp_objs p = sp_gone (Some (r0, d0)) (sp_handles p) (us_chars s)" by blast
  let ?V = "(us_vars s)(v \<mapsto> u, w \<mapsto> ?E)"
  have "utexts (s\<lparr>us_sp := p, us_vars := ?V\<rparr>) (t(v \<mapsto> ys, w \<mapsto> []))"
  proof (rule utexts_release [OF t h0 p(2,4)])
    fix x zs assume x: "(t(v \<mapsto> ys, w \<mapsto> [])) x = Some zs"
    show "\<exists>u ref d. ?V x = Some u \<and> utf8_rep (us_chars s) u zs \<and> sp_handles p x = Some (ref, d) \<and>
      (if ref = NULL then \<forall>g e. ?H g \<noteq> Some (string_of u, e) else ref = string_of u)"
    proof (cases "x = v \<or> x = w")
      case True
      then show ?thesis using x h em ne by (auto simp: p(3))
    next
      case False
      then show ?thesis using x utexts_var [OF t, of x zs] by (auto simp: p(3))
    qed
  qed (use p(3) h(3) t in \<open>auto simp: utexts_def split: if_splits\<close>)
  moreover have "Utf8_move_assign v w s = Inr (s\<lparr>us_sp := p, us_vars := ?V\<rparr>)" using h(1) p(1) by (simp add: Utf8_move_assign_def u_get_def u_put_def)
  ultimately show ?thesis by blast
qed

text \<open>Constructors: a variable with a null handle first, which gives the abstraction nothing to change.\<close>

definition unused :: "nat \<Rightarrow> ustate \<Rightarrow> bool" where
  "unused v s \<longleftrightarrow> sp_handles (us_sp s) v = None \<and> card (dom (sp_handles (us_sp s))) + 1 < 2 ^ 32 - 1"

lemma utexts_new:
  assumes t: "utexts s t" and v: "unused v s"
  shows "utexts (s\<lparr>us_sp := sp_new v (us_sp s)\<rparr>) t" and "t v = None"
    and "utf8_rep (us_chars s) u xs \<Longrightarrow> \<forall>g e. sp_handles (us_sp s) g \<noteq> Some (string_of u, e) \<Longrightarrow>
      utexts (u_put v u (s\<lparr>us_sp := sp_new v (us_sp s)\<rparr>)) (t(v \<mapsto> xs))"
proof -
  have inv: "us_inv s" and d: "dom t = dom (us_vars s)" and tx: "\<forall>v xs. t v = Some xs \<longrightarrow> us_text s v xs" using t by (simp_all add: utexts_def)
  have v': "sp_handles (us_sp s) v = None" "card (dom (sp_handles (us_sp s))) + 1 < 2 ^ 32 - 1" using v by (simp_all add: unused_def)
  note n = us_new [OF inv v']
  have c: "sp_objs (sp_new v (us_sp s)) = us_chars s" by (simp add: sp_new_def sp_set_def)
  show "utexts (s\<lparr>us_sp := sp_new v (us_sp s)\<rparr>) t" using n(1) d tx by (simp add: utexts_def us_text_def c)
  show tv: "t v = None" using n(2) d by blast
  assume u: "utf8_rep (us_chars s) u xs" "\<forall>g e. sp_handles (us_sp s) g \<noteq> Some (string_of u, e)"
  have "us_text (u_put v u (s\<lparr>us_sp := sp_new v (us_sp s)\<rparr>)) x ys" if "(t(v \<mapsto> xs)) x = Some ys" for x ys
  proof (cases "x = v")
    case True
    then show ?thesis using that u(1) by (simp add: us_text_def u_put_def c)
  next
    case False
    then have "us_text s x ys" using tx that by simp
    then show ?thesis using False by (simp add: us_text_def u_put_def c)
  qed
  then show "utexts (u_put v u (s\<lparr>us_sp := sp_new v (us_sp s)\<rparr>)) (t(v \<mapsto> xs))"
    using n(3) [OF u] d unfolding utexts_def by (simp add: u_put_def)
qed

lemma Utf8_empty_texts:
  assumes t: "utexts s t" and v: "unused v s"
  shows "utexts (Utf8_empty v s) (t(v \<mapsto> []))"
proof -
  have "Utf8_empty v s = u_put v \<lparr>string_of = us_empty s, byte_count = 0\<rparr> (s\<lparr>us_sp := sp_new v (us_sp s)\<rparr>)"
    by (simp add: Utf8_empty_def sp_from_ptr_def sp_new_def)
  moreover have "utf8_rep (us_chars s) \<lparr>string_of = us_empty s, byte_count = 0\<rparr> []" "\<forall>g e. sp_handles (us_sp s) g \<noteq> Some (us_empty s, e)"
    using t by (simp_all add: utexts_def us_inv_def utf8_rep_def)
  ultimately show ?thesis using utexts_new(3) [OF t v, of "\<lparr>string_of = us_empty s, byte_count = 0\<rparr>" "[]"] by simp
qed

lemma Utf8_literal_texts:
  assumes t: "utexts s t" and v: "unused v s" and x: "cstr (us_chars s) str xs" "\<forall>g e. sp_handles (us_sp s) g \<noteq> Some (str, e)"
  shows "\<exists>s'. Utf8_literal v str s = Inr s' \<and> utexts s' (t(v \<mapsto> xs))"
proof -
  let ?u = "\<lparr>string_of = str, byte_count = of_nat (length xs)\<rparr>"
  have "Utf8_literal v str s = Inr (u_put v ?u (s\<lparr>us_sp := sp_new v (us_sp s)\<rparr>))" using strlen_cstr [OF x(1)] by (simp add: Utf8_literal_def)
  moreover have "utf8_rep (us_chars s) ?u xs" using x(1) by (simp add: utf8_rep_def)
  ultimately show ?thesis using utexts_new(3) [OF t v, of ?u xs] x(2) by simp
qed

lemma Utf8_copy_texts:
  assumes t: "utexts s t" and v: "unused v s" and w: "t w = Some ys"
  shows "\<exists>s'. Utf8_copy v w s = Inr s' \<and> utexts s' (t(v \<mapsto> ys))"
proof -
  let ?s = "s\<lparr>us_sp := sp_new v (us_sp s)\<rparr>"
  let ?H = "sp_handles (us_sp ?s)"
  note n = utexts_new(1,2) [OF t v]
  have ne: "v \<noteq> w" using n(2) w by auto
  from utexts_var [OF n(1) w] obtain u r d where h: "us_vars ?s w = Some u" "utf8_rep (us_chars ?s) u ys" "?H w = Some (r, d)"
    "if r = NULL then \<forall>g e. ?H g \<noteq> Some (string_of u, e) else r = string_of u" by blast
  have h0: "?H v = Some (NULL, NULL)" by (simp add: sp_new_def sp_set_def)
  have si: "sp_inv (us_sp ?s)" using n(1) by (simp add: utexts_def us_inv_def)
  from sp_share [OF si h0 h(3)] obtain p where p: "sp_assign v w (us_sp ?s) = Inr p" "sp_inv p" "sp_handles p = ?H(v \<mapsto> (r, d))"
    "sp_objs p = sp_gone (Some (NULL, NULL)) (sp_handles p) (us_chars ?s)" by blast
  let ?V = "(us_vars s)(v \<mapsto> u)"
  have "utexts (?s\<lparr>us_sp := p, us_vars := ?V\<rparr>) (t(v \<mapsto> ys))"
  proof (rule utexts_release [OF n(1) h0 p(2,4)])
    fix x zs assume x: "(t(v \<mapsto> ys)) x = Some zs"
    show "\<exists>u ref d. ?V x = Some u \<and> utf8_rep (us_chars ?s) u zs \<and> sp_handles p x = Some (ref, d) \<and>
      (if ref = NULL then \<forall>g e. ?H g \<noteq> Some (string_of u, e) else ref = string_of u)"
    proof (cases "x = v")
      case True
      then show ?thesis using x h by (auto simp: p(3))
    next
      case False
      then show ?thesis using x utexts_var [OF n(1), of x zs] by (auto simp: p(3))
    qed
  qed (use p(3) h(3) t in \<open>auto simp: utexts_def split: if_splits\<close>)
  moreover have "Utf8_copy v w s = Inr (?s\<lparr>us_sp := p, us_vars := ?V\<rparr>)"
    using h(1) p(1) sp_copy_construct_eq [OF ne, of "us_sp s"] by (simp add: Utf8_copy_def u_get_def u_put_def)
  ultimately show ?thesis by blast
qed

lemma Utf8_move_texts:
  assumes t: "utexts s t" and v: "unused v s" and w: "t w = Some ys"
  shows "\<exists>s'. Utf8_move v w s = Inr s' \<and> utexts s' (t(v \<mapsto> ys, w \<mapsto> []))"
proof -
  let ?s = "u_put v \<lparr>string_of = us_empty s, byte_count = 0\<rparr> (s\<lparr>us_sp := sp_new v (us_sp s)\<rparr>)"
  have em: "utf8_rep (us_chars s) \<lparr>string_of = us_empty s, byte_count = 0\<rparr> []" "\<forall>g e. sp_handles (us_sp s) g \<noteq> Some (us_empty s, e)"
    using t by (simp_all add: utexts_def us_inv_def utf8_rep_def)
  then have t': "utexts ?s (t(v \<mapsto> []))" by (intro utexts_new(3) [OF t v]) simp_all
  have ne: "v \<noteq> w" using utexts_new(2) [OF t v] w by auto
  from Utf8_move_assign_texts [OF t', of v "[]" w ys] w ne obtain s' where s': "Utf8_move_assign v w ?s = Inr s'" "utexts s' (t(v \<mapsto> [], v \<mapsto> ys, w \<mapsto> []))" by auto
  have "Utf8_move v w s = Utf8_move_assign v w ?s"
    using sp_move_construct_eq [OF ne, of "us_sp s"] ne by (simp add: Utf8_move_def Utf8_move_assign_def u_get_def u_put_def fun_upd_twist)
  with s' show ?thesis by simp
qed

section \<open>Operations that make a string\<close>

lemma Utf8_own_vars: "Utf8_own v t d b n s = Inr s' \<Longrightarrow> \<exists>u. us_vars s' = (us_vars s)(v \<mapsto> u)"
  by (auto simp: Utf8_own_def Utf8_empty_def u_put_def Let_def result_iff)

lemma u_concat_vars: "u_concat v t d a x y s = Inr s' \<Longrightarrow> \<exists>u. us_vars s' = (us_vars s)(v \<mapsto> u)"
  by (auto simp: u_concat_def concat_chars_def Let_def result_iff u_with_chars_def split: prod.splits dest!: Utf8_own_vars)

lemma u_substr_vars: "u_substr v t d a x pos len s = Inr s' \<Longrightarrow> \<exists>u. us_vars s' = (us_vars s)(v \<mapsto> u)"
  by (auto simp: u_substr_def Let_def result_iff u_with_chars_def split: prod.splits dest!: Utf8_own_vars)

lemma utexts_made:
  assumes t: "utexts s t" and s': "us_inv s'" "us_text s' v xs" "\<forall>w zs. w \<noteq> v \<longrightarrow> us_text s w zs \<longrightarrow> us_text s' w zs" "\<exists>u. us_vars s' = (us_vars s)(v \<mapsto> u)"
  shows "utexts s' (t(v \<mapsto> xs))"
  using assms by (auto simp: utexts_def)

text \<open>The operations, with the variables, addresses and blocks they are called with. \<open>ULiteral\<close> names the text of its literal.\<close>

datatype uop = UEmpty nat | ULiteral nat u32 "u8 list" | UCopy nat nat | UMove nat nat | UAssign nat nat | UMoveAssign nat nat | UDestroy nat
  | UConcat nat nat u32 u32 nat nat | USubstr nat nat u32 u32 nat u32 u32

fun run_uop :: "uop \<Rightarrow> ustate \<Rightarrow> ustate result" where
  "run_uop (UEmpty v) s = Inr (Utf8_empty v s)"
| "run_uop (ULiteral v str xs) s = Utf8_literal v str s"
| "run_uop (UCopy v w) s = Utf8_copy v w s"
| "run_uop (UMove v w) s = Utf8_move v w s"
| "run_uop (UAssign v w) s = Utf8_assign v w s"
| "run_uop (UMoveAssign v w) s = Utf8_move_assign v w s"
| "run_uop (UDestroy v) s = Utf8_destroy v s"
| "run_uop (UConcat v t d a x y) s = bindE (u_get x s) (\<lambda>u. bindE (u_get y s) (\<lambda>w. u_concat v t d a u w s))"
| "run_uop (USubstr v t d a x pos len) s = bindE (u_get x s) (\<lambda>u. u_substr v t d a u pos len s)"

text \<open>What a caller has to respect, given the texts of the variables.\<close>

fun uop_ok :: "uop \<Rightarrow> ustate \<Rightarrow> (nat \<Rightarrow> u8 list option) \<Rightarrow> bool" where
  "uop_ok (UEmpty v) s t \<longleftrightarrow> unused v s"
| "uop_ok (ULiteral v str xs) s t \<longleftrightarrow> unused v s \<and> cstr (us_chars s) str xs \<and> (\<forall>g e. sp_handles (us_sp s) g \<noteq> Some (str, e))"
| "uop_ok (UCopy v w) s t \<longleftrightarrow> unused v s \<and> t w \<noteq> None"
| "uop_ok (UMove v w) s t \<longleftrightarrow> unused v s \<and> t w \<noteq> None"
| "uop_ok (UAssign v w) s t \<longleftrightarrow> t v \<noteq> None \<and> t w \<noteq> None"
| "uop_ok (UMoveAssign v w) s t \<longleftrightarrow> t v \<noteq> None \<and> t w \<noteq> None \<and> v \<noteq> w"
| "uop_ok (UDestroy v) s t \<longleftrightarrow> t v \<noteq> None"
| "uop_ok (UConcat v tmp d a x y) s t \<longleftrightarrow> us_fresh v tmp d a s \<and> t x \<noteq> None \<and> t y \<noteq> None \<and> length (the (t x)) + length (the (t y)) < 2 ^ 31 - 1"
| "uop_ok (USubstr v tmp d a x pos len) s t \<longleftrightarrow> us_fresh v tmp d a s \<and> t x \<noteq> None \<and> unat pos \<le> length (the (t x))"

text \<open>What it does to the texts.\<close>

fun uop_texts :: "uop \<Rightarrow> (nat \<Rightarrow> u8 list option) \<Rightarrow> (nat \<Rightarrow> u8 list option)" where
  "uop_texts (UEmpty v) t = t(v \<mapsto> [])"
| "uop_texts (ULiteral v str xs) t = t(v \<mapsto> xs)"
| "uop_texts (UCopy v w) t = t(v := t w)"
| "uop_texts (UMove v w) t = t(v := t w, w \<mapsto> [])"
| "uop_texts (UAssign v w) t = t(v := t w)"
| "uop_texts (UMoveAssign v w) t = t(v := t w, w \<mapsto> [])"
| "uop_texts (UDestroy v) t = t(v := None)"
| "uop_texts (UConcat v tmp d a x y) t = t(v \<mapsto> the (t x) @ the (t y))"
| "uop_texts (USubstr v tmp d a x pos len) t = t(v \<mapsto> take (unat len) (drop (unat pos) (the (t x))))"

lemma utexts_text: "utexts s t \<Longrightarrow> t v = Some xs \<Longrightarrow> us_text s v xs"
  unfolding utexts_def by blast

lemma utexts_get:
  assumes "utexts s t" and "t x \<noteq> None"
  shows "\<exists>u. u_get x s = Inr u \<and> utf8_rep (us_chars s) u (the (t x))"
  using assms utexts_var [of s t x "the (t x)"] by (auto simp: u_get_def)

lemma u_concat_texts:
  assumes t: "utexts s t" and ok: "uop_ok (UConcat v tmp d a x y) s t"
  shows "\<exists>s'. run_uop (UConcat v tmp d a x y) s = Inr s' \<and> utexts s' (uop_texts (UConcat v tmp d a x y) t)"
proof -
  from ok have f: "us_fresh v tmp d a s" "t x \<noteq> None" "t y \<noteq> None" "length (the (t x)) + length (the (t y)) < 2 ^ 31 - 1" by simp_all
  from utexts_get [OF t f(2)] utexts_get [OF t f(3)] obtain u w where u: "u_get x s = Inr u" "utf8_rep (us_chars s) u (the (t x))"
    and w: "u_get y s = Inr w" "utf8_rep (us_chars s) w (the (t y))" by blast
  have inv: "us_inv s" using t by (simp add: utexts_def)
  have c: "cstr (us_chars s) (string_of u) (the (t x))" "cstr (us_chars s) (string_of w) (the (t y))" using u(2) w(2) by (simp_all add: utf8_rep_def)
  from concat_chars_ok [OF inv f(1) c f(4)] u(2) w(2) obtain s' where s': "u_concat v tmp d a u w s = Inr s'" "us_inv s'" "us_text s' v (the (t x) @ the (t y))"
    "\<forall>w zs. w \<noteq> v \<longrightarrow> us_text s w zs \<longrightarrow> us_text s' w zs" by (auto simp: u_concat_def utf8_rep_def u_bytes_def)
  from utexts_made [OF t s'(2-4) u_concat_vars [OF s'(1)]] s'(1) u(1) w(1) show ?thesis by simp
qed

lemma u_substr_texts:
  assumes t: "utexts s t" and ok: "uop_ok (USubstr v tmp d a x pos len) s t"
  shows "\<exists>s'. run_uop (USubstr v tmp d a x pos len) s = Inr s' \<and> utexts s' (uop_texts (USubstr v tmp d a x pos len) t)"
proof -
  from ok have f: "us_fresh v tmp d a s" "t x \<noteq> None" "unat pos \<le> length (the (t x))" by simp_all
  from utexts_get [OF t f(2)] obtain u where u: "u_get x s = Inr u" "utf8_rep (us_chars s) u (the (t x))" by blast
  have inv: "us_inv s" using t by (simp add: utexts_def)
  from u_substr_ok [OF inv f(1) u(2) f(3), of len] obtain s' where s': "u_substr v tmp d a u pos len s = Inr s'" "us_inv s'"
    "us_text s' v (take (unat len) (drop (unat pos) (the (t x))))" "\<forall>w zs. w \<noteq> v \<longrightarrow> us_text s w zs \<longrightarrow> us_text s' w zs" by blast
  from utexts_made [OF t s'(2-4) u_substr_vars [OF s'(1)]] s'(1) u(1) show ?thesis by simp
qed

section \<open>Properties\<close>

text \<open>C36: Strings are well-formed values. Every constructor, copy, move, assignment and destructor and the operations that make new strings return, keep
  the invariant (every variable denotes a live, terminated text, buffers live exactly as long as some string owns them) and change the
  texts of the variables as on values: no operation changes the text of another variable, although buffers are shared.\<close>

theorem utf8_operations_keep_values:
  assumes "utexts s t" and "uop_ok p s t"
  shows "\<exists>s'. run_uop p s = Inr s' \<and> us_inv s' \<and> utexts s' (uop_texts p t)"
proof -
  have "\<exists>s'. run_uop p s = Inr s' \<and> utexts s' (uop_texts p t)"
  proof (cases p)
    case (UEmpty v) with assms Utf8_empty_texts show ?thesis by simp
  next
    case (ULiteral v str xs) with assms Utf8_literal_texts show ?thesis by simp
  next
    case (UCopy v w) with assms Utf8_copy_texts [of s t v w] show ?thesis by auto
  next
    case (UMove v w) with assms Utf8_move_texts [of s t v w] show ?thesis by auto
  next
    case (UAssign v w) with assms Utf8_assign_texts [of s t v _ w] show ?thesis by auto
  next
    case (UMoveAssign v w) with assms Utf8_move_assign_texts [of s t v _ w] show ?thesis by auto
  next
    case (UDestroy v) with assms Utf8_destroy_texts [of s t v] show ?thesis by auto
  next
    case (UConcat v tmp d a x y) with assms u_concat_texts show ?thesis by blast
  next
    case (USubstr v tmp d a x pos len) with assms u_substr_texts show ?thesis by blast
  qed
  then show ?thesis by (auto simp: utexts_def)
qed

lemma us_example_texts: "utexts us_example [0 \<mapsto> [97, 98], 1 \<mapsto> [97, 98, 99]]"
  using us_example_inv us_example_text by (auto simp: utexts_def us_example_def split: if_splits)

theorem utf8_operations_keep_values_witness:
  "\<exists>s'. run_uop (UConcat 2 3 0x40 0x400 0 1) us_example = Inr s' \<and> us_text s' 2 [97, 98, 97, 98, 99] \<and> us_text s' 0 [97, 98]"
proof -
  have "uop_ok (UConcat 2 3 0x40 0x400 0 1) us_example [0 \<mapsto> [97, 98], 1 \<mapsto> [97, 98, 99]]" using us_example_fresh by simp
  from utf8_operations_keep_values [OF us_example_texts this] obtain s' where s': "run_uop (UConcat 2 3 0x40 0x400 0 1) us_example = Inr s'"
    "utexts s' (uop_texts (UConcat 2 3 0x40 0x400 0 1) [0 \<mapsto> [97, 98], 1 \<mapsto> [97, 98, 99]])" by blast
  have "us_text s' 2 [97, 98, 97, 98, 99]" "us_text s' 0 [97, 98]" by (rule utexts_text [OF s'(2)], simp)+
  with s'(1) show ?thesis by blast
qed

end
