(* ===== verification/Vm.thy ===== *)
theory Vm
  imports Page
begin

text \<open>
  \<open>src/mem/vm.cpp\<close> and \<open>src/mem/object.cpp\<close> with their headers: address spaces (\<open>vm::Map\<close>), the
  objects whose pages they show (\<open>object::Object\<close>) and the windows that connect them
  (\<open>object::ObjectInMap\<close>). The structures live in maps from addresses, page tables and directories are
  lists of entries at the address they are installed at, and pages come from the page allocator's
  model. Addresses of new structures are arguments. Pages that the virtual \<open>do_generate\<close> of an object
  loads come from the argument \<open>gen\<close>. Signed 64-bit addresses are integers. \<open>k\<close> is the fuel of the
  heap operations.
\<close>

section \<open>State\<close>

record vmap =
  vm_using_cpu :: u32
  vm_physical_dir :: u32
  vm_logical_dir :: u32
  vm_tab_pages :: "u32 list"
  vm_tables :: "u32 list"
  vm_pid :: u32
  vm_task_id :: u32
  vm_oims :: "u32 list"

record object_in_map =
  oi_object :: u32
  oi_map :: u32
  oi_base :: u32
  oi_offset :: int
  oi_pages :: u32

text \<open>The chain of \<open>PageEntry\<close> structures, each owned by the one before it, is a list of offsets and
  pages.\<close>

record kobject =
  ob_entries :: "(u32 \<times> u32) list"
  ob_max_pages :: u32
  ob_page_flags :: u8
  ob_object_flags :: u8
  ob_oims :: "u32 list"

record vworld =
  vw_mem :: mem
  vw_maps :: "u32 \<Rightarrow> vmap option"
  vw_objs :: "u32 \<Rightarrow> kobject option"
  vw_oims :: "u32 \<Rightarrow> object_in_map option"
  vw_tabs :: "u32 \<Rightarrow> u32 list option"
  vw_mutex :: bool
  vw_cpu :: u32
  vw_cr3 :: u32
  vw_invl :: "u32 list"
  vw_sent :: "(u32 \<times> u32) list"

definition NO_CPU :: u32 where "NO_CPU = 0xffffffff"

definition USER_TABLES :: nat where "USER_TABLES = PAGE_TABLE_LENGTH - KERNEL_VM_PAGE_TABLES"

lemma USER_TABLES_val [simp]: "USER_TABLES = 768"
  by (simp add: USER_TABLES_def PAGE_TABLE_LENGTH_def KERNEL_VM_PAGE_TABLES_val)

definition rd_map :: "vworld \<Rightarrow> u32 \<Rightarrow> vmap result" where
  "rd_map w p = (case vw_maps w p of None \<Rightarrow> Inl Fault | Some m \<Rightarrow> Inr m)"

definition rd_obj :: "vworld \<Rightarrow> u32 \<Rightarrow> kobject result" where
  "rd_obj w p = (case vw_objs w p of None \<Rightarrow> Inl Fault | Some m \<Rightarrow> Inr m)"

definition rd_oim :: "vworld \<Rightarrow> u32 \<Rightarrow> object_in_map result" where
  "rd_oim w p = (case vw_oims w p of None \<Rightarrow> Inl Fault | Some m \<Rightarrow> Inr m)"

definition wr_map :: "u32 \<Rightarrow> vmap \<Rightarrow> vworld \<Rightarrow> vworld" where
  "wr_map p m w = w\<lparr>vw_maps := (vw_maps w)(p \<mapsto> m)\<rparr>"

definition wr_obj :: "u32 \<Rightarrow> kobject \<Rightarrow> vworld \<Rightarrow> vworld" where
  "wr_obj p m w = w\<lparr>vw_objs := (vw_objs w)(p \<mapsto> m)\<rparr>"

text \<open>An element of a fixed-size array.\<close>

definition arr_get :: "u32 list \<Rightarrow> nat \<Rightarrow> u32 result" where
  "arr_get xs i = (if i < length xs then Inr (xs ! i) else Inl Fault)"

definition set_entry :: "u32 \<Rightarrow> nat \<Rightarrow> u32 \<Rightarrow> vworld \<Rightarrow> vworld result" where
  "set_entry t i v w = (case vw_tabs w t of None \<Rightarrow> Inl Fault
     | Some es \<Rightarrow> if i < length es then Inr (w\<lparr>vw_tabs := (vw_tabs w)(t \<mapsto> es[i := v])\<rparr>) else Inl Fault)"

definition run_mem :: "(mem \<Rightarrow> ('a \<times> mem) result) \<Rightarrow> vworld \<Rightarrow> ('a \<times> vworld) result" where
  "run_mem f w = bindE (f (vw_mem w)) (\<lambda>(x, m). Inr (x, w\<lparr>vw_mem := m\<rparr>))"

definition run_mem_unit :: "(mem \<Rightarrow> mem result option) \<Rightarrow> vworld \<Rightarrow> vworld result" where
  "run_mem_unit f w = bindE (loopE (f (vw_mem w))) (\<lambda>r. bindE r (\<lambda>m. Inr (w\<lparr>vw_mem := m\<rparr>)))"

section \<open>\<open>vm::Map\<close>\<close>

text \<open>The constructor shares the kernel's part of the page directory.\<close>

definition Map_new :: "nat \<Rightarrow> u32 \<Rightarrow> u32 \<Rightarrow> u32 \<Rightarrow> bool \<Rightarrow> vworld \<Rightarrow> vworld result" where
  "Map_new k mp pid task_id kern w =
     bindE (run_mem (page_alloc k (if kern then FLAG_KERNEL else 0) 1) w) (\<lambda>(pd, w1).
     bindE (run_mem (kinstall k pd PAGE_TABLE_RW) w1) (\<lambda>(ld, w2).
     let entries = map (\<lambda>i. if i \<ge> USER_TABLES then m_ptes (vw_mem w2) (page_dir (vw_mem w2) + 4 * of_nat i) else 0)
           [0..<PAGE_TABLE_LENGTH]
     in Inr (wr_map mp \<lparr>vm_using_cpu = NO_CPU, vm_physical_dir = pd, vm_logical_dir = ld,
          vm_tab_pages = replicate USER_TABLES NULL, vm_tables = replicate USER_TABLES NULL,
          vm_pid = pid, vm_task_id = task_id, vm_oims = []\<rparr>
          (w2\<lparr>vw_tabs := (vw_tabs w2)(ld \<mapsto> entries)\<rparr>))))"

definition new_table :: "nat \<Rightarrow> int \<Rightarrow> u32 \<Rightarrow> u32 \<Rightarrow> vworld \<Rightarrow> vworld result" where
  "new_table k addr mp page_flags w = (let slot = nat (addr div 0x400000) in
     bindE (rd_map w mp) (\<lambda>m. bindE (arr_get (vm_tables m) slot) (\<lambda>t.
     if t \<noteq> NULL then Inr w
     else bindE (run_mem (page_alloc k 0 1) w) (\<lambda>(pg, w1).
          bindE (run_mem (kinstall k pg (page_flags OR PAGE_TABLE_RW)) w1) (\<lambda>(table, w2).
          bindE (rd_map w2 mp) (\<lambda>m2. bindE (rd_page (vw_mem w2) pg) (\<lambda>p.
          let w3 = wr_map mp (m2\<lparr>vm_tab_pages := (vm_tab_pages m2)[slot := pg], vm_tables := (vm_tables m2)[slot := table]\<rparr>)
                (w2\<lparr>vw_tabs := (vw_tabs w2)(table \<mapsto> replicate PAGE_TABLE_LENGTH 0)\<rparr>)
          in set_entry (vm_logical_dir m2) slot (mem_base p OR PAGE_TABLE_PRESENT OR page_flags) w3)))))))"

text \<open>\<open>invlpg\<close>: on the CPU that uses the map, here or by a message.\<close>

definition vm_invlpg :: "u32 \<Rightarrow> int \<Rightarrow> vworld \<Rightarrow> vworld result" where
  "vm_invlpg mp addr w = (let (saved, fl) = push_cli (m_eflags (vw_mem w));
       w0 = w\<lparr>vw_mem := (vw_mem w)\<lparr>m_eflags := fl\<rparr>\<rparr> in
     bindE (Mutex_lock (vw_mutex w0)) (\<lambda>f. let w1 = w0\<lparr>vw_mutex := f\<rparr> in
     bindE (rd_map w1 mp) (\<lambda>m.
     let w2 = (if vm_using_cpu m = NO_CPU then w1
               else if vm_using_cpu m = vw_cpu w1 then w1\<lparr>vw_invl := of_int addr # vw_invl w1\<rparr>
               else w1\<lparr>vw_sent := (vm_using_cpu m, of_int addr) # vw_sent w1\<rparr>)
     in Inr (w2\<lparr>vw_mutex := snd (Mutex_unlock (vw_mutex w2)),
                vw_mem := (vw_mem w2)\<lparr>m_eflags := pop_flags saved (m_eflags (vw_mem w2))\<rparr>\<rparr>))))"

text \<open>One page of \<open>insert\<close>, its loop over the pages of a chunk (which leaves the whole function at the
  upper bound), and the recursion over the chain.\<close>

definition insert_one :: "nat \<Rightarrow> u32 \<Rightarrow> int \<Rightarrow> u32 \<Rightarrow> u32 \<Rightarrow> vworld \<Rightarrow> vworld result" where
  "insert_one k mp addr frame page_flags w = (let dir_slot = nat (addr div 0x400000);
       page_slot = nat (addr div 0x1000) mod 0x400 in
     bindE (rd_map w mp) (\<lambda>m. bindE (arr_get (vm_tab_pages m) dir_slot) (\<lambda>tp.
     bindE (if tp = NULL then new_table k addr mp page_flags w else Inr w) (\<lambda>w1.
     bindE (rd_map w1 mp) (\<lambda>m1. bindE (arr_get (vm_tables m1) dir_slot) (\<lambda>t.
     bindE (set_entry t page_slot (frame OR page_flags OR PAGE_TABLE_PRESENT) w1) (\<lambda>w2.
     vm_invlpg mp addr w2)))))))"

fun insert_loop :: "nat \<Rightarrow> u32 \<Rightarrow> nat \<Rightarrow> u32 \<Rightarrow> u32 \<Rightarrow> int \<Rightarrow> u32 \<Rightarrow> u32 \<Rightarrow> u32 \<Rightarrow> vworld \<Rightarrow>
    (int option \<times> vworld) result" where
  "insert_loop k mp 0 i base addr page_flags lo hi w = Inr (Some addr, w)"
| "insert_loop k mp (Suc n) i base addr page_flags lo hi w =
     bindE (if uint lo \<le> addr then insert_one k mp addr (base + i * PAGE_SIZE) page_flags w else Inr w) (\<lambda>w1.
     if uint hi \<le> addr + 0x1000 then Inr (None, w1)
     else insert_loop k mp n (i + 1) base (addr + 0x1000) page_flags lo hi w1)"

partial_function (option) Map_insert :: "nat \<Rightarrow> u32 \<Rightarrow> int \<Rightarrow> u32 \<Rightarrow> u32 \<Rightarrow> u32 \<Rightarrow> u32 \<Rightarrow> vworld \<Rightarrow> vworld result option" where
  "Map_insert k mp addr pg page_flags lo hi w =
     (if uint hi \<le> addr \<or> addr < 0 then Some (Inr w)
      else case m_pages (vw_mem w) pg of None \<Rightarrow> Some (Inl Fault)
      | Some p \<Rightarrow> (case insert_loop k mp (unat (consecutive p)) 0 (mem_base p) addr page_flags lo hi w of
          Inl e \<Rightarrow> Some (Inl e)
        | Inr (None, w1) \<Rightarrow> Some (Inr w1)
        | Inr (Some addr1, w1) \<Rightarrow> (case m_pages (vw_mem w1) pg of None \<Rightarrow> Some (Inl Fault)
            | Some p1 \<Rightarrow> if pg_next p1 \<noteq> NULL then Map_insert k mp addr1 (pg_next p1) page_flags lo hi w1
                         else Some (Inr w1))))"

definition vm_insert :: "nat \<Rightarrow> u32 \<Rightarrow> int \<Rightarrow> u32 \<Rightarrow> u32 \<Rightarrow> u32 \<Rightarrow> u32 \<Rightarrow> vworld \<Rightarrow> vworld result" where
  "vm_insert k mp addr pg page_flags lo hi w = bindE (loopE (Map_insert k mp addr pg page_flags lo hi w)) (\<lambda>r. r)"

fun clear_loop :: "u32 \<Rightarrow> nat \<Rightarrow> int \<Rightarrow> vworld \<Rightarrow> vworld result" where
  "clear_loop mp 0 addr w = Inr w"
| "clear_loop mp (Suc n) addr w = (let dir_slot = nat (addr div 0x400000); page_slot = nat (addr div 0x1000) mod 0x400 in
     bindE (rd_map w mp) (\<lambda>m. bindE (arr_get (vm_tables m) dir_slot) (\<lambda>t.
     bindE (set_entry t page_slot 0 w) (\<lambda>w1. bindE (vm_invlpg mp addr w1) (clear_loop mp n (addr + 0x1000))))))"

definition vm_clear :: "u32 \<Rightarrow> int \<Rightarrow> u32 \<Rightarrow> vworld \<Rightarrow> vworld result" where
  "vm_clear mp addr pages w = (if addr < 0 then Inr w else clear_loop mp (unat pages) addr w)"

definition vm_enter :: "u32 \<Rightarrow> vworld \<Rightarrow> vworld result" where
  "vm_enter mp w = bindE (Mutex_lock (vw_mutex w)) (\<lambda>f. let w1 = w\<lparr>vw_mutex := f\<rparr> in
     bindE (rd_map w1 mp) (\<lambda>m.
     if vm_using_cpu m \<noteq> NO_CPU then Inl (Panic ''Tried to set a VM which is already owned by another CPU'')
     else bindE (rd_page (vw_mem w1) (vm_physical_dir m)) (\<lambda>pd.
       let w2 = (wr_map mp (m\<lparr>vm_using_cpu := vw_cpu w1\<rparr>) w1)\<lparr>vw_cr3 := mem_base pd\<rparr>
       in Inr (w2\<lparr>vw_mutex := snd (Mutex_unlock (vw_mutex w2))\<rparr>))))"

definition vm_exit :: "u32 \<Rightarrow> vworld \<Rightarrow> vworld result" where
  "vm_exit mp w = bindE (Mutex_lock (vw_mutex w)) (\<lambda>f. let w1 = w\<lparr>vw_mutex := f\<rparr> in
     bindE (rd_map w1 mp) (\<lambda>m.
     let w2 = (wr_map mp (m\<lparr>vm_using_cpu := NO_CPU\<rparr>) w1)\<lparr>vw_cr3 := page_dir (vw_mem w1) - KERNEL_VM_BASE\<rparr>
     in Inr (w2\<lparr>vw_mutex := snd (Mutex_unlock (vw_mutex w2))\<rparr>)))"

section \<open>\<open>object::Object\<close>\<close>

definition Object_new :: "u32 \<Rightarrow> u32 \<Rightarrow> u8 \<Rightarrow> u8 \<Rightarrow> vworld \<Rightarrow> vworld" where
  "Object_new obj max_pages page_flags object_flags w = wr_obj obj \<lparr>ob_entries = [], ob_max_pages = max_pages,
     ob_page_flags = page_flags, ob_object_flags = object_flags, ob_oims = []\<rparr> w"

text \<open>The destructor frees every page; the entries go with it.\<close>

fun free_entries :: "nat \<Rightarrow> (u32 \<times> u32) list \<Rightarrow> vworld \<Rightarrow> vworld result" where
  "free_entries k [] w = Inr w"
| "free_entries k ((off, pg) # es) w = bindE (run_mem_unit (page_free k pg) w) (free_entries k es)"

definition Object_destroy :: "nat \<Rightarrow> u32 \<Rightarrow> vworld \<Rightarrow> vworld result" where
  "Object_destroy k obj w = bindE (rd_obj w obj) (\<lambda>ob. bindE (free_entries k (ob_entries ob) w) (\<lambda>w1.
     Inr (w1\<lparr>vw_objs := (vw_objs w1)(obj := None)\<rparr>)))"

text \<open>\<open>oim->map->insert(oim->base + offset - oim->offset, ...)\<close>: the sum wraps at 32 bits, the difference is
  a signed 64-bit number.\<close>

definition oim_insert :: "nat \<Rightarrow> u32 \<Rightarrow> u32 \<Rightarrow> u32 \<Rightarrow> object_in_map \<Rightarrow> vworld \<Rightarrow> vworld result" where
  "oim_insert k off pg page_flags oim w = vm_insert k (oi_map oim) (uint (oi_base oim + off) - oi_offset oim) pg page_flags
     (oi_base oim) (oi_base oim + oi_pages oim * PAGE_SIZE) w"

fun generate_maps :: "nat \<Rightarrow> u32 \<Rightarrow> u32 \<Rightarrow> u32 \<Rightarrow> u32 list \<Rightarrow> vworld \<Rightarrow> vworld result" where
  "generate_maps k addr pg page_flags [] w = Inr w"
| "generate_maps k addr pg page_flags (x # xs) w = bindE (rd_oim w x) (\<lambda>oim.
     bindE (oim_insert k addr pg page_flags oim w) (generate_maps k addr pg page_flags xs))"

text \<open>The number of pages to load: capped by the object's size and by the next entry.\<close>

definition cap_count :: "u32 \<Rightarrow> u32 \<Rightarrow> u32 \<Rightarrow> u32 option" where
  "cap_count max_pages addr count = (if max_pages < addr div PAGE_SIZE + count
     then if max_pages < addr div PAGE_SIZE then None else Some (max_pages - addr div PAGE_SIZE)
     else Some count)"

definition bump_count :: "(u32 \<times> u32) list \<Rightarrow> u32 \<Rightarrow> u32 \<Rightarrow> u32" where
  "bump_count nxt addr count = (case nxt of [] \<Rightarrow> count
     | (off, pg) # es \<Rightarrow> if off \<le> addr + count * PAGE_SIZE then (off - addr) div PAGE_SIZE else count)"

definition Object_generate :: "nat \<Rightarrow> (u32 \<Rightarrow> u32 \<Rightarrow> u32 \<Rightarrow> mem \<Rightarrow> (u32 \<times> mem) result) \<Rightarrow> u32 \<Rightarrow> u32 \<Rightarrow> u32 \<Rightarrow> vworld \<Rightarrow> vworld result" where
  "Object_generate k gen obj addr count0 w = bindE (rd_obj w obj) (\<lambda>ob.
     case cap_count (ob_max_pages ob) addr count0 of None \<Rightarrow> Inr w | Some count1 \<Rightarrow>
     let prevs = takeWhile (\<lambda>e. fst e < addr) (ob_entries ob);
         nxt = dropWhile (\<lambda>e. fst e < addr) (ob_entries ob);
         count = bump_count nxt addr count1
     in if count = 0 then Inr w
        else bindE (run_mem (gen obj addr count) w) (\<lambda>(pg, w1).
          let w2 = wr_obj obj (ob\<lparr>ob_entries := prevs @ (addr, pg) # nxt\<rparr>) w1
          in generate_maps k addr pg (ucast (ob_page_flags ob)) (ob_oims ob) w2))"

fun fill_entries :: "nat \<Rightarrow> u32 \<Rightarrow> object_in_map \<Rightarrow> (u32 \<times> u32) list \<Rightarrow> vworld \<Rightarrow> vworld result" where
  "fill_entries k page_flags oim [] w = Inr w"
| "fill_entries k page_flags oim ((off, pg) # es) w =
     bindE (oim_insert k off pg page_flags oim w) (fill_entries k page_flags oim es)"

definition add_object_in_map :: "nat \<Rightarrow> u32 \<Rightarrow> u32 \<Rightarrow> vworld \<Rightarrow> vworld result" where
  "add_object_in_map k obj x w = bindE (rd_obj w obj) (\<lambda>ob. bindE (rd_oim w x) (\<lambda>oim.
     fill_entries k (ucast (ob_page_flags ob)) oim (ob_entries ob) (wr_obj obj (ob\<lparr>ob_oims := x # ob_oims ob\<rparr>) w)))"

fun clear_entries :: "object_in_map \<Rightarrow> (u32 \<times> u32) list \<Rightarrow> vworld \<Rightarrow> vworld result" where
  "clear_entries oim [] w = Inr w"
| "clear_entries oim ((off, pg) # es) w =
     bindE (bindE (loopE (page_count 0 pg (vw_mem w))) (\<lambda>r. r)) (\<lambda>n.
     bindE (vm_clear (oi_map oim) (uint (oi_base oim + off) - oi_offset oim) n w) (clear_entries oim es))"

definition remove_object_in_map :: "u32 \<Rightarrow> u32 \<Rightarrow> vworld \<Rightarrow> vworld result" where
  "remove_object_in_map obj x w = bindE (rd_obj w obj) (\<lambda>ob. bindE (rd_oim w x) (\<lambda>oim.
     bindE (clear_entries oim (ob_entries ob) w) (\<lambda>w1.
     bindE (rd_obj w1 obj) (\<lambda>ob1. Inr (wr_obj obj (ob1\<lparr>ob_oims := filter (\<lambda>y. y \<noteq> x) (ob_oims ob1)\<rparr>) w1)))))"

definition EmptyObject_do_generate :: "nat \<Rightarrow> u32 \<Rightarrow> u32 \<Rightarrow> mem \<Rightarrow> (u32 \<times> mem) result" where
  "EmptyObject_do_generate k addr count s = page_alloc k 0 count s"

section \<open>\<open>object::ObjectInMap\<close> and the maps' lists of them\<close>

definition ObjectInMap_new :: "nat \<Rightarrow> u32 \<Rightarrow> u32 \<Rightarrow> u32 \<Rightarrow> u32 \<Rightarrow> int \<Rightarrow> u32 \<Rightarrow> vworld \<Rightarrow> vworld result" where
  "ObjectInMap_new k x obj mp base off pages w = add_object_in_map k obj x
     (w\<lparr>vw_oims := (vw_oims w)(x \<mapsto> \<lparr>oi_object = obj, oi_map = mp, oi_base = base, oi_offset = off, oi_pages = pages\<rparr>)\<rparr>)"

definition ObjectInMap_destroy :: "u32 \<Rightarrow> vworld \<Rightarrow> vworld result" where
  "ObjectInMap_destroy x w = bindE (rd_oim w x) (\<lambda>oim. bindE (remove_object_in_map (oi_object oim) x w) (\<lambda>w1.
     Inr (w1\<lparr>vw_oims := (vw_oims w1)(x := None)\<rparr>)))"

definition add_object :: "nat \<Rightarrow> u32 \<Rightarrow> u32 \<Rightarrow> u32 \<Rightarrow> u32 \<Rightarrow> int \<Rightarrow> u32 \<Rightarrow> vworld \<Rightarrow> vworld result" where
  "add_object k mp x obj base off pages w = bindE (ObjectInMap_new k x obj mp base off pages w) (\<lambda>w1.
     bindE (rd_map w1 mp) (\<lambda>m. Inr (wr_map mp (m\<lparr>vm_oims := x # vm_oims m\<rparr>) w1)))"

text \<open>Erasing an element of the map's list destroys the window.\<close>

definition erase_oim :: "u32 \<Rightarrow> u32 \<Rightarrow> vworld \<Rightarrow> vworld result" where
  "erase_oim mp x w = bindE (rd_map w mp) (\<lambda>m.
     ObjectInMap_destroy x (wr_map mp (m\<lparr>vm_oims := remove1 x (vm_oims m)\<rparr>) w))"

fun remove_object_loop :: "u32 \<Rightarrow> u32 \<Rightarrow> u32 list \<Rightarrow> vworld \<Rightarrow> vworld result" where
  "remove_object_loop mp obj [] w = Inr w"
| "remove_object_loop mp obj (x # xs) w = bindE (rd_oim w x) (\<lambda>oim.
     if oi_object oim = obj then bindE (erase_oim mp x w) (remove_object_loop mp obj xs)
     else remove_object_loop mp obj xs w)"

definition remove_object :: "u32 \<Rightarrow> u32 \<Rightarrow> vworld \<Rightarrow> vworld result" where
  "remove_object mp obj w = bindE (rd_map w mp) (\<lambda>m. remove_object_loop mp obj (vm_oims m) w)"

fun remove_object_at_loop :: "u32 \<Rightarrow> u32 \<Rightarrow> u32 \<Rightarrow> u32 list \<Rightarrow> vworld \<Rightarrow> vworld result" where
  "remove_object_at_loop mp obj base [] w = Inr w"
| "remove_object_at_loop mp obj base (x # xs) w = bindE (rd_oim w x) (\<lambda>oim.
     if oi_object oim = obj \<and> oi_base oim = base then erase_oim mp x w
     else remove_object_at_loop mp obj base xs w)"

definition remove_object_at :: "u32 \<Rightarrow> u32 \<Rightarrow> u32 \<Rightarrow> vworld \<Rightarrow> vworld result" where
  "remove_object_at mp obj base w = bindE (rd_map w mp) (\<lambda>m. remove_object_at_loop mp obj base (vm_oims m) w)"

text \<open>\<open>resolve_fault\<close>: the first window that contains the address loads its page.\<close>

fun resolve_loop :: "nat \<Rightarrow> (u32 \<Rightarrow> u32 \<Rightarrow> u32 \<Rightarrow> mem \<Rightarrow> (u32 \<times> mem) result) \<Rightarrow> u32 \<Rightarrow> u32 list \<Rightarrow> vworld \<Rightarrow> (bool \<times> vworld) result" where
  "resolve_loop k gen addr [] w = Inr (False, w)"
| "resolve_loop k gen addr (x # xs) w = bindE (rd_oim w x) (\<lambda>oim.
     if oi_base oim \<le> addr \<and> addr < oi_base oim + oi_pages oim * PAGE_SIZE
     then let excess = addr mod PAGE_SIZE in
       bindE (Object_generate k gen (oi_object oim) (of_int (uint (addr - oi_base oim) + oi_offset oim - uint excess)) 1 w) (\<lambda>w1.
       Inr (True, w1))
     else resolve_loop k gen addr xs w)"

definition resolve_fault :: "nat \<Rightarrow> (u32 \<Rightarrow> u32 \<Rightarrow> u32 \<Rightarrow> mem \<Rightarrow> (u32 \<times> mem) result) \<Rightarrow> u32 \<Rightarrow> u32 \<Rightarrow> vworld \<Rightarrow> (bool \<times> vworld) result" where
  "resolve_fault k gen mp addr w = (let w1 = w\<lparr>vw_mem := (vw_mem w)\<lparr>m_eflags := m_eflags (vw_mem w) OR IF_flag\<rparr>\<rparr> in
     bindE (rd_map w1 mp) (\<lambda>m. resolve_loop k gen addr (vm_oims m) w1))"

text \<open>The destructor of a map: the windows, then the tables, then the directory.\<close>

fun destroy_oims :: "u32 list \<Rightarrow> vworld \<Rightarrow> vworld result" where
  "destroy_oims [] w = Inr w"
| "destroy_oims (x # xs) w = bindE (ObjectInMap_destroy x w) (destroy_oims xs)"

fun destroy_tables :: "nat \<Rightarrow> (u32 \<times> u32) list \<Rightarrow> vworld \<Rightarrow> vworld result" where
  "destroy_tables k [] w = Inr w"
| "destroy_tables k ((pg, table) # ts) w =
     (if pg \<noteq> NULL then bindE (run_mem_unit (kuninstall k table pg) w) (\<lambda>w1.
        bindE (run_mem_unit (page_free k pg) w1) (destroy_tables k ts))
      else destroy_tables k ts w)"

definition Map_destroy :: "nat \<Rightarrow> u32 \<Rightarrow> vworld \<Rightarrow> vworld result" where
  "Map_destroy k mp w = bindE (rd_map w mp) (\<lambda>m.
     bindE (destroy_oims (vm_oims m) w) (\<lambda>w1.
     bindE (rd_map w1 mp) (\<lambda>m1.
     bindE (destroy_tables k (zip (vm_tab_pages m1) (vm_tables m1)) w1) (\<lambda>w2.
     bindE (run_mem_unit (kuninstall k (vm_logical_dir m1) (vm_physical_dir m1)) w2) (\<lambda>w3.
     bindE (run_mem_unit (page_free k (vm_physical_dir m1)) w3) (\<lambda>w4.
     Inr (w4\<lparr>vw_maps := (vw_maps w4)(mp := None)\<rparr>)))))))"

section \<open>Address spaces as maps from virtual pages to entries\<close>

definition present :: "vworld \<Rightarrow> u32 \<Rightarrow> nat \<Rightarrow> bool" where
  "present w mp i \<longleftrightarrow> (\<exists>m. vw_maps w mp = Some m \<and> i < USER_TABLES \<and> vm_tab_pages m ! i \<noteq> NULL)"

definition taddr :: "vworld \<Rightarrow> u32 \<Rightarrow> nat \<Rightarrow> u32" where
  "taddr w mp i = vm_tables (the (vw_maps w mp)) ! i"

text \<open>The entry that the hardware finds for virtual page \<open>v\<close>.\<close>

definition vm_pte :: "vworld \<Rightarrow> u32 \<Rightarrow> nat \<Rightarrow> u32 option" where
  "vm_pte w mp v = (if present w mp (v div 1024) then Some (the (vw_tabs w (taddr w mp (v div 1024))) ! (v mod 1024)) else None)"

text \<open>Every table present is a full table, and no two slots of any maps share one.\<close>

definition vm_ok :: "vworld \<Rightarrow> bool" where
  "vm_ok w \<longleftrightarrow> \<not> vw_mutex w \<and>
     (\<forall>mp m. vw_maps w mp = Some m \<longrightarrow> length (vm_tab_pages m) = USER_TABLES \<and> length (vm_tables m) = USER_TABLES) \<and>
     (\<forall>mp i. present w mp i \<longrightarrow> (\<exists>es. vw_tabs w (taddr w mp i) = Some es \<and> length es = 1024)) \<and>
     (\<forall>mp i mp' i'. present w mp i \<longrightarrow> present w mp' i' \<longrightarrow> taddr w mp i = taddr w mp' i' \<longrightarrow> mp = mp' \<and> i = i')"

definition vw_same :: "vworld \<Rightarrow> vworld \<Rightarrow> bool" where
  "vw_same w w' \<longleftrightarrow> vw_maps w' = vw_maps w \<and> vw_objs w' = vw_objs w \<and> vw_oims w' = vw_oims w \<and>
     vw_mem w' = vw_mem w \<and> vw_mutex w' = vw_mutex w \<and> vw_cpu w' = vw_cpu w"

lemma vw_same_trans: "vw_same a b \<Longrightarrow> vw_same b c \<Longrightarrow> vw_same a c"
  by (simp add: vw_same_def)

lemma present_cong: "vw_maps w' = vw_maps w \<Longrightarrow> present w' = present w"
  by (simp add: present_def fun_eq_iff)

lemma taddr_cong: "vw_maps w' = vw_maps w \<Longrightarrow> taddr w' = taddr w"
  by (simp add: taddr_def fun_eq_iff)

lemma vm_invlpg_ok:
  assumes "\<not> vw_mutex w" and "vw_maps w mp = Some m"
  shows "\<exists>w'. vm_invlpg mp addr w = Inr w' \<and> vw_same w w' \<and> vw_tabs w' = vw_tabs w"
  using assms
  by (auto simp: vm_invlpg_def Let_def push_cli_def rd_map_def vw_same_def)

lemma vm_ok_upd:
  assumes ok: "vm_ok w" and p: "present w mp (v div 1024)" and same: "vw_same w w'"
    and t: "vw_tabs w' = (vw_tabs w)(taddr w mp (v div 1024) \<mapsto> (the (vw_tabs w (taddr w mp (v div 1024))))[v mod 1024 := x])"
  shows "vm_ok w'" and "vm_pte w' mp' u = (if mp' = mp \<and> u = v then Some x else vm_pte w mp' u)"
proof -
  have m: "vw_maps w' = vw_maps w" "\<not> vw_mutex w'" using same ok by (simp_all add: vw_same_def vm_ok_def)
  note pc = present_cong [OF m(1)] and tc = taddr_cong [OF m(1)]
  have len: "\<exists>es. vw_tabs w (taddr w q i) = Some es \<and> length es = 1024" if "present w q i" for q i
    using ok that unfolding vm_ok_def by blast
  have inj: "q = q' \<and> i = i'" if "present w q i" "present w q' i'" "taddr w q i = taddr w q' i'" for q i q' i'
    using ok that unfolding vm_ok_def by blast
  have "\<exists>es. vw_tabs w' (taddr w' q i) = Some es \<and> length es = 1024" if "present w' q i" for q i
    using len [of q i] len [OF p] that unfolding pc tc t by auto
  moreover have "\<forall>q m. vw_maps w' q = Some m \<longrightarrow> length (vm_tab_pages m) = USER_TABLES \<and> length (vm_tables m) = USER_TABLES"
    using ok m(1) unfolding vm_ok_def by metis
  ultimately show "vm_ok w'" unfolding vm_ok_def using m(2) inj unfolding pc tc by blast
  show "vm_pte w' mp' u = (if mp' = mp \<and> u = v then Some x else vm_pte w mp' u)"
  proof (cases "present w mp' (u div 1024)")
    case True
    obtain es where es: "vw_tabs w (taddr w mp (v div 1024)) = Some es" "length es = 1024" using len [OF p] by blast
    show ?thesis
    proof (cases "taddr w mp' (u div 1024) = taddr w mp (v div 1024)")
      case eq: True
      from inj [OF True p eq] have "mp' = mp" "u div 1024 = v div 1024" by simp_all
      moreover have "u = v \<longleftrightarrow> u mod 1024 = v mod 1024" using \<open>u div 1024 = v div 1024\<close> by (metis mod_mult_div_eq)
      ultimately show ?thesis using True es p by (simp add: vm_pte_def pc tc t nth_list_update)
    next
      case False
      then show ?thesis using True by (auto simp: vm_pte_def pc tc t)
    qed
  next
    case False
    then show ?thesis using p by (auto simp: vm_pte_def pc)
  qed
qed

lemma page_slots:
  "nat ((0x1000 * int v) div 0x400000) = v div 1024" "nat ((0x1000 * int v) div 0x1000) mod 0x400 = v mod 1024"
proof -
  have "(0x1000 * int v) div 0x400000 = int v div 1024" by simp
  then show "nat ((0x1000 * int v) div 0x400000) = v div 1024" by (simp add: nat_div_distrib)
qed simp

lemma insert_one_ok:
  assumes ok: "vm_ok w" and p: "present w mp (v div 1024)"
  shows "\<exists>w'. insert_one k mp (0x1000 * int v) frame fl w = Inr w' \<and> vw_same w w' \<and> vm_ok w' \<and>
     (\<forall>mp' u. vm_pte w' mp' u = (if mp' = mp \<and> u = v then Some (frame OR fl OR PAGE_TABLE_PRESENT) else vm_pte w mp' u))"
proof -
  let ?x = "frame OR fl OR PAGE_TABLE_PRESENT" and ?t = "taddr w mp (v div 1024)"
  from p obtain m where m: "vw_maps w mp = Some m" "v div 1024 < USER_TABLES" "vm_tab_pages m ! (v div 1024) \<noteq> NULL"
    unfolding present_def by blast
  have l: "length (vm_tab_pages m) = USER_TABLES" "length (vm_tables m) = USER_TABLES" "\<not> vw_mutex w"
    using ok m(1) unfolding vm_ok_def by blast+
  have t: "vm_tables m ! (v div 1024) = ?t" using m(1) by (simp add: taddr_def)
  obtain es where es: "vw_tabs w ?t = Some es" "length es = 1024" using ok p unfolding vm_ok_def by blast
  let ?w2 = "w\<lparr>vw_tabs := (vw_tabs w)(?t \<mapsto> es[v mod 1024 := ?x])\<rparr>"
  have s: "set_entry ?t (v mod 1024) ?x w = Inr ?w2" using es by (simp add: set_entry_def)
  have "vw_maps ?w2 mp = Some m" "\<not> vw_mutex ?w2" using m l by simp_all
  from vm_invlpg_ok [OF this(2,1), of "0x1000 * int v"] obtain w' where
    w': "vm_invlpg mp (0x1000 * int v) ?w2 = Inr w'" "vw_same ?w2 w'" "vw_tabs w' = vw_tabs ?w2" by blast
  have r: "rd_map w mp = Inr m" using m(1) by (simp add: rd_map_def)
  have g: "arr_get (vm_tab_pages m) (v div 1024) = Inr (vm_tab_pages m ! (v div 1024))"
    "arr_get (vm_tables m) (v div 1024) = Inr ?t" using m(2) l t by (simp_all add: arr_get_def)
  have eq: "insert_one k mp (0x1000 * int v) frame fl w = Inr w'"
    unfolding insert_one_def Let_def page_slots using m(3) by (simp add: r g s w'(1))
  have same: "vw_same w w'" using w'(2) by (simp add: vw_same_def)
  have "vw_tabs w' = (vw_tabs w)(?t \<mapsto> (the (vw_tabs w ?t))[v mod 1024 := ?x])" using w'(3) es by simp
  from vm_ok_upd [OF ok p same this] eq same show ?thesis by blast
qed

text \<open>What inserting \<open>fs\<close> from virtual page \<open>v\<close> on does to an address space.\<close>

definition mapped :: "u32 \<Rightarrow> u32 \<Rightarrow> u32 \<Rightarrow> u32 \<Rightarrow> nat \<Rightarrow> u32 list \<Rightarrow> (u32 \<Rightarrow> nat \<Rightarrow> u32 option) \<Rightarrow> u32 \<Rightarrow> nat \<Rightarrow> u32 option" where
  "mapped mp fl lo hi v fs T mp' u = (if mp' = mp \<and> v \<le> u \<and> u < v + length fs \<and> unat lo \<le> 0x1000 * u \<and> 0x1000 * u < unat hi
     then Some (fs ! (u - v) OR fl OR PAGE_TABLE_PRESENT) else T mp' u)"

lemma mapped_Nil [simp]: "mapped mp fl lo hi v [] T = T"
  by (intro ext) (auto simp: mapped_def)

lemma mapped_append: "mapped mp fl lo hi v (xs @ ys) T = mapped mp fl lo hi (v + length xs) ys (mapped mp fl lo hi v xs T)"
proof (intro ext)
  fix mp' u
  show "mapped mp fl lo hi v (xs @ ys) T mp' u = mapped mp fl lo hi (v + length xs) ys (mapped mp fl lo hi v xs T) mp' u"
    by (cases "u < v + length xs") (auto simp: mapped_def nth_append)
qed

lemma mapped_beyond: "unat hi \<le> 0x1000 * v \<Longrightarrow> mapped mp fl lo hi v fs T = T"
  by (fastforce simp: mapped_def fun_eq_iff)

definition covered :: "vworld \<Rightarrow> u32 \<Rightarrow> u32 \<Rightarrow> u32 \<Rightarrow> nat \<Rightarrow> nat \<Rightarrow> bool" where
  "covered w mp lo hi v n \<longleftrightarrow> (\<forall>u. v \<le> u \<and> u < v + n \<and> unat lo \<le> 0x1000 * u \<and> 0x1000 * u < unat hi \<longrightarrow> present w mp (u div 1024))"

lemma uint_le_page: "uint (x :: u32) \<le> 0x1000 * int v \<longleftrightarrow> unat x \<le> 0x1000 * v"
proof -
  have "uint x = int (unat x)" by simp
  then have "uint x \<le> 0x1000 * int v \<longleftrightarrow> int (unat x) \<le> int (0x1000 * v)" by simp
  then show ?thesis by linarith
qed

lemma insert_loop_ok:
  assumes "vm_ok w" and "0x1000 * v < unat hi" and "covered w mp lo hi v n"
  shows "\<exists>w'. insert_loop k mp n i base (0x1000 * int v) fl lo hi w =
       Inr (if n \<noteq> 0 \<and> unat hi \<le> 0x1000 * (v + n) then None else Some (0x1000 * int (v + n)), w') \<and>
     vw_same w w' \<and> vm_ok w' \<and>
     vm_pte w' = mapped mp fl lo hi v (map (\<lambda>j. base + (i + of_nat j) * PAGE_SIZE) [0..<n]) (vm_pte w)"
  using assms
proof (induction n arbitrary: v i w)
  case 0
  then show ?case by (simp add: vw_same_def)
next
  case (Suc n)
  let ?f = "\<lambda>j. base + (i + of_nat j) * PAGE_SIZE"
  let ?one = "if unat lo \<le> 0x1000 * v then insert_one k mp (0x1000 * int v) (base + i * PAGE_SIZE) fl w else Inr w"
  have "\<exists>w1. ?one = Inr w1 \<and> vw_same w w1 \<and> vm_ok w1 \<and> vm_pte w1 = mapped mp fl lo hi v [?f 0] (vm_pte w)"
  proof (cases "unat lo \<le> 0x1000 * v")
    case True
    have "present w mp (v div 1024)" using Suc.prems True by (auto simp: covered_def)
    from insert_one_ok [OF Suc.prems(1) this, of k "base + i * PAGE_SIZE" fl] True Suc.prems(2) show ?thesis
      by (fastforce simp: mapped_def fun_eq_iff)
  next
    case False
    then show ?thesis using Suc.prems(1) by (fastforce simp: mapped_def fun_eq_iff vw_same_def)
  qed
  then obtain w1 where w1: "?one = Inr w1" "vw_same w w1" "vm_ok w1" "vm_pte w1 = mapped mp fl lo hi v [?f 0] (vm_pte w)" by blast
  have fs: "map ?f [0..<Suc n] = [?f 0] @ map (\<lambda>j. base + (i + 1 + of_nat j) * PAGE_SIZE) [0..<n]"
    by (simp add: map_upt_Suc algebra_simps del: upt_Suc)
  have step: "insert_loop k mp (Suc n) i base (0x1000 * int v) fl lo hi w =
      (if unat hi \<le> 0x1000 * Suc v then Inr (None, w1)
       else insert_loop k mp n (i + 1) base (0x1000 * int (Suc v)) fl lo hi w1)"
  proof -
    have a: "0x1000 * int v + 0x1000 = 0x1000 * int (Suc v)" by simp
    show ?thesis by (simp only: insert_loop.simps a uint_le_page w1(1) bindE_Inr)
  qed
  show ?case
  proof (cases "unat hi \<le> 0x1000 * Suc v")
    case True
    have "mapped mp fl lo hi v (map ?f [0..<Suc n]) (vm_pte w) = vm_pte w1"
      unfolding fs mapped_append w1(4) by (rule mapped_beyond) (use True in simp)
    moreover have "unat hi \<le> 0x1000 * (v + Suc n)" using True by simp
    ultimately show ?thesis using step True w1 by (simp del: upt_Suc)
  next
    case False
    have c: "covered w1 mp lo hi (Suc v) n"
      using Suc.prems(3) present_cong [of w1 w] w1(2) by (auto simp: covered_def vw_same_def)
    have "\<exists>w'. insert_loop k mp n (i + 1) base (0x1000 * int (Suc v)) fl lo hi w1 =
         Inr (if n \<noteq> 0 \<and> unat hi \<le> 0x1000 * (Suc v + n) then None else Some (0x1000 * int (Suc v + n)), w') \<and>
       vw_same w1 w' \<and> vm_ok w' \<and>
       vm_pte w' = mapped mp fl lo hi (Suc v) (map (\<lambda>j. base + (i + 1 + of_nat j) * PAGE_SIZE) [0..<n]) (vm_pte w1)"
      by (rule Suc.IH [OF w1(3) _ c]) (use False in simp)
    then obtain w' where
      w': "insert_loop k mp n (i + 1) base (0x1000 * int (Suc v)) fl lo hi w1 =
         Inr (if n \<noteq> 0 \<and> unat hi \<le> 0x1000 * (Suc v + n) then None else Some (0x1000 * int (Suc v + n)), w')"
        "vw_same w1 w'" "vm_ok w'"
        "vm_pte w' = mapped mp fl lo hi (Suc v) (map (\<lambda>j. base + (i + 1 + of_nat j) * PAGE_SIZE) [0..<n]) (vm_pte w1)" by blast
    have "vm_pte w' = mapped mp fl lo hi v (map ?f [0..<Suc n]) (vm_pte w)"
      unfolding fs mapped_append w'(4) w1(4) by simp
    moreover have "n = 0 \<Longrightarrow> \<not> unat hi \<le> 0x1000 * (v + Suc n)" using False by simp
    ultimately show ?thesis using step False w'(1-3) vw_same_trans [OF w1(2) w'(2)] by (auto simp del: upt_Suc)
  qed
qed

lemma chunk_frames_loop: "map (\<lambda>j. mem_base p + (0 + of_nat j) * PAGE_SIZE) [0..<unat (consecutive p)] = chunk_frames p"
  by (simp add: chunk_frames_def)

lemma covered_split:
  "covered w mp lo hi v (a + b) \<Longrightarrow> covered w mp lo hi v a \<and> covered w mp lo hi (v + a) b"
  by (auto simp: covered_def)

lemma page_chain_Cons:
  assumes "page_chain s p ps" and "p \<noteq> NULL"
  shows "\<exists>pg qs. ps = p # qs \<and> m_pages s p = Some pg \<and> page_chain s (pg_next pg) qs"
  using assms by (auto simp: page_chain_def linked_nonnull)

lemma Map_insert_chunk:
  assumes "vm_ok w" and p: "m_pages (vw_mem w) pg = Some p" and lt: "0x1000 * v < unat hi" and cov: "covered w mp lo hi v (unat (consecutive p))"
  shows "\<exists>w1. vw_same w w1 \<and> vm_ok w1 \<and> vm_pte w1 = mapped mp fl lo hi v (chunk_frames p) (vm_pte w) \<and>
     Map_insert k mp (0x1000 * int v) pg fl lo hi w =
       (if consecutive p \<noteq> 0 \<and> unat hi \<le> 0x1000 * (v + unat (consecutive p)) \<or> pg_next p = NULL then Some (Inr w1)
        else Map_insert k mp (0x1000 * int (v + unat (consecutive p))) (pg_next p) fl lo hi w1)"
proof -
  let ?n = "unat (consecutive p)"
  from insert_loop_ok [OF assms(1) lt cov, of k 0 "mem_base p" fl] obtain w1 where
    w1: "insert_loop k mp ?n 0 (mem_base p) (0x1000 * int v) fl lo hi w =
        Inr (if ?n \<noteq> 0 \<and> unat hi \<le> 0x1000 * (v + ?n) then None else Some (0x1000 * int (v + ?n)), w1)"
      "vw_same w w1" "vm_ok w1" "vm_pte w1 = mapped mp fl lo hi v (chunk_frames p) (vm_pte w)"
    unfolding chunk_frames_loop by blast
  have n0: "consecutive p \<noteq> 0 \<longleftrightarrow> ?n \<noteq> 0" by (simp add: unat_eq_0)
  have mem: "vw_mem w1 = vw_mem w" using w1(2) by (simp add: vw_same_def)
  have g: "\<not> (uint hi \<le> 0x1000 * int v \<or> 0x1000 * int v < 0)" using lt uint_le_page [of hi v] by simp
  have "Map_insert k mp (0x1000 * int v) pg fl lo hi w = (if ?n \<noteq> 0 \<and> unat hi \<le> 0x1000 * (v + ?n) \<or> pg_next p = NULL then Some (Inr w1)
      else Map_insert k mp (0x1000 * int (v + ?n)) (pg_next p) fl lo hi w1)"
  proof (cases "?n \<noteq> 0 \<and> unat hi \<le> 0x1000 * (v + ?n)")
    case True
    then show ?thesis using g p w1(1) by (subst Map_insert.simps) simp
  next
    case False
    then have "insert_loop k mp ?n 0 (mem_base p) (0x1000 * int v) fl lo hi w = Inr (Some (0x1000 * int (v + ?n)), w1)"
      using w1(1) by (simp only: if_False)
    then have "Map_insert k mp (0x1000 * int v) pg fl lo hi w =
        (if pg_next p \<noteq> NULL then Map_insert k mp (0x1000 * int (v + ?n)) (pg_next p) fl lo hi w1 else Some (Inr w1))"
      using g p mem by (subst Map_insert.simps) (simp only: if_False option.case sum.case prod.case)
    then show ?thesis using False by auto
  qed
  then show ?thesis using w1(2-4) n0 by auto
qed

lemma Map_insert_ok:
  assumes "vm_ok w" and "page_chain (vw_mem w) pg ps" and "pg \<noteq> NULL"
    and "covered w mp lo hi v (length (chain_frames (vw_mem w) ps))"
  shows "\<exists>w'. Map_insert k mp (0x1000 * int v) pg fl lo hi w = Some (Inr w') \<and> vw_same w w' \<and> vm_ok w' \<and>
     vm_pte w' = mapped mp fl lo hi v (chain_frames (vw_mem w) ps) (vm_pte w)"
  using assms
proof (induction ps arbitrary: pg v w)
  case Nil
  then show ?case by (simp add: page_chain_def)
next
  case (Cons a ps)
  from page_chain_Cons [OF Cons.prems(2,3)] obtain p where
    a: "a = pg" and p: "m_pages (vw_mem w) pg = Some p" and rest: "page_chain (vw_mem w) (pg_next p) ps" by auto
  let ?n = "unat (consecutive p)" and ?fs = "chain_frames (vw_mem w) ps"
  have fr: "chain_frames (vw_mem w) (a # ps) = chunk_frames p @ ?fs" using a p by simp
  have len: "length (chunk_frames p) = ?n" by (simp add: chunk_frames_def)
  have "covered w mp lo hi v (?n + length ?fs)" using Cons.prems(4) unfolding fr by (simp add: len)
  then have cov: "covered w mp lo hi v ?n" "covered w mp lo hi (v + ?n) (length ?fs)"
    using covered_split by blast+
  show ?case
  proof (cases "unat hi \<le> 0x1000 * v")
    case True
    then have "Map_insert k mp (0x1000 * int v) pg fl lo hi w = Some (Inr w)"
      using uint_le_page [of hi v] by (subst Map_insert.simps) simp
    with True Cons.prems(1) show ?thesis by (simp add: mapped_beyond vw_same_def)
  next
    case False
    then have "0x1000 * v < unat hi" by simp
    from Map_insert_chunk [OF Cons.prems(1) p this cov(1), of fl k] obtain w1 where
      w1: "vw_same w w1" "vm_ok w1" "vm_pte w1 = mapped mp fl lo hi v (chunk_frames p) (vm_pte w)"
      and eq: "Map_insert k mp (0x1000 * int v) pg fl lo hi w = (if consecutive p \<noteq> 0 \<and> unat hi \<le> 0x1000 * (v + ?n) \<or> pg_next p = NULL then Some (Inr w1)
        else Map_insert k mp (0x1000 * int (v + ?n)) (pg_next p) fl lo hi w1)" by blast
    consider "unat hi \<le> 0x1000 * (v + ?n)" "consecutive p \<noteq> 0" | "pg_next p = NULL" | "\<not> (consecutive p \<noteq> 0 \<and> unat hi \<le> 0x1000 * (v + ?n))" "pg_next p \<noteq> NULL" by blast
    then show ?thesis
    proof cases
      case 1
      then have "vm_pte w1 = mapped mp fl lo hi v (chain_frames (vw_mem w) (a # ps)) (vm_pte w)"
        unfolding fr mapped_append len w1(3) by (intro mapped_beyond [symmetric])
      then show ?thesis using 1 eq w1 by (intro exI [of _ w1]) simp
    next
      case 2
      then have "ps = []" using rest by (simp add: page_chain_def)
      then show ?thesis using 2 eq w1 fr by (intro exI [of _ w1]) simp
    next
      case 3
      have mem: "vw_mem w1 = vw_mem w" using w1(1) by (simp add: vw_same_def)
      have c: "covered w1 mp lo hi (v + ?n) (length (chain_frames (vw_mem w1) ps))"
        using cov(2) w1(1) present_cong [of w1 w] by (simp add: covered_def vw_same_def)
      from Cons.IH [OF w1(2) _ 3(2) c] rest mem obtain w' where
        w': "Map_insert k mp (0x1000 * int (v + ?n)) (pg_next p) fl lo hi w1 = Some (Inr w')" "vw_same w1 w'" "vm_ok w'"
          "vm_pte w' = mapped mp fl lo hi (v + ?n) ?fs (vm_pte w1)" by auto
      have "vm_pte w' = mapped mp fl lo hi v (chain_frames (vw_mem w) (a # ps)) (vm_pte w)"
        unfolding fr mapped_append len w'(4) w1(3) ..
      moreover have "Map_insert k mp (0x1000 * int v) pg fl lo hi w = Some (Inr w')" using eq 3 w'(1) by (simp only: if_False simp_thms)
      ultimately show ?thesis using w'(2,3) vw_same_trans [OF w1(1)] by blast
    qed
  qed
qed

section \<open>Clearing\<close>

lemma clear_loop_ok:
  assumes "vm_ok w" and "\<forall>u. v \<le> u \<and> u < v + n \<longrightarrow> present w mp (u div 1024)"
  shows "\<exists>w'. clear_loop mp n (0x1000 * int v) w = Inr w' \<and> vw_same w w' \<and> vm_ok w' \<and>
     (\<forall>mp' u. vm_pte w' mp' u = (if mp' = mp \<and> v \<le> u \<and> u < v + n then Some 0 else vm_pte w mp' u))"
  using assms
proof (induction n arbitrary: v w)
  case 0
  then show ?case by (intro exI [of _ w]) (auto simp: vw_same_def)
next
  case (Suc n)
  let ?t = "taddr w mp (v div 1024)"
  have p: "present w mp (v div 1024)" using Suc.prems(2) by simp
  then obtain m where m: "vw_maps w mp = Some m" "v div 1024 < USER_TABLES" unfolding present_def by blast
  have l: "length (vm_tables m) = USER_TABLES" "\<not> vw_mutex w" using Suc.prems(1) m(1) unfolding vm_ok_def by blast+
  obtain es where es: "vw_tabs w ?t = Some es" "length es = 1024" using Suc.prems(1) p unfolding vm_ok_def by blast
  let ?w2 = "w\<lparr>vw_tabs := (vw_tabs w)(?t \<mapsto> es[v mod 1024 := 0])\<rparr>"
  have s: "set_entry ?t (v mod 1024) 0 w = Inr ?w2" using es by (simp add: set_entry_def)
  have "vw_maps ?w2 mp = Some m" "\<not> vw_mutex ?w2" using m l by simp_all
  from vm_invlpg_ok [OF this(2,1), of "0x1000 * int v"] obtain w1 where
    w1: "vm_invlpg mp (0x1000 * int v) ?w2 = Inr w1" "vw_same ?w2 w1" "vw_tabs w1 = vw_tabs ?w2" by blast
  have same: "vw_same w w1" using w1(2) by (simp add: vw_same_def)
  have "vw_tabs w1 = (vw_tabs w)(?t \<mapsto> (the (vw_tabs w ?t))[v mod 1024 := 0])" using w1(3) es by simp
  note up = vm_ok_upd [OF Suc.prems(1) p same this]
  have "\<exists>w'. clear_loop mp n (0x1000 * int (Suc v)) w1 = Inr w' \<and> vw_same w1 w' \<and> vm_ok w' \<and>
     (\<forall>mp' u. vm_pte w' mp' u = (if mp' = mp \<and> Suc v \<le> u \<and> u < Suc v + n then Some 0 else vm_pte w1 mp' u))"
    by (rule Suc.IH [OF up(1)]) (use Suc.prems(2) present_cong [of w1 w] same in \<open>auto simp: vw_same_def\<close>)
  then obtain w' where w': "clear_loop mp n (0x1000 * int (Suc v)) w1 = Inr w'" "vw_same w1 w'" "vm_ok w'"
    and pt: "\<And>mp' u. vm_pte w' mp' u = (if mp' = mp \<and> Suc v \<le> u \<and> u < Suc v + n then Some 0 else vm_pte w1 mp' u)" by blast
  have r: "rd_map w mp = Inr m" using m(1) by (simp add: rd_map_def)
  have g: "arr_get (vm_tables m) (v div 1024) = Inr ?t" using m l by (simp add: arr_get_def taddr_def)
  have a: "0x1000 * int v + 0x1000 = 0x1000 * int (Suc v)" by simp
  have "clear_loop mp (Suc n) (0x1000 * int v) w = Inr w'"
    by (simp only: clear_loop.simps Let_def page_slots r g s w1(1) bindE_Inr a w'(1))
  moreover have "vm_pte w' mp' u = (if mp' = mp \<and> v \<le> u \<and> u < v + Suc n then Some 0 else vm_pte w mp' u)" for mp' u
    using pt [of mp' u] up(2) [of mp' u] by auto
  ultimately show ?case using w' vw_same_trans [OF same w'(2)] by blast
qed

section \<open>Loading pages on demand\<close>

definition in_window :: "object_in_map \<Rightarrow> u32 \<Rightarrow> bool" where
  "in_window oim addr \<longleftrightarrow> oi_base oim \<le> addr \<and> addr < oi_base oim + oi_pages oim * PAGE_SIZE"

definition oim_addr :: "u32 \<Rightarrow> object_in_map \<Rightarrow> int" where
  "oim_addr off oim = uint (oi_base oim + off) - oi_offset oim"

definition oim_hi :: "object_in_map \<Rightarrow> u32" where
  "oim_hi oim = oi_base oim + oi_pages oim * PAGE_SIZE"

text \<open>Page-aligned windows whose tables exist.\<close>

definition oim_good :: "vworld \<Rightarrow> u32 \<Rightarrow> object_in_map \<Rightarrow> bool" where
  "oim_good w off oim \<longleftrightarrow> 0x1000 dvd oim_addr off oim \<and>
     covered w (oi_map oim) (oi_base oim) (oim_hi oim) (nat (oim_addr off oim div 0x1000)) 1"

lemma oim_good_cong:
  assumes "vw_maps w' = vw_maps w"
  shows "oim_good w' off oim = oim_good w off oim"
  unfolding oim_good_def covered_def present_cong [OF assms] ..

definition oim_mapped :: "u32 \<Rightarrow> u32 \<Rightarrow> u32 \<Rightarrow> object_in_map \<Rightarrow> (u32 \<Rightarrow> nat \<Rightarrow> u32 option) \<Rightarrow> u32 \<Rightarrow> nat \<Rightarrow> u32 option" where
  "oim_mapped off frame fl oim T = (if oim_addr off oim < 0 then T
     else mapped (oi_map oim) fl (oi_base oim) (oim_hi oim) (nat (oim_addr off oim div 0x1000)) [frame] T)"

lemma oim_mapped_only: "oim_mapped off frame fl oim T mp u = T mp u \<or> oim_mapped off frame fl oim T mp u = Some (frame OR fl OR PAGE_TABLE_PRESENT)"
  by (auto simp: oim_mapped_def mapped_def)

lemma oim_insert_ok:
  assumes ok: "vm_ok w" and pg: "m_pages (vw_mem w) pg = Some p" "consecutive p = 1" "pg_next p = NULL" "pg \<noteq> NULL"
    and good: "oim_good w off oim"
  shows "\<exists>w'. oim_insert k off pg fl oim w = Inr w' \<and> vw_same w w' \<and> vm_ok w' \<and>
     vm_pte w' = oim_mapped off (mem_base p) fl oim (vm_pte w)"
proof (cases "oim_addr off oim < 0")
  case True
  then have "oim_insert k off pg fl oim w = Inr w"
    unfolding oim_insert_def vm_insert_def oim_addr_def by (subst Map_insert.simps) simp
  with True ok show ?thesis by (simp add: vw_same_def oim_mapped_def)
next
  case False
  let ?v = "nat (oim_addr off oim div 0x1000)"
  have a: "oim_addr off oim = 0x1000 * int ?v" using good False by (auto simp: oim_good_def)
  have ch: "page_chain (vw_mem w) pg [pg]" using pg by (auto simp: page_chain_def)
  have fr: "chain_frames (vw_mem w) [pg] = [mem_base p]" using pg by (simp add: chunk_frames_def)
  have c: "covered w (oi_map oim) (oi_base oim) (oim_hi oim) ?v (length (chain_frames (vw_mem w) [pg]))"
    unfolding fr using good by (simp add: oim_good_def)
  from Map_insert_ok [OF ok ch pg(4) c, of k fl] obtain w' where
    w': "Map_insert k (oi_map oim) (0x1000 * int ?v) pg fl (oi_base oim) (oim_hi oim) w = Some (Inr w')"
      "vw_same w w'" "vm_ok w'" "vm_pte w' = mapped (oi_map oim) fl (oi_base oim) (oim_hi oim) ?v [mem_base p] (vm_pte w)"
    unfolding fr by blast
  have "oim_insert k off pg fl oim w = Inr w'"
    unfolding oim_insert_def vm_insert_def oim_hi_def [symmetric] oim_addr_def [symmetric] using w'(1) a by simp
  with w' False show ?thesis by (auto simp: oim_mapped_def)
qed

lemma generate_maps_ok:
  assumes "vm_ok w" and "m_pages (vw_mem w) pg = Some p" "consecutive p = 1" "pg_next p = NULL" "pg \<noteq> NULL"
    and "\<forall>y \<in> set ys. \<exists>oi. vw_oims w y = Some oi \<and> oim_good w off oi"
  shows "\<exists>w'. generate_maps k off pg fl ys w = Inr w' \<and> vw_same w w' \<and> vm_ok w' \<and>
     vm_pte w' = fold (\<lambda>y. oim_mapped off (mem_base p) fl (the (vw_oims w y))) ys (vm_pte w)"
  using assms(1,2,6)
proof (induction ys arbitrary: w)
  case Nil
  then show ?case by (simp add: vw_same_def)
next
  case (Cons y ys)
  from Cons.prems(3) obtain oi where oi: "vw_oims w y = Some oi" "oim_good w off oi" by auto
  from oim_insert_ok [OF Cons.prems(1,2) assms(3-5) oi(2), of k fl] obtain w1 where
    w1: "oim_insert k off pg fl oi w = Inr w1" "vw_same w w1" "vm_ok w1"
      "vm_pte w1 = oim_mapped off (mem_base p) fl oi (vm_pte w)" by blast
  have eq: "vw_mem w1 = vw_mem w" "vw_oims w1 = vw_oims w" "vw_maps w1 = vw_maps w" using w1(2) by (simp_all add: vw_same_def)
  have "\<forall>z \<in> set ys. \<exists>oi. vw_oims w1 z = Some oi \<and> oim_good w1 off oi"
    using Cons.prems(3) eq oim_good_cong [OF eq(3)] by auto
  with Cons.IH [OF w1(3)] Cons.prems(2) eq obtain w' where
    w': "generate_maps k off pg fl ys w1 = Inr w'" "vw_same w1 w'" "vm_ok w'"
      "vm_pte w' = fold (\<lambda>y. oim_mapped off (mem_base p) fl (the (vw_oims w y))) ys (vm_pte w1)" by auto
  have "generate_maps k off pg fl (y # ys) w = Inr w'" using oi(1) w1(1) w'(1) by (simp add: rd_oim_def)
  with w' w1(4) oi(1) vw_same_trans [OF w1(2) w'(2)] show ?case by auto
qed

lemma fold_mapped_keeps:
  "T mp u = Some (frame OR fl OR PAGE_TABLE_PRESENT) \<Longrightarrow>
   fold (\<lambda>y. oim_mapped off frame fl (g y)) ys T mp u = Some (frame OR fl OR PAGE_TABLE_PRESENT)"
proof (induction ys arbitrary: T)
  case (Cons y ys)
  have "oim_mapped off frame fl (g y) T mp u = Some (frame OR fl OR PAGE_TABLE_PRESENT)"
    using oim_mapped_only [of off frame fl "g y" T mp u] Cons.prems by auto
  from Cons.IH [of "oim_mapped off frame fl (g y) T", OF this] show ?case by simp
qed simp

lemma fold_mapped_reaches:
  assumes "x \<in> set ys" and "\<And>T. oim_mapped off frame fl (g x) T mp u = Some (frame OR fl OR PAGE_TABLE_PRESENT)"
  shows "fold (\<lambda>y. oim_mapped off frame fl (g y)) ys T mp u = Some (frame OR fl OR PAGE_TABLE_PRESENT)"
  using assms(1)
proof (induction ys arbitrary: T)
  case (Cons y ys)
  show ?case
  proof (cases "x = y")
    case True
    then show ?thesis using fold_mapped_keeps [of _ mp u frame fl off g ys] assms(2) by simp
  qed (use Cons in simp)
qed simp

lemma bump_count_one:
  assumes "sorted_wrt (<) (map fst es)" and "\<forall>e \<in> set es. fst e mod PAGE_SIZE = 0 \<and> fst e \<noteq> off" and "off mod PAGE_SIZE = 0"
  shows "bump_count (dropWhile (\<lambda>e. fst e < off) es) off 1 = 1"
proof (cases "dropWhile (\<lambda>e. fst e < off) es")
  case (Cons e es')
  then have ge: "\<not> fst e < off" using hd_dropWhile [of "\<lambda>e. fst e < off" es] by simp
  have in_es: "e \<in> set es" using Cons set_dropWhileD [of e "\<lambda>e. fst e < off" es] by simp
  then have e: "fst e mod PAGE_SIZE = 0" "fst e \<noteq> off" using assms(2) by auto
  let ?a = "unat off" and ?b = "unat (fst e)"
  have m: "?a mod 4096 = 0" "?b mod 4096 = 0"
    using assms(3) e(1) unat_mod_distrib [of off PAGE_SIZE] unat_mod_distrib [of "fst e" PAGE_SIZE] by simp_all
  have lt: "?a < ?b" using ge e(2) by (simp add: word_less_nat_alt) (metis linorder_neqE_nat word_unat_eq_iff)
  have d: "unat (fst e - off) = ?b - ?a" using lt by (simp add: unat_sub_le word_le_nat_alt)
  have "(fst e - off) div PAGE_SIZE = 1" if "fst e \<le> off + PAGE_SIZE"
  proof -
    obtain x y where xy: "?a = 4096 * x" "?b = 4096 * y" using m by (metis mod_0_imp_dvd dvdE)
    with lt have "x < y" by simp
    then have step: "4096 * x + 4096 \<le> 4096 * y" by simp
    then have "?a + 4096 < 2 ^ 32" using xy unat_lt_32 [of "fst e"] by simp
    then have "unat (off + PAGE_SIZE) = ?a + 4096" by (subst unat_add_lt) simp_all
    with that have "?b \<le> ?a + 4096" by (simp add: word_le_nat_alt)
    with xy step have "?b - ?a = 4096" by linarith
    then have "unat ((fst e - off) div PAGE_SIZE) = 1" using d by (simp add: unat_div_distrib)
    then show ?thesis by (simp add: word_unat_eq_iff)
  qed
  then show ?thesis using Cons by (cases e) (simp add: bump_count_def)
next
  case Nil
  then show ?thesis by (simp only: bump_count_def list.case)
qed

lemma sorted_insert:
  fixes es :: "(u32 \<times> u32) list"
  assumes "sorted_wrt (<) (map fst es)" and "\<forall>e \<in> set es. fst e \<noteq> off"
  shows "sorted_wrt (<) (map fst (takeWhile (\<lambda>e. fst e < off) es @ (off, pg) # dropWhile (\<lambda>e. fst e < off) es))"
  using assms
proof (induction es)
  case (Cons e es)
  show ?case
  proof (cases "fst e < off")
    case True
    have "sorted_wrt (<) (map fst (takeWhile (\<lambda>e. fst e < off) es @ (off, pg) # dropWhile (\<lambda>e. fst e < off) es))"
      using Cons by simp
    moreover have "\<forall>d \<in> set (takeWhile (\<lambda>e. fst e < off) es @ (off, pg) # dropWhile (\<lambda>e. fst e < off) es). fst e < fst d"
      using Cons.prems(1) True by (auto dest: set_takeWhileD set_dropWhileD)
    ultimately show ?thesis using True by (auto simp: Ball_def)
  next
    case False
    then have "off < fst e" using Cons.prems(2) by (metis list.set_intros(1) linorder_neqE)
    with Cons.prems(1) False show ?thesis by (auto intro: less_trans)
  qed
qed simp

lemma resolve_loop_finds:
  assumes "\<forall>y \<in> set xs. \<exists>oi. vw_oims w y = Some oi \<and> \<not> in_window oi addr"
    and "vw_oims w x = Some oim" and "in_window oim addr"
  shows "resolve_loop k gen addr (xs @ x # ys) w =
     bindE (Object_generate k gen (oi_object oim) (of_int (uint (addr - oi_base oim) + oi_offset oim - uint (addr mod PAGE_SIZE))) 1 w)
       (\<lambda>w1. Inr (True, w1))"
  using assms(1)
proof (induction xs)
  case Nil
  then show ?case using assms(2,3) by (simp add: rd_oim_def in_window_def Let_def)
next
  case (Cons y xs)
  then show ?case by (auto simp: rd_oim_def in_window_def)
qed

definition with_sti :: "vworld \<Rightarrow> vworld" where
  "with_sti w = w\<lparr>vw_mem := (vw_mem w)\<lparr>m_eflags := m_eflags (vw_mem w) OR IF_flag\<rparr>\<rparr>"

text \<open>The object offset of the page that an address of a window shows.\<close>

definition oim_off :: "object_in_map \<Rightarrow> u32 \<Rightarrow> u32" where
  "oim_off oim addr = of_int (uint (addr - oi_base oim) + oi_offset oim - uint (addr mod PAGE_SIZE))"

lemma resolve_fault_eq:
  assumes "vw_maps w mp = Some m" and "vm_oims m = xs @ x # ys"
    and "\<forall>y \<in> set xs. \<exists>oi. vw_oims w y = Some oi \<and> \<not> in_window oi addr"
    and "vw_oims w x = Some oim" and "in_window oim addr"
  shows "resolve_fault k gen mp addr w =
     bindE (Object_generate k gen (oi_object oim) (oim_off oim addr) 1 (with_sti w)) (\<lambda>w1. Inr (True, w1))"
  using resolve_loop_finds [of xs "with_sti w" addr x oim k gen ys] assms
  by (simp add: resolve_fault_def rd_map_def oim_off_def with_sti_def Let_def)

lemma vm_ok_mem: "vm_ok (w\<lparr>vw_mem := m\<rparr>) = vm_ok w" "vm_ok (wr_obj p ob w) = vm_ok w"
  "vm_pte (w\<lparr>vw_mem := m\<rparr>) = vm_pte w" "vm_pte (wr_obj p ob w) = vm_pte w"
proof -
  have c: "vw_maps (w\<lparr>vw_mem := m\<rparr>) = vw_maps w" "vw_maps (wr_obj p ob w) = vw_maps w" by (simp_all add: wr_obj_def)
  note pc = present_cong [OF c(1)] present_cong [OF c(2)] taddr_cong [OF c(1)] taddr_cong [OF c(2)]
  show "vm_ok (w\<lparr>vw_mem := m\<rparr>) = vm_ok w" "vm_ok (wr_obj p ob w) = vm_ok w"
    unfolding vm_ok_def pc by (simp_all add: wr_obj_def)
  show "vm_pte (w\<lparr>vw_mem := m\<rparr>) = vm_pte w" "vm_pte (wr_obj p ob w) = vm_pte w"
    by (simp_all only: vm_pte_def pc fun_eq_iff) (simp_all add: wr_obj_def)
qed

lemma generate_one_ok:
  assumes ok: "vm_ok w" and obj: "vw_objs w b = Some ob"
    and room: "off div PAGE_SIZE < ob_max_pages ob"
    and es: "sorted_wrt (<) (map fst (ob_entries ob))" "\<forall>e \<in> set (ob_entries ob). fst e mod PAGE_SIZE = 0 \<and> fst e \<noteq> off"
      "off mod PAGE_SIZE = 0"
    and gen: "gen b off 1 (vw_mem w) = Inr (pg, s)"
    and pg: "m_pages s pg = Some p" "consecutive p = 1" "pg_next p = NULL" "pg \<noteq> NULL"
    and good: "\<forall>y \<in> set (ob_oims ob). \<exists>oi. vw_oims w y = Some oi \<and> oim_good w off oi"
  shows "\<exists>w'. Object_generate k gen b off 1 w = Inr w' \<and> vm_ok w' \<and>
     vw_objs w' b = Some (ob\<lparr>ob_entries := takeWhile (\<lambda>e. fst e < off) (ob_entries ob) @ (off, pg) #
       dropWhile (\<lambda>e. fst e < off) (ob_entries ob)\<rparr>) \<and>
     vm_pte w' = fold (\<lambda>y. oim_mapped off (mem_base p) (ucast (ob_page_flags ob)) (the (vw_oims w y))) (ob_oims ob) (vm_pte w)"
proof -
  let ?es = "takeWhile (\<lambda>e. fst e < off) (ob_entries ob) @ (off, pg) # dropWhile (\<lambda>e. fst e < off) (ob_entries ob)"
  let ?w2 = "wr_obj b (ob\<lparr>ob_entries := ?es\<rparr>) (w\<lparr>vw_mem := s\<rparr>)"
  have "unat (off div PAGE_SIZE) < unat (ob_max_pages ob)" using room by (simp add: word_less_nat_alt)
  moreover have "unat (off div PAGE_SIZE + 1) = unat (off div PAGE_SIZE) + 1" using room by (simp add: word_inc_unat)
  ultimately have cap: "cap_count (ob_max_pages ob) off 1 = Some 1"
    by (simp add: cap_count_def word_less_nat_alt)
  have mm: "vw_maps ?w2 = vw_maps w" "vw_oims ?w2 = vw_oims w" "vw_mem ?w2 = s" by (simp_all add: wr_obj_def)
  have g: "\<forall>y \<in> set (ob_oims ob). \<exists>oi. vw_oims ?w2 y = Some oi \<and> oim_good ?w2 off oi"
    using good mm(2) oim_good_cong [OF mm(1)] by auto
  have ok2: "vm_ok ?w2" using ok by (simp add: vm_ok_mem)
  from generate_maps_ok [OF ok2 _ pg(2-4) g, of k "ucast (ob_page_flags ob)"] pg(1) mm obtain w' where
    w': "generate_maps k off pg (ucast (ob_page_flags ob)) (ob_oims ob) ?w2 = Inr w'" "vw_same ?w2 w'" "vm_ok w'"
      "vm_pte w' = fold (\<lambda>y. oim_mapped off (mem_base p) (ucast (ob_page_flags ob)) (the (vw_oims w y))) (ob_oims ob) (vm_pte ?w2)"
    by auto
  have "Object_generate k gen b off 1 w = Inr w'"
    using obj cap bump_count_one [OF es] gen w'(1)
    by (simp add: Object_generate_def rd_obj_def Let_def run_mem_def)
  moreover have "vw_objs w' b = Some (ob\<lparr>ob_entries := ?es\<rparr>)" using w'(2) by (simp add: vw_same_def wr_obj_def)
  ultimately show ?thesis using w'(3,4) by (simp add: vm_ok_mem)
qed

lemma fault_page_mapped:
  assumes a: "oim_addr (oim_off oim addr) oim = int (0x1000 * (unat addr div 0x1000))"
    and win: "in_window oim addr" and al: "oi_base oim mod PAGE_SIZE = 0"
  shows "oim_mapped (oim_off oim addr) frame fl oim T (oi_map oim) (unat addr div 0x1000) = Some (frame OR fl OR PAGE_TABLE_PRESENT)"
proof -
  let ?u = "unat addr div 0x1000"
  have "unat (oi_base oim) \<le> unat addr" "unat addr < unat (oim_hi oim)"
    using win by (simp_all add: in_window_def oim_hi_def word_le_nat_alt word_less_nat_alt)
  moreover have "unat (oi_base oim) mod 4096 = 0" using al unat_mod_distrib [of "oi_base oim" PAGE_SIZE] by simp
  then obtain b where b: "unat (oi_base oim) = 4096 * b" by (metis mod_0_imp_dvd dvdE)
  have "4096 * b div 4096 \<le> ?u" using calculation(1) b by (intro div_le_mono) simp
  then have "unat (oi_base oim) \<le> 0x1000 * ?u" using b by simp
  moreover have "0x1000 * ?u < unat (oim_hi oim)"
    by (rule le_less_trans [OF times_div_less_eq_dividend calculation(2)])
  moreover have "nat (oim_addr (oim_off oim addr) oim div 0x1000) = ?u" unfolding a by simp
  moreover have "\<not> oim_addr (oim_off oim addr) oim < 0" unfolding a by simp
  ultimately show ?thesis by (simp add: oim_mapped_def mapped_def)
qed

section \<open>Properties\<close>


text \<open>A map with one page table, one object of two pages without any page loaded yet, shown from 0x2000 on.\<close>

definition vm_example :: "mem \<Rightarrow> vworld" where
  "vm_example s = \<lparr>vw_mem = s, vw_maps = [0x10 \<mapsto> \<lparr>vm_using_cpu = NO_CPU, vm_physical_dir = NULL, vm_logical_dir = NULL,
       vm_tab_pages = 0x20 # replicate 767 NULL, vm_tables = 0x30 # replicate 767 NULL, vm_pid = 0, vm_task_id = 0, vm_oims = [0x50]\<rparr>],
     vw_objs = [0x40 \<mapsto> \<lparr>ob_entries = [], ob_max_pages = 2, ob_page_flags = 2, ob_object_flags = 0, ob_oims = [0x50]\<rparr>],
     vw_oims = [0x50 \<mapsto> \<lparr>oi_object = 0x40, oi_map = 0x10, oi_base = 0x2000, oi_offset = 0, oi_pages = 4\<rparr>],
     vw_tabs = [0x30 \<mapsto> replicate 1024 0], vw_mutex = False, vw_cpu = 0, vw_cr3 = 0, vw_invl = [], vw_sent = []\<rparr>"

lemma vm_example_present: "present (vm_example s) mp i \<longleftrightarrow> mp = 0x10 \<and> i = 0"
  by (auto simp: present_def vm_example_def nth_Cons' split: if_splits)

lemma vm_example_ok: "vm_ok (vm_example s)"
  unfolding vm_ok_def vm_example_present by (auto simp: vm_example_def taddr_def split: if_splits)

definition example_page :: page where
  "example_page = \<lparr>page_id = 1, mem_base = 0x9000, pg_flags = 0, consecutive = 1, pg_next = NULL\<rparr>"

definition page_example :: mem where
  "page_example = kmem_example\<lparr>m_pages := [0x60 \<mapsto> example_page]\<rparr>"

lemma page_example_chain: "page_chain page_example 0x60 [0x60]" "chain_frames page_example [0x60] = [0x9000]"
  by (auto simp: page_chain_def page_example_def pg_nx_def example_page_def chunk_frames_def)




text \<open>A fault in a window behind the end of its object is reported as resolved although no page is loaded and no
  entry changes, so that the faulting instruction faults again forever.\<close>

theorem vm_fault_behind_object_unresolved:
  assumes "vw_maps w mp = Some m" and "vm_oims m = xs @ x # ys"
    and "\<forall>y \<in> set xs. \<exists>oi. vw_oims w y = Some oi \<and> \<not> in_window oi addr"
    and "vw_oims w x = Some oim" and "in_window oim addr" and "vw_objs w (oi_object oim) = Some ob"
    and "ob_max_pages ob < oim_off oim addr div PAGE_SIZE"
  shows "resolve_fault k gen mp addr w = Inr (True, with_sti w) \<and> vm_pte (with_sti w) = vm_pte w"
proof -
  have "unat (oim_off oim addr) div 4096 < 1048576"
    using unat_lt_32 [of "oim_off oim addr"] by (simp add: div_less_iff_less_mult)
  then have "unat (oim_off oim addr div PAGE_SIZE) < 2 ^ 32 - 1" by (simp add: unat_div_distrib)
  then have "unat (oim_off oim addr div PAGE_SIZE + 1) = Suc (unat (oim_off oim addr div PAGE_SIZE))"
    by (subst unat_add_lt) simp_all
  then have "cap_count (ob_max_pages ob) (oim_off oim addr) 1 = None"
    using assms(7) by (simp add: cap_count_def word_less_nat_alt)
  then have "Object_generate k gen (oi_object oim) (oim_off oim addr) 1 (with_sti w) = Inr (with_sti w)"
    using assms(6) by (simp add: Object_generate_def rd_obj_def with_sti_def)
  with resolve_fault_eq [OF assms(1-5), of k gen] show ?thesis by (simp add: with_sti_def vm_ok_mem)
qed

theorem vm_fault_behind_object_unresolved_witness:
  "resolve_fault 0 (\<lambda>obj off n s. Inl Fault) 0x10 0x5000 (vm_example kmem_example) = Inr (True, with_sti (vm_example kmem_example))"
proof -
  let ?w = "vm_example kmem_example"
  let ?oim = "\<lparr>oi_object = 0x40, oi_map = 0x10, oi_base = 0x2000, oi_offset = 0, oi_pages = 4\<rparr>"
  have off: "oim_off ?oim 0x5000 = 0x3000" by (simp add: oim_off_def PAGE_SIZE_def)
  have win: "in_window ?oim 0x5000" by (simp add: in_window_def PAGE_SIZE_def)
  obtain m where m: "vw_maps ?w 0x10 = Some m" "vm_oims m = [] @ 0x50 # []" by (simp add: vm_example_def)
  have "resolve_fault 0 (\<lambda>obj off n s. Inl Fault) 0x10 0x5000 ?w = Inr (True, with_sti ?w) \<and> vm_pte (with_sti ?w) = vm_pte ?w"
    by (rule vm_fault_behind_object_unresolved [OF m _ _ win,
          where ob = "\<lparr>ob_entries = [], ob_max_pages = 2, ob_page_flags = 2, ob_object_flags = 0, ob_oims = [0x50]\<rparr>"]) (use off in \<open>simp_all add: vm_example_def PAGE_SIZE_def\<close>)
  then show ?thesis ..
qed

end
