(* ===== verification/Task.thy ===== *)
theory Task
  imports Vm Utf8
begin

text \<open>
  \<open>src/task/task.cpp\<close>, \<open>include/task/task.hpp\<close>, \<open>src/task/asm.s\<close> and the processor status of
  \<open>src/main/cpu.cpp\<close>: processes, threads, wait channels and the scheduler. A function that several CPUs
  interleave in is split into the pieces between which another CPU can act; the step relation \<open>mstep\<close>
  puts them together again, with one program position per CPU. The lists of threads are sequences, as
  shown of the linked list; address spaces are entered and left through the model of \<open>vm::Map\<close>. The words
  of a new stack are stored at the kernel addresses where its page is installed.
\<close>

section \<open>Processor status\<close>

record cpu_status =
  cs_cpu_id :: u8
  cs_stack :: u32
  cs_thread :: u32
  cs_awoken :: bool
  cs_awaiting :: bool
  cs_eflags :: u32

record thread =
  th_process :: u32
  th_thread_id :: u32
  th_task_id :: u32
  th_vm :: u32
  th_stack :: u32
  th_sp :: u32
  th_wchan :: u32
  th_in_use :: bool
  th_ended :: bool

record process =
  pr_threads :: "u32 list"
  pr_id :: u32
  pr_owner :: u32
  pr_group :: u32
  pr_thread_counter :: u32

record tstate =
  ts_w :: vworld
  ts_threads :: "u32 \<Rightarrow> thread option"
  ts_procs :: "process list"
  ts_process_counter :: u32
  ts_task_counter :: u32
  ts_waiting :: "u32 list"
  ts_waiting_mutex :: bool
  ts_mutex :: bool
  ts_wchans :: "utf8 list"
  ts_no_wchan :: u32
  ts_cpus :: "nat \<Rightarrow> cpu_status option"
  ts_words :: "u32 \<Rightarrow> u32 option"

definition TASK_STACK_TOP :: u32 where "TASK_STACK_TOP = KERNEL_VM_BASE"

definition cpu_info_of :: "nat \<Rightarrow> tstate \<Rightarrow> cpu_status result" where
  "cpu_info_of c s = (if MAX_CORES \<le> c then Inl Fault else case ts_cpus s c of
     None \<Rightarrow> Inl (Panic ''Tried to get the status of an invalid or un-inited cpu'') | Some i \<Rightarrow> Inr i)"

text \<open>\<open>cpu::id\<close> checks that interrupts are off when \<open>CHECK_IF\<close> of \<open>config.hpp\<close> is set. The check is part of the model, so that safety
  covers the kernel with the checks and without them. \<open>info\<close> is \<open>info_of(id())\<close>.\<close>

definition cpu_id :: "nat \<Rightarrow> tstate \<Rightarrow> nat result" where
  "cpu_id c s = (case ts_cpus s c of None \<Rightarrow> Inr c
     | Some i \<Rightarrow> if interrupts_on (cs_eflags i) then Inl (Panic ''IF not clear in id'') else Inr c)"

definition cpu_info :: "nat \<Rightarrow> tstate \<Rightarrow> cpu_status result" where
  "cpu_info c s = bindE (cpu_id c s) (\<lambda>i. cpu_info_of i s)"

definition set_cpu :: "nat \<Rightarrow> cpu_status \<Rightarrow> tstate \<Rightarrow> tstate" where
  "set_cpu c i s = s\<lparr>ts_cpus := (ts_cpus s)(c \<mapsto> i)\<rparr>"

definition set_eflags :: "nat \<Rightarrow> (u32 \<Rightarrow> u32) \<Rightarrow> tstate \<Rightarrow> tstate" where
  "set_eflags c f s = s\<lparr>ts_cpus := (ts_cpus s)(c := map_option (\<lambda>i. i\<lparr>cs_eflags := f (cs_eflags i)\<rparr>) (ts_cpus s c))\<rparr>"

definition cli :: "nat \<Rightarrow> tstate \<Rightarrow> tstate" where
  "cli c s = set_eflags c (\<lambda>e. e AND NOT IF_flag) s"

definition sti :: "nat \<Rightarrow> tstate \<Rightarrow> tstate" where
  "sti c s = set_eflags c (\<lambda>e. e OR IF_flag) s"

text \<open>The thread of the CPU's status, read with the interrupts off: what \<open>in_thread\<close>, \<open>get_thread\<close> and \<open>task_yield\<close> do.\<close>

definition info_thread :: "nat \<Rightarrow> tstate \<Rightarrow> (u32 \<times> tstate) result" where
  "info_thread c s = bindE (cpu_info_of c s) (\<lambda>i0. let saved = fst (push_cli (cs_eflags i0));
       s1 = set_eflags c (\<lambda>e. snd (push_cli e)) s in
     bindE (cpu_info c s1) (\<lambda>i. Inr (cs_thread i, set_eflags c (pop_flags saved) s1)))"

text \<open>\<open>current_thread\<close> goes to the array of statuses itself.\<close>

definition cpu_status_at :: "nat \<Rightarrow> tstate \<Rightarrow> cpu_status result" where
  "cpu_status_at c s = (if MAX_CORES \<le> c then Inl Fault else case ts_cpus s c of
     None \<Rightarrow> Inl (Panic ''Tried to dereference a null unique_ptr'') | Some i \<Rightarrow> Inr i)"

definition cpu_current_thread :: "nat \<Rightarrow> tstate \<Rightarrow> (u32 \<times> tstate) result" where
  "cpu_current_thread c s = (let s1 = set_eflags c (\<lambda>e. snd (push_cli e)) s in
     bindE (cpu_id c s1) (\<lambda>j. bindE (cpu_status_at j s1) (\<lambda>i. bindE (cpu_status_at c s) (\<lambda>i0.
     Inr (cs_thread i, set_eflags c (pop_flags (fst (push_cli (cs_eflags i0)))) s1)))))"

definition cpu_current_thread_noint :: "nat \<Rightarrow> tstate \<Rightarrow> u32 result" where
  "cpu_current_thread_noint c s = bindE (cpu_id c s) (\<lambda>j. bindE (cpu_status_at j s) (\<lambda>i. Inr (cs_thread i)))"

text \<open>\<open>cpu::init\<close>: a stack page and a status for each processor.\<close>

fun cpu_init_loop :: "nat \<Rightarrow> nat \<Rightarrow> nat \<Rightarrow> tstate \<Rightarrow> tstate result" where
  "cpu_init_loop k i 0 s = Inr s"
| "cpu_init_loop k i (Suc n) s =
     bindE (run_mem (page_alloc k 0 1) (ts_w s)) (\<lambda>(pg, w1).
     bindE (run_mem (kinstall k pg PAGE_TABLE_RW) w1) (\<lambda>(base, w2).
     cpu_init_loop k (Suc i) n (s\<lparr>ts_w := w2, ts_cpus := (ts_cpus s)(i \<mapsto> \<lparr>cs_cpu_id = of_nat i, cs_stack = base,
       cs_thread = NULL, cs_awoken = False, cs_awaiting = False, cs_eflags = 0\<rparr>)\<rparr>)))"

definition cpu_init :: "nat \<Rightarrow> nat \<Rightarrow> tstate \<Rightarrow> tstate result" where
  "cpu_init k proc_count s = cpu_init_loop k 0 proc_count s"

section \<open>Processes and threads\<close>

definition rd_thread :: "tstate \<Rightarrow> u32 \<Rightarrow> thread result" where
  "rd_thread s t = (case ts_threads s t of None \<Rightarrow> Inl Fault | Some x \<Rightarrow> Inr x)"

definition wr_thread :: "u32 \<Rightarrow> thread \<Rightarrow> tstate \<Rightarrow> tstate" where
  "wr_thread t x s = s\<lparr>ts_threads := (ts_threads s)(t \<mapsto> x)\<rparr>"

definition get_process :: "u32 \<Rightarrow> tstate \<Rightarrow> process option" where
  "get_process i s = List.find (\<lambda>p. pr_id p = i) (ts_procs s)"

definition set_process :: "process \<Rightarrow> tstate \<Rightarrow> tstate" where
  "set_process p s = s\<lparr>ts_procs := map (\<lambda>q. if pr_id q = pr_id p then p else q) (ts_procs s)\<rparr>"

text \<open>The constructor leaves \<open>owner\<close>, \<open>group\<close> and \<open>thread_counter\<close> as the allocator hands them out.\<close>

definition Process_new :: "u32 \<Rightarrow> tstate \<Rightarrow> process \<times> tstate" where
  "Process_new junk s = (\<lparr>pr_threads = [], pr_id = ts_process_counter s, pr_owner = junk, pr_group = junk, pr_thread_counter = junk\<rparr>,
     s\<lparr>ts_process_counter := ts_process_counter s + 1\<rparr>)"

definition new_wchan :: "utf8 \<Rightarrow> tstate \<Rightarrow> u32 \<times> tstate" where
  "new_wchan name s = (let ws = ts_wchans s @ [name] in (of_nat (length ws) - 1, s\<lparr>ts_wchans := ws\<rparr>))"

definition task_init :: "u32 \<Rightarrow> utf8 \<Rightarrow> tstate \<Rightarrow> tstate" where
  "task_init junk dot s = (let (p, s1) = Process_new junk s;
       s2 = s1\<lparr>ts_procs := ts_procs s1 @ [p\<lparr>pr_id := 0\<rparr>]\<rparr>;
       (n, s3) = new_wchan dot s2 in s3\<lparr>ts_no_wchan := n\<rparr>)"

definition get_thread_of :: "u32 \<Rightarrow> process \<Rightarrow> tstate \<Rightarrow> u32 option" where
  "get_thread_of i p s = List.find (\<lambda>t. map_option th_thread_id (ts_threads s t) = Some i) (pr_threads p)"

fun remove_first :: "(u32 \<Rightarrow> bool) \<Rightarrow> u32 list \<Rightarrow> u32 list" where
  "remove_first P [] = []"
| "remove_first P (t # ts) = (if P t then ts else t # remove_first P ts)"

definition remove_thread :: "u32 \<Rightarrow> process \<Rightarrow> tstate \<Rightarrow> process" where
  "remove_thread i p s = p\<lparr>pr_threads := remove_first (\<lambda>t. map_option th_thread_id (ts_threads s t) = Some i) (pr_threads p)\<rparr>"

text \<open>The words that the constructor of a thread stores on the new stack, as offsets from its top: the
  return address, the entry point, the assembly entry, the flags, and eight zero words of registers.\<close>

definition initial_stack :: "u32 \<Rightarrow> u32 \<Rightarrow> u32 \<Rightarrow> (nat \<times> u32) list" where
  "initial_stack fn_end entry fn_entry = [(4, fn_end), (8, entry), (12, fn_entry), (16, 0)] @
     map (\<lambda>i. (16 + 32 + 32 - 4 * i, 0)) [0..<8]"

definition put_words :: "u32 \<Rightarrow> (nat \<times> u32) list \<Rightarrow> (u32 \<Rightarrow> u32 option) \<Rightarrow> u32 \<Rightarrow> u32 option" where
  "put_words sp ws h = fold (\<lambda>(i, v) g. g(sp - of_nat i \<mapsto> v)) ws h"

text \<open>The constructor: \<open>t\<close>, \<open>mp\<close>, \<open>ob\<close> and \<open>x\<close> are the addresses of the new thread, map, stack object and
  window, \<open>fn_end\<close> and \<open>fn_entry\<close> those of \<open>task_end\<close> and \<open>task_asm_entry_point\<close>; \<open>wchan\<close> and \<open>ended\<close> keep what was in the memory of the thread (\<open>junk\<close>).\<close>

definition Thread_new :: "u32 \<Rightarrow> u32 \<Rightarrow> nat \<Rightarrow> u32 \<Rightarrow> u32 \<Rightarrow> u32 \<Rightarrow> u32 \<Rightarrow> u32 \<Rightarrow> u32 \<Rightarrow> u32 \<Rightarrow> tstate \<Rightarrow> tstate result" where
  "Thread_new fn_end fn_entry k junk t mp ob x pid entry s = (case get_process pid s of None \<Rightarrow> Inl (Panic ''Tried to dereference a null shared_ptr'')
   | Some p \<Rightarrow>
     let p1 = p\<lparr>pr_thread_counter := pr_thread_counter p + 1\<rparr>;
         s1 = (set_process p1 s)\<lparr>ts_task_counter := ts_task_counter s + 1\<rparr> in
     bindE (Mutex_lock (ts_mutex s1)) (\<lambda>f.
     bindE (Map_new k mp (pr_id p1) (ts_task_counter s1) (pr_id p1 = 0) (ts_w s1)) (\<lambda>w1.
     let w2 = Object_new ob 1 2 0 w1 in
     bindE (Object_generate k (\<lambda>_. EmptyObject_do_generate k) ob 0 1 w2) (\<lambda>w3.
     bindE (add_object k mp x ob (TASK_STACK_TOP - PAGE_SIZE) 0 1 w3) (\<lambda>w4.
     bindE (rd_obj w4 ob) (\<lambda>stack.
     case ob_entries stack of [] \<Rightarrow> Inl (Panic ''Tried to dereference a null unique_ptr'')
     | (off, pg) # es \<Rightarrow>
       bindE (run_mem (kinstall k pg 0) w4) (\<lambda>(inst, w5).
       bindE (run_mem_unit (kuninstall k inst pg) w5) (\<lambda>w6.
       Inr (wr_thread t \<lparr>th_process = pid, th_thread_id = pr_thread_counter p1, th_task_id = ts_task_counter s1, th_vm = mp,
              th_stack = ob, th_sp = TASK_STACK_TOP - 4 * 4 - 32, th_wchan = junk, th_in_use = False, th_ended = (junk \<noteq> 0)\<rparr>
            (s1\<lparr>ts_mutex := snd (Mutex_unlock f), ts_w := w6,
              ts_words := put_words (inst + PAGE_SIZE) (initial_stack fn_end entry fn_entry) (ts_words s1)\<rparr>))))))))))"

text \<open>\<open>new_thread\<close> enters the thread into its process and into the waiting list.\<close>

definition waiting_push :: "u32 \<Rightarrow> tstate \<Rightarrow> tstate result" where
  "waiting_push t s = bindE (Mutex_lock (ts_waiting_mutex s)) (\<lambda>f.
     Inr (s\<lparr>ts_waiting := t # ts_waiting s, ts_waiting_mutex := snd (Mutex_unlock f)\<rparr>))"

definition new_thread :: "u32 \<Rightarrow> u32 \<Rightarrow> nat \<Rightarrow> u32 \<Rightarrow> u32 \<Rightarrow> u32 \<Rightarrow> u32 \<Rightarrow> u32 \<Rightarrow> u32 \<Rightarrow> u32 \<Rightarrow> tstate \<Rightarrow> tstate result" where
  "new_thread fn_end fn_entry k junk t mp ob x pid entry s = bindE (Thread_new fn_end fn_entry k junk t mp ob x pid entry s) (\<lambda>s1.
     case get_process pid s1 of None \<Rightarrow> Inl Fault
     | Some p \<Rightarrow> let s2 = set_process (p\<lparr>pr_threads := pr_threads p @ [t]\<rparr>) s1 in
       bindE (rd_thread s2 t) (\<lambda>th. waiting_push t (wr_thread t (th\<lparr>th_wchan := ts_no_wchan s2\<rparr>) s2)))"

text \<open>\<open>Thread::end\<close>, with the call of \<open>remove_thread\<close> on the process of the thread.\<close>

definition end_process :: "thread \<Rightarrow> tstate \<Rightarrow> tstate" where
  "end_process th s = (case get_process (th_process th) s of None \<Rightarrow> s
     | Some p \<Rightarrow> set_process (remove_thread (th_thread_id th) p s) s)"

definition Thread_end :: "nat \<Rightarrow> u32 \<Rightarrow> tstate \<Rightarrow> tstate result" where
  "Thread_end c t s = bindE (cpu_info_of c s) (\<lambda>i. let saved = fst (push_cli (cs_eflags i)); s0 = set_eflags c (\<lambda>e. snd (push_cli e)) s in
     bindE (Mutex_lock (ts_mutex s0)) (\<lambda>f. bindE (rd_thread s0 t) (\<lambda>th.
     let s2 = end_process th (wr_thread t (th\<lparr>th_ended := True\<rparr>) (s0\<lparr>ts_mutex := f\<rparr>))
     in Inr (set_eflags c (pop_flags saved) (s2\<lparr>ts_mutex := snd (Mutex_unlock (ts_mutex s2))\<rparr>)))))"

section \<open>Switching\<close>

definition with_vm :: "nat \<Rightarrow> (vworld \<Rightarrow> vworld result) \<Rightarrow> tstate \<Rightarrow> tstate result" where
  "with_vm c f s = bindE (f ((ts_w s)\<lparr>vw_cpu := of_nat c\<rparr>)) (\<lambda>w. Inr (s\<lparr>ts_w := w\<rparr>))"

definition in_thread :: "nat \<Rightarrow> tstate \<Rightarrow> (bool \<times> tstate) result" where
  "in_thread c s = bindE (info_thread c s) (\<lambda>(t, s1). Inr (t \<noteq> NULL, s1))"

definition get_thread :: "nat \<Rightarrow> tstate \<Rightarrow> (u32 \<times> tstate) result" where
  "get_thread c s = info_thread c s"

text \<open>\<open>task_yield\<close> up to the switch of stacks: whether the CPU goes on to \<open>task_yield_done\<close>.\<close>

definition task_yield :: "nat \<Rightarrow> tstate \<Rightarrow> (bool \<times> tstate) result" where
  "task_yield c s = bindE (info_thread c s) (\<lambda>(t, s1). Inr (t \<noteq> NULL, s1))"

definition task_timer_yield :: "nat \<Rightarrow> tstate \<Rightarrow> (bool \<times> tstate) result" where
  "task_timer_yield c s = bindE (cpu_info c s) (\<lambda>i.
     if cs_thread i = NULL \<and> \<not> cs_awaiting i then Inr (False, s) else task_yield c s)"

text \<open>\<open>wait\<close> before it yields.\<close>

definition wait_set :: "nat \<Rightarrow> u32 \<Rightarrow> tstate \<Rightarrow> tstate result" where
  "wait_set c wchan s = bindE (get_thread c s) (\<lambda>(t, s1).
     if t = NULL then Inl (Panic ''Tried to dereference a null shared_ptr'')
     else bindE (rd_thread s1 t) (\<lambda>th. Inr (wr_thread t (th\<lparr>th_wchan := wchan\<rparr>) s1)))"

text \<open>\<open>task_yield_done\<close> until it enables interrupts, and its second half.\<close>

definition task_yield_done :: "nat \<Rightarrow> u32 \<Rightarrow> tstate \<Rightarrow> (u32 \<times> tstate) result" where
  "task_yield_done c sp s = (let s0 = cli c s in
     bindE (cpu_info c s0) (\<lambda>i. let t = cs_thread i; s1 = set_cpu c (i\<lparr>cs_thread := NULL\<rparr>) s0 in
     if t = NULL then Inl (Panic ''Tried to dereference a null shared_ptr'')
     else bindE (rd_thread s1 t) (\<lambda>th.
       bindE (with_vm c (vm_exit (th_vm th)) (wr_thread t (th\<lparr>th_sp := sp\<rparr>) s1)) (\<lambda>s2.
       bindE (rd_thread s2 t) (\<lambda>th2. Inr (t, sti c (wr_thread t (th2\<lparr>th_in_use := False\<rparr>) s2)))))))"

definition yield_requeue :: "u32 \<Rightarrow> tstate \<Rightarrow> tstate result" where
  "yield_requeue t s = bindE (Mutex_lock (ts_waiting_mutex s)) (\<lambda>f. bindE (rd_thread s t) (\<lambda>th.
     Inr (s\<lparr>ts_waiting := (if th_wchan th = ts_no_wchan s then t # ts_waiting s else ts_waiting s),
            ts_waiting_mutex := snd (Mutex_unlock f)\<rparr>)))"

text \<open>\<open>schedule\<close>: its start, one round of the loop with the removal of the thread it found, and the claim of
  that thread.\<close>

definition schedule_begin :: "nat \<Rightarrow> tstate \<Rightarrow> tstate result" where
  "schedule_begin c s = (let s0 = cli c s in bindE (cpu_info c s0) (\<lambda>i.
     Inr (set_cpu c (i\<lparr>cs_awaiting := True, cs_thread := NULL\<rparr>) s0)))"

definition schedule_poll :: "nat \<Rightarrow> tstate \<Rightarrow> (u32 option \<times> tstate) result" where
  "schedule_poll c s = (case Mutex_trylock (ts_waiting_mutex s) of (e, f) \<Rightarrow>
     if e \<noteq> EOK then Inr (None, sti c s)
     else if ts_waiting s = [] then Inr (None, sti c (s\<lparr>ts_waiting_mutex := snd (Mutex_unlock f)\<rparr>))
     else let s1 = s\<lparr>ts_waiting := butlast (ts_waiting s), ts_waiting_mutex := snd (Mutex_unlock f)\<rparr> in
       bindE (cpu_info_of c s1) (\<lambda>i. Inr (Some (last (ts_waiting s)), set_cpu c (i\<lparr>cs_awaiting := False\<rparr>) s1)))"

definition schedule_claim :: "u32 \<Rightarrow> tstate \<Rightarrow> tstate result" where
  "schedule_claim t s = bindE (Mutex_lock (ts_mutex s)) (\<lambda>f. bindE (rd_thread s t) (\<lambda>th.
     if th_in_use th then Inl (Panic ''Found an in use thread in the waiting list'')
     else Inr (wr_thread t (th\<lparr>th_in_use := True\<rparr>) (s\<lparr>ts_mutex := snd (Mutex_unlock f)\<rparr>))))"

definition task_enter :: "nat \<Rightarrow> u32 \<Rightarrow> tstate \<Rightarrow> tstate result" where
  "task_enter c t s = (let s0 = cli c s in bindE (cpu_info c s0) (\<lambda>i. bindE (rd_thread s0 t) (\<lambda>th.
     bindE (with_vm c (vm_enter (th_vm th)) s0) (\<lambda>s1.
     bindE (cpu_info c s1) (\<lambda>i1. Inr (set_cpu c (i1\<lparr>cs_thread := t\<rparr>) s1))))))"

text \<open>\<open>resume\<close> in two pieces, and the end of a thread.\<close>

definition resume_check :: "u32 \<Rightarrow> tstate \<Rightarrow> (bool \<times> tstate) result" where
  "resume_check t s = bindE (Mutex_lock (ts_mutex s)) (\<lambda>f. bindE (rd_thread s t) (\<lambda>th.
     if th_wchan th \<noteq> ts_no_wchan s
     then Inr (True, wr_thread t (th\<lparr>th_wchan := ts_no_wchan s\<rparr>) (s\<lparr>ts_mutex := snd (Mutex_unlock f)\<rparr>))
     else Inr (False, s\<lparr>ts_mutex := snd (Mutex_unlock f)\<rparr>)))"

definition task_end_done :: "nat \<Rightarrow> tstate \<Rightarrow> tstate result" where
  "task_end_done c s = bindE (cpu_info c s) (\<lambda>i. let t = cs_thread i; s1 = set_cpu c (i\<lparr>cs_thread := NULL\<rparr>) s in
     if t = NULL then Inl (Panic ''Tried to dereference a null shared_ptr'') else Thread_end c t s1)"

definition task_end :: "nat \<Rightarrow> tstate \<Rightarrow> tstate result" where
  "task_end c s = task_end_done c (cli c s)"

section \<open>Several CPUs\<close>

text \<open>
  Where a CPU is: in a thread or in other kernel code (\<open>Outside\<close>), between the two halves of
  \<open>task_yield_done\<close>, in the loop of \<open>schedule\<close>, or with a thread that it took from the list and has not
  claimed or not entered yet. \<open>mc_pend\<close> are the threads between the two halves of \<open>resume\<close>.
\<close>

datatype sched_pc = Outside | Requeue u32 | Polling | Claiming u32 | Entering u32

record machine =
  mc_s :: tstate
  mc_pc :: "nat \<Rightarrow> sched_pc"
  mc_pend :: "u32 list"

definition cur :: "tstate \<Rightarrow> nat \<Rightarrow> u32" where
  "cur s c = (case ts_cpus s c of None \<Rightarrow> NULL | Some i \<Rightarrow> cs_thread i)"

text \<open>The thread that a CPU has in its hands.\<close>

definition held_by :: "sched_pc \<Rightarrow> u32 \<Rightarrow> u32 option" where
  "held_by pc t0 = (case pc of Outside \<Rightarrow> if t0 = NULL then None else Some t0
     | Requeue t \<Rightarrow> Some t | Polling \<Rightarrow> None | Claiming t \<Rightarrow> Some t | Entering t \<Rightarrow> Some t)"

definition held :: "machine \<Rightarrow> nat \<Rightarrow> u32 option" where
  "held m c = held_by (mc_pc m c) (cur (mc_s m) c)"

definition queued :: "machine \<Rightarrow> u32 list" where
  "queued m = ts_waiting (mc_s m) @ mc_pend m"

definition idle :: "tstate \<Rightarrow> u32 \<Rightarrow> bool" where
  "idle s t \<longleftrightarrow> (\<exists>th. ts_threads s t = Some th \<and> \<not> th_in_use th)"

text \<open>A thread that waits on a channel and has left its CPU.\<close>

definition parked :: "machine \<Rightarrow> u32 \<Rightarrow> bool" where
  "parked m t \<longleftrightarrow> idle (mc_s m) t \<and> t \<notin> set (queued m) \<and> (\<forall>c. held m c \<noteq> Some t)"

text \<open>The steps. With \<open>b\<close>, only parked threads are resumed.\<close>

inductive mstep :: "bool \<Rightarrow> machine \<Rightarrow> machine \<Rightarrow> bool" for b where
  yield: "mc_pc m c = Outside \<Longrightarrow> task_yield c (mc_s m) = Inr (True, s1) \<Longrightarrow> task_yield_done c sp s1 = Inr (t, s2) \<Longrightarrow>
    mstep b m (m\<lparr>mc_s := s2, mc_pc := (mc_pc m)(c := Requeue t)\<rparr>)"
| requeue: "mc_pc m c = Requeue t \<Longrightarrow> yield_requeue t (mc_s m) = Inr s1 \<Longrightarrow> schedule_begin c s1 = Inr s2 \<Longrightarrow>
    mstep b m (m\<lparr>mc_s := s2, mc_pc := (mc_pc m)(c := Polling)\<rparr>)"
| start: "mc_pc m c = Outside \<Longrightarrow> cur (mc_s m) c = NULL \<Longrightarrow> schedule_begin c (mc_s m) = Inr s1 \<Longrightarrow>
    mstep b m (m\<lparr>mc_s := s1, mc_pc := (mc_pc m)(c := Polling)\<rparr>)"
| poll: "mc_pc m c = Polling \<Longrightarrow> schedule_poll c (mc_s m) = Inr (None, s1) \<Longrightarrow> mstep b m (m\<lparr>mc_s := s1\<rparr>)"
| take: "mc_pc m c = Polling \<Longrightarrow> schedule_poll c (mc_s m) = Inr (Some t, s1) \<Longrightarrow>
    mstep b m (m\<lparr>mc_s := s1, mc_pc := (mc_pc m)(c := Claiming t)\<rparr>)"
| claim: "mc_pc m c = Claiming t \<Longrightarrow> schedule_claim t (mc_s m) = Inr s1 \<Longrightarrow>
    mstep b m (m\<lparr>mc_s := s1, mc_pc := (mc_pc m)(c := Entering t)\<rparr>)"
| enter: "mc_pc m c = Entering t \<Longrightarrow> task_enter c t (mc_s m) = Inr s1 \<Longrightarrow>
    mstep b m (m\<lparr>mc_s := s1, mc_pc := (mc_pc m)(c := Outside)\<rparr>)"
| wait: "mc_pc m c = Outside \<Longrightarrow> wait_set c w (mc_s m) = Inr s1 \<Longrightarrow> mstep b m (m\<lparr>mc_s := s1\<rparr>)"
| resume: "resume_check t (mc_s m) = Inr (True, s1) \<Longrightarrow> b \<longrightarrow> parked m t \<Longrightarrow>
    mstep b m (m\<lparr>mc_s := s1, mc_pend := t # mc_pend m\<rparr>)"
| wake: "t \<in> set (mc_pend m) \<Longrightarrow> waiting_push t (mc_s m) = Inr s1 \<Longrightarrow>
    mstep b m (m\<lparr>mc_s := s1, mc_pend := remove1 t (mc_pend m)\<rparr>)"
| finish: "mc_pc m c = Outside \<Longrightarrow> task_end c (mc_s m) = Inr s1 \<Longrightarrow> schedule_begin c s1 = Inr s2 \<Longrightarrow>
    mstep b m (m\<lparr>mc_s := s2, mc_pc := (mc_pc m)(c := Polling)\<rparr>)"

text \<open>A CPU whose next piece of the scheduler panics, faults or waits for ever.\<close>

definition sched_fails :: "machine \<Rightarrow> bool" where
  "sched_fails m \<longleftrightarrow> (\<exists>c e. case mc_pc m c of Outside \<Rightarrow> False
     | Requeue t \<Rightarrow> yield_requeue t (mc_s m) = Inl e
     | Polling \<Rightarrow> schedule_poll c (mc_s m) = Inl e
     | Claiming t \<Rightarrow> schedule_claim t (mc_s m) = Inl e
     | Entering t \<Rightarrow> task_enter c t (mc_s m) = Inl e)"

definition cpu_there :: "tstate \<Rightarrow> nat \<Rightarrow> bool" where
  "cpu_there s c \<longleftrightarrow> c < MAX_CORES \<and> ts_cpus s c \<noteq> None"

section \<open>The invariant\<close>

definition loc_ok :: "(nat \<Rightarrow> u32 option) \<Rightarrow> u32 list \<Rightarrow> bool" where
  "loc_ok H Q \<longleftrightarrow> distinct Q \<and> (\<forall>c d t. H c = Some t \<longrightarrow> H d = Some t \<longrightarrow> c = d) \<and> (\<forall>c t. H c = Some t \<longrightarrow> t \<notin> set Q)"

text \<open>Every thread has an address space of its own, which no CPU uses while the thread is not in use.\<close>

definition thr_ok :: "tstate \<Rightarrow> bool" where
  "thr_ok s \<longleftrightarrow> ts_threads s NULL = None \<and>
     (\<forall>t th. ts_threads s t = Some th \<longrightarrow> (\<exists>m. vw_maps (ts_w s) (th_vm th) = Some m \<and>
        m_pages (vw_mem (ts_w s)) (vm_physical_dir m) \<noteq> None \<and> (\<not> th_in_use th \<longrightarrow> vm_using_cpu m = NO_CPU))) \<and>
     (\<forall>t t' th th'. ts_threads s t = Some th \<longrightarrow> ts_threads s t' = Some th' \<longrightarrow> th_vm th = th_vm th' \<longrightarrow> t = t')"

definition pc_ok :: "tstate \<Rightarrow> sched_pc \<Rightarrow> u32 \<Rightarrow> bool" where
  "pc_ok s pc t0 = (case pc of Outside \<Rightarrow> t0 \<noteq> NULL \<longrightarrow> ts_threads s t0 \<noteq> None
     | Requeue t \<Rightarrow> idle s t | Polling \<Rightarrow> True | Claiming t \<Rightarrow> idle s t
     | Entering t \<Rightarrow> \<exists>th m. ts_threads s t = Some th \<and> th_in_use th \<and> vw_maps (ts_w s) (th_vm th) = Some m \<and> vm_using_cpu m = NO_CPU)"

definition free_mutexes :: "tstate \<Rightarrow> bool" where
  "free_mutexes s \<longleftrightarrow> \<not> ts_mutex s \<and> \<not> ts_waiting_mutex s \<and> \<not> vw_mutex (ts_w s)"

definition minv :: "machine \<Rightarrow> bool" where
  "minv m \<longleftrightarrow> free_mutexes (mc_s m) \<and> loc_ok (held m) (queued m) \<and> thr_ok (mc_s m) \<and>
     (\<forall>t \<in> set (queued m). idle (mc_s m) t) \<and> (\<forall>c. pc_ok (mc_s m) (mc_pc m c) (cur (mc_s m) c)) \<and>
     (\<forall>c. mc_pc m c \<noteq> Outside \<longrightarrow> cpu_there (mc_s m) c)"

text \<open>Moving threads between CPUs and queues.\<close>

lemma loc_ok_drop: "loc_ok H Q \<Longrightarrow> loc_ok (H(c := None)) Q"
  by (auto simp: loc_ok_def)

lemma loc_ok_same: "loc_ok H Q \<Longrightarrow> distinct Q' \<Longrightarrow> set Q' = set Q \<Longrightarrow> loc_ok H Q'"
  by (auto simp: loc_ok_def)

lemma loc_ok_enqueue: "loc_ok H Q \<Longrightarrow> H c = Some t \<Longrightarrow> loc_ok (H(c := None)) (t # Q)"
  by (fastforce simp: loc_ok_def)

lemma loc_ok_dequeue: "loc_ok H Q \<Longrightarrow> t \<in> set Q \<Longrightarrow> distinct Q' \<Longrightarrow> set Q' = set Q - {t} \<Longrightarrow> loc_ok (H(c \<mapsto> t)) Q'"
  by (fastforce simp: loc_ok_def split: if_splits)

lemma loc_ok_park: "loc_ok H Q \<Longrightarrow> t \<notin> set Q \<Longrightarrow> \<forall>c. H c \<noteq> Some t \<Longrightarrow> loc_ok H (t # Q)"
  by (fastforce simp: loc_ok_def)

text \<open>The parts of the state that the invariant speaks of.\<close>

lemma cur_set_cpu [simp]: "cur (set_cpu c i s) = (cur s)(c := cs_thread i)"
  by (auto simp: cur_def set_cpu_def)

lemma cur_set_eflags [simp]: "cur (set_eflags c f s) = cur s"
  by (auto simp: cur_def set_eflags_def fun_eq_iff split: option.splits)

lemma cur_cong: "ts_cpus s' = ts_cpus s \<Longrightarrow> cur s' = cur s"
  by (simp add: cur_def fun_eq_iff)

lemma set_eflags_simps [simp]:
  "ts_w (set_eflags c f s) = ts_w s" "ts_threads (set_eflags c f s) = ts_threads s" "ts_waiting (set_eflags c f s) = ts_waiting s"
  "ts_mutex (set_eflags c f s) = ts_mutex s" "ts_waiting_mutex (set_eflags c f s) = ts_waiting_mutex s"
  "ts_no_wchan (set_eflags c f s) = ts_no_wchan s"
  by (simp_all add: set_eflags_def)

lemma set_cpu_simps [simp]:
  "ts_w (set_cpu c i s) = ts_w s" "ts_threads (set_cpu c i s) = ts_threads s" "ts_waiting (set_cpu c i s) = ts_waiting s"
  "ts_mutex (set_cpu c i s) = ts_mutex s" "ts_waiting_mutex (set_cpu c i s) = ts_waiting_mutex s"
  "ts_no_wchan (set_cpu c i s) = ts_no_wchan s"
  by (simp_all add: set_cpu_def)

lemma wr_thread_simps [simp]:
  "ts_w (wr_thread t x s) = ts_w s" "ts_threads (wr_thread t x s) = (ts_threads s)(t \<mapsto> x)" "ts_waiting (wr_thread t x s) = ts_waiting s"
  "ts_mutex (wr_thread t x s) = ts_mutex s" "ts_waiting_mutex (wr_thread t x s) = ts_waiting_mutex s"
  "ts_no_wchan (wr_thread t x s) = ts_no_wchan s" "ts_cpus (wr_thread t x s) = ts_cpus s" "cur (wr_thread t x s) = cur s"
  by (simp_all add: wr_thread_def cur_def fun_eq_iff)

lemma cur_upd [simp]: "cur (s\<lparr>ts_w := w\<rparr>) = cur s" "cur (s\<lparr>ts_waiting := q\<rparr>) = cur s"
  "cur (s\<lparr>ts_mutex := f\<rparr>) = cur s" "cur (s\<lparr>ts_waiting_mutex := f\<rparr>) = cur s"
  by (simp_all add: cur_def fun_eq_iff)

lemma cpu_info_cur: "cpu_info c s = Inr i \<Longrightarrow> cs_thread i = cur s c"
  by (auto simp: cpu_info_def cpu_id_def cpu_info_of_def cur_def bindE_def split: if_splits option.splits sum.splits)

lemma cpu_info_of_cur: "cpu_info_of c s = Inr i \<Longrightarrow> cs_thread i = cur s c"
  by (auto simp: cpu_info_of_def cur_def split: if_splits option.splits)

lemma vm_exit_effect:
  assumes "vm_exit mp w = Inr w'"
  shows "\<exists>m. vw_maps w mp = Some m \<and> vw_maps w' = (vw_maps w)(mp \<mapsto> m\<lparr>vm_using_cpu := NO_CPU\<rparr>) \<and> vw_mem w' = vw_mem w \<and> \<not> vw_mutex w'"
  using assms by (auto simp: vm_exit_def result_iff rd_map_def wr_map_def Let_def split: option.splits)

lemma vm_enter_effect:
  assumes "vm_enter mp w = Inr w'"
  shows "\<exists>m. vw_maps w mp = Some m \<and> vw_maps w' = (vw_maps w)(mp \<mapsto> m\<lparr>vm_using_cpu := vw_cpu w\<rparr>) \<and> vw_mem w' = vw_mem w \<and> \<not> vw_mutex w'"
  using assms by (auto simp: vm_enter_def result_iff rd_map_def wr_map_def Let_def split: option.splits if_splits)

lemma cpu_there_simps [simp]:
  "cpu_there (set_eflags c f s) = cpu_there s" "cpu_there (wr_thread t x s) = cpu_there s" "cpu_there (s\<lparr>ts_w := w\<rparr>) = cpu_there s"
  "cpu_there (s\<lparr>ts_waiting := q\<rparr>) = cpu_there s" "cpu_there (cli c s) = cpu_there s" "cpu_there (sti c s) = cpu_there s" "cpu_there (s\<lparr>ts_mutex := g\<rparr>) = cpu_there s"
  "cpu_there (s\<lparr>ts_waiting_mutex := g\<rparr>) = cpu_there s"
  by (auto simp: cpu_there_def set_eflags_def wr_thread_def cli_def sti_def fun_eq_iff)

lemma cpu_there_set: "cpu_there s c \<Longrightarrow> cpu_there (set_cpu c i s) = cpu_there s"
  by (auto simp: cpu_there_def set_cpu_def fun_eq_iff)

lemma cpu_info_there: "cpu_info c s = Inr i \<Longrightarrow> cpu_there s c" "cpu_info_of c s = Inr i \<Longrightarrow> cpu_there s c"
  by (auto simp: cpu_info_def cpu_id_def cpu_info_of_def cpu_there_def bindE_def split: if_splits option.splits sum.splits)

lemma cli_simps [simp]:
  "ts_w (cli c s) = ts_w s" "ts_threads (cli c s) = ts_threads s" "ts_waiting (cli c s) = ts_waiting s" "ts_mutex (cli c s) = ts_mutex s"
  "ts_waiting_mutex (cli c s) = ts_waiting_mutex s" "ts_no_wchan (cli c s) = ts_no_wchan s" "ts_procs (cli c s) = ts_procs s"
  by (simp_all add: cli_def set_eflags_def)

lemma sti_simps [simp]:
  "ts_w (sti c s) = ts_w s" "ts_threads (sti c s) = ts_threads s" "ts_waiting (sti c s) = ts_waiting s" "ts_mutex (sti c s) = ts_mutex s"
  "ts_waiting_mutex (sti c s) = ts_waiting_mutex s" "ts_no_wchan (sti c s) = ts_no_wchan s" "ts_procs (sti c s) = ts_procs s"
  by (simp_all add: sti_def set_eflags_def)

text \<open>Two states that look the same to the invariant except for what a piece of the scheduler names.\<close>

definition frame :: "tstate \<Rightarrow> tstate \<Rightarrow> bool" where
  "frame s s' \<longleftrightarrow> ts_w s' = ts_w s \<and> ts_threads s' = ts_threads s \<and> ts_waiting s' = ts_waiting s \<and>
     ts_mutex s' = ts_mutex s \<and> ts_waiting_mutex s' = ts_waiting_mutex s \<and> ts_no_wchan s' = ts_no_wchan s \<and>
     cpu_there s' = cpu_there s"

lemma frame_refl [simp]: "frame s s"
  by (simp add: frame_def)

lemma frame_cli [simp]: "frame s (cli c s)" "frame s (sti c s)" "cur (cli c s) = cur s" "cur (sti c s) = cur s"
  by (simp_all add: cli_def sti_def frame_def)

lemma frameD:
  assumes "frame s s'"
  shows "ts_w s' = ts_w s" "ts_threads s' = ts_threads s" "ts_waiting s' = ts_waiting s" "ts_mutex s' = ts_mutex s"
    "ts_waiting_mutex s' = ts_waiting_mutex s" "ts_no_wchan s' = ts_no_wchan s" "cpu_there s' = cpu_there s"
  using assms by (simp_all add: frame_def)

lemma current_thread_effect:
  assumes "info_thread c s = Inr (t, s')"
  shows "t = cur s c" and "frame s s'" and "cur s' = cur s" and "cpu_there s c"
proof -
  from assms obtain i0 i where i0: "cpu_info_of c s = Inr i0"
    and i: "cpu_info c (set_eflags c (\<lambda>e. snd (push_cli e)) s) = Inr i" and t: "t = cs_thread i"
    and s': "s' = set_eflags c (pop_flags (fst (push_cli (cs_eflags i0)))) (set_eflags c (\<lambda>e. snd (push_cli e)) s)"
    by (auto simp: info_thread_def result_iff Let_def)
  show "t = cur s c" using t cpu_info_cur [OF i] by simp
  show "frame s s'" "cur s' = cur s" using s' by (simp_all add: frame_def)
  show "cpu_there s c" by (rule cpu_info_there(2) [OF i0])
qed

lemma schedule_begin_effect:
  assumes "schedule_begin c s = Inr s'"
  shows "frame s s'" and "cur s' = (cur s)(c := NULL)" and "cpu_there s c"
proof -
  from assms obtain i where i: "cpu_info c (cli c s) = Inr i" and s': "s' = set_cpu c (i\<lparr>cs_awaiting := True, cs_thread := NULL\<rparr>) (cli c s)"
    by (auto simp: schedule_begin_def result_iff Let_def)
  show th: "cpu_there s c" using cpu_info_there(1) [OF i] by simp
  then show "frame s s'" using s' by (simp add: frame_def cpu_there_set)
  show "cur s' = (cur s)(c := NULL)" using s' by simp
qed

lemma yield_done_effect:
  assumes "task_yield_done c sp s = Inr (t, s')"
  shows "\<exists>th m. t = cur s c \<and> t \<noteq> NULL \<and> cpu_there s c \<and> ts_threads s t = Some th \<and> vw_maps (ts_w s) (th_vm th) = Some m \<and>
     ts_threads s' = (ts_threads s)(t \<mapsto> th\<lparr>th_sp := sp, th_in_use := False\<rparr>) \<and>
     vw_maps (ts_w s') = (vw_maps (ts_w s))(th_vm th \<mapsto> m\<lparr>vm_using_cpu := NO_CPU\<rparr>) \<and> vw_mem (ts_w s') = vw_mem (ts_w s) \<and>
     \<not> vw_mutex (ts_w s') \<and> ts_waiting s' = ts_waiting s \<and> ts_mutex s' = ts_mutex s \<and> ts_waiting_mutex s' = ts_waiting_mutex s \<and>
     cpu_there s' = cpu_there s \<and> cur s' = (cur s)(c := NULL)"
proof -
  let ?s0 = "cli c s"
  from assms obtain i th w' where i: "cpu_info c ?s0 = Inr i" and t: "t = cs_thread i" "cs_thread i \<noteq> NULL"
    and th: "ts_threads s (cs_thread i) = Some th"
    and w': "vm_exit (th_vm th) ((ts_w s)\<lparr>vw_cpu := of_nat c\<rparr>) = Inr w'"
    and s': "s' = sti c (wr_thread t (th\<lparr>th_sp := sp, th_in_use := False\<rparr>)
        ((wr_thread t (th\<lparr>th_sp := sp\<rparr>) (set_cpu c (i\<lparr>cs_thread := NULL\<rparr>) ?s0))\<lparr>ts_w := w'\<rparr>))"
    by (auto simp: task_yield_done_def result_iff Let_def rd_thread_def with_vm_def split: option.splits if_splits)
  from vm_exit_effect [OF w'] obtain m where m: "vw_maps (ts_w s) (th_vm th) = Some m"
    "vw_maps w' = (vw_maps (ts_w s))(th_vm th \<mapsto> m\<lparr>vm_using_cpu := NO_CPU\<rparr>)" "vw_mem w' = vw_mem (ts_w s)" "\<not> vw_mutex w'" by auto
  have c: "cpu_there s c" using cpu_info_there(1) [OF i] by simp
  then have "cpu_there s' = cpu_there s" using s' by (simp add: cpu_there_set)
  moreover have "cur s' = (cur s)(c := NULL)" using s' by simp
  moreover have "ts_w s' = w'" "ts_threads s' = (ts_threads s)(t \<mapsto> th\<lparr>th_sp := sp, th_in_use := False\<rparr>)"
    "ts_waiting s' = ts_waiting s" "ts_mutex s' = ts_mutex s" "ts_waiting_mutex s' = ts_waiting_mutex s"
    using s' by simp_all
  ultimately show ?thesis using m th t c cpu_info_cur [OF i] by auto
qed

lemma requeue_effect:
  assumes "yield_requeue t s = Inr s'"
  shows "ts_w s' = ts_w s" "ts_threads s' = ts_threads s" "ts_waiting s' = ts_waiting s \<or> ts_waiting s' = t # ts_waiting s"
    "ts_mutex s' = ts_mutex s" "\<not> ts_waiting_mutex s'" "cpu_there s' = cpu_there s" "cur s' = cur s"
  using assms by (auto simp: yield_requeue_def result_iff)

lemma push_effect:
  assumes "waiting_push t s = Inr s'"
  shows "ts_w s' = ts_w s" "ts_threads s' = ts_threads s" "ts_waiting s' = t # ts_waiting s"
    "ts_mutex s' = ts_mutex s" "\<not> ts_waiting_mutex s'" "cpu_there s' = cpu_there s" "cur s' = cur s"
  using assms by (auto simp: waiting_push_def result_iff)

lemma poll_none_effect:
  assumes "schedule_poll c s = Inr (None, s')" and "\<not> ts_waiting_mutex s"
  shows "frame s s'" "cur s' = cur s" "ts_waiting s = []"
  using assms by (auto simp: schedule_poll_def frame_def result_iff Let_def split: if_splits prod.splits)

lemma poll_some_effect:
  assumes "schedule_poll c s = Inr (Some t, s')"
  shows "ts_w s' = ts_w s" "ts_threads s' = ts_threads s" "ts_waiting s \<noteq> []" "t = last (ts_waiting s)" "ts_waiting s' = butlast (ts_waiting s)"
    "ts_mutex s' = ts_mutex s" "\<not> ts_waiting_mutex s'" "cpu_there s' = cpu_there s" "cur s' = cur s"
proof -
  let ?s1 = "s\<lparr>ts_waiting := butlast (ts_waiting s), ts_waiting_mutex := False\<rparr>"
  from assms obtain i where ne: "ts_waiting s \<noteq> []" and t: "t = last (ts_waiting s)" and i: "cpu_info_of c ?s1 = Inr i"
    and s': "s' = set_cpu c (i\<lparr>cs_awaiting := False\<rparr>) ?s1"
    by (auto simp: schedule_poll_def result_iff Let_def split: if_splits prod.splits)
  have "cur ?s1 = cur s" "cpu_there ?s1 = cpu_there s" by simp_all
  with s' cpu_info_of_cur [OF i] cpu_info_there(2) [OF i]
  show "cur s' = cur s" "cpu_there s' = cpu_there s" using cpu_there_set [of ?s1 c] by (simp_all add: fun_eq_iff)
qed (use assms in \<open>auto simp: schedule_poll_def result_iff Let_def split: if_splits prod.splits\<close>)

lemma claim_effect:
  assumes "schedule_claim t s = Inr s'"
  shows "\<exists>th. ts_threads s t = Some th \<and> \<not> th_in_use th \<and> ts_threads s' = (ts_threads s)(t \<mapsto> th\<lparr>th_in_use := True\<rparr>) \<and> ts_w s' = ts_w s \<and>
     ts_waiting s' = ts_waiting s \<and> \<not> ts_mutex s' \<and> ts_waiting_mutex s' = ts_waiting_mutex s \<and> cpu_there s' = cpu_there s \<and> cur s' = cur s"
  using assms by (auto simp: schedule_claim_def result_iff rd_thread_def split: option.splits if_splits)

lemma resume_effect:
  assumes "resume_check t s = Inr (True, s')"
  shows "\<exists>th. ts_threads s t = Some th \<and> ts_threads s' = (ts_threads s)(t \<mapsto> th\<lparr>th_wchan := ts_no_wchan s\<rparr>) \<and> ts_w s' = ts_w s \<and>
     ts_waiting s' = ts_waiting s \<and> \<not> ts_mutex s' \<and> ts_waiting_mutex s' = ts_waiting_mutex s \<and> cpu_there s' = cpu_there s \<and> cur s' = cur s"
  using assms by (auto simp: resume_check_def result_iff rd_thread_def split: option.splits if_splits)

lemma wait_effect:
  assumes "wait_set c w s = Inr s'"
  shows "\<exists>t th. ts_threads s t = Some th \<and> ts_threads s' = (ts_threads s)(t \<mapsto> th\<lparr>th_wchan := w\<rparr>) \<and> ts_w s' = ts_w s \<and>
     ts_waiting s' = ts_waiting s \<and> ts_mutex s' = ts_mutex s \<and> ts_waiting_mutex s' = ts_waiting_mutex s \<and> cpu_there s' = cpu_there s \<and> cur s' = cur s"
proof -
  from assms obtain t s1 th where g: "info_thread c s = Inr (t, s1)" and th: "ts_threads s1 t = Some th"
    and s': "s' = wr_thread t (th\<lparr>th_wchan := w\<rparr>) s1"
    by (auto simp: wait_set_def get_thread_def result_iff rd_thread_def split: option.splits if_splits)
  note f = frameD [OF current_thread_effect(2) [OF g]] current_thread_effect(3) [OF g]
  from th s' f show ?thesis by auto
qed

lemma enter_effect:
  assumes "task_enter c t s = Inr s'"
  shows "\<exists>th m. ts_threads s t = Some th \<and> vw_maps (ts_w s) (th_vm th) = Some m \<and> ts_threads s' = ts_threads s \<and>
     vw_maps (ts_w s') = (vw_maps (ts_w s))(th_vm th \<mapsto> m\<lparr>vm_using_cpu := of_nat c\<rparr>) \<and> vw_mem (ts_w s') = vw_mem (ts_w s) \<and>
     \<not> vw_mutex (ts_w s') \<and> ts_waiting s' = ts_waiting s \<and> ts_mutex s' = ts_mutex s \<and> ts_waiting_mutex s' = ts_waiting_mutex s \<and>
     cpu_there s' = cpu_there s \<and> cur s' = (cur s)(c := t)"
proof -
  let ?s0 = "cli c s"
  from assms obtain th w' i1 where th: "ts_threads s t = Some th"
    and w': "vm_enter (th_vm th) ((ts_w s)\<lparr>vw_cpu := of_nat c\<rparr>) = Inr w'"
    and i1: "cpu_info c (?s0\<lparr>ts_w := w'\<rparr>) = Inr i1" and s': "s' = set_cpu c (i1\<lparr>cs_thread := t\<rparr>) (?s0\<lparr>ts_w := w'\<rparr>)"
    by (auto simp: task_enter_def result_iff Let_def rd_thread_def with_vm_def split: option.splits if_splits)
  from vm_enter_effect [OF w'] obtain m where m: "vw_maps (ts_w s) (th_vm th) = Some m"
    "vw_maps w' = (vw_maps (ts_w s))(th_vm th \<mapsto> m\<lparr>vm_using_cpu := of_nat c\<rparr>)" "vw_mem w' = vw_mem (ts_w s)" "\<not> vw_mutex w'" by auto
  have c: "cpu_there (?s0\<lparr>ts_w := w'\<rparr>) c" using cpu_info_there(1) [OF i1] .
  then have "cpu_there s' = cpu_there s" using s' cpu_there_set [OF c] by simp
  then show ?thesis using m th s' by auto
qed

text \<open>What the invariant sees of a thread: whether it is in use, its address space, the CPU that uses the
  address space, and whether the page directory is there.\<close>

type_synonym tview = "bool \<times> u32 \<times> u32 option \<times> bool"

definition has_dir :: "vworld \<Rightarrow> u32 \<Rightarrow> bool" where
  "has_dir w v \<longleftrightarrow> (\<exists>m. vw_maps w v = Some m \<and> m_pages (vw_mem w) (vm_physical_dir m) \<noteq> None)"

definition view :: "tstate \<Rightarrow> u32 \<Rightarrow> tview option" where
  "view s t = map_option (\<lambda>th. (th_in_use th, th_vm th, map_option vm_using_cpu (vw_maps (ts_w s) (th_vm th)), has_dir (ts_w s) (th_vm th))) (ts_threads s t)"

definition vidle :: "(u32 \<Rightarrow> tview option) \<Rightarrow> u32 \<Rightarrow> bool" where
  "vidle V t \<longleftrightarrow> (\<exists>vm u p. V t = Some (False, vm, u, p))"

definition vgood :: "tview \<Rightarrow> bool" where
  "vgood v = (case v of (iu, vm, u, p) \<Rightarrow> u \<noteq> None \<and> p \<and> (\<not> iu \<longrightarrow> u = Some NO_CPU))"

definition vthr_ok :: "(u32 \<Rightarrow> tview option) \<Rightarrow> bool" where
  "vthr_ok V \<longleftrightarrow> V NULL = None \<and> (\<forall>t v. V t = Some v \<longrightarrow> vgood v) \<and>
     (\<forall>t t' v v'. V t = Some v \<longrightarrow> V t' = Some v' \<longrightarrow> fst (snd v) = fst (snd v') \<longrightarrow> t = t')"

definition vpc_ok :: "(u32 \<Rightarrow> tview option) \<Rightarrow> sched_pc \<Rightarrow> u32 \<Rightarrow> bool" where
  "vpc_ok V pc t0 = (case pc of Outside \<Rightarrow> t0 \<noteq> NULL \<longrightarrow> V t0 \<noteq> None | Requeue t \<Rightarrow> vidle V t | Polling \<Rightarrow> True
     | Claiming t \<Rightarrow> vidle V t | Entering t \<Rightarrow> \<exists>vm p. V t = Some (True, vm, Some NO_CPU, p))"

lemma idle_view: "idle s t \<longleftrightarrow> vidle (view s) t"
  by (auto simp: idle_def vidle_def view_def)

lemma view_None [simp]: "view s t = None \<longleftrightarrow> ts_threads s t = None"
  by (simp add: view_def)

lemma view_good: "(\<forall>v. view s t = Some v \<longrightarrow> vgood v) \<longleftrightarrow> (\<forall>th. ts_threads s t = Some th \<longrightarrow> (\<exists>m. vw_maps (ts_w s) (th_vm th) = Some m \<and>
    m_pages (vw_mem (ts_w s)) (vm_physical_dir m) \<noteq> None \<and> (\<not> th_in_use th \<longrightarrow> vm_using_cpu m = NO_CPU)))"
  by (cases "ts_threads s t") (auto simp: view_def vgood_def has_dir_def)

lemma view_vm: "(\<forall>v v'. view s t = Some v \<longrightarrow> view s t' = Some v' \<longrightarrow> fst (snd v) = fst (snd v') \<longrightarrow> t = t') \<longleftrightarrow>
    (\<forall>th th'. ts_threads s t = Some th \<longrightarrow> ts_threads s t' = Some th' \<longrightarrow> th_vm th = th_vm th' \<longrightarrow> t = t')"
  by (cases "ts_threads s t"; cases "ts_threads s t'") (simp_all add: view_def)

lemma thr_ok_view: "thr_ok s \<longleftrightarrow> vthr_ok (view s)"
  unfolding thr_ok_def vthr_ok_def view_good view_vm view_None ..

lemma pc_ok_view: "pc_ok s pc t0 \<longleftrightarrow> vpc_ok (view s) pc t0"
  by (cases pc) (auto simp: pc_ok_def vpc_ok_def idle_view view_def)

lemma view_same: "ts_w s' = ts_w s \<Longrightarrow> ts_threads s' = ts_threads s \<Longrightarrow> view s' = view s"
  by (rule ext) (simp add: view_def)

lemma view_thread_upd:
  assumes "ts_threads s t = Some th" and "ts_threads s' = (ts_threads s)(t \<mapsto> th')" and "ts_w s' = ts_w s" and "th_vm th' = th_vm th"
  shows "view s' = (view s)(t \<mapsto> (th_in_use th', snd (the (view s t))))"
  using assms by (intro ext) (simp add: view_def)

lemma view_map_upd:
  assumes ok: "thr_ok s" and th: "ts_threads s t = Some th" and "ts_threads s' = (ts_threads s)(t \<mapsto> th')" and "th_vm th' = th_vm th"
    and m: "vw_maps (ts_w s) (th_vm th) = Some m" and "vw_maps (ts_w s') = (vw_maps (ts_w s))(th_vm th \<mapsto> m\<lparr>vm_using_cpu := u\<rparr>)"
    and "vw_mem (ts_w s') = vw_mem (ts_w s)"
  shows "view s' = (view s)(t \<mapsto> (th_in_use th', th_vm th, Some u, snd (snd (snd (the (view s t))))))"
proof
  fix x
  have "has_dir (ts_w s') = has_dir (ts_w s)" using assms(5-7) by (auto simp: has_dir_def fun_eq_iff)
  moreover have "th_vm thx \<noteq> th_vm th" if "ts_threads s x = Some thx" "x \<noteq> t" for thx
    using ok th that unfolding thr_ok_def by blast
  ultimately show "view s' x = ((view s)(t \<mapsto> (th_in_use th', th_vm th, Some u, snd (snd (snd (the (view s t))))))) x"
    using assms by (cases "ts_threads s x") (auto simp: view_def)
qed

text \<open>The invariant over views, and a change of one thread that a CPU holds.\<close>

definition ainv :: "u32 list \<Rightarrow> (u32 \<Rightarrow> tview option) \<Rightarrow> (nat \<Rightarrow> sched_pc) \<Rightarrow> (nat \<Rightarrow> u32) \<Rightarrow> bool" where
  "ainv Q V pcs curs \<longleftrightarrow> loc_ok (\<lambda>c. held_by (pcs c) (curs c)) Q \<and> vthr_ok V \<and> (\<forall>t \<in> set Q. vidle V t) \<and> (\<forall>c. vpc_ok V (pcs c) (curs c))"

lemma minv_ainv: "minv m \<longleftrightarrow> free_mutexes (mc_s m) \<and> ainv (queued m) (view (mc_s m)) (mc_pc m) (cur (mc_s m)) \<and>
    (\<forall>c. mc_pc m c \<noteq> Outside \<longrightarrow> cpu_there (mc_s m) c)"
  unfolding minv_def ainv_def thr_ok_view pc_ok_view idle_view held_def [abs_def] by blast

lemma held_upd: "(\<lambda>d. held_by ((pcs(c := p)) d) ((curs(c := x)) d)) = (\<lambda>d. held_by (pcs d) (curs d))(c := held_by p x)"
  by (simp add: fun_eq_iff)

lemma vpc_ok_held_cong: "(\<And>t. held_by pc t0 = Some t \<Longrightarrow> V' t = V t) \<Longrightarrow> vpc_ok V' pc t0 = vpc_ok V pc t0"
  by (cases pc) (auto simp: vpc_ok_def held_by_def vidle_def split: if_splits)

lemma vthr_ok_upd:
  assumes vt: "vthr_ok V" and v: "V t = Some v" and g: "vgood v'" and s: "fst (snd v') = fst (snd v)"
  shows "vthr_ok (V(t \<mapsto> v'))"
proof -
  let ?W = "V(t \<mapsto> v')"
  from vt have nul: "V NULL = None" and good: "\<And>t v. V t = Some v \<Longrightarrow> vgood v"
    and inj: "\<And>t t' v v'. V t = Some v \<Longrightarrow> V t' = Some v' \<Longrightarrow> fst (snd v) = fst (snd v') \<Longrightarrow> t = t'"
    unfolding vthr_ok_def by blast+
  have same: "\<exists>w. V x = Some w \<and> fst (snd w) = fst (snd y)" if "?W x = Some y" for x y
    using that v s by (cases "x = t") auto
  have n: "?W NULL = None" using nul v by auto
  have gd: "vgood y" if "?W x = Some y" for x y using that g good by (cases "x = t") auto
  have ij: "x = x'" if x: "?W x = Some y" and x': "?W x' = Some y'" and e: "fst (snd y) = fst (snd y')" for x x' y y'
  proof -
    from same [OF x] obtain w where w: "V x = Some w" "fst (snd w) = fst (snd y)" by blast
    from same [OF x'] obtain w' where w': "V x' = Some w'" "fst (snd w') = fst (snd y')" by blast
    show ?thesis by (rule inj [OF w(1) w'(1)]) (simp add: w w' e)
  qed
  show ?thesis unfolding vthr_ok_def
  proof (intro conjI allI impI)
    show "?W NULL = None" by (rule n)
  next
    fix x y assume "?W x = Some y" then show "vgood y" by (rule gd)
  next
    fix x x' y y' assume "?W x = Some y" "?W x' = Some y'" "fst (snd y) = fst (snd y')" then show "x = x'" by (rule ij)
  qed
qed

lemma ainv_held_upd:
  assumes a: "ainv Q V pcs curs" and h: "held_by (pcs c) (curs c) = Some t" and v: "V t = Some v" and g: "vgood v'"
    and s: "fst (snd v') = fst (snd v)" and h': "held_by p x = Some t" and pc: "vpc_ok (V(t \<mapsto> v')) p x"
  shows "ainv Q (V(t \<mapsto> v')) (pcs(c := p)) (curs(c := x))"
proof -
  let ?H = "\<lambda>c. held_by (pcs c) (curs c)"
  from a have l: "loc_ok ?H Q" and vt: "vthr_ok V" and q: "\<forall>t \<in> set Q. vidle V t" and pcs: "\<forall>c. vpc_ok V (pcs c) (curs c)"
    by (auto simp: ainv_def)
  have "?H(c \<mapsto> t) = ?H" using h by auto
  then have "loc_ok (\<lambda>d. held_by ((pcs(c := p)) d) ((curs(c := x)) d)) Q" using l unfolding held_upd h' by simp
  moreover have "vthr_ok (V(t \<mapsto> v'))" by (rule vthr_ok_upd [OF vt v g s])
  moreover have "\<forall>t' \<in> set Q. vidle (V(t \<mapsto> v')) t'" using q l h by (auto simp: vidle_def loc_ok_def)
  moreover have "vpc_ok (V(t \<mapsto> v')) ((pcs(c := p)) d) ((curs(c := x)) d)" for d
  proof (cases "d = c")
    case False
    then have "?H d \<noteq> Some t" using l h by (auto simp: loc_ok_def)
    then have "vpc_ok (V(t \<mapsto> v')) (pcs d) (curs d) = vpc_ok V (pcs d) (curs d)" by (intro vpc_ok_held_cong) auto
    then show ?thesis using False pcs by simp
  qed (simp add: pc)
  ultimately show ?thesis by (simp add: ainv_def)
qed

lemma ainv_step:
  assumes "ainv Q V pcs curs" and "loc_ok ((\<lambda>c. held_by (pcs c) (curs c))(c := held_by p x)) Q'" and "\<forall>t \<in> set Q'. vidle V t" and "vpc_ok V p x"
  shows "ainv Q' V (pcs(c := p)) (curs(c := x))"
  using assms unfolding ainv_def held_upd by simp

text \<open>The end of a thread leaves all that the invariant sees but the thread that the CPU runs.\<close>

lemma end_process_simps [simp]:
  "ts_w (end_process th s) = ts_w s" "ts_threads (end_process th s) = ts_threads s" "ts_waiting (end_process th s) = ts_waiting s"
  "ts_waiting_mutex (end_process th s) = ts_waiting_mutex s" "cur (end_process th s) = cur s" "cpu_there (end_process th s) = cpu_there s"
  by (simp_all add: end_process_def set_process_def cur_def cpu_there_def fun_eq_iff split: option.split)

lemma Thread_end_effect:
  assumes "Thread_end c t s = Inr s'"
  shows "ts_w s' = ts_w s \<and> ts_waiting s' = ts_waiting s \<and> \<not> ts_mutex s' \<and> ts_waiting_mutex s' = ts_waiting_mutex s \<and>
    cpu_there s' = cpu_there s \<and> cur s' = cur s \<and> view s' = view s"
proof -
  from assms obtain i :: cpu_status and th where th: "ts_threads s t = Some th"
    and g: "s' = set_eflags c (pop_flags (cs_eflags i)) ((end_process th (wr_thread t (th\<lparr>th_ended := True\<rparr>)
      (set_eflags c (\<lambda>e. snd (push_cli e)) s\<lparr>ts_mutex := True\<rparr>)))\<lparr>ts_mutex := False\<rparr>)"
    by (auto simp: Thread_end_def result_iff rd_thread_def Let_def split: option.splits)
  have "view s' = (view s)(t \<mapsto> (th_in_use (th\<lparr>th_ended := True\<rparr>), snd (the (view s t))))"
    by (rule view_thread_upd [OF th, of _ "th\<lparr>th_ended := True\<rparr>"]) (simp_all add: g)
  also have "\<dots> = view s" using th by (simp add: view_def fun_eq_iff)
  finally show ?thesis by (simp add: g)
qed

lemma task_end_effect:
  assumes "task_end c s = Inr s'"
  shows "ts_w s' = ts_w s \<and> ts_waiting s' = ts_waiting s \<and> \<not> ts_mutex s' \<and> ts_waiting_mutex s' = ts_waiting_mutex s \<and>
    cpu_there s' = cpu_there s \<and> cur s' = (cur s)(c := NULL) \<and> view s' = view s"
proof -
  from assms obtain i where i: "cpu_info c (cli c s) = Inr i" and e: "Thread_end c (cs_thread i) (set_cpu c (i\<lparr>cs_thread := NULL\<rparr>) (cli c s)) = Inr s'"
    by (auto simp: task_end_def task_end_done_def result_iff Let_def split: if_splits)
  have "cpu_there (cli c s) c" by (rule cpu_info_there(1) [OF i])
  moreover have "view (set_cpu c (i\<lparr>cs_thread := NULL\<rparr>) (cli c s)) = view s" by (rule view_same) simp_all
  ultimately show ?thesis using Thread_end_effect [OF e] by (simp add: cpu_there_set)
qed

text \<open>The steps keep the invariant, one lemma per step.\<close>

lemma minvD:
  assumes "minv m"
  shows "free_mutexes (mc_s m)" "thr_ok (mc_s m)" "ainv (queued m) (view (mc_s m)) (mc_pc m) (cur (mc_s m))"
    "\<And>c. mc_pc m c \<noteq> Outside \<Longrightarrow> cpu_there (mc_s m) c"
  using assms unfolding minv_ainv by (auto simp: thr_ok_view ainv_def)

lemma minvI:
  assumes "minv m" and "free_mutexes s'" and "cpu_there s' = cpu_there (mc_s m)" and "cpu_there (mc_s m) c"
    and "ainv (ts_waiting s' @ ps) (view s') ((mc_pc m)(c := p)) (cur s')"
  shows "minv (m\<lparr>mc_s := s', mc_pc := (mc_pc m)(c := p), mc_pend := ps\<rparr>)"
  using assms minvD(4) [OF assms(1)] unfolding minv_ainv by (auto simp: queued_def)

lemma ainvD:
  assumes "ainv Q V pcs curs"
  shows "loc_ok (\<lambda>c. held_by (pcs c) (curs c)) Q" "vthr_ok V" "t \<in> set Q \<Longrightarrow> vidle V t" "vpc_ok V (pcs c) (curs c)" "V t = Some v \<Longrightarrow> vgood v"
  using assms unfolding ainv_def vthr_ok_def by blast+

lemma minv_yield:
  assumes m: "minv m" and pc: "mc_pc m c = Outside" and y: "task_yield c (mc_s m) = Inr (True, s1)" and d: "task_yield_done c sp s1 = Inr (t, s2)"
  shows "minv (m\<lparr>mc_s := s2, mc_pc := (mc_pc m)(c := Requeue t)\<rparr>)"
proof -
  let ?s = "mc_s m"
  from y obtain t0 where g: "info_thread c ?s = Inr (t0, s1)" by (auto simp: task_yield_def result_iff)
  note f = frameD [OF current_thread_effect(2) [OF g]] current_thread_effect(3) [OF g]
  from yield_done_effect [OF d] obtain th mm where e: "t = cur ?s c" "t \<noteq> NULL" "cpu_there ?s c" "ts_threads ?s t = Some th" "vw_maps (ts_w ?s) (th_vm th) = Some mm"
     "ts_threads s2 = (ts_threads ?s)(t \<mapsto> th\<lparr>th_sp := sp, th_in_use := False\<rparr>)"
     "vw_maps (ts_w s2) = (vw_maps (ts_w ?s))(th_vm th \<mapsto> mm\<lparr>vm_using_cpu := NO_CPU\<rparr>)" "vw_mem (ts_w s2) = vw_mem (ts_w ?s)"
     "\<not> vw_mutex (ts_w s2)" "ts_waiting s2 = ts_waiting ?s" "ts_mutex s2 = ts_mutex ?s" "ts_waiting_mutex s2 = ts_waiting_mutex ?s"
     "cpu_there s2 = cpu_there ?s" "cur s2 = (cur ?s)(c := NULL)" unfolding f by blast
  let ?v = "(False, th_vm th, Some NO_CPU, snd (snd (snd (the (view ?s t)))))"
  note a = minvD(3) [OF m]
  have V: "view s2 = (view ?s)(t \<mapsto> ?v)"
    by (rule view_map_upd [OF minvD(2) [OF m] e(4) e(6) _ e(5) e(7) e(8), simplified]) 
  obtain v where v: "view ?s t = Some v" "fst (snd v) = th_vm th" using e(4) by (auto simp: view_def)
  have "ainv (queued m) (view s2) ((mc_pc m)(c := Requeue t)) (cur s2)" unfolding V e(14)
  proof (rule ainv_held_upd [OF a _ v(1)])
    show "vgood ?v" using ainvD(5) [OF a v(1)] v by (auto simp: vgood_def)
  qed (use pc e(1,2) v in \<open>auto simp: held_by_def vpc_ok_def vidle_def\<close>)
  with m e minvD(1) [OF m] show ?thesis
    using minvI [of m s2 c "mc_pend m" "Requeue t"] by (simp add: free_mutexes_def queued_def)
qed

lemma minv_leave:
  assumes m: "minv m" and q: "set q \<subseteq> set (queued m) \<union> (case mc_pc m c of Requeue t \<Rightarrow> {t} | _ \<Rightarrow> {})"
    and l: "loc_ok ((held m)(c := None)) q" and "ts_waiting s' @ mc_pend m = q" and V: "view s' = view (mc_s m)"
    and "cur s' = (cur (mc_s m))(c := NULL)" "cpu_there s' = cpu_there (mc_s m)" "cpu_there (mc_s m) c" "free_mutexes s'"
  shows "minv (m\<lparr>mc_s := s', mc_pc := (mc_pc m)(c := Polling)\<rparr>)"
proof -
  note a = minvD(3) [OF m]
  have "\<forall>t \<in> set q. vidle (view (mc_s m)) t"
    using q ainvD(3) [OF a] ainvD(4) [OF a, of c] by (cases "mc_pc m c") (auto simp: vpc_ok_def)
  then have "ainv q (view (mc_s m)) ((mc_pc m)(c := Polling)) ((cur (mc_s m))(c := NULL))"
    using l by (intro ainv_step [OF a]) (simp_all add: held_by_def vpc_ok_def held_def [abs_def])
  then show ?thesis using minvI [of m s' c "mc_pend m" Polling] assms by simp
qed

lemma minv_requeue:
  assumes m: "minv m" and pc: "mc_pc m c = Requeue t" and r: "yield_requeue t (mc_s m) = Inr s1" and b: "schedule_begin c s1 = Inr s2"
  shows "minv (m\<lparr>mc_s := s2, mc_pc := (mc_pc m)(c := Polling)\<rparr>)"
proof -
  note e = requeue_effect [OF r] and f = frameD [OF schedule_begin_effect(1) [OF b]] and g = schedule_begin_effect(2,3) [OF b]
  have l: "loc_ok (held m) (queued m)" and h: "held m c = Some t" using m pc by (auto simp: minv_def held_def held_by_def)
  have "loc_ok ((held m)(c := None)) (ts_waiting s2 @ mc_pend m)"
    using e(3) loc_ok_drop [OF l, of c] loc_ok_enqueue [OF l h] by (auto simp: f queued_def)
  moreover have "view s2 = view (mc_s m)" by (rule view_same) (simp_all add: f e)
  moreover have "set (ts_waiting s1) \<subseteq> insert t (set (ts_waiting (mc_s m)))" using e(3) by auto
  ultimately show ?thesis using g minvD(1) [OF m]
    by (intro minv_leave [OF m _ _ refl]) (auto simp: f e(1,2,4-7) pc queued_def free_mutexes_def)
qed

lemma minv_start:
  assumes m: "minv m" and pc: "mc_pc m c = Outside" and "cur (mc_s m) c = NULL" and b: "schedule_begin c (mc_s m) = Inr s1"
  shows "minv (m\<lparr>mc_s := s1, mc_pc := (mc_pc m)(c := Polling)\<rparr>)"
proof -
  note f = frameD [OF schedule_begin_effect(1) [OF b]] and g = schedule_begin_effect(2,3) [OF b]
  have l: "loc_ok (held m) (queued m)" using m by (simp add: minv_def)
  have "view s1 = view (mc_s m)" by (rule view_same) (simp_all add: f)
  then show ?thesis using g minvD(1) [OF m] loc_ok_drop [OF l, of c]
    by (intro minv_leave [OF m _ _ refl]) (auto simp: f pc queued_def free_mutexes_def)
qed

lemma minv_finish:
  assumes m: "minv m" and pc: "mc_pc m c = Outside" and e: "task_end c (mc_s m) = Inr s1" and b: "schedule_begin c s1 = Inr s2"
  shows "minv (m\<lparr>mc_s := s2, mc_pc := (mc_pc m)(c := Polling)\<rparr>)"
proof -
  note f = frameD [OF schedule_begin_effect(1) [OF b]] and g = schedule_begin_effect(2,3) [OF b] and e = task_end_effect [OF e]
  have l: "loc_ok (held m) (queued m)" using m by (simp add: minv_def)
  have "view s2 = view s1" by (rule view_same) (simp_all add: f)
  then show ?thesis using g minvD(1) [OF m] loc_ok_drop [OF l, of c] e
    by (intro minv_leave [OF m _ _ refl]) (auto simp: f pc queued_def free_mutexes_def)
qed

text \<open>Steps after which every CPU is where it was.\<close>

lemma minv_still:
  assumes m: "minv m" and "free_mutexes s'" and "cpu_there s' = cpu_there (mc_s m)" and V: "view s' = view (mc_s m)" and C: "cur s' = cur (mc_s m)"
    and l: "loc_ok (held m) (ts_waiting s' @ ps)" and q: "\<forall>t \<in> set (ts_waiting s' @ ps). idle (mc_s m) t"
  shows "minv (m\<lparr>mc_s := s', mc_pend := ps\<rparr>)"
proof -
  note a = minvD(3) [OF m]
  have "ainv (ts_waiting s' @ ps) (view (mc_s m)) (mc_pc m) (cur (mc_s m))"
    using a l q unfolding ainv_def idle_view held_def [abs_def] by blast
  then show ?thesis using assms(2,3) minvD(4) [OF m] unfolding minv_ainv by (simp add: queued_def V C)
qed

lemma minv_poll:
  assumes m: "minv m" and p: "schedule_poll c (mc_s m) = Inr (None, s1)"
  shows "minv (m\<lparr>mc_s := s1\<rparr>)"
proof -
  have "\<not> ts_waiting_mutex (mc_s m)" using minvD(1) [OF m] by (simp add: free_mutexes_def)
  note e = poll_none_effect [OF p this] note f = frameD [OF e(1)]
  have "view s1 = view (mc_s m)" by (rule view_same) (simp_all add: f)
  then show ?thesis using minv_still [OF m, of s1 "mc_pend m"] m e by (simp add: f minv_def queued_def free_mutexes_def)
qed

lemma minv_wait:
  assumes m: "minv m" and w: "wait_set c w (mc_s m) = Inr s1"
  shows "minv (m\<lparr>mc_s := s1\<rparr>)"
proof -
  from wait_effect [OF w] obtain t th where e: "ts_threads (mc_s m) t = Some th" "ts_threads s1 = (ts_threads (mc_s m))(t \<mapsto> th\<lparr>th_wchan := w\<rparr>)"
    "ts_w s1 = ts_w (mc_s m)" "ts_waiting s1 = ts_waiting (mc_s m)" "ts_mutex s1 = ts_mutex (mc_s m)" "ts_waiting_mutex s1 = ts_waiting_mutex (mc_s m)"
    "cpu_there s1 = cpu_there (mc_s m)" "cur s1 = cur (mc_s m)" by blast
  have "view s1 = view (mc_s m)" using view_thread_upd [OF e(1,2,3)] e(1) by (simp add: view_def fun_eq_iff)
  then show ?thesis using minv_still [OF m, of s1 "mc_pend m"] m e by (simp add: minv_def queued_def free_mutexes_def)
qed

lemma minv_resume:
  assumes m: "minv m" and r: "resume_check t (mc_s m) = Inr (True, s1)" and p: "parked m t"
  shows "minv (m\<lparr>mc_s := s1, mc_pend := t # mc_pend m\<rparr>)"
proof -
  from resume_effect [OF r] obtain th where e: "ts_threads (mc_s m) t = Some th" "ts_threads s1 = (ts_threads (mc_s m))(t \<mapsto> th\<lparr>th_wchan := ts_no_wchan (mc_s m)\<rparr>)"
    "ts_w s1 = ts_w (mc_s m)" "ts_waiting s1 = ts_waiting (mc_s m)" "\<not> ts_mutex s1" "ts_waiting_mutex s1 = ts_waiting_mutex (mc_s m)"
    "cpu_there s1 = cpu_there (mc_s m)" "cur s1 = cur (mc_s m)" by blast
  have "view s1 = view (mc_s m)" using view_thread_upd [OF e(1,2,3)] e(1) by (simp add: view_def fun_eq_iff)
  moreover have "loc_ok (held m) (t # queued m)" using m p by (intro loc_ok_park) (auto simp: minv_def parked_def)
  then have "loc_ok (held m) (ts_waiting s1 @ t # mc_pend m)" by (rule loc_ok_same) (use e m p in \<open>auto simp: queued_def minv_def loc_ok_def parked_def\<close>)
  ultimately show ?thesis using minv_still [OF m, of s1 "t # mc_pend m"] m e p by (simp add: minv_def parked_def queued_def free_mutexes_def)
qed

lemma minv_wake:
  assumes m: "minv m" and t: "t \<in> set (mc_pend m)" and w: "waiting_push t (mc_s m) = Inr s1"
  shows "minv (m\<lparr>mc_s := s1, mc_pend := remove1 t (mc_pend m)\<rparr>)"
proof -
  note e = push_effect [OF w]
  have d: "distinct (queued m)" and l: "loc_ok (held m) (queued m)" using m by (auto simp: minv_def loc_ok_def)
  have "view s1 = view (mc_s m)" by (rule view_same) (simp_all add: e)
  moreover have "loc_ok (held m) (ts_waiting s1 @ remove1 t (mc_pend m))" by (rule loc_ok_same [OF l]) (use d t in \<open>auto simp: e queued_def set_remove1_eq\<close>)
  moreover have "\<forall>x \<in> set (ts_waiting s1 @ remove1 t (mc_pend m)). idle (mc_s m) x"
    using m t notin_set_remove1 by (auto simp: e minv_def queued_def)
  ultimately show ?thesis using minvD(1) [OF m] by (intro minv_still [OF m]) (simp_all add: e free_mutexes_def)
qed

lemma minv_take:
  assumes m: "minv m" and pc: "mc_pc m c = Polling" and p: "schedule_poll c (mc_s m) = Inr (Some t, s1)"
  shows "minv (m\<lparr>mc_s := s1, mc_pc := (mc_pc m)(c := Claiming t)\<rparr>)"
proof -
  note e = poll_some_effect [OF p] and a = minvD(3) [OF m]
  have w: "ts_waiting (mc_s m) = ts_waiting s1 @ [t]" using e(3-5) by simp
  have d: "distinct (queued m)" and l: "loc_ok (held m) (queued m)" using m by (auto simp: minv_def loc_ok_def)
  have "loc_ok ((held m)(c \<mapsto> t)) (ts_waiting s1 @ mc_pend m)" by (rule loc_ok_dequeue [OF l]) (use d in \<open>auto simp: queued_def w\<close>)
  moreover have q: "vidle (view (mc_s m)) x" if "x \<in> insert t (set (ts_waiting s1 @ mc_pend m))" for x
    using ainvD(3) [OF a] that by (auto simp: queued_def w)
  ultimately have "ainv (ts_waiting s1 @ mc_pend m) (view (mc_s m)) ((mc_pc m)(c := Claiming t)) ((cur (mc_s m))(c := cur (mc_s m) c))"
    by (intro ainv_step [OF a]) (simp_all add: held_by_def vpc_ok_def held_def [abs_def])
  moreover have "view s1 = view (mc_s m)" by (rule view_same) (simp_all add: e)
  ultimately show ?thesis using minvI [OF m, of s1 c "mc_pend m" "Claiming t"] minvD(1) [OF m] minvD(4) [OF m, of c] pc by (simp add: e free_mutexes_def)
qed

lemma minv_claim:
  assumes m: "minv m" and pc: "mc_pc m c = Claiming t" and k: "schedule_claim t (mc_s m) = Inr s1"
  shows "minv (m\<lparr>mc_s := s1, mc_pc := (mc_pc m)(c := Entering t)\<rparr>)"
proof -
  let ?s = "mc_s m"
  from claim_effect [OF k] obtain th where e: "ts_threads ?s t = Some th" "\<not> th_in_use th" "ts_threads s1 = (ts_threads ?s)(t \<mapsto> th\<lparr>th_in_use := True\<rparr>)" "ts_w s1 = ts_w ?s"
     "ts_waiting s1 = ts_waiting ?s" "\<not> ts_mutex s1" "ts_waiting_mutex s1 = ts_waiting_mutex ?s" "cpu_there s1 = cpu_there ?s" "cur s1 = cur ?s" by blast
  note a = minvD(3) [OF m]
  obtain v u p where v: "view ?s t = Some (False, v, u, p)" using e(1,2) by (auto simp: view_def)
  have g: "u = Some NO_CPU" "p" using ainvD(5) [OF a v] by (auto simp: vgood_def)
  have V: "view s1 = (view ?s)(t \<mapsto> (True, v, u, p))" using view_thread_upd [OF e(1,3,4)] v by simp
  have "ainv (queued m) (view s1) ((mc_pc m)(c := Entering t)) ((cur ?s)(c := cur ?s c))" unfolding V
    by (rule ainv_held_upd [OF a _ v]) (use g pc in \<open>auto simp: vgood_def held_by_def vpc_ok_def\<close>)
  then show ?thesis using minvI [OF m, of s1 c "mc_pend m" "Entering t"] minvD(1) [OF m] minvD(4) [OF m, of c] pc e by (simp add: queued_def free_mutexes_def)
qed

lemma minv_enter:
  assumes m: "minv m" and pc: "mc_pc m c = Entering t" and k: "task_enter c t (mc_s m) = Inr s1"
  shows "minv (m\<lparr>mc_s := s1, mc_pc := (mc_pc m)(c := Outside)\<rparr>)"
proof -
  let ?s = "mc_s m"
  from enter_effect [OF k] obtain th mm where e: "ts_threads ?s t = Some th" "vw_maps (ts_w ?s) (th_vm th) = Some mm" "ts_threads s1 = ts_threads ?s"
     "vw_maps (ts_w s1) = (vw_maps (ts_w ?s))(th_vm th \<mapsto> mm\<lparr>vm_using_cpu := of_nat c\<rparr>)" "vw_mem (ts_w s1) = vw_mem (ts_w ?s)"
     "\<not> vw_mutex (ts_w s1)" "ts_waiting s1 = ts_waiting ?s" "ts_mutex s1 = ts_mutex ?s" "ts_waiting_mutex s1 = ts_waiting_mutex ?s"
     "cpu_there s1 = cpu_there ?s" "cur s1 = (cur ?s)(c := t)" by blast
  note a = minvD(3) [OF m]
  from ainvD(4) [OF a, of c] pc obtain v p where v: "view ?s t = Some (True, v, Some NO_CPU, p)" by (auto simp: vpc_ok_def)
  then have iu: "th_in_use th" "v = th_vm th" using e(1) by (auto simp: view_def)
  have "ts_threads s1 = (ts_threads ?s)(t \<mapsto> th)" using e(1,3) by auto
  from view_map_upd [OF minvD(2) [OF m] e(1) this refl e(2,4,5)] v iu
  have V: "view s1 = (view ?s)(t \<mapsto> (True, v, Some (of_nat c), p))" by simp
  have p: "p" "t \<noteq> NULL" using ainvD(5) [OF a v] minvD(2) [OF m] e(1) by (auto simp: vgood_def thr_ok_def)
  have "ainv (queued m) (view s1) ((mc_pc m)(c := Outside)) (cur s1)" unfolding V e(11)
    by (rule ainv_held_upd [OF a _ v]) (use p pc in \<open>auto simp: vgood_def held_by_def vpc_ok_def\<close>)
  then show ?thesis using minvI [OF m, of s1 c "mc_pend m" Outside] minvD(1) [OF m] minvD(4) [OF m, of c] pc e by (simp add: queued_def free_mutexes_def)
qed

lemma minv_mstep: "mstep True m m' \<Longrightarrow> minv m \<Longrightarrow> minv m'"
proof (induction rule: mstep.induct)
  case (resume t m s1) then show ?case by (simp add: minv_resume)
qed (rule minv_yield minv_requeue minv_start minv_poll minv_take minv_claim minv_enter minv_wait minv_wake minv_finish; assumption)+

lemma masked: "\<not> interrupts_on (e AND NOT IF_flag)"
  using push_cli_masks [of e] by (simp add: push_cli_def)

lemma minv_no_failure:
  assumes m: "minv m"
  shows "\<not> sched_fails m"
proof
  assume "sched_fails m"
  then obtain c e where f: "case mc_pc m c of Outside \<Rightarrow> False | Requeue t \<Rightarrow> yield_requeue t (mc_s m) = Inl e
     | Polling \<Rightarrow> schedule_poll c (mc_s m) = Inl e | Claiming t \<Rightarrow> schedule_claim t (mc_s m) = Inl e
     | Entering t \<Rightarrow> task_enter c t (mc_s m) = Inl e" by (auto simp: sched_fails_def)
  have k: "mc_pc m c \<noteq> Outside" using f by (cases "mc_pc m c") auto
  have there: "c < MAX_CORES" "ts_cpus (mc_s m) c \<noteq> None" using minvD(4) [OF m k] by (auto simp: cpu_there_def)
  have free: "\<not> ts_mutex (mc_s m)" "\<not> ts_waiting_mutex (mc_s m)" "\<not> vw_mutex (ts_w (mc_s m))" using minvD(1) [OF m] by (auto simp: free_mutexes_def)
  have pc: "pc_ok (mc_s m) (mc_pc m c) (cur (mc_s m) c)" using m by (simp add: minv_def)
  show False
  proof (cases "mc_pc m c")
    case (Entering t)
    then obtain th mm where t: "ts_threads (mc_s m) t = Some th" "vw_maps (ts_w (mc_s m)) (th_vm th) = Some mm" "vm_using_cpu mm = NO_CPU"
      using pc by (auto simp: pc_ok_def)
    with minvD(2) [OF m] have "m_pages (vw_mem (ts_w (mc_s m))) (vm_physical_dir mm) \<noteq> None" unfolding thr_ok_def by fastforce
    then show False using f Entering t there free
      by (auto simp: task_enter_def Let_def rd_thread_def with_vm_def vm_enter_def rd_map_def wr_map_def rd_page_def cpu_info_def cpu_id_def cpu_info_of_def cli_def set_eflags_def masked)
  qed (use f pc there free in \<open>auto simp: pc_ok_def idle_def yield_requeue_def schedule_poll_def schedule_claim_def rd_thread_def cpu_info_of_def Let_def split: prod.splits if_splits\<close>)
qed

section \<open>The waiting list as a queue\<close>

text \<open>What the scheduler needs of a queue, and the order in which a run of additions and polls delivers.\<close>

datatype queue_event = Push u32 | Poll

fun queue_run :: "(u32 \<Rightarrow> 's \<Rightarrow> 's result) \<Rightarrow> ('s \<Rightarrow> (u32 option \<times> 's) result) \<Rightarrow> queue_event list \<Rightarrow> 's \<Rightarrow> (u32 list \<times> 's) result" where
  "queue_run push poll [] s = Inr ([], s)"
| "queue_run push poll (Push t # es) s = bindE (push t s) (queue_run push poll es)"
| "queue_run push poll (Poll # es) s = bindE (poll s) (\<lambda>(r, s1). bindE (queue_run push poll es s1) (\<lambda>(ts, s2).
     Inr ((case r of None \<Rightarrow> ts | Some t \<Rightarrow> t # ts), s2)))"

fun pushed :: "queue_event list \<Rightarrow> u32 list" where
  "pushed [] = []"
| "pushed (Push t # es) = t # pushed es"
| "pushed (Poll # es) = pushed es"

locale thread_queue =
  fixes push :: "u32 \<Rightarrow> 's \<Rightarrow> 's result" and poll :: "'s \<Rightarrow> (u32 option \<times> 's) result" and contents :: "'s \<Rightarrow> u32 list"
  assumes push: "push t s = Inr s' \<Longrightarrow> contents s' = contents s @ [t]"
    and poll_none: "poll s = Inr (None, s') \<Longrightarrow> contents s' = contents s"
    and poll_some: "poll s = Inr (Some t, s') \<Longrightarrow> contents s = t # contents s'"
begin

lemma fifo: "queue_run push poll es s = Inr (ts, s') \<Longrightarrow> contents s @ pushed es = ts @ contents s'"
proof (induction es arbitrary: s ts)
  case (Cons e es)
  show ?case
  proof (cases e)
    case (Push t)
    with Cons.prems obtain s1 where "push t s = Inr s1" "queue_run push poll es s1 = Inr (ts, s')" by (auto simp: result_iff)
    with Push Cons.IH push show ?thesis by fastforce
  next
    case Poll
    with Cons.prems obtain r s1 ts1 where p: "poll s = Inr (r, s1)" and q: "queue_run push poll es s1 = Inr (ts1, s')"
      and ts: "ts = (case r of None \<Rightarrow> ts1 | Some t \<Rightarrow> t # ts1)" by (auto simp: result_iff)
    show ?thesis
    proof (cases r)
      case None with poll_none p Cons.IH [OF q] ts Poll show ?thesis by fastforce
    next
      case (Some t) with poll_some p Cons.IH [OF q] ts Poll show ?thesis by fastforce
    qed
  qed
qed simp

end

interpretation wq: thread_queue waiting_push "schedule_poll c" "\<lambda>s. rev (ts_waiting s)" for c
proof
  fix t s s' show "waiting_push t s = Inr s' \<Longrightarrow> rev (ts_waiting s') = rev (ts_waiting s) @ [t]" by (simp add: push_effect)
next
  fix s s' show "schedule_poll c s = Inr (None, s') \<Longrightarrow> rev (ts_waiting s') = rev (ts_waiting s)"
    by (auto simp: schedule_poll_def result_iff Let_def split: if_splits prod.splits)
next
  fix t s s' assume p: "schedule_poll c s = Inr (Some t, s')"
  show "rev (ts_waiting s) = t # rev (ts_waiting s')" using poll_some_effect(3-5) [OF p] by (simp add: rev_swap)
qed

section \<open>Properties\<close>

text \<open>Three threads with an address space each: thread 1 runs on CPU 0, thread 2 waits in the list, and CPU 1
  looks for a thread.\<close>

definition task_example_map :: "u32 \<Rightarrow> u32 \<Rightarrow> vmap" where
  "task_example_map u i = \<lparr>vm_using_cpu = u, vm_physical_dir = 0x60, vm_logical_dir = 0x70, vm_tab_pages = [], vm_tables = [],
     vm_pid = 0, vm_task_id = i, vm_oims = []\<rparr>"

definition task_example_thread :: "u32 \<Rightarrow> u32 \<Rightarrow> bool \<Rightarrow> thread" where
  "task_example_thread i v u = \<lparr>th_process = 0, th_thread_id = i, th_task_id = i, th_vm = v, th_stack = 0, th_sp = 0, th_wchan = 0,
     th_in_use = u, th_ended = False\<rparr>"

definition task_example_cpu :: "u8 \<Rightarrow> u32 \<Rightarrow> cpu_status" where
  "task_example_cpu i t = \<lparr>cs_cpu_id = i, cs_stack = 0, cs_thread = t, cs_awoken = True, cs_awaiting = (t = NULL), cs_eflags = 0\<rparr>"

definition task_example :: "u32 list \<Rightarrow> machine" where
  "task_example q = \<lparr>mc_s = \<lparr>ts_w = (vm_example page_example)\<lparr>vw_maps := [0x110 \<mapsto> task_example_map 0 1, 0x120 \<mapsto> task_example_map NO_CPU 2]\<rparr>,
       ts_threads = [0x210 \<mapsto> task_example_thread 1 0x110 True, 0x220 \<mapsto> task_example_thread 2 0x120 False],
       ts_procs = [], ts_process_counter = 1, ts_task_counter = 2, ts_waiting = q, ts_waiting_mutex = False, ts_mutex = False,
       ts_wchans = [], ts_no_wchan = 0, ts_cpus = [0 \<mapsto> task_example_cpu 0 0x210, 1 \<mapsto> task_example_cpu 1 NULL], ts_words = Map.empty\<rparr>,
     mc_pc = (\<lambda>_. Outside)(1 := Polling), mc_pend = []\<rparr>"

lemma task_example_minv: "q = [] \<or> q = [0x220] \<Longrightarrow> minv (task_example q)"
proof -
  assume q: "q = [] \<or> q = [0x220]"
  have "held (task_example q) c = (if c = 0 then Some 0x210 else None)" for c
    by (simp add: task_example_def held_def held_by_def cur_def task_example_cpu_def)
  then have "loc_ok (held (task_example q)) (queued (task_example q))" using q by (auto simp: loc_ok_def queued_def task_example_def split: if_splits)
  moreover have "thr_ok (mc_s (task_example q))"
    by (auto simp: thr_ok_def task_example_def task_example_thread_def task_example_map_def page_example_def vm_example_def split: if_splits)
  ultimately show ?thesis using q
    by (auto simp: minv_def free_mutexes_def queued_def idle_def pc_ok_def cpu_there_def task_example_def task_example_thread_def
        task_example_cpu_def vm_example_def cur_def MAX_CORES_def split: if_splits)
qed


lemma task_example_poll: "\<exists>s1. schedule_poll 1 (mc_s (task_example [0x220])) = Inr (Some 0x220, s1)"
  by (simp add: schedule_poll_def task_example_def task_example_cpu_def cpu_info_of_def MAX_CORES_def)


text \<open>C20: The waiting list is a queue: over any run of additions and polls, the threads that the scheduler took,
  followed by those still in the list, are the threads that were there first, followed by the added ones in the order
  of their addition.\<close>

theorem task_waiting_fifo:
  assumes "queue_run waiting_push (schedule_poll c) es s = Inr (ts, s')"
  shows "rev (ts_waiting s) @ pushed es = ts @ rev (ts_waiting s')"
  using assms by (rule wq.fifo)

theorem task_waiting_fifo_witness:
  "\<exists>ts s'. queue_run waiting_push (schedule_poll 1) [Push 0x230, Poll, Push 0x240, Poll] (mc_s (task_example [0x220])) = Inr (ts, s') \<and> ts = [0x220, 0x230] \<and>
     [0x220, 0x230, 0x240] = ts @ rev (ts_waiting s')"
proof -
  have "\<exists>s'. queue_run waiting_push (schedule_poll 1) [Push 0x230, Poll, Push 0x240, Poll] (mc_s (task_example [0x220])) = Inr ([0x220, 0x230], s')"
    by (simp add: waiting_push_def schedule_poll_def task_example_def task_example_cpu_def cpu_info_of_def MAX_CORES_def set_cpu_def)
  then obtain s' where r: "queue_run waiting_push (schedule_poll 1) [Push 0x230, Poll, Push 0x240, Poll] (mc_s (task_example [0x220])) = Inr ([0x220, 0x230], s')" by blast
  have "rev (ts_waiting (mc_s (task_example [0x220]))) @ pushed [Push 0x230, Poll, Push 0x240, Poll] = [0x220, 0x230, 0x240]"
    by (simp add: task_example_def)
  with task_waiting_fifo [OF r] r show ?thesis by (intro exI [of _ "[0x220, 0x230]"] exI [of _ s']) (simp only: simp_thms)
qed

text \<open>C38: The race that the restriction to parked threads excludes. \<open>wait\<close> stores the wait channel while its thread still
  runs; when another CPU resumes the thread before it has yielded, the thread enters the waiting list while in use, and
  the CPU that takes it from there panics.\<close>

theorem task_resume_race:
  "\<exists>m m' t. minv m \<and> (mstep False)\<^sup>*\<^sup>* m m' \<and> mc_pc m' 1 = Claiming t \<and> cur (mc_s m') 0 = t \<and>
     schedule_claim t (mc_s m') = Inl (Panic ''Found an in use thread in the waiting list'')"
proof -
  let ?m0 = "task_example []"
  have "\<exists>s1. wait_set 0 5 (mc_s ?m0) = Inr s1 \<and> ts_threads s1 0x210 = Some ((task_example_thread 1 0x110 True)\<lparr>th_wchan := 5\<rparr>) \<and>
      ts_waiting s1 = [] \<and> \<not> ts_mutex s1 \<and> \<not> ts_waiting_mutex s1 \<and> ts_no_wchan s1 = 0 \<and> cur s1 0 = 0x210 \<and> (\<exists>i. ts_cpus s1 1 = Some i)"
    by (simp add: wait_set_def get_thread_def info_thread_def task_example_def task_example_cpu_def task_example_thread_def cpu_info_def cpu_id_def
        cpu_info_of_def MAX_CORES_def rd_thread_def set_eflags_def push_cli_def interrupts_on_def cur_def Let_def)
  then obtain s1 i where w: "wait_set 0 5 (mc_s ?m0) = Inr s1" and t1: "ts_threads s1 0x210 = Some ((task_example_thread 1 0x110 True)\<lparr>th_wchan := 5\<rparr>)"
    and e1: "ts_waiting s1 = []" "\<not> ts_mutex s1" "\<not> ts_waiting_mutex s1" "ts_no_wchan s1 = 0" "cur s1 0 = 0x210" "ts_cpus s1 1 = Some i" by blast
  let ?m1 = "?m0\<lparr>mc_s := s1\<rparr>"
  let ?s2 = "wr_thread 0x210 (task_example_thread 1 0x110 True) (s1\<lparr>ts_mutex := False\<rparr>)"
  let ?m2 = "?m1\<lparr>mc_s := ?s2, mc_pend := [0x210]\<rparr>"
  let ?s3 = "?s2\<lparr>ts_waiting := [0x210], ts_waiting_mutex := False\<rparr>"
  let ?m3 = "?m2\<lparr>mc_s := ?s3, mc_pend := []\<rparr>"
  let ?s4 = "set_cpu 1 (i\<lparr>cs_awaiting := False\<rparr>) (?s3\<lparr>ts_waiting := [], ts_waiting_mutex := False\<rparr>)"
  let ?m4 = "?m3\<lparr>mc_s := ?s4, mc_pc := (mc_pc ?m3)(1 := Claiming 0x210)\<rparr>"
  have "mstep False ?m0 ?m1" by (rule mstep.wait [OF _ w]) (simp add: task_example_def)
  moreover have "mstep False ?m1 (?m1\<lparr>mc_s := ?s2, mc_pend := 0x210 # mc_pend ?m1\<rparr>)" using t1 e1
    by (intro mstep.resume) (simp_all add: resume_check_def rd_thread_def task_example_thread_def)
  then have "mstep False ?m1 ?m2" by (simp add: task_example_def)
  moreover have "mstep False ?m2 (?m2\<lparr>mc_s := ?s3, mc_pend := remove1 0x210 (mc_pend ?m2)\<rparr>)" using e1
    by (intro mstep.wake) (simp_all add: waiting_push_def)
  then have "mstep False ?m2 ?m3" by simp
  moreover have "mstep False ?m3 ?m4" using e1
    by (intro mstep.take) (simp_all add: task_example_def schedule_poll_def cpu_info_of_def MAX_CORES_def wr_thread_def)
  ultimately have "(mstep False)\<^sup>*\<^sup>* ?m0 ?m4" by (meson converse_rtranclp_into_rtranclp rtranclp.rtrancl_refl)
  moreover have "schedule_claim 0x210 (mc_s ?m4) = Inl (Panic ''Found an in use thread in the waiting list'')"
    by (simp add: schedule_claim_def rd_thread_def task_example_thread_def)
  ultimately show ?thesis using task_example_minv [of "[]"] e1 by (intro exI [of _ ?m0] exI [of _ ?m4] exI [of _ "0x210"]) simp
qed

end
