(* ===== verification/Filesystem.thy ===== *)
theory Filesystem
  imports Vm Utf8
begin

text \<open>
  \<open>src/fs/filesystem.cpp\<close>, \<open>src/fs/expanse_fs.cpp\<close>, \<open>src/fs/physical_mem_storage.cpp\<close> and
  \<open>include/structures/failable.hpp\<close>: inodes, path entries, the resolution of paths, the storages and the file
  system with a single file. Names are the texts that \<open>Utf8\<close> shows its strings to denote. Path entries and
  inodes are numbered in the order of their construction, \<open>None\<close> being the null pointer. The virtual \<open>read_inode\<close>
  of the file system is an argument of the functions that call it, and the laws that they need of it are the
  locale \<open>inode_source\<close>.
\<close>

section \<open>State\<close>

type_synonym utext = "u8 list"

record 'a failable =
  fa_err :: error_t
  fa_val :: 'a

definition Failable_ok :: "'a failable \<Rightarrow> bool" where
  "Failable_ok f \<longleftrightarrow> fa_err f = EOK"

datatype InodeType = DIRECTORY | FILE

record inode =
  in_fs :: nat
  in_no :: u64
  in_type :: InodeType
  in_size :: u64
  in_contents :: "kobject option"
  in_children :: "(u64 \<times> utext) list"

record path_entry =
  pe_parent :: "nat option"
  pe_ref :: "nat option"
  pe_inode :: "nat option"
  pe_name :: utext

record fstate =
  fs_entries :: "path_entry list"
  fs_inodes :: "inode list"
  fs_counts :: "nat \<Rightarrow> int"
  fs_counter :: nat

type_synonym inode_reader = "nat \<Rightarrow> u64 \<Rightarrow> fstate \<Rightarrow> (nat option failable \<times> fstate) result"

section \<open>Inodes, path entries and file systems\<close>

definition Inode_new :: "nat \<Rightarrow> u64 \<Rightarrow> InodeType \<Rightarrow> u64 \<Rightarrow> fstate \<Rightarrow> nat \<times> fstate" where
  "Inode_new f number ty sz s = (length (fs_inodes s), s\<lparr>fs_inodes := fs_inodes s @ [\<lparr>in_fs = f, in_no = number, in_type = ty, in_size = sz,
     in_contents = None, in_children = []\<rparr>], fs_counts := (fs_counts s)(f := fs_counts s f + 1)\<rparr>)"

definition Inode_destroy :: "nat \<Rightarrow> fstate \<Rightarrow> fstate result" where
  "Inode_destroy i s = (if i < length (fs_inodes s)
     then let f = in_fs (fs_inodes s ! i) in Inr (s\<lparr>fs_counts := (fs_counts s)(f := fs_counts s f - 1)\<rparr>) else Inl Fault)"

definition Filesystem_new :: "fstate \<Rightarrow> nat \<times> fstate" where
  "Filesystem_new s = (fs_counter s, s\<lparr>fs_counter := fs_counter s + 1, fs_counts := (fs_counts s)(fs_counter s := 0)\<rparr>)"

definition Filesystem_destroy :: "nat \<Rightarrow> fstate \<Rightarrow> fstate result" where
  "Filesystem_destroy f s = (if fs_counts s f \<noteq> 0 then Inl (Panic ''Filesystem was destroyed without releasing all inodes'') else Inr s)"

definition FilePathEntry_new :: "utext \<Rightarrow> nat option \<Rightarrow> nat option \<Rightarrow> fstate \<Rightarrow> nat \<times> fstate" where
  "FilePathEntry_new name parent inode s = (length (fs_entries s),
     s\<lparr>fs_entries := fs_entries s @ [\<lparr>pe_parent = parent, pe_ref = None, pe_inode = inode, pe_name = name\<rparr>]\<rparr>)"

text \<open>Following references, which could go round in circles.\<close>

partial_function (option) get_inode :: "path_entry list \<Rightarrow> nat \<Rightarrow> nat option result option" where
  "get_inode es e = (if e < length es then (case pe_ref (es ! e) of Some r \<Rightarrow> get_inode es r | None \<Rightarrow> Some (Inr (pe_inode (es ! e))))
     else Some (Inl Fault))"

partial_function (option) logical_parent :: "path_entry list \<Rightarrow> nat \<Rightarrow> nat result option" where
  "logical_parent es e = (if e < length es then (case pe_ref (es ! e) of Some r \<Rightarrow> logical_parent es r
       | None \<Rightarrow> (case pe_parent (es ! e) of None \<Rightarrow> Some (Inr e) | Some p \<Rightarrow> Some (Inr p)))
     else Some (Inl Fault))"

definition path_parent :: "path_entry list \<Rightarrow> nat \<Rightarrow> nat result" where
  "path_parent es e = (if e < length es then (case pe_parent (es ! e) of
       None \<Rightarrow> Inl (Panic ''Tried to dereference a null shared_ptr'') | Some p \<Rightarrow> Inr p) else Inl Fault)"

definition obind :: "'a result option \<Rightarrow> ('a \<Rightarrow> 'b result option) \<Rightarrow> 'b result option" where
  "obind m f = Option.bind m (\<lambda>r. case r of Inl e \<Rightarrow> Some (Inl e) | Inr x \<Rightarrow> f x)"

lemma obind_simps [simp]: "obind (Some (Inr x)) f = f x" "obind (Some (Inl e)) f = Some (Inl e)" "obind None f = None"
  by (simp_all add: obind_def)

lemma obind_mono [partial_function_mono]:
  assumes "monotone (fun_ord option_ord) option_ord B" and "\<And>y. monotone (fun_ord option_ord) option_ord (\<lambda>f. C y f)"
  shows "monotone (fun_ord option_ord) option_ord (\<lambda>f. obind (B f) (\<lambda>y. C y f))"
  unfolding obind_def
proof (rule bind_mono [OF assms(1)])
  fix r :: "kerror + 'c"
  show "monotone (fun_ord option_ord) option_ord (\<lambda>f. case r of Inl e \<Rightarrow> Some (Inl e) | Inr x \<Rightarrow> C x f)"
    using assms(2) by (cases r) (simp_all add: monotone_def flat_ord_def)
qed

section \<open>\<open>populate\<close>\<close>

definition upd_entry :: "nat \<Rightarrow> (path_entry \<Rightarrow> path_entry) \<Rightarrow> fstate \<Rightarrow> fstate" where
  "upd_entry e f s = s\<lparr>fs_entries := (fs_entries s)[e := f (fs_entries s ! e)]\<rparr>"

text \<open>The copy assignment to \<open>error_loc\<close>, the entry \<open>el\<close>.\<close>

definition set_error_loc :: "nat \<Rightarrow> nat \<Rightarrow> fstate \<Rightarrow> fstate" where
  "set_error_loc el e s = upd_entry el (\<lambda>_. fs_entries s ! e) s"

text \<open>The loop over the children. A failed \<open>read_inode\<close> returns the local variable \<open>err\<close>, whose value is \<open>junk\<close> unless
  the parent was populated first.\<close>

definition populate_child :: "inode_reader \<Rightarrow> error_t \<Rightarrow> nat \<Rightarrow> inode \<Rightarrow> fstate \<Rightarrow> (error_t \<times> fstate) result" where
  "populate_child rd err e dir s = (case List.find (\<lambda>ie. snd ie = pe_name (fs_entries s ! e)) (in_children dir) of
     None \<Rightarrow> Inr (ENOENT, s)
   | Some ie \<Rightarrow> bindE (rd (in_fs dir) (fst ie) s) (\<lambda>(r, s1).
       if Failable_ok r then Inr (EOK, upd_entry e (\<lambda>x. x\<lparr>pe_inode := fa_val r\<rparr>) s1)
       else Inr (err, upd_entry e (\<lambda>x. x\<lparr>pe_inode := None\<rparr>) s1)))"

text \<open>The body once the parent is populated; \<open>lp\<close> is the logical parent.\<close>

definition populate_here :: "inode_reader \<Rightarrow> error_t \<Rightarrow> nat \<Rightarrow> nat \<Rightarrow> nat \<Rightarrow> fstate \<Rightarrow> (error_t \<times> fstate) result option" where
  "populate_here rd err el e lp s =
     (if pe_name (fs_entries s ! e) = [46] then Some (Inr (EOK, upd_entry e (\<lambda>x. x\<lparr>pe_ref := Some lp\<rparr>) s))
      else if pe_name (fs_entries s ! e) = [46, 46]
      then obind (logical_parent (fs_entries s) lp) (\<lambda>q. Some (Inr (EOK, upd_entry e (\<lambda>x. x\<lparr>pe_ref := Some q\<rparr>) s)))
      else obind (get_inode (fs_entries s) lp) (\<lambda>dir. let s1 = set_error_loc el e s in
        case dir of None \<Rightarrow> Some (Inl (Panic ''Tried to dereference a null shared_ptr''))
        | Some d \<Rightarrow> if length (fs_inodes s1) \<le> d then Some (Inl Fault)
          else if in_type (fs_inodes s1 ! d) \<noteq> DIRECTORY
          then Some (bindE (path_parent (fs_entries s1) e) (\<lambda>p. Inr (ENOTDIR, set_error_loc el p s1)))
          else Some (populate_child rd err e (fs_inodes s1 ! d) s1)))"

partial_function (option) populate :: "inode_reader \<Rightarrow> error_t \<Rightarrow> nat \<Rightarrow> nat \<Rightarrow> fstate \<Rightarrow> (error_t \<times> fstate) result option" where
  "populate rd junk el e s = obind (logical_parent (fs_entries s) e) (\<lambda>lp. obind (get_inode (fs_entries s) lp) (\<lambda>i.
     if i = None then obind (Some (path_parent (fs_entries s) e)) (\<lambda>p. obind (populate rd junk el p s) (\<lambda>(err, s1).
       if err \<noteq> EOK then Some (Inr (err, s1)) else populate_here rd err el e lp s1))
     else populate_here rd junk el e lp s))"

section \<open>\<open>parse_path\<close>\<close>

text \<open>\<open>find(c, pos)\<close> on the text of a string.\<close>

definition find_text :: "u8 \<Rightarrow> utext \<Rightarrow> nat \<Rightarrow> nat option" where
  "find_text c xs p = (let n = length (takeWhile (\<lambda>x. x \<noteq> c) (drop p xs)) in if p + n < length xs then Some (p + n) else None)"

definition add_name :: "utext \<Rightarrow> nat option \<Rightarrow> fstate \<Rightarrow> nat option \<times> fstate" where
  "add_name fname parent s = (if fname \<noteq> [] then (case FilePathEntry_new fname parent None s of (e, s1) \<Rightarrow> (Some e, s1)) else (parent, s))"

function parse_loop :: "utext \<Rightarrow> nat \<Rightarrow> nat option \<Rightarrow> fstate \<Rightarrow> nat \<times> nat option \<times> fstate" where
  "parse_loop path oldpos parent s = (case find_text 47 path oldpos of None \<Rightarrow> (oldpos, parent, s)
     | Some p \<Rightarrow> (case add_name (take (p - oldpos) (drop oldpos path)) parent s of (par, s1) \<Rightarrow> parse_loop path (Suc p) par s1))"
  by pat_completeness auto
termination
  by (relation "measure (\<lambda>(path, oldpos, parent, s). length path - oldpos)") (auto simp: find_text_def Let_def split: if_splits)

declare parse_loop.simps [simp del]

definition parse_path :: "utext \<Rightarrow> nat option \<Rightarrow> fstate \<Rightarrow> nat option \<times> fstate" where
  "parse_path path base s = (case parse_loop path 0 base s of (oldpos, parent, s1) \<Rightarrow> add_name (drop oldpos path) parent s1)"

section \<open>Storages and \<open>ExpanseFs\<close>\<close>

definition EmptyStorage_read :: "nat \<Rightarrow> u8 \<Rightarrow> u32 \<Rightarrow> u32 \<Rightarrow> mem \<Rightarrow> (u32 failable \<times> mem) result" where
  "EmptyStorage_read k flags addr count m = bindE (page_alloc k flags count m) (\<lambda>(pg, m1). Inr (\<lparr>fa_err = EOK, fa_val = pg\<rparr>, m1))"

definition PhysicalMemStorage_read :: "nat \<Rightarrow> u32 \<Rightarrow> u8 \<Rightarrow> u32 \<Rightarrow> u32 \<Rightarrow> mem \<Rightarrow> (u32 failable \<times> mem) result" where
  "PhysicalMemStorage_read k base flags addr count m = bindE (page_create k (base + addr) flags count m) (\<lambda>(pg, m1).
     Inr (\<lparr>fa_err = EOK, fa_val = pg\<rparr>, m1))"

definition ExpanseFsObject_do_generate :: "(u32 \<Rightarrow> u32 \<Rightarrow> mem \<Rightarrow> (u32 failable \<times> mem) result) \<Rightarrow> u32 \<Rightarrow> u32 \<Rightarrow> mem \<Rightarrow> (u32 \<times> mem) result" where
  "ExpanseFsObject_do_generate read addr count m = bindE (read addr count m) (\<lambda>(r, m1).
     Inr (if Failable_ok r then fa_val r else NULL, m1))"

definition upd_inode :: "nat \<Rightarrow> (inode \<Rightarrow> inode) \<Rightarrow> fstate \<Rightarrow> fstate" where
  "upd_inode i f s = s\<lparr>fs_inodes := (fs_inodes s)[i := f (fs_inodes s ! i)]\<rparr>"

definition expanse_root :: "(u64 \<times> utext) list" where
  "expanse_root = [(1, [46]), (1, [46, 46]), (2, [99, 111, 110, 116, 101, 110, 116, 115])]"

definition ExpanseFs_read_inode :: inode_reader where
  "ExpanseFs_read_inode f inode_no s =
     (if inode_no = 1 then case Inode_new f 1 DIRECTORY 0 s of (i, s1) \<Rightarrow>
        Inr (\<lparr>fa_err = EOK, fa_val = Some i\<rparr>, upd_inode i (\<lambda>x. x\<lparr>in_children := expanse_root\<rparr>) s1)
      else if inode_no = 2 then case Inode_new f 3 FILE (ucast PAGE_SIZE) s of (i, s1) \<Rightarrow>
        Inr (\<lparr>fa_err = EOK, fa_val = Some i\<rparr>, upd_inode i (\<lambda>x. x\<lparr>in_contents := Some \<lparr>ob_entries = [], ob_max_pages = 1, ob_page_flags = 0,
           ob_object_flags = 0, ob_oims = []\<rparr>\<rparr>) s1)
      else Inr (\<lparr>fa_err = ENOENT, fa_val = None\<rparr>, s))"

definition ExpanseFs_root_inode :: "nat \<Rightarrow> fstate \<Rightarrow> (nat option failable \<times> fstate) result" where
  "ExpanseFs_root_inode f s = ExpanseFs_read_inode f 1 s"

section \<open>Parsing splits at slashes\<close>

text \<open>\<open>find\<close> of a character on the strings of the \<open>Utf8\<close> model is \<open>find_text\<close> on their texts.\<close>

lemma takeWhile_drop_step: "p < length xs \<Longrightarrow> xs ! p \<noteq> c \<Longrightarrow> length (takeWhile (\<lambda>x. x \<noteq> c) (drop p xs)) = Suc (length (takeWhile (\<lambda>x. x \<noteq> c) (drop (Suc p) xs)))"
  by (simp add: Cons_nth_drop_Suc [symmetric])

lemma find_text_step: "p < length xs \<Longrightarrow> find_text c xs p = (if xs ! p = c then Some p else find_text c xs (Suc p))"
proof (cases "xs ! p = c")
  case True
  assume "p < length xs"
  then have "drop p xs = xs ! p # drop (Suc p) xs" by (simp add: Cons_nth_drop_Suc)
  then show ?thesis using True \<open>p < length xs\<close> by (simp add: find_text_def)
next
  case False
  assume "p < length xs"
  then show ?thesis using False takeWhile_drop_step [of p xs c] by (simp add: find_text_def Let_def)
qed

lemma u_find_char_text:
  assumes "utf8_rep h u xs" and "c \<noteq> 0" and "unat pos \<le> length xs"
  shows "u_find_char h u c pos = Inr (position (find_text c xs (unat pos)))"
proof -
  note b = utf8_rep_bytes [OF assms(1)]
  have "find_char_loop h u c pos = Some (Inr (position (find_text c xs (unat pos))))"
    using assms(3)
  proof (induction "length xs - unat pos" arbitrary: pos)
    case 0
    then have e: "unat pos = length xs" by simp
    have w: "unat (pos + 1) = Suc (unat pos)" using e b(3) by (intro word_suc_unat) simp
    have n: "\<not> pos + 1 \<le> u_bytes u" using w e b(1) by (simp add: word_le_nat_alt)
    have stop: "find_char_loop h u c (pos + 1) = Some (Inr npos)" using n by (subst find_char_loop.simps) simp
    show ?case using assms(2) utf8_read(1) [OF assms(1), of pos] e b(1) stop
      by (subst find_char_loop.simps) (simp add: word_le_nat_alt find_text_def position_def)
  next
    case (Suc n)
    then have lt: "unat pos < length xs" by simp
    have w: "unat (pos + 1) = Suc (unat pos)" using lt b(3) by (intro word_suc_unat) simp
    have IH: "find_char_loop h u c (pos + 1) = Some (Inr (position (find_text c xs (Suc (unat pos)))))"
      using Suc.hyps(1) [of "pos + 1"] Suc.hyps(2) w lt by simp
    show ?case using utf8_read(1) [OF assms(1), of pos] lt b(1) IH find_text_step [OF lt, of c]
      by (subst find_char_loop.simps) (simp add: word_le_nat_alt nth_append position_def)
  qed
  then show ?thesis by (simp add: u_find_char_def)
qed

text \<open>The reference: the non-empty pieces between slashes.\<close>

fun split_on :: "u8 \<Rightarrow> utext \<Rightarrow> utext list" where
  "split_on c [] = [[]]"
| "split_on c (x # xs) = (if x = c then [] # split_on c xs else (case split_on c xs of [] \<Rightarrow> [[x]] | y # ys \<Rightarrow> (x # y) # ys))"

definition segments :: "utext \<Rightarrow> utext list" where
  "segments xs = filter (\<lambda>x. x \<noteq> []) (split_on 47 xs)"

fun add_names :: "utext list \<Rightarrow> nat option \<Rightarrow> fstate \<Rightarrow> nat option \<times> fstate" where
  "add_names [] parent s = (parent, s)"
| "add_names (n # ns) parent s = (case add_name n parent s of (p, s1) \<Rightarrow> add_names ns p s1)"

lemma split_on_takeWhile:
  "split_on c xs = takeWhile (\<lambda>x. x \<noteq> c) xs # (case dropWhile (\<lambda>x. x \<noteq> c) xs of [] \<Rightarrow> [] | z # zs \<Rightarrow> split_on c zs)"
  by (induction xs) auto

lemma find_text_split:
  assumes "p \<le> length xs"
  shows "split_on c (drop p xs) = (case find_text c xs p of None \<Rightarrow> [drop p xs] | Some q \<Rightarrow> take (q - p) (drop p xs) # split_on c (drop (Suc q) xs))"
proof -
  let ?d = "drop p xs" let ?n = "length (takeWhile (\<lambda>x. x \<noteq> c) ?d)"
  have t: "takeWhile (\<lambda>x. x \<noteq> c) ?d = take ?n ?d" by (rule takeWhile_eq_take)
  have "dropWhile (\<lambda>x. x \<noteq> c) ?d = drop ?n ?d" by (rule dropWhile_eq_drop)
  then have d: "dropWhile (\<lambda>x. x \<noteq> c) ?d = drop (p + ?n) xs" by (simp only: drop_drop add.commute)
  show ?thesis
  proof (cases "p + ?n < length xs")
    case True
    then have "drop (p + ?n) xs = xs ! (p + ?n) # drop (Suc (p + ?n)) xs" by (simp add: Cons_nth_drop_Suc)
    with True d have "split_on c ?d = takeWhile (\<lambda>x. x \<noteq> c) ?d # split_on c (drop (Suc (p + ?n)) xs)" by (subst split_on_takeWhile) simp
    moreover have "find_text c xs p = Some (p + ?n)" using True by (simp add: find_text_def Let_def)
    ultimately show ?thesis using t by simp
  next
    case False
    then have "drop (p + ?n) xs = []" and l: "length ?d \<le> ?n" by simp_all
    with d have e: "dropWhile (\<lambda>x. x \<noteq> c) ?d = []" by simp
    have "split_on c ?d = [takeWhile (\<lambda>x. x \<noteq> c) ?d]" by (subst split_on_takeWhile) (simp only: e list.case)
    moreover have "takeWhile (\<lambda>x. x \<noteq> c) ?d = ?d" using l by (subst t) (simp only: take_all)
    moreover have "find_text c xs p = None" using False by (simp add: find_text_def Let_def)
    ultimately show ?thesis by simp
  qed
qed

lemma add_names_skip: "add_names (filter (\<lambda>x. x \<noteq> []) ns) parent s = add_names ns parent s"
  by (induction ns arbitrary: parent s) (auto simp: add_name_def split: prod.splits)

lemma parse_loop_names:
  assumes "oldpos \<le> length path"
  shows "(case parse_loop path oldpos parent s of (p, par, s1) \<Rightarrow> add_name (drop p path) par s1) = add_names (split_on 47 (drop oldpos path)) parent s"
  using assms
proof (induction path oldpos parent s rule: parse_loop.induct)
  case (1 path oldpos parent s)
  show ?case
  proof (cases "find_text 47 path oldpos")
    case None
    then show ?thesis using find_text_split [OF "1.prems", of 47] by (subst parse_loop.simps) (simp split: prod.splits)
  next
    case (Some q)
    obtain par s1 where a: "add_name (take (q - oldpos) (drop oldpos path)) parent s = (par, s1)" by fastforce
    have "Suc q \<le> length path" using Some by (auto simp: find_text_def Let_def split: if_splits)
    with "1.IH" [OF Some a [symmetric]] have "(case parse_loop path (Suc q) par s1 of (p, par, s1) \<Rightarrow> add_name (drop p path) par s1) =
      add_names (split_on 47 (drop (Suc q) path)) par s1" by simp
    moreover have "parse_loop path oldpos parent s = parse_loop path (Suc q) par s1" using Some a by (subst parse_loop.simps) simp
    ultimately show ?thesis using find_text_split [OF "1.prems", of 47] Some a by simp
  qed
qed

lemma parse_path_names: "parse_path path base s = add_names (segments path) base s"
  using parse_loop_names [of 0 path base s] by (simp add: parse_path_def segments_def add_names_skip)

text \<open>The entries that a parsed path adds.\<close>

fun chain_entries :: "nat option \<Rightarrow> nat \<Rightarrow> utext list \<Rightarrow> path_entry list" where
  "chain_entries b k [] = []"
| "chain_entries b k (n # ns) = \<lparr>pe_parent = b, pe_ref = None, pe_inode = None, pe_name = n\<rparr> # chain_entries (Some k) (Suc k) ns"

lemma add_names_entries:
  assumes "\<forall>n \<in> set ns. n \<noteq> []"
  shows "add_names ns b s = (if ns = [] then b else Some (length (fs_entries s) + length ns - 1),
    s\<lparr>fs_entries := fs_entries s @ chain_entries b (length (fs_entries s)) ns\<rparr>)"
  using assms
proof (induction ns arbitrary: b s)
  case (Cons n ns)
  then show ?case by (auto simp: add_name_def FilePathEntry_new_def)
qed simp

lemma chain_entries_nth: "i < length ns \<Longrightarrow> chain_entries b k ns ! i =
    \<lparr>pe_parent = (if i = 0 then b else Some (k + i - 1)), pe_ref = None, pe_inode = None, pe_name = ns ! i\<rparr>"
  by (induction ns arbitrary: b k i) (auto simp: nth_Cons split: nat.splits)

lemma chain_entries_length [simp]: "length (chain_entries b k ns) = length ns"
  by (induction ns arbitrary: b k) simp_all

section \<open>Populating resolves the path\<close>

text \<open>
  The reference: \<open>D\<close> gives the number, the type and the children of the inode that an entry's number leads to; a place is the stack of inode numbers from
  the current directory up to the base, above which \<open>..\<close> does not climb.
\<close>

type_synonym inode_data = "u64 \<Rightarrow> (u64 \<times> InodeType \<times> (u64 \<times> utext) list) option"

definition walk1 :: "inode_data \<Rightarrow> u64 list \<Rightarrow> utext \<Rightarrow> error_t + u64 list" where
  "walk1 D st x = (if x = [46] then Inr st else if x = [46, 46] then Inr (if tl st = [] then st else tl st)
     else case D (hd st) of None \<Rightarrow> Inl ENOENT
       | Some (no, ty, kids) \<Rightarrow> if ty \<noteq> DIRECTORY then Inl ENOTDIR
         else (case List.find (\<lambda>ie. snd ie = x) kids of None \<Rightarrow> Inl ENOENT | Some ie \<Rightarrow> Inr (fst ie # st)))"

fun walk :: "inode_data \<Rightarrow> u64 list \<Rightarrow> utext list \<Rightarrow> error_t + u64 list" where
  "walk D st [] = Inr st"
| "walk D st (x # xs) = bindE (walk1 D st x) (\<lambda>st'. walk D st' xs)"

lemma walk_snoc: "walk D st (xs @ [x]) = bindE (walk D st xs) (\<lambda>st'. walk1 D st' x)"
proof (induction xs arbitrary: st)
  case (Cons y ys)
  then show ?case by (cases "walk1 D st y") simp_all
next
  case Nil
  show ?case by (cases "walk1 D st x") simp_all
qed

definition holds :: "inode_data \<Rightarrow> nat \<Rightarrow> fstate \<Rightarrow> nat \<Rightarrow> u64 \<Rightarrow> bool" where
  "holds D f s i n \<longleftrightarrow> i < length (fs_inodes s) \<and> in_fs (fs_inodes s ! i) = f \<and> 
     D n = Some (in_no (fs_inodes s ! i), in_type (fs_inodes s ! i), in_children (fs_inodes s ! i))"

text \<open>A populated entry denotes a place. The entry \<open>el\<close>, which takes copies, is never part of it.\<close>

inductive denotes :: "inode_data \<Rightarrow> nat \<Rightarrow> nat \<Rightarrow> fstate \<Rightarrow> nat \<Rightarrow> u64 list \<Rightarrow> bool" for D f el s where
  base: "e < length (fs_entries s) \<Longrightarrow> e \<noteq> el \<Longrightarrow> pe_ref (fs_entries s ! e) = None \<Longrightarrow> pe_parent (fs_entries s ! e) = None \<Longrightarrow>
    pe_inode (fs_entries s ! e) = Some i \<Longrightarrow> holds D f s i n \<Longrightarrow> denotes D f el s e [n]"
| child: "e < length (fs_entries s) \<Longrightarrow> e \<noteq> el \<Longrightarrow> pe_ref (fs_entries s ! e) = None \<Longrightarrow> pe_parent (fs_entries s ! e) = Some p \<Longrightarrow>
    pe_inode (fs_entries s ! e) = Some i \<Longrightarrow> holds D f s i n \<Longrightarrow> denotes D f el s p st \<Longrightarrow> denotes D f el s e (n # st)"
| ref: "e < length (fs_entries s) \<Longrightarrow> e \<noteq> el \<Longrightarrow> pe_ref (fs_entries s ! e) = Some r \<Longrightarrow> denotes D f el s r st \<Longrightarrow> denotes D f el s e st"

inductive_cases denotes_elim: "denotes D f el s e st"

lemma denotes_nonempty: "denotes D f el s e st \<Longrightarrow> st \<noteq> []"
  by (induction rule: denotes.induct) simp_all

lemma denotes_entry: "denotes D f el s e st \<Longrightarrow> e < length (fs_entries s) \<and> e \<noteq> el"
  by (induction rule: denotes.induct) simp_all

lemma denotes_inode: "denotes D f el s e st \<Longrightarrow> \<exists>i. get_inode (fs_entries s) e = Some (Inr (Some i)) \<and> holds D f s i (hd st)"
proof (induction rule: denotes.induct)
  case (base e i n) then show ?case by (subst get_inode.simps) simp
next
  case (child e p i n st) then show ?case by (subst get_inode.simps) simp
next
  case (ref e r st) then show ?case by (subst get_inode.simps) simp
qed

lemma denotes_parent: "denotes D f el s e st \<Longrightarrow> \<exists>q. logical_parent (fs_entries s) e = Some (Inr q) \<and> denotes D f el s q (if tl st = [] then st else tl st)"
proof (induction rule: denotes.induct)
  case (base e i n) then show ?case by (subst logical_parent.simps) (auto intro: denotes.base)
next
  case (child e p i n st) then show ?case using denotes_nonempty [OF child.hyps(7)] by (subst logical_parent.simps) auto
next
  case (ref e r st) then show ?case by (subst logical_parent.simps) simp
qed

text \<open>What denotes a place still does after inodes were added and entries that denoted nothing were changed.\<close>

definition blank :: "path_entry \<Rightarrow> bool" where
  "blank x \<longleftrightarrow> pe_ref x = None \<and> pe_inode x = None"

definition grows :: "nat \<Rightarrow> fstate \<Rightarrow> fstate \<Rightarrow> bool" where
  "grows el s s' \<longleftrightarrow> length (fs_entries s') = length (fs_entries s) \<and> (\<forall>x < length (fs_entries s). x \<noteq> el \<longrightarrow> \<not> blank (fs_entries s ! x) \<longrightarrow> fs_entries s' ! x = fs_entries s ! x) \<and>
     length (fs_inodes s) \<le> length (fs_inodes s') \<and> (\<forall>i < length (fs_inodes s). fs_inodes s' ! i = fs_inodes s ! i)"

lemma grows_refl [simp]: "grows el s s"
  by (simp add: grows_def)

lemma grows_trans: "grows el s s' \<Longrightarrow> grows el s' s'' \<Longrightarrow> grows el s s''"
  by (auto simp: grows_def)

lemma holds_grows: "grows el s s' \<Longrightarrow> holds D f s i n \<Longrightarrow> holds D f s' i n"
  by (auto simp: grows_def holds_def)

lemma denotes_grows: "denotes D f el s e st \<Longrightarrow> grows el s s' \<Longrightarrow> denotes D f el s' e st"
proof (induction rule: denotes.induct)
  case (base e i n)
  then have "fs_entries s' ! e = fs_entries s ! e" by (auto simp: grows_def blank_def)
  then show ?case using base holds_grows [OF base.prems base.hyps(6)] by (intro denotes.base) (auto simp: grows_def)
next
  case (child e p i n st)
  then have "fs_entries s' ! e = fs_entries s ! e" by (auto simp: grows_def blank_def)
  then show ?case using child holds_grows [OF child.prems child.hyps(6)] by (intro denotes.child) (auto simp: grows_def)
next
  case (ref e r st)
  then have "fs_entries s' ! e = fs_entries s ! e" by (auto simp: grows_def blank_def)
  with ref.hyps ref.prems show ?case by (intro denotes.ref [OF _ ref.hyps(2) _ ref.IH [OF ref.prems]]) (simp_all add: grows_def)
qed

lemma grows_upd: "e \<noteq> el \<Longrightarrow> blank (fs_entries s ! e) \<Longrightarrow> grows el s (upd_entry e g s)"
  by (auto simp: grows_def upd_entry_def) (metis nth_list_update_neq)

lemma grows_error_loc: "grows el s (set_error_loc el e s)"
  by (auto simp: grows_def set_error_loc_def upd_entry_def nth_list_update)

text \<open>The outcome of populating \<open>e\<close>: the error of the reference, or the entry denotes the place that the reference finds.\<close>

definition resolved :: "inode_data \<Rightarrow> nat \<Rightarrow> nat \<Rightarrow> nat \<Rightarrow> fstate \<Rightarrow> error_t + u64 list \<Rightarrow> error_t \<times> fstate \<Rightarrow> bool" where
  "resolved D f el e s w r = (case r of (er, s') \<Rightarrow> (case w of Inl x \<Rightarrow> er = x \<and> x \<noteq> EOK | Inr st' \<Rightarrow> er = EOK \<and> denotes D f el s' e st') \<and> grows el s s' \<and>
     (\<forall>x. x \<noteq> e \<longrightarrow> x \<noteq> el \<longrightarrow> fs_entries s' ! x = fs_entries s ! x))"

text \<open>What \<open>populate\<close> relies on of the file system: every number with data can be read and yields an inode with that
  data, the entries and the older inodes staying as they are; the children of a directory have data.\<close>

locale inode_source =
  fixes rd :: inode_reader and f :: nat and D :: inode_data
  assumes reads: "D n = Some d \<Longrightarrow> \<exists>i s'. rd f n s = Inr (\<lparr>fa_err = EOK, fa_val = Some i\<rparr>, s') \<and> fs_entries s' = fs_entries s \<and>
      length (fs_inodes s) \<le> length (fs_inodes s') \<and> (\<forall>j < length (fs_inodes s). fs_inodes s' ! j = fs_inodes s ! j) \<and> holds D f s' i n"
    and closed: "D n = Some (no, DIRECTORY, kids) \<Longrightarrow> ie \<in> set kids \<Longrightarrow> D (fst ie) \<noteq> None"
begin

lemma populate_ref:
  assumes e: "e < length (fs_entries s)" "e \<noteq> el" "blank (fs_entries s ! e)" and q: "denotes D f el s q st"
  shows "resolved D f el e s (Inr st) (EOK, upd_entry e (\<lambda>x. x\<lparr>pe_ref := Some q\<rparr>) s)"
proof -
  let ?s = "upd_entry e (\<lambda>x. x\<lparr>pe_ref := Some q\<rparr>) s"
  have g: "grows el s ?s" by (rule grows_upd [OF e(2,3)])
  have "denotes D f el ?s e st" by (rule denotes.ref [OF _ e(2) _ denotes_grows [OF q g]]) (use e in \<open>simp_all add: upd_entry_def\<close>)
  with g show ?thesis by (simp add: resolved_def upd_entry_def)
qed

lemma populate_child_ok:
  assumes e: "e < length (fs_entries s)" "e \<noteq> el" "blank (fs_entries s ! e)" "pe_parent (fs_entries s ! e) = Some p" and p: "denotes D f el s p st"
    and d: "holds D f s d (hd st)" "in_type (fs_inodes s ! d) = DIRECTORY"
    and n: "pe_name (fs_entries s ! e) \<noteq> [46]" "pe_name (fs_entries s ! e) \<noteq> [46, 46]"
  shows "\<exists>r. populate_child rd err e (fs_inodes s ! d) s = Inr r \<and> resolved D f el e s (walk1 D st (pe_name (fs_entries s ! e))) r"
proof -
  let ?kids = "in_children (fs_inodes s ! d)" and ?nm = "pe_name (fs_entries s ! e)"
  have D: "D (hd st) = Some (in_no (fs_inodes s ! d), DIRECTORY, ?kids)" and fd: "in_fs (fs_inodes s ! d) = f" using d by (auto simp: holds_def)
  show ?thesis
  proof (cases "List.find (\<lambda>ie. snd ie = ?nm) ?kids")
    case None
    then show ?thesis using D n by (simp add: populate_child_def walk1_def resolved_def)
  next
    case (Some ie)
    then have "ie \<in> set ?kids" by (auto simp: find_Some_iff)
    then obtain dd where "D (fst ie) = Some dd" using closed [OF D] by blast
    from reads [OF this, of s] obtain i s1 where r: "rd f (fst ie) s = Inr (\<lparr>fa_err = EOK, fa_val = Some i\<rparr>, s1)" "fs_entries s1 = fs_entries s"
      "length (fs_inodes s) \<le> length (fs_inodes s1)" "\<forall>j < length (fs_inodes s). fs_inodes s1 ! j = fs_inodes s ! j" "holds D f s1 i (fst ie)" by blast
    let ?s2 = "upd_entry e (\<lambda>x. x\<lparr>pe_inode := Some i\<rparr>) s1"
    have g1: "grows el s s1" using r by (simp add: grows_def)
    have g2: "grows el s1 ?s2" by (rule grows_upd) (use e r in simp_all)
    have "denotes D f el ?s2 e (fst ie # st)"
      by (rule denotes.child [OF _ e(2) _ _ _ holds_grows [OF g2 r(5)] denotes_grows [OF denotes_grows [OF p g1] g2]])
        (use e r in \<open>simp_all add: upd_entry_def blank_def\<close>)
    then show ?thesis using r Some D n fd grows_trans [OF g1 g2]
      by (simp add: populate_child_def walk1_def resolved_def Failable_ok_def upd_entry_def)
  qed
qed

lemma populate_here_ok:
  assumes e: "e < length (fs_entries s)" "e \<noteq> el" "blank (fs_entries s ! e)" "pe_parent (fs_entries s ! e) = Some p" and p: "denotes D f el s p st"
  shows "\<exists>r. populate_here rd err el e p s = Some (Inr r) \<and> resolved D f el e s (walk1 D st (pe_name (fs_entries s ! e))) r"
proof -
  let ?nm = "pe_name (fs_entries s ! e)"
  consider "?nm = [46]" | "?nm = [46, 46]" | "?nm \<noteq> [46]" "?nm \<noteq> [46, 46]" by blast
  then show ?thesis
  proof cases
    case 1
    then show ?thesis using populate_ref [OF e(1-3) p] by (simp add: populate_here_def walk1_def)
  next
    case 2
    from denotes_parent [OF p] obtain q where q: "logical_parent (fs_entries s) p = Some (Inr q)" "denotes D f el s q (if tl st = [] then st else tl st)" by blast
    from 2 q(1) populate_ref [OF e(1-3) q(2)] show ?thesis by (simp add: populate_here_def walk1_def)
  next
    case 3
    from denotes_inode [OF p] obtain d where d: "get_inode (fs_entries s) p = Some (Inr (Some d))" "holds D f s d (hd st)" by blast
    let ?s1 = "set_error_loc el e s"
    have g: "grows el s ?s1" by (rule grows_error_loc)
    have keep: "fs_entries ?s1 ! x = fs_entries s ! x" if "x \<noteq> el" for x using that by (simp add: set_error_loc_def upd_entry_def)
    have e1: "e < length (fs_entries ?s1)" "fs_inodes ?s1 = fs_inodes s" using e by (simp_all add: set_error_loc_def upd_entry_def)
    have dl: "d < length (fs_inodes s)" using d(2) by (simp add: holds_def)
    show ?thesis
    proof (cases "in_type (fs_inodes s ! d) = DIRECTORY")
      case False
      then obtain no ty kids where "D (hd st) = Some (no, ty, kids)" "ty \<noteq> DIRECTORY" using d(2) by (simp add: holds_def)
      moreover have "grows el s (set_error_loc el p ?s1)" by (rule grows_trans [OF g grows_error_loc])
      moreover have "path_parent (fs_entries ?s1) e = Inr p" using e e1 keep [OF e(2)] by (simp add: path_parent_def)
      ultimately show ?thesis using 3 d dl False e1 e
        by (simp add: populate_here_def walk1_def resolved_def Let_def) (simp add: set_error_loc_def upd_entry_def)
    next
      case True
      have "\<exists>r. populate_child rd err e (fs_inodes ?s1 ! d) ?s1 = Inr r \<and> resolved D f el e ?s1 (walk1 D st (pe_name (fs_entries ?s1 ! e))) r"
        by (rule populate_child_ok) (use e e1 keep d(2) True 3 denotes_grows [OF p g] holds_grows [OF g] in simp_all)
      then obtain r where r: "populate_child rd err e (fs_inodes s ! d) ?s1 = Inr r" "resolved D f el e ?s1 (walk1 D st ?nm) r" using e(2) e1 keep by auto
      from r(2) have "resolved D f el e s (walk1 D st ?nm) r" using keep grows_trans [OF g] by (auto simp: resolved_def split: prod.splits sum.splits)
      with r(1) 3 d dl True e1 show ?thesis by (simp add: populate_here_def Let_def)
    qed
  qed
qed

text \<open>A path of entries \<open>k, k + 1, \<dots>\<close> that hang below each other and the first below \<open>b\<close>.\<close>

lemma populate_path:
  assumes "denotes D f el s b st" and "\<forall>i \<le> j. k + i < length (fs_entries s) \<and> k + i \<noteq> el \<and> fs_entries s ! (k + i) =
      \<lparr>pe_parent = Some (if i = 0 then b else k + i - 1), pe_ref = None, pe_inode = None, pe_name = ns ! i\<rparr>"
    and "j < length ns"
  shows "\<exists>r. populate rd junk el (k + j) s = Some (Inr r) \<and> (case walk D st (take (Suc j) ns) of Inl x \<Rightarrow> fst r = x \<and> x \<noteq> EOK
      | Inr st' \<Rightarrow> fst r = EOK \<and> denotes D f el (snd r) (k + j) st') \<and> grows el s (snd r) \<and>
      (\<forall>x. x \<noteq> el \<longrightarrow> x \<notin> {k..k + j} \<longrightarrow> fs_entries (snd r) ! x = fs_entries s ! x)"
  using assms(2,3)
proof (induction j)
  case 0
  then have e: "k < length (fs_entries s)" "k \<noteq> el" "fs_entries s ! k = \<lparr>pe_parent = Some b, pe_ref = None, pe_inode = None, pe_name = ns ! 0\<rparr>" by auto
  have lp: "logical_parent (fs_entries s) k = Some (Inr b)" using e by (subst logical_parent.simps) simp
  from denotes_inode [OF assms(1)] obtain i where i: "get_inode (fs_entries s) b = Some (Inr (Some i))" by blast
  from populate_here_ok [OF e(1,2), of b st junk] e assms(1) obtain r where
    r: "populate_here rd junk el k b s = Some (Inr r)" "resolved D f el k s (walk1 D st (ns ! 0)) r" by (auto simp: blank_def)
  have w: "walk D st (take (Suc 0) ns) = walk1 D st (ns ! 0)" using 0 by (cases ns; cases "walk1 D st (ns ! 0)") simp_all
  have "populate rd junk el k s = Some (Inr r)" using lp i r by (subst populate.simps) simp
  then show ?case using r(2) w by (auto simp: resolved_def split: prod.splits sum.splits)
next
  case (Suc j)
  let ?e = "k + Suc j"
  have e: "?e < length (fs_entries s)" "?e \<noteq> el" "fs_entries s ! ?e = \<lparr>pe_parent = Some (k + j), pe_ref = None, pe_inode = None, pe_name = ns ! Suc j\<rparr>"
    and p: "k + j < length (fs_entries s)" "pe_ref (fs_entries s ! (k + j)) = None" "pe_inode (fs_entries s ! (k + j)) = None"
    using Suc.prems(1)[rule_format, of "Suc j"] Suc.prems(1)[rule_format, of j] by auto
  have lp: "logical_parent (fs_entries s) ?e = Some (Inr (k + j))" using e by (subst logical_parent.simps) simp
  have gi: "get_inode (fs_entries s) (k + j) = Some (Inr None)" using p by (subst get_inode.simps) simp
  have pp: "path_parent (fs_entries s) ?e = Inr (k + j)" using e by (simp add: path_parent_def)
  from Suc.IH Suc.prems obtain r where r: "populate rd junk el (k + j) s = Some (Inr r)"
    and w: "case walk D st (take (Suc j) ns) of Inl x \<Rightarrow> fst r = x \<and> x \<noteq> EOK | Inr st' \<Rightarrow> fst r = EOK \<and> denotes D f el (snd r) (k + j) st'"
    and g: "grows el s (snd r)" and keep: "\<forall>x. x \<noteq> el \<longrightarrow> x \<notin> {k..k + j} \<longrightarrow> fs_entries (snd r) ! x = fs_entries s ! x" by auto
  have wk: "walk D st (take (Suc (Suc j)) ns) = bindE (walk D st (take (Suc j) ns)) (\<lambda>st'. walk1 D st' (ns ! Suc j))"
    using Suc.prems(2) walk_snoc [of D st "take (Suc j) ns" "ns ! Suc j"] by (simp add: take_Suc_conv_app_nth)
  have step: "populate rd junk el ?e s = (if fst r \<noteq> EOK then Some (Inr r) else populate_here rd (fst r) el ?e (k + j) (snd r))"
    using lp gi pp r by (subst populate.simps) (simp add: case_prod_beta)
  show ?case
  proof (cases "walk D st (take (Suc j) ns)")
    case (Inl x)
    then have "populate rd junk el ?e s = Some (Inr r)" "walk D st (take (Suc (Suc j)) ns) = Inl x" using step w wk by simp_all
    then show ?thesis using Inl w g keep by auto
  next
    case (Inr st1)
    then have p1: "denotes D f el (snd r) (k + j) st1" "fst r = EOK" using w by simp_all
    have e1: "fs_entries (snd r) ! ?e = fs_entries s ! ?e" "?e < length (fs_entries (snd r))" using keep e g by (auto simp: grows_def)
    from populate_here_ok [OF e1(2) e(2) _ _ p1(1), of EOK] e e1 obtain q where
      q: "populate_here rd EOK el ?e (k + j) (snd r) = Some (Inr q)" "resolved D f el ?e (snd r) (walk1 D st1 (ns ! Suc j)) q" by (auto simp: blank_def)
    have "populate rd junk el ?e s = Some (Inr q)" using step p1(2) q(1) by simp
    moreover have "walk D st (take (Suc (Suc j)) ns) = walk1 D st1 (ns ! Suc j)" using wk Inr by simp
    moreover have "grows el s (snd q)" using q(2) grows_trans [OF g] by (auto simp: resolved_def)
    moreover have "\<forall>x. x \<noteq> el \<longrightarrow> x \<notin> {k..?e} \<longrightarrow> fs_entries (snd q) ! x = fs_entries s ! x" using q(2) keep by (auto simp: resolved_def)
    ultimately show ?thesis using q(2) by (auto simp: resolved_def split: sum.splits)
  qed
qed

lemma populate_parsed:
  assumes "denotes D f el s b st" and "el < length (fs_entries s)" and ne: "segments path \<noteq> []" and pa: "parse_path path (Some b) s = (Some e, s1)"
  shows "\<exists>er s2. populate rd junk el e s1 = Some (Inr (er, s2)) \<and>
     (case walk D st (segments path) of Inl x \<Rightarrow> er = x \<and> x \<noteq> EOK | Inr st' \<Rightarrow> er = EOK \<and> denotes D f el s2 e st') \<and>
     (\<forall>q sq. denotes D f el s q sq \<longrightarrow> denotes D f el s2 q sq) \<and> el < length (fs_entries s2)"
proof -
  let ?ns = "segments path" and ?k = "length (fs_entries s)" and ?j = "length (segments path) - 1"
  have nn: "\<forall>n \<in> set ?ns. n \<noteq> []" by (auto simp: segments_def)
  have e: "e = ?k + ?j" and s1: "s1 = s\<lparr>fs_entries := fs_entries s @ chain_entries (Some b) ?k ?ns\<rparr>"
    using pa ne add_names_entries [OF nn, of "Some b" s] by (cases ?ns; auto simp: parse_path_names)+
  have g: "denotes D f el s1 q sq" if "denotes D f el s q sq" for q sq using that
  proof (induction rule: denotes.induct)
    case (base e i n) then show ?case by (intro denotes.base) (auto simp: s1 nth_append holds_def)
  next
    case (child e p i n st) then show ?case by (intro denotes.child) (auto simp: s1 nth_append holds_def)
  next
    case (ref e r st) show ?case by (rule denotes.ref [OF _ ref.hyps(2) _ ref.IH]) (use ref in \<open>auto simp: s1 nth_append\<close>)
  qed
  have j: "?j < length ?ns" "take (Suc ?j) ?ns = ?ns" using ne by (cases ?ns; simp)+
  have "\<forall>i \<le> ?j. ?k + i < length (fs_entries s1) \<and> ?k + i \<noteq> el \<and> fs_entries s1 ! (?k + i) =
      \<lparr>pe_parent = Some (if i = 0 then b else ?k + i - 1), pe_ref = None, pe_inode = None, pe_name = ?ns ! i\<rparr>"
    using assms(2) j(1) by (auto simp: s1 nth_append chain_entries_nth)
  from populate_path [OF g [OF assms(1)] this j(1), of junk] obtain r where "populate rd junk el e s1 = Some (Inr r)"
    "case walk D st ?ns of Inl x \<Rightarrow> fst r = x \<and> x \<noteq> EOK | Inr st' \<Rightarrow> fst r = EOK \<and> denotes D f el (snd r) e st'"
    and gr: "grows el s1 (snd r)" unfolding j(2) e [symmetric] by blast
  moreover have "el < length (fs_entries (snd r))" using gr assms(2) by (simp add: grows_def s1)
  ultimately show ?thesis using denotes_grows [OF g gr] by (intro exI [of _ "fst r"] exI [of _ "snd r"]) simp
qed

end

text \<open>\<open>ExpanseFs\<close> provides a root directory with one file.\<close>

definition expanse_data :: inode_data where
  "expanse_data = [1 \<mapsto> (1, DIRECTORY, expanse_root), 2 \<mapsto> (3, FILE, [])]"

interpretation expanse: inode_source ExpanseFs_read_inode f expanse_data for f
proof
  fix n d s assume "expanse_data n = Some d"
  then have "n = 1 \<or> n = 2" by (auto simp: expanse_data_def split: if_splits)
  then show "\<exists>i s'. ExpanseFs_read_inode f n s = Inr (\<lparr>fa_err = EOK, fa_val = Some i\<rparr>, s') \<and> fs_entries s' = fs_entries s \<and>
      length (fs_inodes s) \<le> length (fs_inodes s') \<and> (\<forall>j < length (fs_inodes s). fs_inodes s' ! j = fs_inodes s ! j) \<and> holds expanse_data f s' i n"
    by (auto simp: ExpanseFs_read_inode_def Inode_new_def upd_inode_def holds_def expanse_data_def nth_append)
next
  fix n no kids ie assume "expanse_data n = Some (no, DIRECTORY, kids)" "ie \<in> set kids"
  then show "expanse_data (fst ie) \<noteq> None" by (auto simp: expanse_data_def expanse_root_def split: if_splits)
qed

section \<open>Properties\<close>


text \<open>A populated root entry and an entry for the error location.\<close>

definition fs_example :: fstate where
  "fs_example = \<lparr>fs_entries = [\<lparr>pe_parent = None, pe_ref = None, pe_inode = Some 0, pe_name = []\<rparr>,
       \<lparr>pe_parent = None, pe_ref = None, pe_inode = None, pe_name = []\<rparr>],
     fs_inodes = [\<lparr>in_fs = 0, in_no = 1, in_type = DIRECTORY, in_size = 0, in_contents = None, in_children = expanse_root\<rparr>],
     fs_counts = (\<lambda>_. 1), fs_counter = 1\<rparr>"

lemma fs_example_root: "denotes expanse_data 0 1 fs_example 0 [1]"
  by (rule denotes.base [where i = 0]) (simp_all add: fs_example_def holds_def expanse_data_def)

text \<open>The path \<open>"/../contents"\<close>.\<close>

definition fs_example_path :: utext where
  "fs_example_path = [47, 46, 46, 47, 99, 111, 110, 116, 101, 110, 116, 115]"


end
