(* ===== verification/Ps2.thy ===== *)
theory Ps2
  imports Mutex
begin

text \<open>
  \<open>src/hw/utils.cpp\<close>, \<open>src/hw/ps2.cpp\<close> and \<open>src/hw/ps2keyboard.cpp\<close>: the I/O ports, the PS/2 controller with its two
  ports and the keyboard driver. The hardware behind the I/O ports is an argument: a record of the functions that
  a read and a write of a port perform on a device state, and of what the hardware does while the CPU spins: the new
  device state and the PS/2 port whose interrupt fires, if any. What the driver prints is a list of outputs.
\<close>

section \<open>I/O ports\<close>

record 'd hw =
  hw_inb :: "u16 \<Rightarrow> 'd \<Rightarrow> u8 \<times> 'd"
  hw_outb :: "u16 \<Rightarrow> u8 \<Rightarrow> 'd \<Rightarrow> 'd"
  hw_tick :: "'d \<Rightarrow> nat option \<times> 'd"

definition IO_PORT_PS2_DATA :: u16 where "IO_PORT_PS2_DATA = 0x60"
definition IO_PORT_PS2_STATUS :: u16 where "IO_PORT_PS2_STATUS = 0x64"
definition IO_PORT_PS2_COMMAND :: u16 where "IO_PORT_PS2_COMMAND = 0x64"
definition IO_PORT_CHECKPOINT :: u16 where "IO_PORT_CHECKPOINT = 0x80"

definition io_wait :: "'d hw \<Rightarrow> 'd \<Rightarrow> 'd" where
  "io_wait H d = hw_outb H IO_PORT_CHECKPOINT 0 d"

definition STAT_INBUFF :: u8 where "STAT_INBUFF = 0x02"

definition COM_READ :: u8 where "COM_READ = 0x20"
definition COM_WRITE :: u8 where "COM_WRITE = 0x60"
definition COM_DIS2 :: u8 where "COM_DIS2 = 0xa7"
definition COM_EN2 :: u8 where "COM_EN2 = 0xa8"
definition COM_TEST2 :: u8 where "COM_TEST2 = 0xa9"
definition COM_TESTCON :: u8 where "COM_TESTCON = 0xaa"
definition COM_TEST1 :: u8 where "COM_TEST1 = 0xab"
definition COM_DIS1 :: u8 where "COM_DIS1 = 0xad"
definition COM_EN1 :: u8 where "COM_EN1 = 0xae"
definition COM_NEXT2IN :: u8 where "COM_NEXT2IN = 0xd4"

definition CON_EN1 :: u8 where "CON_EN1 = 0x01"
definition CON_EN2 :: u8 where "CON_EN2 = 0x02"
definition CON_CLOCK2 :: u8 where "CON_CLOCK2 = 0x20"
definition CON_TRANS :: u8 where "CON_TRANS = 0x40"

definition DEV_IDENTIFY :: u8 where "DEV_IDENTIFY = 0xf2"
definition DEV_DISABLE_SCAN :: u8 where "DEV_DISABLE_SCAN = 0xf5"
definition ACK :: u8 where "ACK = 0xfa"
definition RESEND :: u8 where "RESEND = 0xfe"

definition TYPE_MOUSE :: u8 where "TYPE_MOUSE = 0x40"
definition TYPE_KEYBOARD :: u8 where "TYPE_KEYBOARD = 0x80"
definition TYPE_TRANSLATION_KEYBOARD_AT :: u8 where "TYPE_TRANSLATION_KEYBOARD_AT = TYPE_KEYBOARD OR 0x00"
definition TYPE_STANDARD_MOUSE :: u8 where "TYPE_STANDARD_MOUSE = TYPE_MOUSE OR 0x00"
definition TYPE_SCROLL_MOUSE :: u8 where "TYPE_SCROLL_MOUSE = TYPE_MOUSE OR 0x01"
definition TYPE_5BTN_MOUSE :: u8 where "TYPE_5BTN_MOUSE = TYPE_MOUSE OR 0x02"
definition TYPE_TRANSLATION_MF2_KEYBOARD :: u8 where "TYPE_TRANSLATION_MF2_KEYBOARD = TYPE_KEYBOARD OR 0x01"
definition TYPE_MF2_KEYBOARD :: u8 where "TYPE_MF2_KEYBOARD = TYPE_KEYBOARD OR 0x02"
definition TYPE_UNKNOWN :: u8 where "TYPE_UNKNOWN = 0x0"

section \<open>The keyboard driver\<close>

definition MASK_RELEASE :: u16 where "MASK_RELEASE = 0x8000"
definition MASK_EXTENDED :: u16 where "MASK_EXTENDED = 0x0080"
definition ERR_1 :: u8 where "ERR_1 = 0x00"
definition PASS :: u8 where "PASS = 0xaa"
definition ECHO :: u8 where "ECHO = 0xee"
definition ST_FAIL_1 :: u8 where "ST_FAIL_1 = 0xfc"
definition ST_FAIL_2 :: u8 where "ST_FAIL_2 = 0xfd"
definition ERR_2 :: u8 where "ERR_2 = 0xff"

record kb_driver =
  kb_key :: u16
  kb_double_code :: bool
  kb_last_key :: u16
  kb_modifiers :: u16
  kb_last_input :: "16 word"
  kb_self_test_passed :: bool

text \<open>\<open>printk\<close> of a key and the two warnings.\<close>

datatype kb_out = KeyOut u16 | WarnE1 u16 u8 | WarnCode u8

definition kb_literal :: "u8 \<Rightarrow> kb_driver \<Rightarrow> kb_driver \<times> kb_out list" where
  "kb_literal input kb =
     (if kb_double_code kb then (kb\<lparr>kb_last_key := ucast input, kb_double_code := False\<rparr>, [])
      else if kb_last_key kb \<noteq> 0 \<and> \<not> (kb_last_key kb = 0x14 \<and> input = 0x77)
      then (kb\<lparr>kb_key := 0, kb_last_key := 0\<rparr>, [WarnE1 (kb_last_key kb) input])
      else let input' = (if kb_last_key kb \<noteq> 0 then 0x0f else input) in
        (kb\<lparr>kb_key := 0, kb_last_key := 0\<rparr>, [KeyOut (kb_key kb OR ucast input')]))"

definition kb_byte :: "u8 \<Rightarrow> kb_driver \<Rightarrow> kb_driver \<times> kb_out list" where
  "kb_byte input0 kb =
     (if input0 = PASS then (kb\<lparr>kb_self_test_passed := True\<rparr>, [])
      else if kb_last_input kb = - 1 then (kb\<lparr>kb_last_input := ucast input0\<rparr>, [])
      else if input0 = ERR_1 \<or> input0 = ERR_2 then (kb, [])
      else if input0 = ECHO \<or> input0 = ACK \<or> input0 = RESEND then (kb, [])
      else if input0 = ST_FAIL_1 \<or> input0 = ST_FAIL_2 then (kb, [])
      else let input = (if input0 = 0x83 then 0x02 else input0) in
        if input = 0xe0 then (kb\<lparr>kb_key := kb_key kb OR MASK_EXTENDED\<rparr>, [])
        else if input = 0xe1 then (kb\<lparr>kb_double_code := True\<rparr>, [])
        else if input = 0xf0 then (kb\<lparr>kb_key := kb_key kb OR MASK_RELEASE\<rparr>, [])
        else if input < 0x80 then kb_literal input kb
        else (kb, [WarnCode input]))"

section \<open>The controller\<close>

record ps2port =
  po_enabled :: bool
  po_second :: bool
  po_timed_out :: bool
  po_type :: u8
  po_driver :: "kb_driver option"

record 'd ps2 =
  p_dev :: 'd
  p_dual :: bool
  p_known_dual :: bool
  p_port :: "nat \<Rightarrow> ps2port"
  p_mutex :: bool
  p_out :: "kb_out list"
  p_warn :: "string list"
  p_eoi :: nat
  p_irqs :: "(nat \<times> nat) list"

definition on_dev :: "('d \<Rightarrow> 'd) \<Rightarrow> 'd ps2 \<Rightarrow> 'd ps2" where
  "on_dev f s = s\<lparr>p_dev := f (p_dev s)\<rparr>"

definition upd_port :: "nat \<Rightarrow> (ps2port \<Rightarrow> ps2port) \<Rightarrow> 'd ps2 \<Rightarrow> 'd ps2" where
  "upd_port i f s = s\<lparr>p_port := (p_port s)(i := f (p_port s i))\<rparr>"

definition warn :: "string \<Rightarrow> 'd ps2 \<Rightarrow> 'd ps2" where
  "warn m s = s\<lparr>p_warn := p_warn s @ [m]\<rparr>"

definition read_data :: "'d hw \<Rightarrow> 'd ps2 \<Rightarrow> u8 \<times> 'd ps2" where
  "read_data H s = (case hw_inb H IO_PORT_PS2_DATA (p_dev s) of (x, d) \<Rightarrow> (x, s\<lparr>p_dev := d\<rparr>))"

definition write_data :: "'d hw \<Rightarrow> u8 \<Rightarrow> 'd ps2 \<Rightarrow> 'd ps2" where
  "write_data H dat s = on_dev (hw_outb H IO_PORT_PS2_DATA dat) s"

definition write_command :: "'d hw \<Rightarrow> u8 \<Rightarrow> 'd ps2 \<Rightarrow> 'd ps2" where
  "write_command H com s = on_dev (hw_outb H IO_PORT_PS2_COMMAND com) s"

definition read_status :: "'d hw \<Rightarrow> 'd ps2 \<Rightarrow> u8 \<times> 'd ps2" where
  "read_status H s = (case hw_inb H IO_PORT_PS2_STATUS (p_dev s) of (x, d) \<Rightarrow> (x, s\<lparr>p_dev := d\<rparr>))"

partial_function (option) wait_inbuff :: "'d hw \<Rightarrow> 'd ps2 \<Rightarrow> 'd ps2 option" where
  "wait_inbuff H s = (case read_status H s of (st, s1) \<Rightarrow>
     if st AND STAT_INBUFF \<noteq> 0 then wait_inbuff H (on_dev (io_wait H) s1) else Some s1)"

definition write_double_command :: "'d hw \<Rightarrow> u8 \<Rightarrow> u8 \<Rightarrow> 'd ps2 \<Rightarrow> 'd ps2 result" where
  "write_double_command H com arg s = bindE (loopE (wait_inbuff H (write_command H com s))) (\<lambda>s1. Inr (write_data H arg s1))"

definition wait_read_data :: "'d hw \<Rightarrow> 'd ps2 \<Rightarrow> (u8 \<times> 'd ps2) result" where
  "wait_read_data H s = bindE (loopE (wait_inbuff H s)) (\<lambda>s1. Inr (read_data H s1))"

text \<open>\<open>Ps2Port::read\<close>: \<open>n\<close> is the number of decrements after which the timeout is 0.\<close>

fun port_wait :: "'d hw \<Rightarrow> nat \<Rightarrow> 'd ps2 \<Rightarrow> bool \<times> 'd ps2" where
  "port_wait H 0 s = (True, s)"
| "port_wait H (Suc n) s = (case read_status H s of (st, s1) \<Rightarrow>
     if st AND STAT_INBUFF \<noteq> 0 then port_wait H n (on_dev (io_wait H) s1) else (False, s1))"

definition port_read :: "'d hw \<Rightarrow> nat \<Rightarrow> u32 \<Rightarrow> 'd ps2 \<Rightarrow> u8 \<times> 'd ps2" where
  "port_read H i timeout s = (case port_wait H (if timeout = 0 then 2 ^ 32 else unat timeout) (upd_port i (\<lambda>p. p\<lparr>po_timed_out := False\<rparr>) s) of
     (late, s1) \<Rightarrow> if late then (0xff, upd_port i (\<lambda>p. p\<lparr>po_timed_out := True\<rparr>) s1) else read_data H s1)"

definition port_write :: "'d hw \<Rightarrow> nat \<Rightarrow> u8 \<Rightarrow> 'd ps2 \<Rightarrow> 'd ps2" where
  "port_write H i dat s = write_data H dat (if po_second (p_port s i) then write_command H COM_NEXT2IN s else s)"

partial_function (option) port_write_ack :: "'d hw \<Rightarrow> nat \<Rightarrow> u8 \<Rightarrow> 'd ps2 \<Rightarrow> 'd ps2 option" where
  "port_write_ack H i dat s = (case port_read H i 0xffff (port_write H i dat s) of (b, s1) \<Rightarrow>
     if b = ACK \<or> po_timed_out (p_port s1 i) then Some s1
     else if b = RESEND then port_write_ack H i dat s1 else Some s1)"

text \<open>What \<open>Ps2Port::init\<close> makes of the identification bytes.\<close>

definition identify :: "nat \<Rightarrow> u8 \<Rightarrow> u8 \<Rightarrow> u8" where
  "identify info_length info0 info1 =
     (if info_length = 0 then TYPE_TRANSLATION_KEYBOARD_AT
      else if info0 = 0x00 then TYPE_STANDARD_MOUSE
      else if info0 = 0x03 then TYPE_SCROLL_MOUSE
      else if info0 = 0x04 then TYPE_5BTN_MOUSE
      else if info0 = 0xab
      then (if info1 = 0x41 \<or> info1 = 0xc1 then TYPE_TRANSLATION_MF2_KEYBOARD
            else if info1 = 0x83 then TYPE_MF2_KEYBOARD else TYPE_UNKNOWN)
      else TYPE_UNKNOWN)"

text \<open>The fields of a new keyboard driver hold what the memory held (\<open>junk\<close>).\<close>

definition port_identify :: "'d hw \<Rightarrow> nat \<Rightarrow> 'd ps2 \<Rightarrow> nat \<times> u8 \<times> u8 \<times> 'd ps2" where
  "port_identify H i s = (case port_read H i 0xffff s of (a, s1) \<Rightarrow>
     if po_timed_out (p_port s1 i) then (0, a, 0, s1)
     else case port_read H i 0xffff s1 of (b, s2) \<Rightarrow> (if po_timed_out (p_port s2 i) then 1 else 2, a, b, s2))"

definition port_setup :: "'d hw \<Rightarrow> nat \<Rightarrow> 'd ps2 \<Rightarrow> 'd ps2 result" where
  "port_setup H i s = bindE (wait_read_data H (write_command H COM_READ s)) (\<lambda>(config, s1).
     write_double_command H COM_WRITE (if po_second (p_port s1 i) then config OR CON_EN2 else config OR CON_EN1) s1)"

definition port_init :: "'d hw \<Rightarrow> kb_driver \<Rightarrow> nat \<Rightarrow> 'd ps2 \<Rightarrow> 'd ps2 result" where
  "port_init H junk i s = (let s0 = write_command H (if po_second (p_port s i) then COM_EN2 else COM_EN1) s in
     bindE (loopE (port_write_ack H i DEV_DISABLE_SCAN s0)) (\<lambda>s1.
     if po_timed_out (p_port s1 i) then Inr (upd_port i (\<lambda>p. p\<lparr>po_enabled := False\<rparr>) (warn ''PS2 timed out during init (disable scan)'' s1))
     else bindE (loopE (port_write_ack H i DEV_IDENTIFY s1)) (\<lambda>s2.
     if po_timed_out (p_port s2 i) then Inr (upd_port i (\<lambda>p. p\<lparr>po_enabled := False\<rparr>) (warn ''PS2 timed out during init (identify)'' s2))
     else case port_identify H i s2 of (n, a, b, s3) \<Rightarrow>
       let ty = identify n a b; s4 = upd_port i (\<lambda>p. p\<lparr>po_type := ty\<rparr>) s3 in
       if ty = TYPE_UNKNOWN then Inr (upd_port i (\<lambda>p. p\<lparr>po_enabled := False\<rparr>) (warn ''PS2 device is of an unknown type'' s4))
       else port_setup H i (if ty AND TYPE_KEYBOARD \<noteq> 0 then upd_port i (\<lambda>p. p\<lparr>po_driver := Some junk\<rparr>) s4 else s4))))"

text \<open>\<open>Ps2KeyboardDriver::handle\<close> and the interrupt handler around it.\<close>

definition kb_handle :: "'d hw \<Rightarrow> nat \<Rightarrow> 'd ps2 \<Rightarrow> 'd ps2" where
  "kb_handle H i s = (case port_read H i 0xffff s of (input, s1) \<Rightarrow> case po_driver (p_port s1 i) of None \<Rightarrow> s1
     | Some kb \<Rightarrow> (case kb_byte input kb of (kb1, out) \<Rightarrow> (upd_port i (\<lambda>p. p\<lparr>po_driver := Some kb1\<rparr>) s1)\<lparr>p_out := p_out s1 @ out\<rparr>))"

definition port_handle :: "'d hw \<Rightarrow> nat \<Rightarrow> 'd ps2 \<Rightarrow> 'd ps2 result" where
  "port_handle H i s = bindE (Mutex_lock (p_mutex s)) (\<lambda>f. let s0 = s\<lparr>p_mutex := f\<rparr>;
       s1 = (if po_enabled (p_port s0 i) \<and> po_driver (p_port s0 i) \<noteq> None then kb_handle H i s0 else s0)
     in Inr (s1\<lparr>p_mutex := snd (Mutex_unlock (p_mutex s1)), p_eoi := Suc (p_eoi s1)\<rparr>))"

text \<open>Waiting for an interrupt handler to change the state, and \<open>send\<close>.\<close>

definition kb_of :: "nat \<Rightarrow> 'd ps2 \<Rightarrow> kb_driver" where
  "kb_of i s = the (po_driver (p_port s i))"

definition upd_kb :: "nat \<Rightarrow> (kb_driver \<Rightarrow> kb_driver) \<Rightarrow> 'd ps2 \<Rightarrow> 'd ps2" where
  "upd_kb i f s = upd_port i (\<lambda>p. p\<lparr>po_driver := map_option f (po_driver p)\<rparr>) s"

partial_function (option) spin_until :: "('d ps2 \<Rightarrow> bool) \<Rightarrow> 'd hw \<Rightarrow> 'd ps2 \<Rightarrow> 'd ps2 result option" where
  "spin_until P H s = (if P s then Some (Inr s) else case hw_tick H (p_dev s) of (irq, d) \<Rightarrow>
     (case irq of None \<Rightarrow> spin_until P H (s\<lparr>p_dev := d\<rparr>)
      | Some j \<Rightarrow> (case port_handle H j (s\<lparr>p_dev := d\<rparr>) of Inl e \<Rightarrow> Some (Inl e) | Inr s1 \<Rightarrow> spin_until P H s1)))"

definition answered :: "nat \<Rightarrow> 'd ps2 \<Rightarrow> bool" where
  "answered i s \<longleftrightarrow> kb_last_input (kb_of i s) \<noteq> - 1"

partial_function (option) kb_send_loop :: "'d hw \<Rightarrow> nat \<Rightarrow> u8 list \<Rightarrow> 'd ps2 \<Rightarrow> 'd ps2 result option" where
  "kb_send_loop H i bs s = (case spin_until (answered i) H (fold (port_write H i) bs s) of None \<Rightarrow> None
     | Some r \<Rightarrow> (case r of Inl e \<Rightarrow> Some (Inl e)
        | Inr s1 \<Rightarrow> if kb_last_input (kb_of i s1) = ucast RESEND then kb_send_loop H i bs s1 else Some (Inr s1)))"

definition kb_send :: "'d hw \<Rightarrow> nat \<Rightarrow> u8 list \<Rightarrow> 'd ps2 \<Rightarrow> (u8 \<times> 'd ps2) result" where
  "kb_send H i bs s = bindE (loopE (kb_send_loop H i bs (upd_kb i (\<lambda>kb. kb\<lparr>kb_last_input := - 1\<rparr>) (on_dev (io_wait H) s)))) (\<lambda>r.
     bindE r (\<lambda>s1. Inr (ucast (kb_last_input (kb_of i s1)), s1)))"

definition kb_configure :: "'d hw \<Rightarrow> nat \<Rightarrow> 'd ps2 \<Rightarrow> 'd ps2 result" where
  "kb_configure H i s = (let s0 = upd_kb i (\<lambda>kb. kb\<lparr>kb_key := 0, kb_double_code := False, kb_last_key := 0, kb_self_test_passed := False\<rparr>) s in
     bindE (kb_send H i [0xff] s0) (\<lambda>(_, s1).
     bindE (loopE (spin_until (\<lambda>s. kb_self_test_passed (kb_of i s)) H s1)) (\<lambda>r. bindE r (\<lambda>s2.
     bindE (kb_send H i [0xf0] s2) (\<lambda>(_, s3). bindE (kb_send H i [0x02] s3) (\<lambda>(_, s4). Inr s4))))))"

text \<open>\<open>ps2::init\<close>; \<open>ioapic::enable_func\<close> is logged.\<close>

definition INT_IRQ_KEYBOARD :: nat where "INT_IRQ_KEYBOARD = 1"
definition INT_IRQ_MOUSE :: nat where "INT_IRQ_MOUSE = 12"

definition test_port :: "'d hw \<Rightarrow> kb_driver \<Rightarrow> u8 \<Rightarrow> nat \<Rightarrow> string \<Rightarrow> 'd ps2 \<Rightarrow> 'd ps2 result" where
  "test_port H junk com i msg s = bindE (wait_read_data H (write_command H com s)) (\<lambda>(r, s1).
     if r = 0 then port_init H junk i (upd_port i (\<lambda>p. p\<lparr>po_enabled := True\<rparr>) s1) else Inr (warn msg s1))"

definition find_dual :: "'d hw \<Rightarrow> 'd ps2 \<Rightarrow> 'd ps2 result" where
  "find_dual H s = (if p_known_dual s then Inr s
     else bindE (wait_read_data H (write_command H COM_READ (write_command H COM_EN2 s))) (\<lambda>(config, s1).
       let s2 = (if config AND CON_CLOCK2 = 0 then s1\<lparr>p_dual := False\<rparr> else write_command H COM_DIS2 (s1\<lparr>p_dual := True\<rparr>))
       in Inr (s2\<lparr>p_known_dual := True\<rparr>)))"

definition configure_if :: "'d hw \<Rightarrow> bool \<Rightarrow> nat \<Rightarrow> 'd ps2 \<Rightarrow> 'd ps2 result" where
  "configure_if H b i s = (if b \<and> po_driver (p_port s i) \<noteq> None then kb_configure H i s else Inr s)"

definition ps2_init :: "'d hw \<Rightarrow> kb_driver \<Rightarrow> 'd ps2 \<Rightarrow> 'd ps2 result" where
  "ps2_init H junk s = (let s0 = upd_port 1 (\<lambda>p. p\<lparr>po_second := True\<rparr>) (upd_port 0 (\<lambda>p. p\<lparr>po_second := False\<rparr>) s);
       s1 = snd (read_data H (write_command H COM_DIS2 (write_command H COM_DIS1 s0))) in
     bindE (wait_read_data H (write_command H COM_READ s1)) (\<lambda>(config, s2).
     let s3 = (if config AND CON_CLOCK2 = 0 then s2\<lparr>p_dual := False, p_known_dual := True\<rparr> else s2) in
     bindE (write_double_command H COM_WRITE (config AND NOT (CON_EN1 OR CON_EN2 OR CON_TRANS)) s3) (\<lambda>s4.
     bindE (wait_read_data H (write_command H COM_TESTCON s4)) (\<lambda>(result, s5).
     if result \<noteq> 0x55 then Inl (Panic ''PS/2 failed self-test'')
     else bindE (find_dual H s5) (\<lambda>s6.
       bindE (test_port H junk COM_TEST1 0 ''PS/2 port 0 failed self-test'' s6) (\<lambda>s7.
       bindE (test_port H junk COM_TEST2 1 ''PS/2 port 1 failed self-test'' s7) (\<lambda>s8.
       let s9 = s8\<lparr>p_irqs := p_irqs s8 @ [(INT_IRQ_MOUSE, 1), (INT_IRQ_KEYBOARD, 0)]\<rparr> in
       bindE (configure_if H True 0 s9) (\<lambda>s10. configure_if H (p_known_dual s10) 1 s10))))))))"

section \<open>Scan codes\<close>

text \<open>
  The reference: events of the keyboard with their bytes in scan code set 2 and the value that the driver reports.
  The key with code 0x83 is reported as 0x02 and the pause key, whose code starts with 0xe1, as 0x0f.
\<close>

datatype key_event = Key bool bool u8 | Pause bool

fun event_ok :: "key_event \<Rightarrow> bool" where
  "event_ok (Key rel ext c) \<longleftrightarrow> 0 < c \<and> c < 0x80 \<or> c = 0x83"
| "event_ok (Pause rel) \<longleftrightarrow> True"

fun encode :: "key_event \<Rightarrow> u8 list" where
  "encode (Key rel ext c) = (if ext then [0xe0] else []) @ (if rel then [0xf0] else []) @ [c]"
| "encode (Pause rel) = 0xe1 # (if rel then [0xf0] else []) @ 0x14 # (if rel then [0xf0] else []) @ [0x77]"

fun key_value :: "key_event \<Rightarrow> u16" where
  "key_value (Key rel ext c) = (if rel then MASK_RELEASE else 0) OR (if ext then MASK_EXTENDED else 0) OR (if c = 0x83 then 0x02 else ucast c)"
| "key_value (Pause rel) = (if rel then MASK_RELEASE else 0) OR 0x0f"

fun kb_bytes :: "u8 list \<Rightarrow> kb_driver \<Rightarrow> kb_driver \<times> kb_out list" where
  "kb_bytes [] kb = (kb, [])"
| "kb_bytes (b # bs) kb = (case kb_byte b kb of (kb1, o1) \<Rightarrow> case kb_bytes bs kb1 of (kb2, o2) \<Rightarrow> (kb2, o1 @ o2))"

definition kb_idle :: "kb_driver \<Rightarrow> bool" where
  "kb_idle kb \<longleftrightarrow> kb_key kb = 0 \<and> \<not> kb_double_code kb \<and> kb_last_key kb = 0 \<and> kb_last_input kb \<noteq> - 1"

lemmas kb_codes = PASS_def ERR_1_def ERR_2_def ECHO_def ACK_def RESEND_def ST_FAIL_1_def ST_FAIL_2_def

lemma kb_bytes_append: "kb_bytes (xs @ ys) kb = (case kb_bytes xs kb of (kb1, o1) \<Rightarrow> case kb_bytes ys kb1 of (kb2, o2) \<Rightarrow> (kb2, o1 @ o2))"
  by (induction xs arbitrary: kb) (auto split: prod.splits)

lemma kb_byte_prefix:
  assumes "kb_last_input kb \<noteq> - 1"
  shows "kb_byte 0xe0 kb = (kb\<lparr>kb_key := kb_key kb OR MASK_EXTENDED\<rparr>, [])" "kb_byte 0xe1 kb = (kb\<lparr>kb_double_code := True\<rparr>, [])"
    "kb_byte 0xf0 kb = (kb\<lparr>kb_key := kb_key kb OR MASK_RELEASE\<rparr>, [])"
  using assms by (simp_all add: kb_byte_def kb_codes)

lemma kb_byte_code:
  assumes "kb_last_input kb \<noteq> - 1" and "0 < c \<and> c < 0x80"
  shows "kb_byte c kb = kb_literal c kb"
proof -
  have "c \<noteq> PASS" "c \<noteq> ERR_1" "c \<noteq> ERR_2" "c \<noteq> ECHO" "c \<noteq> ACK" "c \<noteq> RESEND" "c \<noteq> ST_FAIL_1" "c \<noteq> ST_FAIL_2" "c \<noteq> 0x83" "c \<noteq> 0xe0" "c \<noteq> 0xe1" "c \<noteq> 0xf0"
    using assms(2) by (auto simp: kb_codes)
  then show ?thesis using assms by (simp add: kb_byte_def)
qed

lemma kb_byte_F7: "kb_last_input kb \<noteq> - 1 \<Longrightarrow> kb_byte 0x83 kb = kb_literal 0x02 kb"
  by (simp add: kb_byte_def kb_codes)

lemma kb_event:
  assumes "kb_idle kb" and "event_ok ev"
  shows "kb_bytes (encode ev) kb = (kb, [KeyOut (key_value ev)])"
proof -
  note i = assms(1)[unfolded kb_idle_def]
  have kb: "kb\<lparr>kb_key := 0, kb_last_key := 0\<rparr> = kb" "kb\<lparr>kb_key := 0, kb_double_code := False, kb_last_key := 0\<rparr> = kb" using i by simp_all
  show ?thesis
  proof (cases ev)
    case (Key rel ext c)
    show ?thesis
    proof (cases "c = 0x83")
      case True
      then show ?thesis using Key i kb by (auto simp: kb_byte_prefix kb_byte_F7 kb_literal_def or.assoc or.commute or.left_commute)
    next
      case False
      then have "0 < c \<and> c < 0x80" using Key assms(2) by simp
      then show ?thesis using Key i kb False by (auto simp: kb_byte_prefix kb_byte_code kb_literal_def or.assoc or.commute or.left_commute)
    qed
  next
    case (Pause rel)
    then show ?thesis using i kb by (auto simp: kb_byte_prefix kb_byte_code kb_literal_def or.assoc)
  qed
qed

lemma kb_events: "kb_idle kb \<Longrightarrow> \<forall>ev \<in> set evs. event_ok ev \<Longrightarrow> kb_bytes (concat (map encode evs)) kb = (kb, map (KeyOut \<circ> key_value) evs)"
  by (induction evs) (simp_all add: kb_bytes_append kb_event)

text \<open>The value tells release, prefix and code apart.\<close>

lemma high_bit: "(c :: u8) < 0x80 \<Longrightarrow> \<not> bit c 7"
  by (simp add: bit_iff_odd div_word_less)

lemma key_value_parts:
  assumes "0 < c \<and> c < 0x80"
  shows "bit (key_value (Key rel ext c)) 15 = rel" and "bit (key_value (Key rel ext c)) 7 = ext" and "ucast (key_value (Key rel ext c)) AND 0x7f = c"
proof -
  have h: "\<not> bit c 7" and n: "c \<noteq> 0x83" using assms high_bit by auto
  show "bit (key_value (Key rel ext c)) 15 = rel" and "bit (key_value (Key rel ext c)) 7 = ext"
    using h n bit_imp_le_length [of c 15] by (auto simp: MASK_RELEASE_def MASK_EXTENDED_def bit_simps)
  have b: "\<not> bit MASK_RELEASE j \<and> \<not> bit MASK_EXTENDED j" if "j < 7" for j
  proof -
    consider "j = 0" | "j = 1" | "j = 2" | "j = 3" | "j = 4" | "j = 5" | "j = 6" using \<open>j < 7\<close> by linarith
    then show ?thesis by cases (simp_all add: MASK_RELEASE_def MASK_EXTENDED_def)
  qed
  have m: "(0x7f :: u8) = mask 7" by (simp add: mask_eq_exp_minus_1)
  show "ucast (key_value (Key rel ext c)) AND 0x7f = c" unfolding m
  proof (rule bit_word_eqI)
    fix j assume j: "j < LENGTH(8)"
    show "bit (ucast (key_value (Key rel ext c)) AND mask 7 :: u8) j = bit c j"
    proof (cases "j < 7")
      case True
      then show ?thesis using n j b [of j] by (auto simp: bit_simps)
    next
      case False
      then have "j = 7" using j by simp
      then show ?thesis using h by (simp add: bit_simps)
    qed
  qed
qed

section \<open>Resending\<close>

text \<open>\<open>send\<close> does not reset \<open>last_input\<close> before it sends again.\<close>

lemma port_write_kb [simp]: "p_port (port_write H i b s) = p_port s"
  by (simp add: port_write_def write_data_def write_command_def on_dev_def)

lemma fold_port_write [simp]: "p_port (fold (port_write H i) bs s) = p_port s"
  by (induction bs arbitrary: s) simp_all

lemma kb_of_write [simp]: "kb_of i (fold (port_write H i) bs s) = kb_of i s"
  by (simp add: kb_of_def)

lemma kb_send_loop_stuck:
  assumes "kb_last_input (kb_of i s) = ucast RESEND"
  shows "kb_send_loop H i bs s = None"
proof (rule ccontr)
  assume "kb_send_loop H i bs s \<noteq> None"
  then obtain r where ret: "kb_send_loop H i bs s = Some r" by auto
  have "kb_last_input (kb_of i s) = ucast RESEND \<longrightarrow> False"
  proof (rule kb_send_loop.raw_induct [where P = "\<lambda>H i bs s r. kb_last_input (kb_of i s) = ucast RESEND \<longrightarrow> False", OF _ ret])
    fix lp :: "'a hw \<Rightarrow> nat \<Rightarrow> u8 list \<Rightarrow> 'a ps2 \<Rightarrow> 'a ps2 result option" and H i bs s r
    assume IH: "\<And>H i bs s r. lp H i bs s = Some r \<Longrightarrow> kb_last_input (kb_of i s) = ucast RESEND \<longrightarrow> False"
      and eq: "(case spin_until (answered i) H (fold (port_write H i) bs s) of None \<Rightarrow> None
       | Some r \<Rightarrow> (case r of Inl e \<Rightarrow> Some (Inl e)
        | Inr s1 \<Rightarrow> if kb_last_input (kb_of i s1) = ucast RESEND then lp H i bs s1 else Some (Inr s1))) = Some r"
    show "kb_last_input (kb_of i s) = ucast RESEND \<longrightarrow> False"
    proof
      assume l: "kb_last_input (kb_of i s) = ucast RESEND"
      then have "answered i (fold (port_write H i) bs s)" by (simp add: answered_def RESEND_def)
      then have "spin_until (answered i) H (fold (port_write H i) bs s) = Some (Inr (fold (port_write H i) bs s))" by (subst spin_until.simps) simp
      with eq l have "lp H i bs (fold (port_write H i) bs s) = Some r" by simp
      from IH [OF this] l show False by simp
    qed
  qed
  with assms show False by simp
qed

section \<open>Properties\<close>

text \<open>C31: Decoding inverts encoding: the bytes of any sequence of key events (presses and releases, with or without the
  extension prefix, the pause key included) make an idle driver report exactly the values of these events in order and
  leave it as it was, and the value of an ordinary key gives its release bit, its extension bit and its code back.\<close>

theorem kb_decodes_scancodes:
  assumes "kb_idle kb" and "\<forall>ev \<in> set evs. event_ok ev"
  shows "kb_bytes (concat (map encode evs)) kb = (kb, map (KeyOut \<circ> key_value) evs) \<and>
    (\<forall>rel ext c. Key rel ext c \<in> set evs \<and> c \<noteq> 0x83 \<longrightarrow> bit (key_value (Key rel ext c)) 15 = rel \<and>
       bit (key_value (Key rel ext c)) 7 = ext \<and> ucast (key_value (Key rel ext c)) AND 0x7f = c)"
proof -
  have "0 < c \<and> c < 0x80" if "Key rel ext c \<in> set evs \<and> c \<noteq> 0x83" for rel ext c using assms(2) that by fastforce
  then show ?thesis using kb_events [OF assms] key_value_parts by blast
qed

definition kb_example :: kb_driver where
  "kb_example = \<lparr>kb_key = 0, kb_double_code = False, kb_last_key = 0, kb_modifiers = 0, kb_last_input = 0xfa, kb_self_test_passed = True\<rparr>"

theorem kb_decodes_scancodes_witness:
  "kb_bytes [0x1c, 0xe0, 0xf0, 0x75, 0xe1, 0x14, 0x77] kb_example = (kb_example, [KeyOut 0x1c, KeyOut 0x80f5, KeyOut 0x0f])"
  using kb_decodes_scancodes [of kb_example "[Key False False 0x1c, Key True True 0x75, Pause False]"]
  by (simp add: kb_idle_def kb_example_def MASK_RELEASE_def MASK_EXTENDED_def)

text \<open>A request to resend hangs the driver: \<open>send\<close> keeps the answer \<open>RESEND\<close> in \<open>last_input\<close> when it sends again, no
  interrupt replaces it, and the loop never ends.\<close>

theorem kb_send_resend_hangs:
  assumes "spin_until (answered i) H (fold (port_write H i) bs (upd_kb i (\<lambda>kb. kb\<lparr>kb_last_input := - 1\<rparr>) (on_dev (io_wait H) s))) = Some (Inr s1)"
    and "kb_last_input (kb_of i s1) = ucast RESEND"
  shows "kb_send H i bs s = Inl Hang"
proof -
  have "kb_send_loop H i bs (upd_kb i (\<lambda>kb. kb\<lparr>kb_last_input := - 1\<rparr>) (on_dev (io_wait H) s)) = kb_send_loop H i bs s1"
    using assms by (subst kb_send_loop.simps) simp
  then show ?thesis using kb_send_loop_stuck [OF assms(2)] by (simp add: kb_send_def loopE_def)
qed

text \<open>A keyboard that always asks to resend.\<close>

definition hw_example :: "unit hw" where
  "hw_example = \<lparr>hw_inb = (\<lambda>p d. (if p = IO_PORT_PS2_DATA then RESEND else 0, d)), hw_outb = (\<lambda>p b d. d), hw_tick = (\<lambda>d. (Some 0, d))\<rparr>"

definition ps2_example :: "unit ps2" where
  "ps2_example = \<lparr>p_dev = (), p_dual = False, p_known_dual = True, p_port = (\<lambda>_. \<lparr>po_enabled = True, po_second = False, po_timed_out = False,
     po_type = TYPE_MF2_KEYBOARD, po_driver = Some kb_example\<rparr>), p_mutex = False, p_out = [], p_warn = [], p_eoi = 0, p_irqs = []\<rparr>"

theorem kb_send_resend_hangs_witness: "kb_send hw_example 0 [0xff] ps2_example = Inl Hang"
proof -
  let ?s = "fold (port_write hw_example 0) [0xff] (upd_kb 0 (\<lambda>kb. kb\<lparr>kb_last_input := - 1\<rparr>) (on_dev (io_wait hw_example) ps2_example))"
  have od: "on_dev g s = s" for g and s :: "unit ps2" by (simp add: on_dev_def)
  have tk: "hw_tick hw_example d = (Some 0, d)" for d by (simp add: hw_example_def)
  have dv: "s\<lparr>p_dev := d\<rparr> = s" for d and s :: "unit ps2" by simp
  have pw: "port_wait hw_example (Suc n) s = (False, s)" for n s
    by (simp add: read_status_def hw_example_def IO_PORT_PS2_STATUS_def IO_PORT_PS2_DATA_def)
  have rd: "port_read hw_example 0 0xffff s = (RESEND, upd_port 0 (\<lambda>p. p\<lparr>po_timed_out := False\<rparr>) s)" for s
    using pw [where n = "0xfffe" and s = "upd_port 0 (\<lambda>p. p\<lparr>po_timed_out := False\<rparr>) s"] by (simp add: port_read_def read_data_def hw_example_def)
  have h: "\<exists>s1. port_handle hw_example 0 ?s = Inr s1 \<and> kb_last_input (kb_of 0 s1) = ucast RESEND"
    by (simp add: port_handle_def od upd_kb_def upd_port_def ps2_example_def port_write_def write_data_def write_command_def)
      (simp add: kb_handle_def rd upd_port_def kb_example_def kb_byte_def kb_of_def RESEND_def PASS_def)
  then obtain s1 where s1: "port_handle hw_example 0 ?s = Inr s1" "kb_last_input (kb_of 0 s1) = ucast RESEND" by blast
  have na: "\<not> answered 0 ?s" by (simp add: answered_def kb_of_def upd_kb_def upd_port_def on_dev_def ps2_example_def)
  have a: "answered 0 s1" using s1(2) by (simp add: answered_def RESEND_def)
  have "spin_until (answered 0) hw_example s1 = Some (Inr s1)" using a by (subst spin_until.simps) simp
  then have "spin_until (answered 0) hw_example ?s = Some (Inr s1)" using na s1(1) by (subst spin_until.simps) (simp add: tk dv)
  from kb_send_resend_hangs [OF this s1(2)] show ?thesis .
qed

end
