(* ===== verification/Console.thy ===== *)
theory Console
  imports Utf8 Ps2 Devices
begin

text \<open>
  \<open>src/structures/stream.cpp\<close>, \<open>src/hw/serial.cpp\<close>, \<open>src/main/vga.cpp\<close> and
  \<open>src/main/printk.cpp\<close>: formatted output to streams. The virtual \<open>write\<close> of a stream is an argument of \<open>writef\<close>, which
  does not look at what it returns; the locale \<open>text_sink\<close> says what a stream has to promise for the formatted text to
  arrive. The UART behind a serial port is the hardware argument of the I/O ports.
\<close>

section \<open>\<open>Stream::writef\<close>\<close>

text \<open>The operations of a stream that does not override them.\<close>

definition Stream_write :: "u8 list \<Rightarrow> error_t" where "Stream_write buff = EPERM"
definition Stream_read :: "nat \<Rightarrow> error_t" where "Stream_read len = EPERM"
definition Stream_peek :: "nat \<Rightarrow> error_t" where "Stream_peek len = EPERM"
definition Stream_skip :: "nat \<Rightarrow> error_t" where "Stream_skip len = EPERM"

record 's wstate =
  w_sink :: 's
  w_written :: u32
  w_ap :: "u32 list"
  w_ints :: "u32 \<Rightarrow> u32 option"

definition w_put :: "(u8 list \<Rightarrow> 's \<Rightarrow> 's result) \<Rightarrow> u8 list \<Rightarrow> 's wstate \<Rightarrow> 's wstate result" where
  "w_put wr bs st = bindE (wr bs (w_sink st)) (\<lambda>s. Inr (st\<lparr>w_sink := s, w_written := w_written st + of_nat (length bs)\<rparr>))"

definition stream_num_to_str :: "u8 \<Rightarrow> bool \<Rightarrow> u8" where
  "stream_num_to_str val uppercase = (if val < 10 then val + 0x30
     else if uppercase then val + 0x41 - 0xa else val + 0x61 - 0xa)"

text \<open>The values are \<open>unsigned long long\<close>; a negative \<open>int\<close> is negated as an \<open>int\<close> and then widened.\<close>

definition stream_val :: "nat \<Rightarrow> u32 list \<Rightarrow> (u64 \<times> u32 list) result" where
  "stream_val len ap = (if len < 2 then bindE (va_word ap) (\<lambda>(w, ap1). Inr (ucast w, ap1)) else va_llong ap)"

definition stream_base :: "u8 \<Rightarrow> u64" where
  "stream_base cur = (if cur = ch CHR ''x'' \<or> cur = ch CHR ''X'' \<or> cur = ch CHR ''p'' then 16
     else if cur = ch CHR ''o'' then 8 else 10)"

fun stream_output :: "nat \<Rightarrow> u64 \<Rightarrow> bool \<Rightarrow> u64 \<Rightarrow> u8 list \<Rightarrow> u8 list" where
  "stream_output 0 base up val output = output"
| "stream_output (Suc i) base up val output =
     stream_output i base up (val div base) (stream_num_to_str (ucast (val mod base)) up # output)"

definition stream_negative :: "u8 \<Rightarrow> u64 \<Rightarrow> bool" where
  "stream_negative cur val \<longleftrightarrow> (cur = ch CHR ''d'' \<or> cur = ch CHR ''i'') \<and> sint (ucast val :: u32) < 0"

definition stream_digits :: "u8 \<Rightarrow> u64 \<Rightarrow> u8 list" where
  "stream_digits cur val = skip_start (stream_output 20 (stream_base cur) (cur = ch CHR ''X'') val [])"

definition stream_number :: "(u8 list \<Rightarrow> 's \<Rightarrow> 's result) \<Rightarrow> u8 \<Rightarrow> u64 \<Rightarrow> 's wstate \<Rightarrow> 's wstate result" where
  "stream_number wr cur val st =
     (if stream_negative cur val
      then bindE (w_put wr [ch CHR ''-''] st) (w_put wr (stream_digits cur (scast (- (ucast val :: u32)))))
      else w_put wr (stream_digits cur val) st)"

definition writef_spec :: "(u8 list \<Rightarrow> 's \<Rightarrow> 's result) \<Rightarrow> chars \<Rightarrow> u8 \<Rightarrow> nat \<Rightarrow> 's wstate \<Rightarrow> 's wstate result" where
  "writef_spec wr h cur len st =
     (if cur = ch CHR ''%'' then w_put wr [ch CHR ''%''] st
      else if cur = ch CHR ''n'' then bindE (va_word (w_ap st)) (\<lambda>(slot, ap).
        if w_ints st slot = None then Inl Fault
        else Inr (st\<lparr>w_ap := ap, w_ints := (w_ints st)(slot \<mapsto> w_written st)\<rparr>))
      else if cur \<in> set (map ch ''pxXoudi'') then
        bindE (if cur = ch CHR ''p'' then w_put wr (map ch ''0x'') st else Inr st) (\<lambda>st0.
        bindE (stream_val len (w_ap st0)) (\<lambda>(val, ap). stream_number wr cur val (st0\<lparr>w_ap := ap\<rparr>)))
      else if cur = ch CHR ''s'' then bindE (va_word (w_ap st)) (\<lambda>(str, ap).
        bindE (strlen h str) (\<lambda>n. bindE (read_chars h str 0 (unat n)) (\<lambda>xs. w_put wr xs (st\<lparr>w_ap := ap\<rparr>))))
      else Inr st)"

definition writef_lit :: "(u8 list \<Rightarrow> 's \<Rightarrow> 's result) \<Rightarrow> u8 \<Rightarrow> 's wstate \<Rightarrow> 's wstate result" where
  "writef_lit wr cur st = w_put wr [cur] st"

definition writef :: "(u8 list \<Rightarrow> 's \<Rightarrow> 's result) \<Rightarrow> chars \<Rightarrow> u32 \<Rightarrow> u32 list \<Rightarrow> (u32 \<Rightarrow> u32 option) \<Rightarrow> 's \<Rightarrow> ('s \<times> (u32 \<Rightarrow> u32 option)) result" where
  "writef wr h fmt ap ints s = bindE (loopE (fmt_loop (\<lambda>p. buf_read h fmt (unat p)) (writef_lit wr) (writef_spec wr h) 0
       \<lparr>w_sink = s, w_written = 0, w_ap = ap, w_ints = ints\<rparr>)) (\<lambda>r. bindE r (\<lambda>st. Inr (w_sink st, w_ints st)))"

section \<open>Serial ports\<close>

definition IO_PORT_COM_LINE_STATUS :: u16 where "IO_PORT_COM_LINE_STATUS = 0x5"

partial_function (option) wait_transmit :: "'d hw \<Rightarrow> u16 \<Rightarrow> 'd \<Rightarrow> 'd option" where
  "wait_transmit H port d = (case hw_inb H (port + IO_PORT_COM_LINE_STATUS) d of (st, d1) \<Rightarrow>
     if st AND 0x20 = 0 then wait_transmit H port d1 else Some d1)"

fun SerialPort_write :: "'d hw \<Rightarrow> u16 \<Rightarrow> u8 list \<Rightarrow> 'd \<Rightarrow> 'd result" where
  "SerialPort_write H port [] d = Inr d"
| "SerialPort_write H port (b # bs) d = bindE (loopE (wait_transmit H port d)) (\<lambda>d1. SerialPort_write H port bs (hw_outb H port b d1))"

text \<open>\<open>ports\<close> are the \<open>io_port\<close> fields of the array, 0 for an absent port.\<close>

fun AllSerialPorts_write :: "'d hw \<Rightarrow> u16 list \<Rightarrow> u8 list \<Rightarrow> 'd \<Rightarrow> 'd result" where
  "AllSerialPorts_write H [] bs d = Inr d"
| "AllSerialPorts_write H (p # ps) bs d = bindE (if p \<noteq> 0 then SerialPort_write H p bs d else Inr d) (AllSerialPorts_write H ps bs)"

definition serial_check :: "u16 list" where "serial_check = [0x3f8, 0x2f8, 0x3e8, 0x2e8]"

definition serial_setup :: "'d hw \<Rightarrow> u16 \<Rightarrow> 'd \<Rightarrow> 'd" where
  "serial_setup H base d = fold (\<lambda>(r, v). hw_outb H (base + r) v)
     [(1, 0x00), (3, 0x80), (0, 0x03), (1, 0x00), (3, 0x03), (2, 0xC7), (4, 0x0B)] d"

fun serial_init :: "'d hw \<Rightarrow> u16 list \<Rightarrow> u16 list \<Rightarrow> 'd \<Rightarrow> u16 list \<times> 'd" where
  "serial_init H (base # check) (p # ports) d =
     (case hw_inb H (base + 7) (io_wait H (hw_outb H (base + 7) 0x53 d)) of (x, d1) \<Rightarrow>
        case (if x = 0x53 then (base, serial_setup H base d1) else (p, d1)) of (p1, d2) \<Rightarrow>
        case serial_init H check ports d2 of (ps, d3) \<Rightarrow> (p1 # ps, d3))"
| "serial_init H _ ports d = (ports, d)"

section \<open>The text screen\<close>

definition WIDTH :: nat where "WIDTH = 80"
definition HEIGHT :: nat where "HEIGHT = 25"

definition COLOUR_WHITE :: u8 where "COLOUR_WHITE = 15"

definition entry_colour :: "u8 \<Rightarrow> u8 \<Rightarrow> u8" where
  "entry_colour fg bg = fg OR push_bit 4 bg"

definition add_colour :: "u8 \<Rightarrow> u8 \<Rightarrow> u16" where
  "add_colour uc color = ucast uc OR push_bit 8 (ucast color)"

text \<open>\<open>terminal_buffer\<close> is \<open>None\<close> before \<open>init\<close>.\<close>

record vga =
  vg_row :: nat
  vg_column :: nat
  vg_buffer :: "u16 list option"

definition PAGE_TABLE_CACHEDISABLE :: u32 where "PAGE_TABLE_CACHEDISABLE = 0x10"

definition vga_store :: "nat \<Rightarrow> u16 \<Rightarrow> u16 list \<Rightarrow> u16 list result" where
  "vga_store i c b = (if i < length b then Inr (b[i := c]) else Inl Fault)"

text \<open>\<open>init\<close> maps 128 KiB at 0xB8000 and blanks the screen; \<open>raw\<close> is what the memory held.\<close>

definition vga_init :: "nat \<Rightarrow> u16 list \<Rightarrow> mem \<Rightarrow> (vga \<times> mem) result" where
  "vga_init k raw m = bindE (page_create k 0xB8000 FLAG_KERNEL (0x20000 div PAGE_SIZE) m) (\<lambda>(pg, m1).
     bindE (kinstall k pg (PAGE_TABLE_CACHEDISABLE OR PAGE_TABLE_RW) m1) (\<lambda>(base, m2).
     Inr (\<lparr>vg_row = 0, vg_column = 0, vg_buffer = Some (fold (\<lambda>i b. b[i := 0x20]) [0..<HEIGHT * WIDTH] raw)\<rparr>, m2)))"

definition put_at :: "u16 \<Rightarrow> nat \<Rightarrow> nat \<Rightarrow> u16 list \<Rightarrow> u16 list result" where
  "put_at c x y b = vga_store (y * WIDTH + x) c b"

text \<open>The two loops of \<open>_maybe_wrap\<close>: one row up, the last row blank.\<close>

definition scroll :: "u16 \<Rightarrow> u16 list \<Rightarrow> u16 list result" where
  "scroll colour b = (if HEIGHT * WIDTH \<le> length b
     then Inr (fold (\<lambda>i b. b[i := colour]) [(HEIGHT - 1) * WIDTH..<HEIGHT * WIDTH]
       (fold (\<lambda>i b. b[i - WIDTH := b ! i]) [WIDTH..<HEIGHT * WIDTH] b)) else Inl Fault)"

definition maybe_wrap :: "u16 \<Rightarrow> vga \<Rightarrow> vga result" where
  "maybe_wrap colour v = (case vg_buffer v of None \<Rightarrow> Inl Fault | Some b \<Rightarrow>
     if HEIGHT \<le> vg_row v then bindE (scroll (colour AND 0xff00) b) (\<lambda>b1. Inr (v\<lparr>vg_buffer := Some b1, vg_row := HEIGHT - 1\<rparr>)) else Inr v)"

definition vga_append :: "u16 \<Rightarrow> vga \<Rightarrow> vga result" where
  "vga_append c v = (case vg_buffer v of None \<Rightarrow> Inr v | Some b \<Rightarrow>
     bindE (if c AND 0xff = 0x0a then Inr (v\<lparr>vg_row := Suc (vg_row v), vg_column := 0\<rparr>)
       else bindE (put_at c (vg_column v) (vg_row v) b) (\<lambda>b1. let v1 = v\<lparr>vg_buffer := Some b1, vg_column := Suc (vg_column v)\<rparr> in
         Inr (if WIDTH \<le> vg_column v1 then v1\<lparr>vg_column := 0, vg_row := Suc (vg_row v1)\<rparr> else v1)))
       (maybe_wrap c))"

fun EntryStream_write :: "u16 list \<Rightarrow> vga \<Rightarrow> vga result" where
  "EntryStream_write [] v = Inr v"
| "EntryStream_write (c # cs) v = bindE (vga_append c v) (EntryStream_write cs)"

fun StringStream_write :: "u8 \<Rightarrow> u8 list \<Rightarrow> vga \<Rightarrow> vga result" where
  "StringStream_write colour [] v = Inr v"
| "StringStream_write colour (b # bs) v = bindE (vga_append (add_colour b colour) v) (StringStream_write colour bs)"

section \<open>\<open>printk\<close>\<close>

record 'd console =
  co_vga :: vga
  co_dev :: 'd
  co_mutex :: bool

definition clr_printk :: u8 where "clr_printk = 15"
definition clr_warn :: u8 where "clr_warn = 5"
definition clr_err :: u8 where "clr_err = 4"

text \<open>\<open>vprintk\<close>, \<open>vkwarn\<close> and \<open>vkerror\<close> differ in the colour. On i386 a \<open>va_list\<close> is a pointer passed by value, so that both
  calls of \<open>writef\<close> see all arguments.\<close>

definition vprint :: "'d hw \<Rightarrow> u16 list \<Rightarrow> u8 \<Rightarrow> chars \<Rightarrow> u32 \<Rightarrow> u32 list \<Rightarrow> (u32 \<Rightarrow> u32 option) \<Rightarrow> 'd console \<Rightarrow> ('d console \<times> (u32 \<Rightarrow> u32 option)) result" where
  "vprint H ports colour h fmt ap ints s = bindE (Mutex_lock (co_mutex s)) (\<lambda>f.
     bindE (writef (StringStream_write colour) h fmt ap ints (co_vga s)) (\<lambda>(v, ints1).
     bindE (writef (AllSerialPorts_write H ports) h fmt ap ints1 (co_dev s)) (\<lambda>(d, ints2).
     Inr (s\<lparr>co_vga := v, co_dev := d, co_mutex := snd (Mutex_unlock f)\<rparr>, ints2))))"

definition vprintk :: "'d hw \<Rightarrow> u16 list \<Rightarrow> chars \<Rightarrow> u32 \<Rightarrow> u32 list \<Rightarrow> (u32 \<Rightarrow> u32 option) \<Rightarrow> 'd console \<Rightarrow> ('d console \<times> (u32 \<Rightarrow> u32 option)) result" where
  "vprintk H ports = vprint H ports clr_printk"

definition vkwarn :: "'d hw \<Rightarrow> u16 list \<Rightarrow> chars \<Rightarrow> u32 \<Rightarrow> u32 list \<Rightarrow> (u32 \<Rightarrow> u32 option) \<Rightarrow> 'd console \<Rightarrow> ('d console \<times> (u32 \<Rightarrow> u32 option)) result" where
  "vkwarn H ports = vprint H ports clr_warn"

definition vkerror :: "'d hw \<Rightarrow> u16 list \<Rightarrow> chars \<Rightarrow> u32 \<Rightarrow> u32 list \<Rightarrow> (u32 \<Rightarrow> u32 option) \<Rightarrow> 'd console \<Rightarrow> ('d console \<times> (u32 \<Rightarrow> u32 option)) result" where
  "vkerror H ports = vprint H ports clr_err"

section \<open>Numbers\<close>

lemma stream_num_to_str_eq: "stream_num_to_str = num_to_str"
  by (simp add: fun_eq_iff stream_num_to_str_def num_to_str_def)

lemma stream_output_digits:
  assumes "0 < b" and "b \<le> 16"
  shows "stream_output k (of_nat b) up val acc = map (digit_text up) (fix_digits k b (unat val)) @ acc"
proof (induction k arbitrary: val acc)
  case (Suc k)
  have b: "unat (of_nat b :: u64) = b" using assms by (intro unat_of_nat_lt) simp
  have "unat (val div of_nat b) = unat val div b" "unat (val mod of_nat b) = unat val mod b" by (simp_all add: b unat_div_distrib unat_mod_distrib)
  moreover have l: "unat val mod b < 16" using mod_less_divisor [of b "unat val"] assms by linarith
  moreover have "ucast (val mod of_nat b) = (of_nat (unat val mod b) :: u8)"
    using calculation(2) by (metis of_nat_unat)
  ultimately show ?case using Suc digit_char [OF l, of up] by (simp add: stream_num_to_str_eq)
qed simp

lemma stream_digits_text:
  assumes "stream_base cur = of_nat b" and "2 \<le> b" and "b \<le> 16" and "unat val < b ^ 20"
  shows "stream_digits cur val = num_text (cur = ch CHR ''X'') b (unat val)"
proof -
  have "strip_zeros (fix_digits (Suc 19) b (unat val)) = nat_digits b (unat val)" by (rule strip_fix_digits) (use assms in simp_all)
  moreover have "Suc 19 = 20" by simp
  ultimately have "strip_zeros (fix_digits 20 b (unat val)) = nat_digits b (unat val)" by simp
  moreover have "\<forall>d \<in> set (fix_digits 20 b (unat val)). d < 16" using fix_digits_bound [of b _ 20 "unat val"] assms by auto
  ultimately show ?thesis
    using stream_output_digits [of b 20 "cur = ch CHR ''X''" val "[]"] assms by (simp add: stream_digits_def skip_start_digits num_text_def)
qed

section \<open>Formatted output arrives\<close>

text \<open>A part of \<open>writef\<close> went well: after it the stream has received \<open>xs\<close> in addition to \<open>pre\<close>, and the arguments \<open>ap\<close> are left.\<close>

definition wrote :: "(u8 list \<Rightarrow> 's \<Rightarrow> bool) \<Rightarrow> u8 list \<Rightarrow> 's wstate \<Rightarrow> u32 list \<Rightarrow> u8 list \<Rightarrow> 's wstate result \<Rightarrow> bool" where
  "wrote after pre st ap xs r \<longleftrightarrow> (\<exists>st'. r = Inr st' \<and> after (pre @ xs) (w_sink st') \<and> w_ap st' = ap \<and> w_ints st' = w_ints st)"

text \<open>What \<open>writef\<close> relies on: in a state after the bytes \<open>xs\<close>, writing \<open>bs\<close> returns in a state after \<open>xs @ bs\<close>.\<close>

locale text_sink =
  fixes wr :: "u8 list \<Rightarrow> 's \<Rightarrow> 's result" and after :: "u8 list \<Rightarrow> 's \<Rightarrow> bool"
  assumes wr_after: "after xs s \<Longrightarrow> \<exists>s'. wr bs s = Inr s' \<and> after (xs @ bs) s'"
begin

lemma w_put_ok: "after pre (w_sink st) \<Longrightarrow> wrote after pre st (w_ap st) bs (w_put wr bs st)"
  using wr_after [of pre "w_sink st" bs] by (auto simp: wrote_def w_put_def)

lemma stream_number_plain:
  assumes "after pre (w_sink st)" and "\<not> stream_negative cur val" and "stream_digits cur val = xs"
  shows "wrote after pre st (w_ap st) xs (stream_number wr cur val st)"
  using w_put_ok [OF assms(1), of xs] assms(2,3) by (simp add: stream_number_def)

lemma wrote_bind:
  assumes "wrote after pre st ap xs r" and "\<And>st1. after (pre @ xs) (w_sink st1) \<Longrightarrow> w_ap st1 = ap \<Longrightarrow> wrote after (pre @ xs) st1 ap' ys (f st1)"
  shows "wrote after pre st ap' (xs @ ys) (bindE r f)"
proof -
  from assms(1) obtain st1 where st1: "r = Inr st1" "after (pre @ xs) (w_sink st1)" "w_ap st1 = ap" "w_ints st1 = w_ints st"
    by (auto simp: wrote_def)
  from assms(2) [OF st1(2,3)] st1 show ?thesis by (auto simp: wrote_def)
qed

lemma stream_number_minus:
  assumes "after pre (w_sink st)" and "stream_negative cur val" and "stream_digits cur (scast (- (ucast val :: u32))) = xs"
  shows "wrote after pre st (w_ap st) (ch CHR ''-'' # xs) (stream_number wr cur val st)"
proof -
  have "wrote after pre st (w_ap st) ([ch CHR ''-''] @ xs) (bindE (w_put wr [ch CHR ''-''] st) (w_put wr xs))"
    by (rule wrote_bind [OF w_put_ok [OF assms(1)]]) (metis w_put_ok)
  then show ?thesis using assms(2,3) by (simp add: stream_number_def)
qed

end

text \<open>The values of the items.\<close>

lemma narrow_widen: "ucast (ucast (w :: u32) :: u64) = w"
  by (rule bit_word_eqI) (simp add: bit_simps)

lemma unsigned_word_digits:
  assumes "cur \<in> set (map ch ''pxXou'')" and "stream_base cur = of_nat b" and "b \<in> {8, 10, 16}"
  shows "\<not> stream_negative cur (ucast (w :: u32))" and "stream_digits cur (ucast w) = num_text (cur = ch CHR ''X'') b (unat w)"
proof -
  show "\<not> stream_negative cur (ucast w)" using assms(1) by (auto simp: stream_negative_def)
  have u: "unat (ucast w :: u64) = unat w" by (rule unat_ucast_64)
  have "unat w < 2 ^ 32" using unat_lt_32 [of w] by simp
  also have "(2 ^ 32 :: nat) \<le> b ^ 20" using assms(3) by auto
  finally show "stream_digits cur (ucast w) = num_text (cur = ch CHR ''X'') b (unat w)"
    using stream_digits_text [OF assms(2), of "ucast w"] assms(3) u by auto
qed

lemma decimal_digits:
  assumes "- (2 ^ 31) < i" and "i < 2 ^ 31"
  shows "stream_negative (ch CHR ''d'') (ucast (of_int i :: u32)) \<longleftrightarrow> i < 0"
    and "0 \<le> i \<Longrightarrow> stream_digits (ch CHR ''d'') (ucast (of_int i :: u32)) = num_text False 10 (nat i)"
    and "i < 0 \<Longrightarrow> stream_digits (ch CHR ''d'') (scast (- (ucast (ucast (of_int i :: u32) :: u64) :: u32))) = num_text False 10 (nat (- i))"
proof -
  have b: "stream_base (ch CHR ''d'') = of_nat 10" by (simp add: stream_base_def)
  have s: "sint (of_int i :: u32) = i" by (rule sint_of_int_32) (use assms in simp_all)
  have uu: "ucast (ucast (of_int i :: u32) :: u64) = (of_int i :: u32)" by (rule narrow_widen)
  show "stream_negative (ch CHR ''d'') (ucast (of_int i :: u32)) \<longleftrightarrow> i < 0" unfolding stream_negative_def uu s by simp
  show "stream_digits (ch CHR ''d'') (ucast (of_int i :: u32)) = num_text False 10 (nat i)" if "0 \<le> i"
  proof -
    have "(of_int i :: u32) = of_nat (nat i)" using that by simp
    then have "unat (of_int i :: u32) = nat i" using assms that by (simp only:) (rule unat_of_nat_lt, simp)
    then have "unat (ucast (of_int i :: u32) :: u64) = nat i" by (simp add: unat_ucast_64)
    then show ?thesis using stream_digits_text [OF b, of "ucast (of_int i :: u32)"] assms that by simp
  qed
  show "stream_digits (ch CHR ''d'') (scast (- (ucast (ucast (of_int i :: u32) :: u64) :: u32))) = num_text False 10 (nat (- i))" if "i < 0"
  proof -
    have "scast (of_int (- i) :: u32) = (of_int (- i) :: u64)"
      using sint_of_int_32 [of "- i"] assms that by (metis less_imp_le minus_less_iff of_int_sint neg_le_iff_le scast_eq minus_minus)
    also have "\<dots> = of_nat (nat (- i))" using that by simp
    finally have e: "scast (- (ucast (ucast (of_int i :: u32) :: u64) :: u32)) = (of_nat (nat (- i)) :: u64)" unfolding uu by simp
    have "unat (of_nat (nat (- i)) :: u64) = nat (- i)" using assms that by (intro unat_of_nat_lt) simp
    then show ?thesis unfolding e using stream_digits_text [OF b, of "of_nat (nat (- i))"] assms that by simp
  qed
qed

text \<open>A C string as the characters that the loop reads.\<close>

lemma cstr_reads:
  assumes "cstr h p xs"
  shows "reads (\<lambda>i. buf_read h p (unat i)) 0 (xs @ [0])"
  unfolding reads_def
proof (intro allI impI)
  fix i assume i: "i < length (xs @ [0])"
  then have "unat (of_nat i :: u32) = i" using cstr_len [OF assms] by (intro unat_of_nat_lt) simp
  then show "buf_read h p (unat (0 + of_nat i :: u32)) = Inr ((xs @ [0]) ! i)" using i cstr_nth [OF assms, of i] by simp
qed

context text_sink
begin

lemma writef_spec_number:
  assumes "cur \<in> set (map ch ''xXoud'')" and "w_ap st = w # ap"
  shows "writef_spec wr h cur 0 st = stream_number wr cur (ucast w) (st\<lparr>w_ap := ap\<rparr>)"
  using assms by (auto simp: writef_spec_def stream_val_def)

lemma writef_spec_string:
  assumes "cstr h p xs" and "w_ap st = p # ap"
  shows "writef_spec wr h (ch CHR ''s'') 0 st = w_put wr xs (st\<lparr>w_ap := ap\<rparr>)"
  using assms by (simp add: writef_spec_def strlen_cstr read_chars_cstr [of h p xs 0 "length xs"])

lemma writef_spec_pointer:
  assumes "w_ap st = w # ap"
  shows "writef_spec wr h (ch CHR ''p'') 0 st = bindE (w_put wr (map ch ''0x'') st) (\<lambda>st0.
    bindE (va_word (w_ap st0)) (\<lambda>(v, ap). stream_number wr (ch CHR ''p'') (ucast v) (st0\<lparr>w_ap := ap\<rparr>)))"
  by (auto simp: writef_spec_def stream_val_def bindE_def split: sum.splits prod.splits)

lemma wrote_args: "wrote after pre (st\<lparr>w_ap := bp\<rparr>) ap xs r = wrote after pre st ap xs r"
  by (simp add: wrote_def)

lemma writef_unsigned:
  assumes "after pre (w_sink st)" and "w_ap st = w # ap" and "cur \<in> set (map ch ''xXou'')" and "stream_base cur = of_nat b" and "b \<in> {8, 10, 16}"
  shows "wrote after pre st ap (num_text (cur = ch CHR ''X'') b (unat w)) (writef_spec wr h cur 0 st)"
proof -
  have c: "cur \<in> set (map ch ''pxXou'')" "cur \<in> set (map ch ''xXoud'')" using assms(3) by auto
  note u = unsigned_word_digits [OF c(1) assms(4,5), of w]
  have "wrote after pre (st\<lparr>w_ap := ap\<rparr>) (w_ap (st\<lparr>w_ap := ap\<rparr>)) (num_text (cur = ch CHR ''X'') b (unat w)) (stream_number wr cur (ucast w) (st\<lparr>w_ap := ap\<rparr>))"
    by (rule stream_number_plain [OF _ u]) (simp add: assms(1))
  then show ?thesis unfolding writef_spec_number [OF c(2) assms(2)] by (simp add: wrote_args)
qed

lemma writef_decimal:
  assumes "after pre (w_sink st)" and "w_ap st = of_int i # ap" and i: "- (2 ^ 31) < i" "i < 2 ^ 31"
  shows "wrote after pre st ap (item_text (IDec i)) (writef_spec wr h (ch CHR ''d'') 0 st)"
proof -
  let ?s = "st\<lparr>w_ap := ap\<rparr>" and ?d = "ch CHR ''d''"
  have "wrote after pre ?s (w_ap ?s) (item_text (IDec i)) (stream_number wr ?d (ucast (of_int i :: u32)) ?s)"
  proof (cases "i < 0")
    case True
    then show ?thesis using stream_number_minus [of pre ?s ?d "ucast (of_int i :: u32)", OF _ _ decimal_digits(3) [OF i True]] decimal_digits(1) [OF i] assms(1)
      by (simp del: of_char_Char)
  next
    case False
    then show ?thesis using stream_number_plain [of pre ?s ?d "ucast (of_int i :: u32)", OF _ _ decimal_digits(2) [OF i]] decimal_digits(1) [OF i] assms(1)
      by (simp del: of_char_Char)
  qed
  then show ?thesis using writef_spec_number [of ?d st "of_int i" ap h] assms(2) by (simp add: wrote_args del: of_char_Char)
qed

lemma writef_pointer:
  assumes "after pre (w_sink st)" and "w_ap st = w # ap"
  shows "wrote after pre st ap (item_text (IPtr w)) (writef_spec wr h (ch CHR ''p'') 0 st)"
proof -
  have b: "ch CHR ''p'' \<in> set (map ch ''pxXou'')" "stream_base (ch CHR ''p'') = of_nat 16" "(16 :: nat) \<in> {8, 10, 16}" "(ch CHR ''p'' = ch CHR ''X'') = False"
    by (simp_all add: stream_base_def)
  note u = unsigned_word_digits [OF b(1-3), of w, unfolded b(4)]
  show ?thesis unfolding writef_spec_pointer [OF assms(2)] item_text.simps
  proof (rule wrote_bind [OF w_put_ok [OF assms(1)]])
    fix st1 :: "'s wstate" assume st1: "after (pre @ map ch ''0x'') (w_sink st1)" "w_ap st1 = w_ap st"
    have "wrote after (pre @ map ch ''0x'') (st1\<lparr>w_ap := ap\<rparr>) (w_ap (st1\<lparr>w_ap := ap\<rparr>)) (num_text False 16 (unat w)) (stream_number wr (ch CHR ''p'') (ucast w) (st1\<lparr>w_ap := ap\<rparr>))"
      by (rule stream_number_plain [OF _ u]) (use st1(1) in simp)
    then show "wrote after (pre @ map ch ''0x'') st1 ap (num_text False 16 (unat w)) (bindE (va_word (w_ap st1)) (\<lambda>(v, ap). stream_number wr (ch CHR ''p'') (ucast v) (st1\<lparr>w_ap := ap\<rparr>)))"
      using st1(2) assms(2) by (simp add: wrote_args del: of_char_Char)
  qed
qed

lemma writef_item:
  assumes "after pre (w_sink st)" and "item_ok (2 ^ 32) h it" and "w_ap st = item_args it @ ap"
  shows "wrote after pre st ap (item_text it) (run_pieces (writef_lit wr) (writef_spec wr h) [item_piece it] st)"
proof -
  have one: "run_pieces (writef_lit wr) (writef_spec wr h) [Spec 0 c] st = writef_spec wr h c 0 st" for c
    by (cases "writef_spec wr h c 0 st") simp_all
  have num: "wrote after pre st ap (num_text (cur = ch CHR ''X'') b (unat w)) (run_pieces (writef_lit wr) (writef_spec wr h) [Spec 0 cur] st)"
    if "w_ap st = w # ap" "cur \<in> set (map ch ''xXou'')" "stream_base cur = of_nat b" "b \<in> {8, 10, 16}" for w cur b
    unfolding one by (rule writef_unsigned [OF assms(1) that])
  show ?thesis
  proof (cases it)
    case (IChar c)
    then show ?thesis using w_put_ok [OF assms(1), of "[c]"] assms(3) by (cases "w_put wr [c] st") (simp_all add: writef_lit_def)
  next
    case IPercent
    then have "w_ap st = ap" using assms(3) by simp
    then show ?thesis unfolding IPercent item_piece.simps one using w_put_ok [OF assms(1), of "[ch CHR ''%'']"] by (simp add: writef_spec_def)
  next
    case (IDec i)
    then have "w_ap st = of_int i # ap" "- (2 ^ 31) < i" "i < 2 ^ 31" using assms(2,3) by simp_all
    then show ?thesis unfolding IDec item_piece.simps one by (rule writef_decimal [OF assms(1)])
  next
    case (IUns w)
    then show ?thesis using num [of w "ch CHR ''u''" 10] assms(3) by (simp add: stream_base_def)
  next
    case (IHex up w)
    then show ?thesis using num [of w "ch CHR ''x''" 16] num [of w "ch CHR ''X''" 16] assms(3) by (cases up) (simp_all add: stream_base_def)
  next
    case (IOct w)
    then show ?thesis using num [of w "ch CHR ''o''" 8] assms(3) by (simp add: stream_base_def)
  next
    case (IPtr w)
    then have "w_ap st = w # ap" using assms(3) by simp
    then show ?thesis unfolding IPtr item_piece.simps one by (rule writef_pointer [OF assms(1)])
  next
    case (IStr p xs)
    then have "cstr h p xs" "w_ap st = p # ap" using assms(2,3) by simp_all
    then show ?thesis unfolding IStr item_piece.simps one writef_spec_string [OF \<open>cstr h p xs\<close> \<open>w_ap st = p # ap\<close>]
      using w_put_ok [of pre "st\<lparr>w_ap := ap\<rparr>" xs] assms(1) by (simp add: wrote_args)
  qed
qed

lemma writef_items:
  assumes "after pre (w_sink st)" and "\<forall>it \<in> set items. item_ok (2 ^ 32) h it" and "w_ap st = concat (map item_args items) @ ap"
  shows "wrote after pre st ap (concat (map item_text items)) (run_pieces (writef_lit wr) (writef_spec wr h) (map item_piece items) st)"
  using assms
proof (induction items arbitrary: st pre)
  case Nil
  then show ?case by (simp add: wrote_def)
next
  case (Cons it items)
  have a: "wrote after pre st (concat (map item_args items) @ ap) (item_text it) (run_pieces (writef_lit wr) (writef_spec wr h) [item_piece it] st)"
    by (rule writef_item) (use Cons.prems in simp_all)
  have "wrote after pre st ap (item_text it @ concat (map item_text items))
    (bindE (run_pieces (writef_lit wr) (writef_spec wr h) [item_piece it] st) (run_pieces (writef_lit wr) (writef_spec wr h) (map item_piece items)))"
    by (rule wrote_bind [OF a]) (use Cons in simp)
  then show ?case by (subst list.map, subst run_pieces_Cons) simp
qed

lemma writef_renders:
  assumes "after pre s" and "\<forall>it \<in> set items. item_ok (2 ^ 32) h it" and "cstr h fmt (fmt_text (map item_piece items))" and "ap = concat (map item_args items) @ rest"
  shows "\<exists>s'. writef wr h fmt ap ints s = Inr (s', ints) \<and> after (pre @ concat (map item_text items)) s'"
proof -
  let ?st = "\<lparr>w_sink = s, w_written = 0, w_ap = ap, w_ints = ints\<rparr>"
  have ok: "\<forall>q \<in> set (map item_piece items). piece_ok q" using assms(2) item_piece_ok by fastforce
  from writef_items [of pre ?st items h rest] assms obtain st' where
    r: "run_pieces (writef_lit wr) (writef_spec wr h) (map item_piece items) ?st = Inr st'"
      "after (pre @ concat (map item_text items)) (w_sink st')" "w_ints st' = ints" by (auto simp: wrote_def)
  have "fmt_loop (\<lambda>p. buf_read h fmt (unat p)) (writef_lit wr) (writef_spec wr h) 0 ?st = Some (Inr st')"
    unfolding r(1) [symmetric] by (rule fmt_loop_runs [OF cstr_reads [OF assms(3)] ok])
  then show ?thesis using r by (simp add: writef_def)
qed

end

section \<open>The streams of the kernel\<close>

text \<open>A UART: it gets ready again after some polls, every byte written to its data port is sent, and polling sends
  nothing.\<close>

fun polled :: "'d hw \<Rightarrow> u16 \<Rightarrow> nat \<Rightarrow> 'd \<Rightarrow> 'd" where
  "polled H port 0 d = d"
| "polled H port (Suc n) d = polled H port n (snd (hw_inb H (port + IO_PORT_COM_LINE_STATUS) d))"

definition uart_ready :: "'d hw \<Rightarrow> u16 \<Rightarrow> bool" where
  "uart_ready H port \<longleftrightarrow> (\<forall>d. \<exists>n. fst (hw_inb H (port + IO_PORT_COM_LINE_STATUS) (polled H port n d)) AND 0x20 \<noteq> 0)"

definition uarts :: "'d hw \<Rightarrow> u16 list \<Rightarrow> (u16 \<Rightarrow> 'd \<Rightarrow> u8 list) \<Rightarrow> bool" where
  "uarts H ports sent \<longleftrightarrow> (\<forall>p \<in> set ports. uart_ready H p \<and>
     (\<forall>q d. sent q (snd (hw_inb H (p + IO_PORT_COM_LINE_STATUS) d)) = sent q d) \<and>
     (\<forall>q b d. sent q (hw_outb H p b d) = (if q = p then sent q d @ [b] else sent q d)))"

lemma wait_transmit_ok:
  assumes "uarts H ports sent" and "p \<in> set ports"
  shows "\<exists>d'. wait_transmit H p d = Some d' \<and> (\<forall>q. sent q d' = sent q d)"
proof -
  have keep: "sent q (snd (hw_inb H (p + IO_PORT_COM_LINE_STATUS) x)) = sent q x" for q x using assms by (auto simp: uarts_def)
  from assms obtain n where "fst (hw_inb H (p + IO_PORT_COM_LINE_STATUS) (polled H p n d)) AND 0x20 \<noteq> 0"
    unfolding uarts_def uart_ready_def by blast
  then show ?thesis
  proof (induction n arbitrary: d)
    case 0
    then show ?case using keep [of _ d] by (subst wait_transmit.simps) (auto split: prod.splits)
  next
    case (Suc n)
    obtain st d1 where i: "hw_inb H (p + IO_PORT_COM_LINE_STATUS) d = (st, d1)" by fastforce
    with Suc.IH [of d1] Suc.prems obtain d' where "wait_transmit H p d1 = Some d'" "\<forall>q. sent q d' = sent q d1" by auto
    then show ?case using i keep [of _ d] by (subst wait_transmit.simps) auto
  qed
qed

lemma SerialPort_write_ok:
  assumes "uarts H ports sent" and "p \<in> set ports"
  shows "\<exists>d'. SerialPort_write H p bs d = Inr d' \<and> (\<forall>q. sent q d' = sent q d @ (if q = p then bs else []))"
proof (induction bs arbitrary: d)
  case (Cons b bs)
  from wait_transmit_ok [OF assms] obtain d1 where d1: "wait_transmit H p d = Some d1" "\<forall>q. sent q d1 = sent q d" by blast
  have "sent q (hw_outb H p b d1) = (if q = p then sent q d @ [b] else sent q d)" for q using assms d1(2) by (auto simp: uarts_def)
  with Cons.IH [of "hw_outb H p b d1"] d1(1) show ?case by auto
qed simp

lemma AllSerialPorts_write_ok:
  assumes "uarts H all sent" and "set ports - {0} \<subseteq> set all" and "distinct (filter (\<lambda>p. p \<noteq> 0) ports)"
  shows "\<exists>d'. AllSerialPorts_write H ports bs d = Inr d' \<and> (\<forall>q. sent q d' = sent q d @ (if q \<in> set ports - {0} then bs else []))"
  using assms(2,3)
proof (induction ports arbitrary: d)
  case (Cons p ports)
  show ?case
  proof (cases "p = 0")
    case True
    then show ?thesis using Cons by auto
  next
    case False
    then have "p \<in> set all" using Cons.prems(1) by auto
    from SerialPort_write_ok [OF assms(1) this] obtain d1 where d1: "SerialPort_write H p bs d = Inr d1" "\<forall>q. sent q d1 = sent q d @ (if q = p then bs else [])" by blast
    have "set ports - {0} \<subseteq> set all" "distinct (filter (\<lambda>p. p \<noteq> 0) ports)" "p \<notin> set ports" using Cons.prems False by auto
    with Cons.IH [of d1] obtain d' where "AllSerialPorts_write H ports bs d1 = Inr d'" "\<forall>q. sent q d' = sent q d1 @ (if q \<in> set ports - {0} then bs else [])" by blast
    then show ?thesis using d1 False \<open>p \<notin> set ports\<close> by auto
  qed
qed simp

interpretation serial: text_sink "AllSerialPorts_write H ports"
  "\<lambda>xs d. uarts H (filter (\<lambda>p. p \<noteq> 0) ports) sent \<and> distinct (filter (\<lambda>p. p \<noteq> 0) ports) \<and> (\<forall>q. sent q d = sent q d0 @ (if q \<in> set ports - {0} then xs else []))"
  for H ports sent d0
proof
  fix xs d bs
  assume a: "uarts H (filter (\<lambda>p. p \<noteq> 0) ports) sent \<and> distinct (filter (\<lambda>p. p \<noteq> 0) ports) \<and> (\<forall>q. sent q d = sent q d0 @ (if q \<in> set ports - {0} then xs else []))"
  then have u: "uarts H (filter (\<lambda>p. p \<noteq> 0) ports) sent" and ds: "distinct (filter (\<lambda>p. p \<noteq> 0) ports)" by simp_all
  have "set ports - {0} \<subseteq> set (filter (\<lambda>p. p \<noteq> 0) ports)" by auto
  from AllSerialPorts_write_ok [OF u this ds] obtain d' where d': "AllSerialPorts_write H ports bs d = Inr d'"
    "\<forall>q. sent q d' = sent q d @ (if q \<in> set ports - {0} then bs else [])" by blast
  have "\<forall>q. sent q d' = sent q d0 @ (if q \<in> set ports - {0} then xs @ bs else [])" using a d'(2) by (simp split: if_splits)
  with u ds d'(1) show "\<exists>s'. AllSerialPorts_write H ports bs d = Inr s' \<and> uarts H (filter (\<lambda>p. p \<noteq> 0) ports) sent \<and> distinct (filter (\<lambda>p. p \<noteq> 0) ports) \<and>
      (\<forall>q. sent q s' = sent q d0 @ (if q \<in> set ports - {0} then xs @ bs else []))"
    by blast
qed

definition vga_ok :: "vga \<Rightarrow> bool" where
  "vga_ok v \<longleftrightarrow> vg_row v < HEIGHT \<and> vg_column v < WIDTH \<and> (\<forall>b. vg_buffer v = Some b \<longrightarrow> HEIGHT * WIDTH \<le> length b)"

lemma fold_update_length: "(\<And>i b. length (f i b) = length b) \<Longrightarrow> length (fold f is b) = length b"
  by (induction "is" arbitrary: b) simp_all

lemma scroll_ok: "HEIGHT * WIDTH \<le> length b \<Longrightarrow> \<exists>b1. scroll c b = Inr b1 \<and> length b1 = length b"
  by (simp add: scroll_def fold_update_length)

lemma put_at_ok:
  assumes "x < WIDTH" and "y < HEIGHT" and "HEIGHT * WIDTH \<le> length b"
  shows "\<exists>b1. put_at c x y b = Inr b1 \<and> length b1 = length b"
proof -
  have "Suc y * WIDTH \<le> HEIGHT * WIDTH" by (rule mult_le_mono1) (use assms(2) in simp)
  then have "y * WIDTH + x < length b" using assms by simp
  then show ?thesis by (simp add: put_at_def vga_store_def)
qed

lemma maybe_wrap_ok:
  assumes "vg_row v \<le> HEIGHT" and "vg_column v < WIDTH" and "vg_buffer v = Some b" and "HEIGHT * WIDTH \<le> length b"
  shows "\<exists>v'. maybe_wrap c v = Inr v' \<and> vga_ok v'"
proof (cases "HEIGHT \<le> vg_row v")
  case True
  from scroll_ok [OF assms(4), of "c AND 0xff00"] obtain b1 where "scroll (c AND 0xff00) b = Inr b1" "length b1 = length b" by blast
  then show ?thesis using assms True by (simp add: maybe_wrap_def vga_ok_def HEIGHT_def)
qed (use assms in \<open>simp add: maybe_wrap_def vga_ok_def\<close>)

lemma vga_append_ok:
  assumes "vga_ok v"
  shows "\<exists>v'. vga_append c v = Inr v' \<and> vga_ok v'"
proof (cases "vg_buffer v")
  case None
  then show ?thesis using assms by (simp add: vga_append_def)
next
  case (Some b)
  note v = assms[unfolded vga_ok_def]
  have l: "HEIGHT * WIDTH \<le> length b" using v Some by simp
  show ?thesis
  proof (cases "c AND 0xff = 0x0a")
    case True
    have "\<exists>v'. maybe_wrap c (v\<lparr>vg_row := Suc (vg_row v), vg_column := 0\<rparr>) = Inr v' \<and> vga_ok v'"
      by (rule maybe_wrap_ok [OF _ _ _ l]) (use v Some in \<open>simp_all add: WIDTH_def\<close>)
    then show ?thesis using True Some by (simp add: vga_append_def)
  next
    case False
    from put_at_ok [OF _ _ l] v obtain b1 where b1: "put_at c (vg_column v) (vg_row v) b = Inr b1" "length b1 = length b" by blast
    let ?v1 = "v\<lparr>vg_buffer := Some b1, vg_column := Suc (vg_column v)\<rparr>"
    have "\<exists>v'. maybe_wrap c (if WIDTH \<le> vg_column ?v1 then ?v1\<lparr>vg_column := 0, vg_row := Suc (vg_row ?v1)\<rparr> else ?v1) = Inr v' \<and> vga_ok v'"
      by (rule maybe_wrap_ok [of _ b1]) (use v l b1 in \<open>simp_all add: WIDTH_def split: if_splits\<close>)
    then show ?thesis using False Some b1 by (simp add: vga_append_def Let_def)
  qed
qed

lemma StringStream_write_ok: "vga_ok v \<Longrightarrow> \<exists>v'. StringStream_write colour bs v = Inr v' \<and> vga_ok v'"
proof (induction bs arbitrary: v)
  case (Cons b bs)
  from vga_append_ok [OF Cons.prems] obtain v1 where "vga_append (add_colour b colour) v = Inr v1" "vga_ok v1" by blast
  with Cons.IH [of v1] show ?case by simp
qed simp

lemma StringStream_write_append: "StringStream_write colour (xs @ ys) v = bindE (StringStream_write colour xs v) (StringStream_write colour ys)"
proof (induction xs arbitrary: v)
  case (Cons b bs)
  then show ?case by (cases "vga_append (add_colour b colour) v") simp_all
qed simp

interpretation screen: text_sink "StringStream_write colour" "\<lambda>xs v. vga_ok v \<and> StringStream_write colour xs v0 = Inr v" for colour v0
proof
  fix xs v bs
  assume a: "vga_ok v \<and> StringStream_write colour xs v0 = Inr v"
  then show "\<exists>v'. StringStream_write colour bs v = Inr v' \<and> vga_ok v' \<and> StringStream_write colour (xs @ bs) v0 = Inr v'"
    using StringStream_write_ok [of v colour bs] by (auto simp: StringStream_write_append)
qed

section \<open>Properties\<close>

text \<open>C16: Formatted kernel output. With working UARTs, a screen in a sound state and the mutex free, printing returns, releases
  the mutex, sends exactly the text that the format and its arguments stand for to every serial port that is present and to
  no other, and changes the screen as one write of this text does, with the cursor staying on the screen.\<close>

theorem console_prints_text:
  assumes "\<not> co_mutex s" and "vga_ok (co_vga s)" and "uarts H (filter (\<lambda>p. p \<noteq> 0) ports) sent" and "distinct (filter (\<lambda>p. p \<noteq> 0) ports)"
    and "\<forall>it \<in> set items. item_ok (2 ^ 32) h it" and "cstr h fmt (fmt_text (map item_piece items))" and "ap = concat (map item_args items) @ rest"
  shows "\<exists>v d. vprint H ports colour h fmt ap ints s = Inr (s\<lparr>co_vga := v, co_dev := d\<rparr>, ints) \<and>
     (\<forall>q. sent q d = sent q (co_dev s) @ (if q \<in> set ports - {0} then concat (map item_text items) else [])) \<and>
     StringStream_write colour (concat (map item_text items)) (co_vga s) = Inr v \<and> vga_ok v"
proof -
  have "vga_ok (co_vga s) \<and> StringStream_write colour [] (co_vga s) = Inr (co_vga s)" using assms(2) by simp
  from screen.writef_renders [OF this assms(5-7)] obtain v where
    v: "writef (StringStream_write colour) h fmt ap ints (co_vga s) = Inr (v, ints)" "vga_ok v"
      "StringStream_write colour (concat (map item_text items)) (co_vga s) = Inr v" by fastforce
  have "uarts H (filter (\<lambda>p. p \<noteq> 0) ports) sent \<and> distinct (filter (\<lambda>p. p \<noteq> 0) ports) \<and> (\<forall>q. sent q (co_dev s) = sent q (co_dev s) @ (if q \<in> set ports - {0} then [] else []))"
    using assms(3,4) by simp
  from serial.writef_renders [OF this assms(5-7)] obtain d where
    d: "writef (AllSerialPorts_write H ports) h fmt ap ints (co_dev s) = Inr (d, ints)"
      "\<forall>q. sent q d = sent q (co_dev s) @ (if q \<in> set ports - {0} then concat (map item_text items) else [])" by fastforce
  have e: "s\<lparr>co_vga := v, co_dev := d, co_mutex := False\<rparr> = s\<lparr>co_vga := v, co_dev := d\<rparr>" using assms(1) by (cases s) simp
  have "vprint H ports colour h fmt ap ints s = Inr (s\<lparr>co_vga := v, co_dev := d\<rparr>, ints)"
    using e assms(1) v(1) d(1) by (simp add: vprint_def)
  with v d show ?thesis by blast
qed

text \<open>A UART at 0x3f8 that is always ready and keeps what it sends, and the format \<open>"%d\n"\<close> at 0x100.\<close>

definition uart_example :: "u8 list hw" where
  "uart_example = \<lparr>hw_inb = (\<lambda>p d. (0x20, d)), hw_outb = (\<lambda>p b d. if p = 0x3f8 then d @ [b] else d), hw_tick = (\<lambda>d. (None, d))\<rparr>"

definition console_example :: "u8 list console" where
  "console_example = \<lparr>co_vga = \<lparr>vg_row = 0, vg_column = 0, vg_buffer = None\<rparr>, co_dev = [], co_mutex = False\<rparr>"

definition fmt_example :: chars where
  "fmt_example = [0x100 \<mapsto> map Some [37, 100, 10, 0]]"

theorem console_prints_text_witness:
  "\<exists>v d. vprint uart_example [0x3f8, 0, 0, 0] 15 fmt_example 0x100 [of_int (- 5)] Map.empty console_example
     = Inr (console_example\<lparr>co_vga := v, co_dev := d\<rparr>, Map.empty) \<and> d = map ch ''-5'' @ [10]"
proof -
  let ?items = "[IDec (- 5), IChar 10]" and ?sent = "\<lambda>q d. if q = (0x3f8 :: u16) then d else ([] :: u8 list)"
  have p: "filter (\<lambda>p. p \<noteq> 0) [0x3f8, 0, 0, 0 :: u16] = [0x3f8]" by simp
  have u: "uarts uart_example [0x3f8] ?sent" by (simp add: uarts_def uart_ready_def uart_example_def)
  have t: "concat (map item_text ?items) = map ch ''-5'' @ [10]" by (simp add: num_text_def nat_digits.simps digit_text_def)
  have c: "cstr fmt_example 0x100 (fmt_text (map item_piece ?items))" by (auto simp: cstr_def has_bytes_def fmt_example_def fmt_text_def)
  have i: "\<forall>it \<in> set ?items. item_ok (2 ^ 32) fmt_example it" by simp
  have a: "[of_int (- 5)] = concat (map item_args ?items) @ []" by simp
  have s: "\<not> co_mutex console_example" "vga_ok (co_vga console_example)" by (simp_all add: console_example_def vga_ok_def HEIGHT_def WIDTH_def)
  from console_prints_text [OF s _ _ i c a, of uart_example "[0x3f8, 0, 0, 0]" ?sent 15 Map.empty, unfolded p, OF u] obtain v d where
    r: "vprint uart_example [0x3f8, 0, 0, 0] 15 fmt_example 0x100 [of_int (- 5)] Map.empty console_example = Inr (console_example\<lparr>co_vga := v, co_dev := d\<rparr>, Map.empty)"
    and q: "\<forall>q. ?sent q d = ?sent q (co_dev console_example) @ (if q \<in> set [0x3f8, 0, 0, 0 :: u16] - {0} then concat (map item_text ?items) else [])" by auto
  have "d = map ch ''-5'' @ [10]" using q [rule_format, of "0x3f8"] t by (simp add: console_example_def)
  with r show ?thesis by blast
qed

end
