(* ===== verification/Displays.thy ===== *)
theory Displays
  imports Console
begin

text \<open>
  \<open>src/display/display.cpp\<close> and the list of displays of \<open>src/main/vga.cpp\<close> and \<open>include/main/vga.hpp\<close>: displays share the text screen, the
  test display paints stripes. A display's pointer to \<open>terminal_buffer\<close> is the screen that its operations are given.
\<close>

section \<open>Displays\<close>

record display =
  di_cols :: int
  di_rows :: int
  di_active :: bool
  di_id :: nat

definition Display_new :: "nat \<Rightarrow> display" where
  "Display_new i = \<lparr>di_cols = 0, di_rows = 0, di_active = False, di_id = i\<rparr>"

definition Display_enable :: "display \<Rightarrow> display" where
  "Display_enable d = d\<lparr>di_active := True\<rparr>"

definition Display_disable :: "display \<Rightarrow> display" where
  "Display_disable d = d\<lparr>di_active := False\<rparr>"

definition Display_winch :: "int \<Rightarrow> int \<Rightarrow> display \<Rightarrow> display" where
  "Display_winch cols rows d = d\<lparr>di_cols := cols, di_rows := rows\<rparr>"

fun display_row :: "nat \<Rightarrow> nat \<Rightarrow> nat \<Rightarrow> nat \<Rightarrow> u16 list \<Rightarrow> u16 list result" where
  "display_row cols y white 0 b = Inr b"
| "display_row cols y white (Suc n) b = bindE (vga_store (y * cols + (cols - Suc n))
     (add_colour 0 (entry_colour COLOUR_WHITE (of_nat (white mod 15 + 1)))) b) (display_row cols y (Suc white) n)"

fun display_rows :: "nat \<Rightarrow> nat \<Rightarrow> nat \<Rightarrow> u16 list \<Rightarrow> u16 list result" where
  "display_rows cols y 0 b = Inr b"
| "display_rows cols y (Suc n) b = bindE (display_row cols y (y mod 15) cols b) (display_rows cols (Suc y) n)"

definition TestDisplay_update :: "display \<Rightarrow> vga \<Rightarrow> vga result" where
  "TestDisplay_update d v = (if \<not> di_active d then Inr v else case vg_buffer v of
       None \<Rightarrow> if 0 < di_rows d \<and> 0 < di_cols d then Inl Fault else Inr v
     | Some b \<Rightarrow> bindE (display_rows (nat (di_cols d)) 0 (nat (di_rows d)) b) (\<lambda>b1. Inr (v\<lparr>vg_buffer := Some b1\<rparr>)))"

definition TestDisplay_enable :: "display \<Rightarrow> vga \<Rightarrow> (display \<times> vga) result" where
  "TestDisplay_enable d v = (let d1 = Display_enable d in bindE (TestDisplay_update d1 v) (\<lambda>v1. Inr (d1, v1)))"

section \<open>The list of displays\<close>

text \<open>\<open>addDisplay<TestDisplay>\<close> returns a reference to the new display, which is its index here.\<close>

definition addDisplay :: "bool \<Rightarrow> display list \<Rightarrow> (nat \<times> bool \<times> display list) result" where
  "addDisplay displayMutex ds = bindE (Mutex_lock displayMutex) (\<lambda>f.
     Inr (length ds, snd (Mutex_unlock f), ds @ [Display_new (length ds)]))"

definition getDisplay :: "nat \<Rightarrow> display list \<Rightarrow> display result" where
  "getDisplay i ds = (if i < length ds then Inr (ds ! i) else Inl Fault)"

text \<open>\<open>switchDisplay\<close>, which never stores the new \<open>activeDisplay\<close>. Every display is a \<open>TestDisplay\<close>.\<close>

definition switchDisplay :: "int \<Rightarrow> nat \<Rightarrow> display list \<times> vga \<Rightarrow> (display list \<times> vga) result" where
  "switchDisplay activeDisplay i dv = (case dv of (ds, v) \<Rightarrow>
     bindE (if 0 \<le> activeDisplay then bindE (getDisplay (nat activeDisplay) ds) (\<lambda>d. Inr (ds[nat activeDisplay := Display_disable d])) else Inr ds) (\<lambda>ds1.
     bindE (getDisplay i ds1) (\<lambda>d. let ds2 = ds1[i := Display_winch (int WIDTH) (int HEIGHT) d] in
     bindE (getDisplay i ds2) (\<lambda>d1. bindE (TestDisplay_enable d1 v) (\<lambda>(d2, v1). Inr (ds2[i := d2], v1))))))"

section \<open>What a test display paints\<close>

definition shade :: "nat \<Rightarrow> u16" where
  "shade n = add_colour 0 (entry_colour COLOUR_WHITE (of_nat (n mod 15 + 1)))"

lemma display_row_ok:
  assumes "n \<le> cols" and "y * cols + cols \<le> length b"
  shows "\<exists>b1. display_row cols y white n b = Inr b1 \<and> length b1 = length b \<and>
     (\<forall>j < length b. b1 ! j = (if y * cols + (cols - n) \<le> j \<and> j < y * cols + cols then shade (white + (j - (y * cols + (cols - n)))) else b ! j))"
  using assms
proof (induction n arbitrary: white b)
  case (Suc n)
  let ?i = "y * cols + (cols - Suc n)" and ?b = "b[y * cols + (cols - Suc n) := shade white]"
  have i: "?i < length b" "y * cols + (cols - n) = Suc ?i" using Suc.prems by simp_all
  have "\<exists>b1. display_row cols y (Suc white) n ?b = Inr b1 \<and> length b1 = length ?b \<and>
     (\<forall>j < length ?b. b1 ! j = (if y * cols + (cols - n) \<le> j \<and> j < y * cols + cols then shade (Suc white + (j - (y * cols + (cols - n)))) else ?b ! j))"
    by (rule Suc.IH) (use Suc.prems in simp_all)
  then obtain b1 where b1: "display_row cols y (Suc white) n ?b = Inr b1" "length b1 = length b"
    "\<And>j. j < length b \<Longrightarrow> b1 ! j = (if Suc ?i \<le> j \<and> j < y * cols + cols then shade (Suc white + (j - Suc ?i)) else ?b ! j)" unfolding i(2) by auto
  have "b1 ! j = (if ?i \<le> j \<and> j < y * cols + cols then shade (white + (j - ?i)) else b ! j)" if j: "j < length b" for j
  proof (cases "j = ?i")
    case True
    then show ?thesis using b1(3) [OF j] j Suc.prems(1) by simp
  next
    case False
    then have "white + (j - ?i) = Suc white + (j - Suc ?i)" if "?i \<le> j" using that by linarith
    then show ?thesis using b1(3) [OF j] False by auto
  qed
  then show ?case using b1(1,2) i(1) by (simp add: vga_store_def shade_def)
qed auto

lemma display_rows_ok:
  assumes "0 < cols" and "(y + n) * cols \<le> length b"
  shows "\<exists>b1. display_rows cols y n b = Inr b1 \<and> length b1 = length b \<and>
     (\<forall>j < length b. b1 ! j = (if y * cols \<le> j \<and> j < (y + n) * cols then shade (j div cols mod 15 + j mod cols) else b ! j))"
  using assms(2)
proof (induction n arbitrary: y b)
  case (Suc n)
  have len: "y * cols + cols \<le> length b" using Suc.prems by (simp add: algebra_simps)
  from display_row_ok [OF le_refl len, of "y mod 15"] obtain b0 where b0: "display_row cols y (y mod 15) cols b = Inr b0" "length b0 = length b"
    "\<And>j. j < length b \<Longrightarrow> b0 ! j = (if y * cols \<le> j \<and> j < y * cols + cols then shade (y mod 15 + (j - y * cols)) else b ! j)" by auto
  from Suc.IH [of "Suc y" b0] Suc.prems b0(2) obtain b1 where b1: "display_rows cols (Suc y) n b0 = Inr b1" "length b1 = length b"
    "\<And>j. j < length b \<Longrightarrow> b1 ! j = (if Suc y * cols \<le> j \<and> j < (Suc y + n) * cols then shade (j div cols mod 15 + j mod cols) else b0 ! j)" by auto
  have row: "j div cols = y \<and> j mod cols = j - y * cols" if j: "y * cols \<le> j" "j < y * cols + cols" for j
  proof -
    from j obtain x where "j = y * cols + x" "x < cols" by (metis le_Suc_ex nat_add_left_cancel_less)
    then show ?thesis by simp
  qed
  have "b1 ! j = (if y * cols \<le> j \<and> j < (y + Suc n) * cols then shade (j div cols mod 15 + j mod cols) else b ! j)" if j: "j < length b" for j
  proof (cases "j < y * cols + cols")
    case True
    then have lt: "j < (y + Suc n) * cols" "\<not> Suc y * cols \<le> j" by (simp_all add: algebra_simps)
    show ?thesis
    proof (cases "y * cols \<le> j")
      case above: True
      then show ?thesis using b1(3) [OF j] b0(3) [OF j] row [OF above True] lt True by (simp only: if_True if_False simp_thms)
    next
      case False
      then show ?thesis using b1(3) [OF j] b0(3) [OF j] lt(2) by (simp only: if_False simp_thms)
    qed
  next
    case False
    then show ?thesis using b1(3) [OF j] b0(3) [OF j] by auto
  qed
  then show ?case using b0(1) b1(1,2) by auto
qed auto

text \<open>A display that is added and switched to gets the size of the screen, becomes active and paints diagonal stripes over the whole
  screen; the other displays stay as they are.\<close>

lemma added_display_paints:
  assumes "\<not> m" and "vg_buffer v = Some b" and "WIDTH * HEIGHT \<le> length b"
  shows "\<exists>ds1 ds2 b1. addDisplay m ds = Inr (length ds, m, ds1) \<and> switchDisplay (- 1) (length ds) (ds1, v) = Inr (ds2, v\<lparr>vg_buffer := Some b1\<rparr>) \<and>
     ds2 = ds @ [\<lparr>di_cols = 80, di_rows = 25, di_active = True, di_id = length ds\<rparr>] \<and> length b1 = length b \<and>
     (\<forall>x < WIDTH. \<forall>y < HEIGHT. b1 ! (y * WIDTH + x) = shade (y mod 15 + x))"
proof -
  have "(0 + 25) * 80 \<le> length b" using assms(3) by (simp add: WIDTH_def HEIGHT_def)
  from display_rows_ok [OF _ this] obtain b1 where b1: "display_rows 80 0 25 b = Inr b1" "length b1 = length b"
    "\<And>j. j < length b \<Longrightarrow> b1 ! j = (if j < 2000 then shade (j div 80 mod 15 + j mod 80) else b ! j)" by auto
  have "b1 ! (y * WIDTH + x) = shade (y mod 15 + x)" if "x < WIDTH" "y < HEIGHT" for x y
  proof -
    have "y * 80 + x < 2000" "y * 80 + x < length b" using that assms(3) by (simp_all add: WIDTH_def HEIGHT_def)
    then show ?thesis using that b1(3) by (simp add: WIDTH_def)
  qed
  moreover have "addDisplay m ds = Inr (length ds, m, ds @ [Display_new (length ds)])" using assms(1) by (simp add: addDisplay_def)
  moreover have "switchDisplay (- 1) (length ds) (ds @ [Display_new (length ds)], v) =
      Inr (ds @ [\<lparr>di_cols = 80, di_rows = 25, di_active = True, di_id = length ds\<rparr>], v\<lparr>vg_buffer := Some b1\<rparr>)"
    using assms(2) b1(1) by (simp add: switchDisplay_def getDisplay_def Display_winch_def Display_new_def TestDisplay_enable_def TestDisplay_update_def
        Display_enable_def WIDTH_def HEIGHT_def Let_def)
  ultimately show ?thesis using b1(2) by blast
qed

end
