(* ===== verification/Acpi.thy ===== *)
theory Acpi
  imports Prelude
begin

text \<open>
  \<open>src/hw/loacpi.cpp\<close>, \<open>src/hw/acpi.cpp\<close> and \<open>include/hw/acpi.hpp\<close>: the search for the ACPI tables in low memory and
  the copy of the entries of the MADT. Memory is a function from addresses to bytes. The arrays \<open>procs\<close>, \<open>ioapics\<close>
  and \<open>isos\<close> are the lists of the blocks that were copied into them, as raw bytes; a copy behind the end of an array
  is \<open>Fault\<close>. \<open>low_error\<close> does not return.
\<close>

section \<open>Memory\<close>

type_synonym bytes = "u32 \<Rightarrow> u8"

definition read16 :: "bytes \<Rightarrow> u32 \<Rightarrow> u32" where
  "read16 m a = ucast (m a) OR push_bit 8 (ucast (m (a + 1)))"

definition read32 :: "bytes \<Rightarrow> u32 \<Rightarrow> u32" where
  "read32 m a = read16 m a OR push_bit 16 (read16 m (a + 2))"

definition RSDP_SIG_A :: u32 where "RSDP_SIG_A = 0x20445352"
definition RSDP_SIG_B :: u32 where "RSDP_SIG_B = 0x20525450"
definition MADT_SIG :: u32 where "MADT_SIG = 0x43495041"
definition MADT_COPY :: nat where "MADT_COPY = MAX_CORES"

definition sizeof_SdtHeader :: u32 where "sizeof_SdtHeader = 36"
definition sizeof_Madt :: u32 where "sizeof_Madt = 44"
definition sizeof_MadtProc :: nat where "sizeof_MadtProc = 8"
definition sizeof_MadtIoapic :: nat where "sizeof_MadtIoapic = 12"
definition sizeof_MadtIso :: nat where "sizeof_MadtIso = 12"

text \<open>The fields of a copied processor entry; the compiler aligns \<open>flags\<close> to four bytes.\<close>

definition MadtProc_id :: "u8 list \<Rightarrow> u8" where "MadtProc_id b = b ! 0"
definition MadtProc_apic_id :: "u8 list \<Rightarrow> u8" where "MadtProc_apic_id b = b ! 1"
definition MadtProc_flags :: "u8 list \<Rightarrow> u32" where
  "MadtProc_flags b = read32 (\<lambda>a. b ! unat a) 4"

record acpi =
  ac_procs :: "u8 list list"
  ac_ioapics :: "u8 list list"
  ac_isos :: "u8 list list"
  ac_proc_count :: u32
  ac_ioapic_count :: u32
  ac_iso_count :: u32
  ac_lapic_base :: u32
  ac_found :: bool

fun acpi_memcpy :: "bytes \<Rightarrow> u32 \<Rightarrow> nat \<Rightarrow> u8 list" where
  "acpi_memcpy m src 0 = []"
| "acpi_memcpy m src (Suc n) = m src # acpi_memcpy m (src + 1) n"

section \<open>The search\<close>

text \<open>The loops over candidate addresses, of which the last match wins.\<close>

fun rsdp_scan :: "(u32 \<Rightarrow> bool) \<Rightarrow> u32 \<Rightarrow> nat \<Rightarrow> u32 \<Rightarrow> u32" where
  "rsdp_scan P ptr 0 rsdp = rsdp"
| "rsdp_scan P ptr (Suc n) rsdp = rsdp_scan P (ptr + 16) n (if P ptr then ptr else rsdp)"

definition ebda_check :: "bytes \<Rightarrow> u32 \<Rightarrow> bool" where
  "ebda_check m ptr \<longleftrightarrow> read32 m ptr = RSDP_SIG_A \<and> read32 m ptr + 1 = RSDP_SIG_B"

definition bios_check :: "bytes \<Rightarrow> u32 \<Rightarrow> bool" where
  "bios_check m ptr \<longleftrightarrow> read32 m ptr = RSDP_SIG_A \<and> read32 m (ptr + 4) = RSDP_SIG_B"

definition find_rsdp :: "bytes \<Rightarrow> u32" where
  "find_rsdp m = (let p0 = push_bit 4 (read32 m 0x40e) AND 0xfffff; ptr = p0 + p0 mod 16
     in rsdp_scan (bios_check m) 0xe0000 8192 (rsdp_scan (ebda_check m) ptr 64 NULL))"

section \<open>The MADT\<close>

definition madt_entry :: "bytes \<Rightarrow> u32 \<Rightarrow> acpi \<Rightarrow> acpi result" where
  "madt_entry m p s =
     (if m p = 0 then if length (ac_procs s) < MADT_COPY then Inr (s\<lparr>ac_procs := ac_procs s @ [acpi_memcpy m (p + 2) sizeof_MadtProc]\<rparr>) else Inl Fault
      else if m p = 1 then if length (ac_ioapics s) < MADT_COPY then Inr (s\<lparr>ac_ioapics := ac_ioapics s @ [acpi_memcpy m (p + 2) sizeof_MadtIoapic]\<rparr>) else Inl Fault
      else if m p = 2 then if length (ac_isos s) < MADT_COPY then Inr (s\<lparr>ac_isos := ac_isos s @ [acpi_memcpy m (p + 2) sizeof_MadtIso]\<rparr>) else Inl Fault
      else Inr s)"

text \<open>An entry of length 0 makes the loop go on for ever.\<close>

partial_function (option) madt_loop :: "bytes \<Rightarrow> u32 \<Rightarrow> u32 \<Rightarrow> acpi \<Rightarrow> acpi result option" where
  "madt_loop m stop p s = (if p < stop then (case madt_entry m p s of Inl e \<Rightarrow> Some (Inl e)
       | Inr s1 \<Rightarrow> madt_loop m stop (p + ucast (m (p + 1))) s1)
     else Some (Inr s))"

definition madt_parse :: "bytes \<Rightarrow> u32 \<Rightarrow> acpi \<Rightarrow> acpi result" where
  "madt_parse m madt s = (let s0 = s\<lparr>ac_procs := [], ac_ioapics := [], ac_isos := [], ac_lapic_base := read32 m (madt + sizeof_SdtHeader)\<rparr> in
     bindE (loopE (madt_loop m (madt + read32 m (madt + 4)) (madt + sizeof_Madt) s0)) (\<lambda>r. bindE r (\<lambda>s1.
     if ac_procs s1 = [] then Inl (Panic ''ACPI: MADT table doesn't specify any processors'')
     else if ac_ioapics s1 = [] then Inl (Panic ''ACPI: MADT table doesn't specify any ioapics'')
     else if ac_isos s1 = [] then Inl (Panic ''ACPI: MADT table doesn't specify any interrupt source overrides'')
     else Inr (s1\<lparr>ac_proc_count := of_nat (length (ac_procs s1)), ac_ioapic_count := of_nat (length (ac_ioapics s1)),
            ac_iso_count := of_nat (length (ac_isos s1)), ac_found := True\<rparr>))))"

text \<open>The loop over the tables that the RSDT or XSDT lists.\<close>

partial_function (option) rsdt_loop :: "bytes \<Rightarrow> u32 \<Rightarrow> u32 \<Rightarrow> u32 \<Rightarrow> bool \<Rightarrow> acpi \<Rightarrow> (bool \<times> acpi) result option" where
  "rsdt_loop m step stop hdr found s = (if hdr < stop
     then if read32 m (read32 m hdr) = MADT_SIG
       then (case madt_parse m (read32 m hdr) s of Inl e \<Rightarrow> Some (Inl e) | Inr s1 \<Rightarrow> rsdt_loop m step stop (hdr + step) True s1)
       else rsdt_loop m step stop (hdr + step) found s
     else Some (Inr (found, s)))"

definition low_setup :: "bytes \<Rightarrow> acpi \<Rightarrow> acpi result" where
  "low_setup m s = (let rsdp = find_rsdp m in
     if rsdp = NULL then Inr (s\<lparr>ac_found := False, ac_proc_count := 1, ac_ioapic_count := 1, ac_iso_count := 0\<rparr>)
     else let xsdt = 2 \<le> m (rsdp + 15); rsdt = read32 m (rsdp + (if xsdt then 24 else 16)) in
       bindE (loopE (rsdt_loop m (if xsdt then 8 else 4) (rsdt + read32 m (rsdt + 4)) (rsdt + sizeof_SdtHeader) False s)) (\<lambda>r.
       bindE r (\<lambda>(found, s1). if found then Inr s1 else Inl (Panic ''ACPI: Didn't find a MADT table''))))"

section \<open>What the parser extracts\<close>

text \<open>The reference: the entries of a table, each with its type, its length and its address.\<close>

fun entries_at :: "bytes \<Rightarrow> u32 \<Rightarrow> nat list \<Rightarrow> bool" where
  "entries_at m p [] = True"
| "entries_at m p (n # ns) \<longleftrightarrow> 2 \<le> n \<and> unat (m (p + 1)) = n \<and> entries_at m (p + of_nat n) ns"

fun entry_addrs :: "u32 \<Rightarrow> nat list \<Rightarrow> u32 list" where
  "entry_addrs p [] = []"
| "entry_addrs p (n # ns) = p # entry_addrs (p + of_nat n) ns"

definition blocks :: "bytes \<Rightarrow> u8 \<Rightarrow> nat \<Rightarrow> u32 list \<Rightarrow> u8 list list" where
  "blocks m ty sz as = map (\<lambda>a. acpi_memcpy m (a + 2) sz) (filter (\<lambda>a. m a = ty) as)"

definition room :: "nat \<Rightarrow> u8 list list \<Rightarrow> u8 list list \<Rightarrow> bool" where
  "room k xs ys \<longleftrightarrow> length xs + length ys \<le> k"

lemma acpi_memcpy_nth: "i < n \<Longrightarrow> acpi_memcpy m a n ! i = m (a + of_nat i)"
proof (induction n arbitrary: a i)
  case (Suc n)
  then show ?case by (cases i) (simp_all add: add.assoc)
qed simp

lemma blocks_Cons: "blocks m ty sz (a # as) = (if m a = ty then [acpi_memcpy m (a + 2) sz] else []) @ blocks m ty sz as"
  by (simp add: blocks_def)

definition madt_fits :: "bytes \<Rightarrow> u32 list \<Rightarrow> acpi \<Rightarrow> bool" where
  "madt_fits m as s \<longleftrightarrow> room MADT_COPY (ac_procs s) (blocks m 0 sizeof_MadtProc as) \<and>
     room MADT_COPY (ac_ioapics s) (blocks m 1 sizeof_MadtIoapic as) \<and> room MADT_COPY (ac_isos s) (blocks m 2 sizeof_MadtIso as)"

definition madt_add :: "bytes \<Rightarrow> u32 list \<Rightarrow> acpi \<Rightarrow> acpi" where
  "madt_add m as s = s\<lparr>ac_procs := ac_procs s @ blocks m 0 sizeof_MadtProc as, ac_ioapics := ac_ioapics s @ blocks m 1 sizeof_MadtIoapic as,
     ac_isos := ac_isos s @ blocks m 2 sizeof_MadtIso as\<rparr>"

lemma madt_entry_cases:
  assumes "length (ac_procs s) \<le> MADT_COPY" "length (ac_ioapics s) \<le> MADT_COPY" "length (ac_isos s) \<le> MADT_COPY"
  shows "madt_entry m p s = (if madt_fits m [p] s then Inr (madt_add m [p] s) else Inl Fault)"
  using assms by (auto simp: madt_entry_def madt_fits_def room_def blocks_def madt_add_def)

lemma madt_fits_Cons: "madt_fits m (a # as) s \<longleftrightarrow> madt_fits m [a] s \<and> madt_fits m as (madt_add m [a] s)"
  by (auto simp: madt_fits_def room_def madt_add_def blocks_Cons blocks_def)

lemma madt_add_Cons: "madt_add m as (madt_add m [a] s) = madt_add m (a # as) s"
  by (simp add: madt_add_def blocks_Cons [of _ _ _ a as]) (simp add: blocks_def)

lemma madt_fits_Nil: "madt_fits m [] s \<longleftrightarrow> length (ac_procs s) \<le> MADT_COPY \<and> length (ac_ioapics s) \<le> MADT_COPY \<and> length (ac_isos s) \<le> MADT_COPY"
  by (simp add: madt_fits_def room_def blocks_def)

lemma madt_fits_add: "madt_fits m [a] s \<Longrightarrow> madt_fits m [] (madt_add m [a] s)"
  by (simp add: madt_fits_def room_def madt_add_def blocks_def)

lemma madt_loop_parses:
  assumes "entries_at m p ns" and "unat p + sum_list ns < 2 ^ 32" and "stop = p + of_nat (sum_list ns)" and "madt_fits m [] s"
  shows "madt_loop m stop p s = Some (if madt_fits m (entry_addrs p ns) s then Inr (madt_add m (entry_addrs p ns) s) else Inl Fault)"
  using assms
proof (induction ns arbitrary: p s)
  case Nil
  then show ?case by (subst madt_loop.simps) (simp add: madt_add_def blocks_def)
next
  case (Cons n ns)
  let ?q = "p + of_nat n"
  have n: "2 \<le> n" "unat (m (p + 1)) = n" and e: "entries_at m ?q ns" using Cons.prems(1) by simp_all
  have k: "n < 2 ^ LENGTH(32)" "n + sum_list ns < 2 ^ LENGTH(32)" using Cons.prems(2) by simp_all
  have tot: "unat (of_nat (n + sum_list ns) :: u32) = n + sum_list ns" "unat (of_nat n :: u32) = n" by (rule unat_of_nat_lt [OF k(2)], rule unat_of_nat_lt [OF k(1)])
  have "unat (p + of_nat (n + sum_list ns)) = unat p + (n + sum_list ns)" using Cons.prems(2) tot(1) unat_add_lt [of p "of_nat (n + sum_list ns)"] by simp
  then have us: "unat stop = unat p + (n + sum_list ns)" using Cons.prems(3) by simp
  have lt: "p < stop" using us n(1) by (simp add: word_less_nat_alt)
  have uq: "unat ?q = unat p + n" using Cons.prems(2) tot(2) by (subst unat_add_lt) simp_all
  have step: "ucast (m (p + 1)) = (of_nat n :: u32)" using n(2) by (metis of_nat_unat)
  have en: "madt_entry m p s = (if madt_fits m [p] s then Inr (madt_add m [p] s) else Inl Fault)"
    by (rule madt_entry_cases) (use Cons.prems(4) in \<open>simp_all add: madt_fits_Nil\<close>)
  show ?case
  proof (cases "madt_fits m [p] s")
    case False
    then show ?thesis using lt en madt_fits_Cons [of m p "entry_addrs ?q ns" s] by (subst madt_loop.simps) simp
  next
    case True
    have "madt_loop m stop p s = madt_loop m stop ?q (madt_add m [p] s)" using lt en step True by (subst madt_loop.simps) simp
    also have "\<dots> = Some (if madt_fits m (entry_addrs ?q ns) (madt_add m [p] s) then Inr (madt_add m (entry_addrs ?q ns) (madt_add m [p] s)) else Inl Fault)"
      by (rule Cons.IH [OF e _ _ madt_fits_add [OF True]]) (use Cons.prems(2,3) uq in simp_all)
    finally show ?thesis using True madt_fits_Cons [of m p "entry_addrs ?q ns" s] by (simp add: madt_add_Cons)
  qed
qed

section \<open>Properties\<close>

text \<open>C28: The MADT is parsed completely: for a table whose entries fill it, parsing terminates; when there are between one and
  \<open>MADT_COPY\<close> entries of each kind, the counts and the copied blocks are those of the entries in their order and the APIC
  numbers of the processors are right; a table with more entries of a kind than the arrays hold is written past their end.\<close>

theorem acpi_madt_parsed:
  assumes "entries_at m (madt + 44) ns" and "unat (madt + 44) + sum_list ns < 2 ^ 32" and "madt + read32 m (madt + 4) = madt + 44 + of_nat (sum_list ns)"
    and "as = entry_addrs (madt + 44) ns" and "P = blocks m 0 8 as" and "I = blocks m 1 12 as" and "Ov = blocks m 2 12 as"
  shows "(length P \<in> {1..32} \<and> length I \<in> {1..32} \<and> length Ov \<in> {1..32} \<longrightarrow>
      (\<exists>s'. madt_parse m madt s = Inr s' \<and> ac_procs s' = P \<and> ac_ioapics s' = I \<and> ac_isos s' = Ov \<and> unat (ac_proc_count s') = length P \<and>
        unat (ac_ioapic_count s') = length I \<and> unat (ac_iso_count s') = length Ov \<and>
        map MadtProc_apic_id P = map (\<lambda>a. m (a + 3)) (filter (\<lambda>a. m a = 0) as))) \<and>
    (32 < length P \<or> 32 < length I \<or> 32 < length Ov \<longrightarrow> madt_parse m madt s = Inl Fault)"
proof -
  let ?s0 = "s\<lparr>ac_procs := [], ac_ioapics := [], ac_isos := [], ac_lapic_base := read32 m (madt + sizeof_SdtHeader)\<rparr>"
  have l: "madt_loop m (madt + read32 m (madt + 4)) (madt + sizeof_Madt) ?s0 = Some (if madt_fits m as ?s0 then Inr (madt_add m as ?s0) else Inl Fault)"
    unfolding assms(4) sizeof_Madt_def by (rule madt_loop_parses [OF assms(1-3)]) (simp add: madt_fits_Nil)
  have f: "madt_fits m as ?s0 \<longleftrightarrow> length P \<le> 32 \<and> length I \<le> 32 \<and> length Ov \<le> 32"
    by (simp add: madt_fits_def room_def assms(5-7) sizeof_MadtProc_def sizeof_MadtIoapic_def sizeof_MadtIso_def MADT_COPY_def MAX_CORES_def)
  have a: "madt_add m as ?s0 = ?s0\<lparr>ac_procs := P, ac_ioapics := I, ac_isos := Ov\<rparr>"
    by (simp add: madt_add_def assms(5-7) sizeof_MadtProc_def sizeof_MadtIoapic_def sizeof_MadtIso_def)
  have apic: "map MadtProc_apic_id P = map (\<lambda>a. m (a + 3)) (filter (\<lambda>a. m a = 0) as)"
    by (simp add: assms(5) blocks_def MadtProc_apic_id_def acpi_memcpy_nth add.commute)
  have u: "unat (of_nat n :: u32) = n" if "n \<in> {1..32}" for n using that by (intro unat_of_nat_lt) simp
  have ne: "xs \<noteq> []" if "length xs \<in> {1..32}" for xs :: "u8 list list" using that by auto
  show ?thesis
    using l f a apic u ne by (auto simp: madt_parse_def Let_def)
qed

text \<open>A table at address 0 with a processor, an I/O APIC and an override, of 8, 12 and 10 bytes.\<close>

definition madt_example :: bytes where
  "madt_example = (\<lambda>a. if a = 4 then 74 else if a = 45 then 8 else if a = 46 then 1 else if a = 47 then 9 else if a = 52 then 1
     else if a = 53 then 12 else if a = 64 then 2 else if a = 65 then 10 else 0)"

definition acpi_zero :: acpi where
  "acpi_zero = \<lparr>ac_procs = [], ac_ioapics = [], ac_isos = [], ac_proc_count = 0, ac_ioapic_count = 0, ac_iso_count = 0, ac_lapic_base = 0, ac_found = False\<rparr>"

theorem acpi_madt_parsed_witness:
  "\<exists>s'. madt_parse madt_example 0 acpi_zero = Inr s' \<and> unat (ac_proc_count s') = 1 \<and> map MadtProc_apic_id (ac_procs s') = [9]"
proof -
  let ?as = "entry_addrs (0 + 44) [8, 12, 10]"
  have as: "?as = [44, 52, 64]" by simp
  have e: "entries_at madt_example (0 + 44) [8, 12, 10]" by (simp add: madt_example_def)
  have r: "(0 :: u32) + read32 madt_example (0 + 4) = 0 + 44 + of_nat (sum_list [8, 12, 10])" by (simp add: read32_def read16_def madt_example_def)
  have l: "length (blocks madt_example 0 8 ?as) = 1" "length (blocks madt_example 1 12 ?as) = 1" "length (blocks madt_example 2 12 ?as) = 1"
    unfolding as by (simp_all add: blocks_def madt_example_def)
  have f: "filter (\<lambda>a. madt_example a = 0) ?as = [44]" unfolding as by (simp add: madt_example_def)
  have k: "unat (0 + 44 :: u32) + sum_list [8, 12, 10] < 2 ^ 32" by simp
  from acpi_madt_parsed [OF e k r refl refl refl refl, of acpi_zero] l f show ?thesis by (auto simp: madt_example_def)
qed

end
