(* ===== verification/Elf.thy ===== *)
theory Elf
  imports Kmem Acpi
begin

text \<open>
  \<open>src/structures/elf.cpp\<close> and \<open>include/structures/elf.hpp\<close>: section headers, strings and symbols of the kernel's ELF
  image, read from a memory of bytes, and the search for the function that an address lies in.
\<close>

section \<open>Layout\<close>

definition sizeof_Header :: u32 where "sizeof_Header = 52"
definition SHT_SYMTAB :: u32 where "SHT_SYMTAB = 2"

text \<open>The fields of a header at \<open>e\<close>, of a section header at \<open>p\<close> and of a symbol at \<open>y\<close>.\<close>

definition shoff :: "bytes \<Rightarrow> u32 \<Rightarrow> u32" where "shoff m e = read32 m (e + 32)"
definition shentsize :: "bytes \<Rightarrow> u32 \<Rightarrow> u32" where "shentsize m e = read16 m (e + 46)"
definition shnum :: "bytes \<Rightarrow> u32 \<Rightarrow> u32" where "shnum m e = read16 m (e + 48)"
definition shstrndx :: "bytes \<Rightarrow> u32 \<Rightarrow> u32" where "shstrndx m e = read16 m (e + 50)"

definition sh_type :: "bytes \<Rightarrow> u32 \<Rightarrow> u32" where "sh_type m p = read32 m (p + 4)"
definition sh_addr :: "bytes \<Rightarrow> u32 \<Rightarrow> u32" where "sh_addr m p = read32 m (p + 12)"
definition sh_offset :: "bytes \<Rightarrow> u32 \<Rightarrow> u32" where "sh_offset m p = read32 m (p + 16)"
definition sh_size :: "bytes \<Rightarrow> u32 \<Rightarrow> u32" where "sh_size m p = read32 m (p + 20)"
definition sh_link :: "bytes \<Rightarrow> u32 \<Rightarrow> u32" where "sh_link m p = read32 m (p + 24)"
definition sh_entsize :: "bytes \<Rightarrow> u32 \<Rightarrow> u32" where "sh_entsize m p = read32 m (p + 36)"

definition sym_name :: "bytes \<Rightarrow> u32 \<Rightarrow> u32" where "sym_name m y = read32 m y"
definition sym_value :: "bytes \<Rightarrow> u32 \<Rightarrow> u32" where "sym_value m y = read32 m (y + 4)"
definition sym_info :: "bytes \<Rightarrow> u32 \<Rightarrow> u8" where "sym_info m y = m (y + 12)"

section \<open>Sections and symbols\<close>

definition sectionHeader :: "bytes \<Rightarrow> u32 \<Rightarrow> u32 \<Rightarrow> u32" where
  "sectionHeader m e i = e + shoff m e + i * shentsize m e"

definition sectionStringSection :: "bytes \<Rightarrow> u32 \<Rightarrow> u32" where
  "sectionStringSection m e = sectionHeader m e (shstrndx m e)"

definition sectionData :: "bytes \<Rightarrow> u32 \<Rightarrow> u32 \<Rightarrow> u32" where
  "sectionData m e i = e + sh_offset m (sectionHeader m e i)"

definition runtimeSectionData :: "bytes \<Rightarrow> u32 \<Rightarrow> u32 \<Rightarrow> u32" where
  "runtimeSectionData m e i = sh_addr m (sectionHeader m e i)"

definition sectionStringSectionData :: "bytes \<Rightarrow> u32 \<Rightarrow> u32" where
  "sectionStringSectionData m e = sectionData m e (shstrndx m e)"

definition runtimeSectionStringSectionData :: "bytes \<Rightarrow> u32 \<Rightarrow> u32" where
  "runtimeSectionStringSectionData m e = runtimeSectionData m e (shstrndx m e)"

definition lookupString :: "bytes \<Rightarrow> u32 \<Rightarrow> u32 \<Rightarrow> u32 \<Rightarrow> u32" where
  "lookupString m e section_id offset = sectionData m e section_id + offset"

definition runtimeLookupString :: "bytes \<Rightarrow> u32 \<Rightarrow> u32 \<Rightarrow> u32 \<Rightarrow> u32" where
  "runtimeLookupString m e section_id offset = runtimeSectionData m e section_id + offset"

definition lookupSectionString :: "bytes \<Rightarrow> u32 \<Rightarrow> u32 \<Rightarrow> u32" where
  "lookupSectionString m e offset = lookupString m e (shstrndx m e) offset"

definition runtimeLookupSectionString :: "bytes \<Rightarrow> u32 \<Rightarrow> u32 \<Rightarrow> u32" where
  "runtimeLookupSectionString m e offset = runtimeLookupString m e (shstrndx m e) offset"

text \<open>The loop of \<open>sectionByType\<close> looks at the header before it tests the bound.\<close>

function section_loop :: "bytes \<Rightarrow> u32 \<Rightarrow> u32 \<Rightarrow> u32 \<Rightarrow> u32" where
  "section_loop m e ty base = (if sh_type m (sectionHeader m e base) \<noteq> ty \<and> base < shnum m e then section_loop m e ty (base + 1) else base)"
  by pat_completeness auto
termination
proof (relation "measure (\<lambda>(m, e, ty, base). unat (shnum m e) - unat base)")
  fix m e ty base
  assume "sh_type m (sectionHeader m e base) \<noteq> ty \<and> base < shnum m e"
  then have l: "base < shnum m e" by simp
  then have "unat (base + 1) = Suc (unat base)" by (rule word_inc_unat)
  then show "((m, e, ty, base + 1), (m, e, ty, base)) \<in> measure (\<lambda>(m, e, ty, base). unat (shnum m e) - unat base)"
    using l by (simp add: word_less_nat_alt)
qed simp

declare section_loop.simps [simp del]

definition sectionByType :: "bytes \<Rightarrow> u32 \<Rightarrow> u32 \<Rightarrow> u32 \<Rightarrow> u32" where
  "sectionByType m e ty base0 = (let base = section_loop m e ty base0 in if sh_type m (sectionHeader m e base) = ty then base else 0)"

text \<open>\<open>entries\<close> divides by \<open>entsize\<close>; a zero traps.\<close>

definition entries :: "bytes \<Rightarrow> u32 \<Rightarrow> u32 result" where
  "entries m p = (if sh_entsize m p = 0 then Inl Fault else Inr (sh_size m p div sh_entsize m p))"

definition symbol_at :: "u32 \<Rightarrow> bytes \<Rightarrow> u32 \<Rightarrow> u32 \<Rightarrow> u32 \<Rightarrow> u32 result" where
  "symbol_at data m e section_id offset = (let sect = sectionHeader m e section_id in
     bindE (entries m sect) (\<lambda>n. Inr (if n \<le> offset then NULL else data + offset * sh_entsize m sect)))"

definition symbol :: "bytes \<Rightarrow> u32 \<Rightarrow> u32 \<Rightarrow> u32 \<Rightarrow> u32 result" where
  "symbol m e section_id offset = symbol_at (sectionData m e section_id) m e section_id offset"

definition runtimeSymbol :: "bytes \<Rightarrow> u32 \<Rightarrow> u32 \<Rightarrow> u32 \<Rightarrow> u32 result" where
  "runtimeSymbol m e section_id offset = symbol_at (runtimeSectionData m e section_id) m e section_id offset"

definition symbolName :: "bytes \<Rightarrow> u32 \<Rightarrow> u32 \<Rightarrow> u32 \<Rightarrow> u32 result" where
  "symbolName m e section_id offset = bindE (symbol m e section_id offset) (\<lambda>y. if y = NULL then Inl Fault
     else Inr (lookupString m e (sh_link m (sectionHeader m e section_id)) (sym_name m y)))"

definition runtimeSymbolName :: "bytes \<Rightarrow> u32 \<Rightarrow> u32 \<Rightarrow> u32 \<Rightarrow> u32 result" where
  "runtimeSymbolName m e section_id offset = bindE (runtimeSymbol m e section_id offset) (\<lambda>y. if y = NULL then Inl Fault
     else Inr (runtimeLookupString m e (sh_link m (sectionHeader m e section_id)) (sym_name m y)))"

section \<open>Finding a symbol\<close>

text \<open>The loop of \<open>runtimeFindSymbolId\<close>: \<open>n\<close> more symbols from number \<open>i\<close> on.\<close>

fun find_symbol_loop :: "bytes \<Rightarrow> u32 \<Rightarrow> u32 \<Rightarrow> u32 \<Rightarrow> u32 \<Rightarrow> u32 \<Rightarrow> nat \<Rightarrow> u32 \<times> u32 \<Rightarrow> (u32 \<times> u32) result" where
  "find_symbol_loop m e section_id addr ty i 0 bd = Inr bd"
| "find_symbol_loop m e section_id addr ty i (Suc n) bd = bindE (runtimeSymbol m e section_id i) (\<lambda>curr.
     if curr = NULL then Inl Fault
     else find_symbol_loop m e section_id addr ty (i + 1) n
       (if ucast (sym_info m curr) = ty \<and> sym_value m curr \<le> addr \<and> addr - sym_value m curr < snd bd
        then (i, addr - sym_value m curr) else bd))"

definition runtimeFindSymbolId :: "bytes \<Rightarrow> u32 \<Rightarrow> u32 \<Rightarrow> u32 \<Rightarrow> u32 result" where
  "runtimeFindSymbolId m e addr ty = (let section_id = sectionByType m e SHT_SYMTAB 0 in
     bindE (entries m (sectionHeader m e section_id)) (\<lambda>n.
     bindE (find_symbol_loop m e section_id addr ty 0 (unat n) (0, 0xffffffff)) (\<lambda>bd. Inr (fst bd))))"

definition runtimeFindSymbol :: "bytes \<Rightarrow> u32 \<Rightarrow> u32 \<Rightarrow> u32 \<Rightarrow> u32 result" where
  "runtimeFindSymbol m e addr ty = bindE (runtimeFindSymbolId m e addr ty) (runtimeSymbol m e (sectionByType m e SHT_SYMTAB 0))"

definition runtimeFindSymbolName :: "bytes \<Rightarrow> u32 \<Rightarrow> u32 \<Rightarrow> u32 \<Rightarrow> u32 result" where
  "runtimeFindSymbolName m e addr ty = bindE (runtimeFindSymbolId m e addr ty) (runtimeSymbolName m e (sectionByType m e SHT_SYMTAB 0))"

definition st_bind :: "u8 \<Rightarrow> u8" where "st_bind x = push_bit 4 x"
definition st_type :: "u8 \<Rightarrow> u8" where "st_type x = x AND 0xf"
definition st_info :: "u8 \<Rightarrow> u8 \<Rightarrow> u8" where "st_info b t = st_bind b + st_type t"

section \<open>Loading\<close>

definition write16 :: "u32 \<Rightarrow> u32 \<Rightarrow> bytes \<Rightarrow> bytes" where
  "write16 a v m = m(a := ucast v, a + 1 := ucast (drop_bit 8 v))"

definition write32 :: "u32 \<Rightarrow> u32 \<Rightarrow> bytes \<Rightarrow> bytes" where
  "write32 a v m = write16 (a + 2) (drop_bit 16 v) (write16 a v m)"

fun copy_bytes :: "u32 \<Rightarrow> u32 \<Rightarrow> nat \<Rightarrow> bytes \<Rightarrow> bytes" where
  "copy_bytes dst src 0 m = m"
| "copy_bytes dst src (Suc n) m = copy_bytes (dst + 1) (src + 1) n (m(dst := m src))"

fun relocate_loop :: "u32 \<Rightarrow> u32 \<Rightarrow> nat \<Rightarrow> bytes \<Rightarrow> bytes" where
  "relocate_loop e i 0 m = m"
| "relocate_loop e i (Suc n) m = (let p = sectionHeader m e i in
     relocate_loop e (i + 1) n (if sh_addr m p \<noteq> 0 \<and> sh_addr m p < KERNEL_VM_BASE
       then write32 (p + 12) (sh_addr m p + KERNEL_VM_BASE) m else m))"

text \<open>\<open>load_kernel_elf\<close>: \<open>alloc\<close> is what \<open>kmalloc\<close> returns for the given size.\<close>

definition load_kernel_elf :: "(u32 \<Rightarrow> u32) \<Rightarrow> u32 \<Rightarrow> u32 \<Rightarrow> u32 \<Rightarrow> u32 \<Rightarrow> bytes \<Rightarrow> u32 \<times> bytes" where
  "load_kernel_elf alloc num sz addr shndx m = (let e = alloc (num * sz + sizeof_Header);
       m1 = write16 (e + 50) shndx (write32 (e + 32) sizeof_Header (write16 (e + 46) sz (write16 (e + 48) num m)));
       m2 = copy_bytes (e + sizeof_Header) addr (unat (num * sz)) m1
     in (e, relocate_loop e 0 (unat num) m2))"

section \<open>The nearest symbol\<close>

text \<open>Symbol \<open>j\<close> of the table, its distance from an address, and whether the search considers it.\<close>

definition sym_ptr :: "bytes \<Rightarrow> u32 \<Rightarrow> u32 \<Rightarrow> nat \<Rightarrow> u32" where
  "sym_ptr m e sec j = runtimeSectionData m e sec + of_nat j * sh_entsize m (sectionHeader m e sec)"

definition sym_dist :: "bytes \<Rightarrow> u32 \<Rightarrow> u32 \<Rightarrow> u32 \<Rightarrow> nat \<Rightarrow> u32" where
  "sym_dist m e sec addr j = addr - sym_value m (sym_ptr m e sec j)"

definition sym_match :: "bytes \<Rightarrow> u32 \<Rightarrow> u32 \<Rightarrow> u32 \<Rightarrow> u32 \<Rightarrow> nat \<Rightarrow> bool" where
  "sym_match m e sec addr ty j \<longleftrightarrow> ucast (sym_info m (sym_ptr m e sec j)) = ty \<and> sym_value m (sym_ptr m e sec j) \<le> addr \<and>
     sym_dist m e sec addr j < 0xffffffff"

definition nearest :: "(nat \<Rightarrow> bool) \<Rightarrow> (nat \<Rightarrow> u32) \<Rightarrow> nat \<Rightarrow> u32 \<times> u32 \<Rightarrow> bool" where
  "nearest M d n bd \<longleftrightarrow> (if \<exists>j < n. M j then unat (fst bd) < n \<and> M (unat (fst bd)) \<and> snd bd = d (unat (fst bd)) \<and>
      (\<forall>j < n. M j \<longrightarrow> snd bd \<le> d j \<and> (d j = snd bd \<longrightarrow> unat (fst bd) \<le> j)) else bd = (0, 0xffffffff))"

lemma nearest_step:
  assumes "nearest M d n bd" and "unat i = n" and "\<And>j. M j \<Longrightarrow> d j < 0xffffffff"
  shows "nearest M d (Suc n) (if M n \<and> d n < snd bd then (i, d n) else bd)"
proof (cases "\<exists>j < n. M j")
  case False
  then have bd: "bd = (0, 0xffffffff)" using assms(1) by (simp add: nearest_def)
  show ?thesis
  proof (cases "M n")
    case True
    then have "d n < snd bd" using bd assms(3) by simp
    then show ?thesis using True False assms(2) by (auto simp: nearest_def less_Suc_eq)
  next
    case nM: False
    then show ?thesis using False bd by (auto simp: nearest_def less_Suc_eq)
  qed
next
  case True
  then have b: "unat (fst bd) < n" "M (unat (fst bd))" "snd bd = d (unat (fst bd))"
    "\<And>j. j < n \<Longrightarrow> M j \<Longrightarrow> snd bd \<le> d j \<and> (d j = snd bd \<longrightarrow> unat (fst bd) \<le> j)" using assms(1) by (auto simp: nearest_def)
  have ex: "\<exists>j < Suc n. M j" using True less_Suc_eq by blast
  show ?thesis
  proof (cases "M n \<and> d n < snd bd")
    case upd: True
    have "d n \<le> d j \<and> (d j = d n \<longrightarrow> n \<le> j)" if "j < Suc n" "M j" for j
      using b(4) [of j] that upd by (cases "j = n") (auto dest: less_le_trans)
    then show ?thesis using upd ex assms(2) by (simp add: nearest_def)
  next
    case nupd: False
    have "snd bd \<le> d j \<and> (d j = snd bd \<longrightarrow> unat (fst bd) \<le> j)" if "j < Suc n" "M j" for j
      using b(1) b(4) [of j] that nupd by (cases "j = n") auto
    moreover have "(if M n \<and> d n < snd bd then (i, d n) else bd) = bd" using nupd by auto
    ultimately show ?thesis using ex b(1-3) by (simp add: nearest_def del: split_paired_All split_paired_Ex)
  qed
qed

lemma find_symbol_loop_nearest:
  assumes sz: "sh_entsize m (sectionHeader m e sec) \<noteq> 0" and "N = unat (sh_size m (sectionHeader m e sec) div sh_entsize m (sectionHeader m e sec))"
    and nn: "\<And>j. j < N \<Longrightarrow> sym_ptr m e sec j \<noteq> NULL" and "nearest (sym_match m e sec addr ty) (sym_dist m e sec addr) k bd" and "k + n = N"
  shows "\<exists>bd'. find_symbol_loop m e sec addr ty (of_nat k) n bd = Inr bd' \<and> nearest (sym_match m e sec addr ty) (sym_dist m e sec addr) N bd'"
  using assms(4,5)
proof (induction n arbitrary: k bd)
  case 0
  then show ?case by simp
next
  case (Suc n)
  let ?c = "sym_ptr m e sec k" and ?M = "sym_match m e sec addr ty" and ?d = "sym_dist m e sec addr"
  have kN: "k < N" and kn: "Suc k + n = N" using Suc.prems(2) by simp_all
  have "N < 2 ^ LENGTH(32)" unfolding assms(2) by (rule unsigned_less)
  then have "k < 2 ^ LENGTH(32)" using kN by (rule less_trans [rotated])
  then have u: "unat (of_nat k :: u32) = k" by (rule unat_of_nat_lt)
  have "\<not> sh_size m (sectionHeader m e sec) div sh_entsize m (sectionHeader m e sec) \<le> of_nat k" using kN u assms(2) by (simp add: word_le_nat_alt)
  then have rs: "runtimeSymbol m e sec (of_nat k) = Inr ?c" using sz by (simp add: runtimeSymbol_def symbol_at_def entries_def sym_ptr_def Let_def)
  have d: "?d j < 0xffffffff" if "?M j" for j using that by (simp add: sym_match_def)
  let ?bd = "if ?M k \<and> ?d k < snd bd then (of_nat k, ?d k) else bd"
  have "unat (0xffffffff :: u32) = 4294967295" by simp
  then have le: "snd bd \<le> 0xffffffff" unfolding word_le_nat_alt using unat_lt_32 [of "snd bd"] by linarith
  have eq: "(ucast (sym_info m ?c) = ty \<and> sym_value m ?c \<le> addr \<and> addr - sym_value m ?c < snd bd) \<longleftrightarrow> ?M k \<and> ?d k < snd bd"
    using le by (auto simp: sym_match_def sym_dist_def intro: less_le_trans)
  have "find_symbol_loop m e sec addr ty (of_nat k) (Suc n) bd = find_symbol_loop m e sec addr ty (of_nat (Suc k)) n ?bd"
    using rs nn [OF kN] eq by (simp add: sym_dist_def add.commute)
  moreover have "\<exists>bd'. find_symbol_loop m e sec addr ty (of_nat (Suc k)) n ?bd = Inr bd' \<and> nearest ?M ?d N bd'"
    using Suc.IH [OF nearest_step [OF Suc.prems(1) u d] kn] .
  ultimately show ?case by simp
qed

section \<open>Properties\<close>

text \<open>C29: The symbol search that names the frames of a panic returns the first symbol of the wanted kind that lies nearest below the
  address among all symbols of the table, and symbol 0 when there is none, whatever the order of the symbols.\<close>

theorem elf_finds_nearest_symbol:
  assumes "sec = sectionByType m e SHT_SYMTAB 0" and "sh_entsize m (sectionHeader m e sec) \<noteq> 0"
    and "N = unat (sh_size m (sectionHeader m e sec) div sh_entsize m (sectionHeader m e sec))" and "\<forall>j < N. sym_ptr m e sec j \<noteq> NULL"
  shows "\<exists>r. runtimeFindSymbolId m e addr ty = Inr r \<and>
    (if \<exists>j < N. sym_match m e sec addr ty j
     then unat r < N \<and> sym_match m e sec addr ty (unat r) \<and> (\<forall>j < N. sym_match m e sec addr ty j \<longrightarrow>
       sym_dist m e sec addr (unat r) \<le> sym_dist m e sec addr j \<and> (sym_dist m e sec addr j = sym_dist m e sec addr (unat r) \<longrightarrow> unat r \<le> j))
     else r = 0)"
proof -
  have "nearest (sym_match m e sec addr ty) (sym_dist m e sec addr) 0 (0, 0xffffffff)" by (simp add: nearest_def)
  from find_symbol_loop_nearest [OF assms(2,3) _ this, of N] assms(4) obtain bd where
    bd: "find_symbol_loop m e sec addr ty 0 N (0, 0xffffffff) = Inr bd" "nearest (sym_match m e sec addr ty) (sym_dist m e sec addr) N bd" by auto
  have "runtimeFindSymbolId m e addr ty = Inr (fst bd)"
    using bd(1) assms(2,3) unfolding runtimeFindSymbolId_def assms(1) [symmetric] by (simp add: entries_def Let_def)
  moreover have "if \<exists>j < N. sym_match m e sec addr ty j
     then unat (fst bd) < N \<and> sym_match m e sec addr ty (unat (fst bd)) \<and> (\<forall>j < N. sym_match m e sec addr ty j \<longrightarrow>
       sym_dist m e sec addr (unat (fst bd)) \<le> sym_dist m e sec addr j \<and> (sym_dist m e sec addr j = sym_dist m e sec addr (unat (fst bd)) \<longrightarrow> unat (fst bd) \<le> j))
     else fst bd = 0" using bd(2) by (auto simp: nearest_def split: if_splits)
  ultimately show ?thesis by blast
qed

text \<open>A header at \<open>0x1000\<close> whose section 1 is a symbol table at \<open>0x2000\<close>: symbol 1 is a function at \<open>0x100\<close> and symbol 2 one at \<open>0x200\<close>.\<close>

definition elf_example :: bytes where
  "elf_example = (\<lambda>a. if a = 0x1020 then 52 else if a = 0x102e then 40 else if a = 0x1030 then 2 else if a = 0x1060 then 2 else if a = 0x1069 then 0x20
     else if a = 0x1070 then 48 else if a = 0x1080 then 16 else if a = 0x2015 then 1 else if a = 0x201c then 2 else if a = 0x2025 then 2
     else if a = 0x202c then 2 else 0)"

lemmas elf_reads = elf_example_def read32_def read16_def shoff_def shentsize_def shnum_def sh_type_def sh_addr_def sh_size_def sh_entsize_def
  sym_value_def sym_info_def

theorem elf_finds_nearest_symbol_witness: "runtimeFindSymbolId elf_example 0x1000 0x250 2 = Inr 2"
proof -
  let ?m = elf_example and ?e = "0x1000 :: u32"
  have h: "sectionHeader ?m ?e 0 = 0x1034" "sectionHeader ?m ?e 1 = 0x105c" by (simp_all add: sectionHeader_def elf_reads)
  have t: "sh_type ?m 0x1034 = 0" "sh_type ?m 0x105c = 2" "shnum ?m ?e = 2" by (simp_all add: elf_reads)
  have "section_loop ?m ?e 2 0 = 1" using h t by (subst section_loop.simps, subst section_loop.simps) simp
  then have sec: "1 = sectionByType ?m ?e SHT_SYMTAB 0" using h t by (simp add: sectionByType_def SHT_SYMTAB_def)
  have z: "sh_entsize ?m (sectionHeader ?m ?e 1) = 16" "sh_size ?m (sectionHeader ?m ?e 1) = 48" "sh_addr ?m (sectionHeader ?m ?e 1) = 0x2000"
    unfolding h by (simp_all add: elf_reads)
  then have n: "3 = unat (sh_size ?m (sectionHeader ?m ?e 1) div sh_entsize ?m (sectionHeader ?m ?e 1))" by simp
  have p: "sym_ptr ?m ?e 1 0 = 0x2000" "sym_ptr ?m ?e 1 1 = 0x2010" "sym_ptr ?m ?e 1 2 = 0x2020" using z by (simp_all add: sym_ptr_def runtimeSectionData_def)
  have nn: "\<forall>j < 3. sym_ptr ?m ?e 1 j \<noteq> NULL" 
  proof (intro allI impI)
    fix j :: nat
    assume "j < 3"
    then have "j = 0 \<or> j = 1 \<or> j = 2" by linarith
    then show "sym_ptr ?m ?e 1 j \<noteq> NULL" using p by (elim disjE) simp_all
  qed
  have d: "sym_dist ?m ?e 1 0x250 1 = 0x150" "sym_dist ?m ?e 1 0x250 2 = 0x50" using p by (simp_all add: sym_dist_def elf_reads)
  have ma: "\<not> sym_match ?m ?e 1 0x250 2 0" "sym_match ?m ?e 1 0x250 2 1" "sym_match ?m ?e 1 0x250 2 2" using p d by (simp_all add: sym_match_def elf_reads)
  have ex: "\<exists>j < 3 :: nat. sym_match ?m ?e 1 0x250 2 j" using ma(3) by (intro exI [of _ 2]) simp
  from elf_finds_nearest_symbol [OF sec _ n nn, of "0x250" 2] z ex obtain r where
    r: "runtimeFindSymbolId ?m ?e 0x250 2 = Inr r" "unat r < 3" "sym_match ?m ?e 1 0x250 2 (unat r)"
      "\<forall>j < 3. sym_match ?m ?e 1 0x250 2 j \<longrightarrow> sym_dist ?m ?e 1 0x250 (unat r) \<le> sym_dist ?m ?e 1 0x250 j" by auto
  have "sym_dist ?m ?e 1 0x250 (unat r) \<le> 0x50" using spec [OF r(4), of 2] ma(3) d(2) by simp
  then have "unat r \<noteq> 1" using d(1) by (intro notI) simp
  moreover have "unat r \<noteq> 0" using r(3) ma(1) by (intro notI) (simp only:)
  ultimately have "unat r = unat (2 :: u32)" using r(2) by simp
  then have "r = 2" by (simp only: unsigned_word_eqI)
  then show ?thesis using r(1) by simp
qed

end
