(* ===== verification/Interrupts.thy ===== *)
theory Interrupts
  imports Task Console
begin

text \<open>
  \<open>src/int/idt.cpp\<close>, \<open>src/int/exceptions.cpp\<close>, \<open>src/mem/gdt.cpp\<close>, \<open>src/int/pic.cpp\<close> and \<open>src/int/ioapic.cpp\<close>: the
  tables of segments and interrupts, the handlers of the processor's exceptions with the page fault on top of the address
  space of the current thread, and the two interrupt controllers. The address of an assembly stub is an argument; a
  handler is the function it runs.
\<close>

section \<open>Segments\<close>

definition ACCESS_PRESENT :: u8 where "ACCESS_PRESENT = push_bit 7 1"
definition GDT_ACCESS_PRIV :: "u8 \<Rightarrow> u8" where "GDT_ACCESS_PRIV x = push_bit 5 x"
definition ACCESS_EXECUTABLE :: u8 where "ACCESS_EXECUTABLE = push_bit 3 1"
definition ACCESS_DC :: u8 where "ACCESS_DC = push_bit 2 1"
definition ACCESS_RW :: u8 where "ACCESS_RW = push_bit 1 1"
definition FLAG_GRANULARITY :: u8 where "FLAG_GRANULARITY = push_bit 3 1"
definition FLAG_SIZE :: u8 where "FLAG_SIZE = push_bit 2 1"

definition GDT_SELECTOR :: "u16 \<Rightarrow> u16 \<Rightarrow> u16 \<Rightarrow> u16" where
  "GDT_SELECTOR rpl ti index = rpl OR push_bit 2 ti OR push_bit 3 index"

text \<open>The upper word is built in 32 bits and shifted; \<open>base << 16\<close> is a 32-bit value that is widened afterwards.\<close>

definition gdt_high :: "u32 \<Rightarrow> u32 \<Rightarrow> u8 \<Rightarrow> u8 \<Rightarrow> u32" where
  "gdt_high base limit flags access = (limit AND 0x000f0000) OR push_bit 20 (ucast flags) OR push_bit 12 1 OR push_bit 8 (ucast access) OR
     (drop_bit 16 base AND 0xff) OR (base AND 0xff000000)"

definition gdt_set_entry :: "u32 \<Rightarrow> u32 \<Rightarrow> u8 \<Rightarrow> u8 \<Rightarrow> u64" where
  "gdt_set_entry base limit flags access = push_bit 32 (ucast (gdt_high base limit flags access)) OR
     ucast (push_bit 16 base :: u32) OR ucast (limit AND 0xffff)"

definition gdt_init :: "u64 list" where
  "gdt_init = [gdt_set_entry 0 0 0 ACCESS_PRESENT,
     gdt_set_entry 0 0xfffff (FLAG_GRANULARITY OR FLAG_SIZE) (ACCESS_PRESENT OR GDT_ACCESS_PRIV 0 OR ACCESS_RW),
     gdt_set_entry 0 0xfffff (FLAG_GRANULARITY OR FLAG_SIZE)
       (ACCESS_PRESENT OR GDT_ACCESS_PRIV 0 OR ACCESS_EXECUTABLE OR ACCESS_DC OR ACCESS_RW)]"

definition gdt_descriptor :: "u32 \<Rightarrow> u16 \<times> u32" where
  "gdt_descriptor table = (8 * 3, table)"

section \<open>The interrupt table\<close>

record idt_entry =
  ie_offset_low :: u16
  ie_selector :: u16
  ie_zero :: u8
  ie_type_attr :: u8
  ie_offset_high :: u16

record idt_proc_state =
  ps_edi :: u32
  ps_esi :: u32
  ps_ebp :: u32
  ps_esp :: u32
  ps_ebx :: u32
  ps_edx :: u32
  ps_ecx :: u32
  ps_eax :: u32

text \<open>The three arrays have 256 elements, one for each value of a byte. \<open>'r\<close> is what a handler does.\<close>

record 'r idt =
  it_table :: "u8 \<Rightarrow> idt_entry"
  it_functions :: "u8 \<Rightarrow> (idt_proc_state \<Rightarrow> 'r) option"
  it_functions_err :: "u8 \<Rightarrow> (idt_proc_state \<Rightarrow> u32 \<Rightarrow> 'r) option"

definition FLAG_PRESENT :: u8 where "FLAG_PRESENT = push_bit 7 1"
definition GATE_32_INT :: u8 where "GATE_32_INT = 0xe"

definition enable_entry :: "u8 \<Rightarrow> u32 \<Rightarrow> 'r idt \<Rightarrow> 'r idt" where
  "enable_entry vector offset s = s\<lparr>it_table := (it_table s)(vector := (it_table s vector)
     \<lparr>ie_offset_low := ucast (offset AND 0xffff), ie_offset_high := ucast (drop_bit 16 offset)\<rparr>)\<rparr>"

definition update_entry :: "u16 \<Rightarrow> u8 \<Rightarrow> idt_entry \<Rightarrow> idt_entry" where
  "update_entry selector type_attr x = x\<lparr>ie_selector := selector, ie_zero := 0, ie_type_attr := type_attr\<rparr>"

definition idt_install :: "u8 \<Rightarrow> (idt_proc_state \<Rightarrow> 'r) \<Rightarrow> u16 \<Rightarrow> u8 \<Rightarrow> 'r idt \<Rightarrow> 'r idt result" where
  "idt_install n f selector type_attr s =
     (if ie_offset_high (it_table s n) = 0 then Inl (Panic ''Tried to install an IDT entry for un-enabled interrupt'')
      else Inr (s\<lparr>it_functions := (it_functions s)(n \<mapsto> f),
        it_table := (it_table s)(n := update_entry selector (type_attr OR FLAG_PRESENT) (it_table s n))\<rparr>))"

definition idt_install_with_error :: "u8 \<Rightarrow> (idt_proc_state \<Rightarrow> u32 \<Rightarrow> 'r) \<Rightarrow> u16 \<Rightarrow> u8 \<Rightarrow> 'r idt \<Rightarrow> 'r idt result" where
  "idt_install_with_error n f selector type_attr s =
     (if ie_offset_high (it_table s n) = 0 then Inl (Panic ''Tried to install an IDT entry for un-enabled interrupt'')
      else Inr (s\<lparr>it_functions_err := (it_functions_err s)(n \<mapsto> f),
        it_table := (it_table s)(n := update_entry selector (type_attr OR FLAG_PRESENT) (it_table s n))\<rparr>))"

text \<open>The descriptor: the size of 256 entries of eight bytes, less one, and the address of the table.\<close>

definition idt_init :: "u32 \<Rightarrow> u16 \<times> u32" where
  "idt_init table = (256 * 8 - 1, table)"

text \<open>Dispatching; a vector behind the arrays is an invalid access, and an interrupt without handler is ignored.\<close>

definition idt_handle :: "'r idt \<Rightarrow> u32 \<Rightarrow> idt_proc_state \<Rightarrow> 'r option result" where
  "idt_handle s vector st = (if 256 \<le> vector then Inl Fault else Inr (map_option (\<lambda>f. f st) (it_functions s (ucast vector))))"

definition idt_handle_with_error :: "'r idt \<Rightarrow> u32 \<Rightarrow> idt_proc_state \<Rightarrow> u32 \<Rightarrow> 'r option result" where
  "idt_handle_with_error s vector st errcode =
     (if 256 \<le> vector then Inl Fault else Inr (map_option (\<lambda>f. f st errcode) (it_functions_err s (ucast vector))))"

section \<open>Exceptions\<close>

text \<open>\<open>panic_at\<close> does not return; its arguments are the outcome. The other outcome is a return to the interrupted code.
  \<open>en_word\<close> reads the stack, \<open>en_cr2\<close> is the address of a page fault.\<close>

datatype exc_out = PanicAt u32 u32 string "u32 list" | Resumed

record exc_env =
  en_word :: "u32 \<Rightarrow> u32"
  en_cr2 :: u32
  en_cpu :: nat
  en_fuel :: nat
  en_gen :: "u32 \<Rightarrow> u32 \<Rightarrow> u32 \<Rightarrow> mem \<Rightarrow> (u32 \<times> mem) result"

type_synonym exc = "exc_env \<Rightarrow> tstate \<Rightarrow> (exc_out \<times> tstate) result"

definition panic_plain :: "string \<Rightarrow> idt_proc_state \<Rightarrow> exc" where
  "panic_plain msg st en s = Inr (PanicAt (ps_ebp st) (en_word en (ps_esp st)) msg [], s)"

definition panic_err :: "string \<Rightarrow> idt_proc_state \<Rightarrow> u32 \<Rightarrow> exc" where
  "panic_err msg st errcode en s = Inr (PanicAt (ps_ebp st) (en_word en (ps_esp st + 4)) msg [errcode], s)"

definition exc_div0 :: "idt_proc_state \<Rightarrow> exc" where "exc_div0 = panic_plain ''Division by 0''"
definition exc_debug :: "idt_proc_state \<Rightarrow> exc" where "exc_debug = panic_plain ''Debug Exception''"
definition exc_nmi :: "idt_proc_state \<Rightarrow> exc" where "exc_nmi = panic_plain ''NMI Received (Hardware Failure?)''"
definition exc_overflow :: "idt_proc_state \<Rightarrow> exc" where "exc_overflow = panic_plain ''Overflow Exception''"
definition bound_range_exceeded :: "idt_proc_state \<Rightarrow> exc" where "bound_range_exceeded = panic_plain ''Bound Range Exceeded Exception''"
definition invalid_opcode :: "idt_proc_state \<Rightarrow> exc" where "invalid_opcode = panic_plain ''Invalid Opcode''"
definition double_fault :: "idt_proc_state \<Rightarrow> u32 \<Rightarrow> exc" where "double_fault = panic_err ''Double Fault %x''"
definition invalid_tss :: "idt_proc_state \<Rightarrow> u32 \<Rightarrow> exc" where "invalid_tss = panic_err ''Invalid TSS %x''"
definition segment_not_present :: "idt_proc_state \<Rightarrow> u32 \<Rightarrow> exc" where "segment_not_present = panic_err ''Segment not Present %x''"
definition stack_segment_not_present :: "idt_proc_state \<Rightarrow> u32 \<Rightarrow> exc" where
  "stack_segment_not_present = panic_err ''Stack-Segment not Present %x''"
definition exc_gpf :: "idt_proc_state \<Rightarrow> u32 \<Rightarrow> exc" where "exc_gpf = panic_err ''General Protection Fault %x''"
definition floating_point :: "idt_proc_state \<Rightarrow> exc" where "floating_point = panic_plain ''Floating Point Exception''"

definition page_fault :: "idt_proc_state \<Rightarrow> u32 \<Rightarrow> exc" where
  "page_fault st errcode en s = (let eip = en_word en (ps_esp st + 4); addr = en_cr2 en; c = en_cpu en;
       unresolved = PanicAt (ps_ebp st) eip ''Unresolved Page Fault %x [Address: %p]'' [errcode, addr] in
     bindE (cpu_current_thread c s) (\<lambda>(t, s1). if t = NULL then Inr (unresolved, s1)
     else bindE (cpu_current_thread c s1) (\<lambda>(t2, s2). bindE (rd_thread s2 t2) (\<lambda>th.
       bindE (resolve_fault (en_fuel en) (en_gen en) (th_vm th) addr ((ts_w s2)\<lparr>vw_cpu := of_nat c\<rparr>)) (\<lambda>(ok, w).
       Inr (if ok then Resumed else unresolved, s2\<lparr>ts_w := w\<rparr>))))))"

definition INT_DIV0 :: u8 where "INT_DIV0 = 0x0"
definition INT_DEBUG :: u8 where "INT_DEBUG = 0x1"
definition INT_NMI :: u8 where "INT_NMI = 0x2"
definition INT_OVERFLOW :: u8 where "INT_OVERFLOW = 0x4"
definition INT_BOUND_RANGE_EXCEEDED :: u8 where "INT_BOUND_RANGE_EXCEEDED = 0x5"
definition INT_INVALID_OPCODE :: u8 where "INT_INVALID_OPCODE = 0x6"
definition INT_DOUBLE_FAULT :: u8 where "INT_DOUBLE_FAULT = 0x8"
definition INT_INVALID_TSS :: u8 where "INT_INVALID_TSS = 0xa"
definition INT_SEGMENT_NOT_PRESENT :: u8 where "INT_SEGMENT_NOT_PRESENT = 0xb"
definition INT_STACK_SEGMENT_NOT_PRESENT :: u8 where "INT_STACK_SEGMENT_NOT_PRESENT = 0xc"
definition INT_GPF :: u8 where "INT_GPF = 0xd"
definition INT_PAGE_FAULT :: u8 where "INT_PAGE_FAULT = 0xe"
definition INT_FLOATING_POINT :: u8 where "INT_FLOATING_POINT = 0x10"

definition kernel_code :: u16 where "kernel_code = GDT_SELECTOR 0 0 2"

definition exc_plain :: "(u8 \<times> (idt_proc_state \<Rightarrow> exc)) list" where
  "exc_plain = [(INT_DIV0, exc_div0), (INT_DEBUG, exc_debug), (INT_NMI, exc_nmi), (INT_OVERFLOW, exc_overflow),
     (INT_BOUND_RANGE_EXCEEDED, bound_range_exceeded), (INT_INVALID_OPCODE, invalid_opcode)]"

definition exc_err :: "(u8 \<times> (idt_proc_state \<Rightarrow> u32 \<Rightarrow> exc)) list" where
  "exc_err = [(INT_DOUBLE_FAULT, double_fault), (INT_INVALID_TSS, invalid_tss), (INT_SEGMENT_NOT_PRESENT, segment_not_present),
     (INT_STACK_SEGMENT_NOT_PRESENT, stack_segment_not_present), (INT_GPF, exc_gpf), (INT_PAGE_FAULT, page_fault)]"

fun install_all :: "(u8 \<times> (idt_proc_state \<Rightarrow> 'r)) list \<Rightarrow> 'r idt \<Rightarrow> 'r idt result" where
  "install_all [] s = Inr s"
| "install_all (p # ps) s = bindE (idt_install (fst p) (snd p) kernel_code GATE_32_INT s) (install_all ps)"

fun install_all_err :: "(u8 \<times> (idt_proc_state \<Rightarrow> u32 \<Rightarrow> 'r)) list \<Rightarrow> 'r idt \<Rightarrow> 'r idt result" where
  "install_all_err [] s = Inr s"
| "install_all_err (p # ps) s = bindE (idt_install_with_error (fst p) (snd p) kernel_code GATE_32_INT s) (install_all_err ps)"

text \<open>\<open>exceptions::init\<close>: \<open>stub v\<close> is the address of the assembly routine for vector \<open>v\<close>.\<close>

definition exceptions_init :: "(u8 \<Rightarrow> u32) \<Rightarrow> exc idt \<Rightarrow> exc idt result" where
  "exceptions_init stub s = (let s1 = fold (\<lambda>v. enable_entry v (stub v)) (map fst exc_plain @ map fst exc_err @ [INT_FLOATING_POINT]) s in
     bindE (install_all exc_plain s1) (\<lambda>s2. bindE (install_all_err exc_err s2) (install_all [(INT_FLOATING_POINT, floating_point)])))"

section \<open>The interrupt controllers\<close>

definition IO_PORT_MPIC_COM :: u16 where "IO_PORT_MPIC_COM = 0x20"
definition IO_PORT_MPIC_DAT :: u16 where "IO_PORT_MPIC_DAT = 0x21"
definition IO_PORT_SPIC_COM :: u16 where "IO_PORT_SPIC_COM = 0xa0"
definition IO_PORT_SPIC_DAT :: u16 where "IO_PORT_SPIC_DAT = 0xa1"
definition INT_MBASE :: u8 where "INT_MBASE = 0x20"
definition INT_SBASE :: u8 where "INT_SBASE = INT_MBASE + 8"
definition ICW1_ICW4 :: u8 where "ICW1_ICW4 = 0x01"
definition ICW1_INIT :: u8 where "ICW1_INIT = 0x10"
definition ICW4_8086 :: u8 where "ICW4_8086 = 0x01"
definition INT_IRQ_CASCADE :: nat where "INT_IRQ_CASCADE = 2"

text \<open>\<open>pic::init\<close> up to \<open>sti\<close>: the bytes written and the waits between them.\<close>

definition pic_out :: "'d hw \<Rightarrow> u16 \<times> u8 \<Rightarrow> 'd \<Rightarrow> 'd" where
  "pic_out H pv d = io_wait H (hw_outb H (fst pv) (snd pv) d)"

definition pic_init :: "'d hw \<Rightarrow> 'd \<Rightarrow> 'd" where
  "pic_init H d = (let mm = NOT (push_bit INT_IRQ_CASCADE 1); sm = NOT 0;
     d1 = fold (pic_out H) [(IO_PORT_MPIC_COM, ICW1_INIT + ICW1_ICW4), (IO_PORT_SPIC_COM, ICW1_INIT + ICW1_ICW4),
       (IO_PORT_MPIC_DAT, INT_MBASE), (IO_PORT_SPIC_DAT, INT_SBASE), (IO_PORT_MPIC_DAT, 4), (IO_PORT_SPIC_DAT, 2),
       (IO_PORT_MPIC_DAT, ICW4_8086), (IO_PORT_SPIC_DAT, ICW4_8086)] d
     in hw_outb H IO_PORT_SPIC_DAT sm (hw_outb H IO_PORT_MPIC_DAT mm d1))"

definition pic_port :: "u8 \<Rightarrow> u16 \<times> u8" where
  "pic_port irq = (if irq < 8 then (IO_PORT_MPIC_DAT, irq) else (IO_PORT_SPIC_DAT, irq - 8))"

definition pic_enable :: "'d hw \<Rightarrow> u8 \<Rightarrow> 'd \<Rightarrow> 'd" where
  "pic_enable H irq d = (let (port, i) = pic_port irq; (v, d1) = hw_inb H port d in hw_outb H port (v AND NOT (push_bit (unat i) 1)) d1)"

definition pic_disable :: "'d hw \<Rightarrow> u8 \<Rightarrow> 'd \<Rightarrow> 'd" where
  "pic_disable H irq d = (let (port, i) = pic_port irq; (v, d1) = hw_inb H port d in hw_outb H port (v OR push_bit (unat i) 1) d1)"

text \<open>The I/O APIC has an address and a data register; \<open>io_writes\<close> is the log of the words written to memory, oldest first. The order of the three reads of \<open>init\<close> is one that C++ allows.\<close>

record ioapic =
  io_base :: u32
  io_writes :: "(u32 \<times> u32) list"

definition ioapic_DATA :: u32 where "ioapic_DATA = 4"
definition ioapic_ADDR :: u32 where "ioapic_ADDR = 0"
definition REG_ID :: u32 where "REG_ID = 0"
definition REG_VER :: u32 where "REG_VER = 1"
definition REG_IRQ :: "u8 \<Rightarrow> u32" where "REG_IRQ x = ucast x * 2 + 0x10"
definition ioapic_MASK :: u32 where "ioapic_MASK = push_bit 16 1"
definition INT_IOAPIC_BASE :: u8 where "INT_IOAPIC_BASE = 0x30"

definition ioapic_put :: "u32 \<Rightarrow> u32 \<Rightarrow> ioapic \<Rightarrow> ioapic" where
  "ioapic_put i v a = a\<lparr>io_writes := io_writes a @ [(io_base a + 4 * i, v)]\<rparr>"

definition ioapic_write :: "u32 \<Rightarrow> u32 \<Rightarrow> ioapic \<Rightarrow> ioapic" where
  "ioapic_write rg v a = ioapic_put ioapic_DATA v (ioapic_put ioapic_ADDR rg a)"

definition ioapic_read :: "(u32 \<Rightarrow> u32 \<Rightarrow> u32) \<Rightarrow> u32 \<Rightarrow> ioapic \<Rightarrow> u32 \<times> ioapic" where
  "ioapic_read rd rg a = (rd rg (io_base a + 4 * ioapic_DATA), ioapic_put ioapic_ADDR rg a)"

definition ioapic_vectors :: "u8 list" where
  "ioapic_vectors = map (\<lambda>i. INT_IOAPIC_BASE + i) [1, 2, 3, 4, 5, 6, 7, 8, 9, 0xa, 0xb, 0xc, 0xd, 0xe, 0xf]"

definition ioapic_init :: "nat \<Rightarrow> (u8 \<Rightarrow> u32) \<Rightarrow> mem \<Rightarrow> 'r idt \<Rightarrow> ioapic \<Rightarrow> (mem \<times> 'r idt \<times> ioapic) result" where
  "ioapic_init k stub m s a = (let s1 = fold (\<lambda>v. enable_entry v (stub v)) ioapic_vectors s in
     bindE (page_create k 0xfec00000 FLAG_KERNEL 1 m) (\<lambda>(pg, m1). bindE (kinstall k pg (PAGE_TABLE_CACHEDISABLE OR PAGE_TABLE_RW) m1) (\<lambda>(base, m2).
     let a1 = a\<lparr>io_base := base\<rparr> in
     Inr (m2, s1, ioapic_put ioapic_ADDR (REG_IRQ 0) (ioapic_put ioapic_ADDR REG_VER (ioapic_put ioapic_ADDR REG_ID a1))))))"

definition ioapic_enable :: "u8 \<Rightarrow> u8 \<Rightarrow> u64 \<Rightarrow> ioapic \<Rightarrow> ioapic" where
  "ioapic_enable irq vector flags a = ioapic_write (REG_IRQ irq) (ucast (ucast vector OR flags)) a"

definition ioapic_disable :: "u8 \<Rightarrow> ioapic \<Rightarrow> ioapic" where
  "ioapic_disable irq a = ioapic_write (REG_IRQ irq) ioapic_MASK a"

definition enable_func :: "u8 \<Rightarrow> (idt_proc_state \<Rightarrow> 'r) \<Rightarrow> u64 \<Rightarrow> 'r idt \<times> ioapic \<Rightarrow> ('r idt \<times> ioapic) result" where
  "enable_func irq f flags sa = bindE (idt_install (INT_IOAPIC_BASE + irq) f kernel_code GATE_32_INT (fst sa)) (\<lambda>s1.
     Inr (s1, ioapic_enable irq (INT_IOAPIC_BASE + irq) flags (snd sa)))"

section \<open>What the tables contain\<close>

text \<open>The processor's view of a segment descriptor and of a gate.\<close>

definition seg_base :: "u64 \<Rightarrow> u32" where
  "seg_base d = ucast (drop_bit 16 d AND 0xffffff) OR push_bit 24 (ucast (drop_bit 56 d))"

definition seg_limit :: "u64 \<Rightarrow> u32" where
  "seg_limit d = ucast (d AND 0xffff) OR push_bit 16 (ucast (drop_bit 48 d AND 0xf))"

definition seg_access :: "u64 \<Rightarrow> u8" where "seg_access d = ucast (drop_bit 40 d)"
definition seg_flags :: "u64 \<Rightarrow> u8" where "seg_flags d = ucast (drop_bit 52 d AND 0xf)"

definition gate_offset :: "idt_entry \<Rightarrow> u32" where
  "gate_offset x = push_bit 16 (ucast (ie_offset_high x)) OR ucast (ie_offset_low x)"

definition gate_of :: "'r idt \<Rightarrow> u8 \<Rightarrow> u32 \<times> u16 \<times> u8" where
  "gate_of s v = (gate_offset (it_table s v), ie_selector (it_table s v), ie_type_attr (it_table s v))"

definition enabled_at :: "(u8 \<Rightarrow> u32) \<Rightarrow> 'r idt \<Rightarrow> u8 \<Rightarrow> bool" where
  "enabled_at stub s v \<longleftrightarrow> gate_offset (it_table s v) = stub v"

text \<open>Masks as runs of ones, so that their bits are known.\<close>

lemma mask_literals:
  "(0xf :: u64) = mask 4" "(0xffff :: u64) = mask 16" "(0xffffff :: u64) = mask 24" "(0xff :: u32) = mask 8" "(0xffff :: u32) = mask 16"
  "(0x000f0000 :: u32) = push_bit 16 (mask 4)" "(0xff000000 :: u32) = push_bit 24 (mask 8)"
  by (simp_all add: mask_eq_exp_minus_1 push_bit_eq_mult)

lemma drop_bit_zero_high:
  fixes w :: "'a::len word"
  assumes "drop_bit k w = 0" and "k \<le> n"
  shows "\<not> bit w n"
proof -
  have "bit (drop_bit k w) (n - k) = bit w n" using assms(2) by (simp add: bit_drop_bit_eq)
  then show ?thesis using assms(1) by simp
qed

lemma gate_offset_enable: "gate_offset (x\<lparr>ie_offset_low := ucast (a AND 0xffff), ie_offset_high := ucast (drop_bit 16 a)\<rparr>) = a"
  unfolding gate_offset_def mask_literals by (rule bit_word_eqI) (auto simp: bit_simps)

lemma gate_offset_high: "0x10000 \<le> gate_offset x \<Longrightarrow> ie_offset_high x \<noteq> 0"
proof
  assume a: "0x10000 \<le> gate_offset x" and "ie_offset_high x = 0"
  then have "gate_offset x = ucast (ie_offset_low x)" by (simp add: gate_offset_def)
  moreover have b: "unat (ie_offset_low x) < 65536" using unsigned_less [of "ie_offset_low x"] by simp
  ultimately have "unat (gate_offset x) = unat (ie_offset_low x)" by (simp add: unsigned_ucast_eq take_bit_nat_eq_self)
  then show False using a b by (simp add: word_le_nat_alt)
qed

lemma gate_offset_update [simp]: "gate_offset (update_entry sl t x) = gate_offset x" "ie_selector (update_entry sl t x) = sl"
  "ie_type_attr (update_entry sl t x) = t" "ie_offset_high (update_entry sl t x) = ie_offset_high x"
  "update_entry sl t (update_entry sl t x) = update_entry sl t x"
  by (simp_all add: update_entry_def gate_offset_def)

lemma enable_all:
  "gate_offset (it_table (fold (\<lambda>v. enable_entry v (stub v)) vs s) v) = (if v \<in> set vs then stub v else gate_offset (it_table s v))"
  "it_functions (fold (\<lambda>v. enable_entry v (stub v)) vs s) = it_functions s"
  "it_functions_err (fold (\<lambda>v. enable_entry v (stub v)) vs s) = it_functions_err s"
  "v \<notin> set vs \<Longrightarrow> it_table (fold (\<lambda>v. enable_entry v (stub v)) vs s) v = it_table s v"
  by (induction vs arbitrary: s) (auto simp: enable_entry_def gate_offset_enable)

definition installed :: "u8 set \<Rightarrow> (u8 \<Rightarrow> idt_entry) \<Rightarrow> u8 \<Rightarrow> idt_entry" where
  "installed V tab = (\<lambda>v. if v \<in> V then update_entry kernel_code (GATE_32_INT OR FLAG_PRESENT) (tab v) else tab v)"

lemma installed_insert: "installed V (tab(n := update_entry kernel_code (GATE_32_INT OR FLAG_PRESENT) (tab n))) = installed (insert n V) tab"
  by (auto simp: installed_def)

lemma installed_high [simp]: "ie_offset_high (installed V tab v) = ie_offset_high (tab v)" "gate_offset (installed V tab v) = gate_offset (tab v)"
  by (simp_all add: installed_def)

lemma install_all_ok:
  assumes "\<forall>p \<in> set ps. ie_offset_high (it_table s (fst p)) \<noteq> 0"
  shows "install_all ps s = Inr (s\<lparr>it_functions := it_functions s ++ map_of (rev ps), it_table := installed (fst ` set ps) (it_table s)\<rparr>)"
  using assms
proof (induction ps arbitrary: s)
  case Nil
  then show ?case by (simp add: installed_def)
next
  case (Cons p ps)
  let ?s = "s\<lparr>it_functions := (it_functions s)(fst p \<mapsto> snd p),
    it_table := (it_table s)(fst p := update_entry kernel_code (GATE_32_INT OR FLAG_PRESENT) (it_table s (fst p)))\<rparr>"
  have "\<forall>q \<in> set ps. ie_offset_high (it_table ?s (fst q)) \<noteq> 0" using Cons.prems by simp
  from Cons.IH [OF this] Cons.prems show ?case
    by (cases p) (simp add: idt_install_def installed_insert del: fun_upd_apply)
qed

lemma install_all_err_ok:
  assumes "\<forall>p \<in> set ps. ie_offset_high (it_table s (fst p)) \<noteq> 0"
  shows "install_all_err ps s = Inr (s\<lparr>it_functions_err := it_functions_err s ++ map_of (rev ps), it_table := installed (fst ` set ps) (it_table s)\<rparr>)"
  using assms
proof (induction ps arbitrary: s)
  case Nil
  then show ?case by (simp add: installed_def)
next
  case (Cons p ps)
  let ?s = "s\<lparr>it_functions_err := (it_functions_err s)(fst p \<mapsto> snd p),
    it_table := (it_table s)(fst p := update_entry kernel_code (GATE_32_INT OR FLAG_PRESENT) (it_table s (fst p)))\<rparr>"
  have "\<forall>q \<in> set ps. ie_offset_high (it_table ?s (fst q)) \<noteq> 0" using Cons.prems by simp
  from Cons.IH [OF this] Cons.prems show ?case
    by (cases p) (simp add: idt_install_with_error_def installed_insert del: fun_upd_apply)
qed

lemmas int_numbers = INT_DIV0_def INT_DEBUG_def INT_NMI_def INT_OVERFLOW_def INT_BOUND_RANGE_EXCEEDED_def INT_INVALID_OPCODE_def INT_DOUBLE_FAULT_def
  INT_INVALID_TSS_def INT_SEGMENT_NOT_PRESENT_def INT_STACK_SEGMENT_NOT_PRESENT_def INT_GPF_def INT_PAGE_FAULT_def INT_FLOATING_POINT_def

definition exc_vectors :: "u8 list" where
  "exc_vectors = map fst exc_plain @ map fst exc_err @ [INT_FLOATING_POINT]"

lemma exceptions_init_state:
  fixes s :: "exc idt" and stub :: "u8 \<Rightarrow> u32"
  assumes "\<And>v. 0x10000 \<le> stub v"
  defines "s1 \<equiv> fold (\<lambda>v. enable_entry v (stub v)) exc_vectors s"
  shows "exceptions_init stub s = Inr (s1\<lparr>it_functions := it_functions s ++ map_of (rev exc_plain) ++ [INT_FLOATING_POINT \<mapsto> floating_point],
      it_functions_err := it_functions_err s ++ map_of (rev exc_err), it_table := installed (set exc_vectors) (it_table s1)\<rparr>)"
proof -
  have hi: "ie_offset_high (it_table s1 v) \<noteq> 0" if "v \<in> set exc_vectors" for v
    by (rule gate_offset_high) (use assms(1) that in \<open>simp add: s1_def enable_all(1)\<close>)
  have 1: "install_all exc_plain s1 = Inr (s1\<lparr>it_functions := it_functions s1 ++ map_of (rev exc_plain), it_table := installed (fst ` set exc_plain) (it_table s1)\<rparr>)"
    (is "_ = Inr ?s2") by (rule install_all_ok) (use hi in \<open>auto simp: exc_vectors_def\<close>)
  have 2: "install_all_err exc_err ?s2 = Inr (?s2\<lparr>it_functions_err := it_functions_err ?s2 ++ map_of (rev exc_err), it_table := installed (fst ` set exc_err) (it_table ?s2)\<rparr>)"
    (is "_ = Inr ?s3") by (rule install_all_err_ok) (use hi in \<open>auto simp: exc_vectors_def\<close>)
  have 3: "install_all [(INT_FLOATING_POINT, floating_point)] ?s3 = Inr (?s3\<lparr>it_functions := it_functions ?s3 ++ map_of (rev [(INT_FLOATING_POINT, floating_point)]),
      it_table := installed (fst ` set [(INT_FLOATING_POINT, floating_point)]) (it_table ?s3)\<rparr>)"
    by (rule install_all_ok) (use hi in \<open>auto simp: exc_vectors_def\<close>)
  have t: "installed A (installed B (installed C tab)) = installed (C \<union> B \<union> A) tab" for A B C tab by (auto simp: installed_def)
  have v: "fst ` set exc_plain \<union> fst ` set exc_err \<union> fst ` set [(INT_FLOATING_POINT, floating_point)] = set exc_vectors" by (simp add: exc_vectors_def)
  have f: "it_functions s1 = it_functions s" "it_functions_err s1 = it_functions_err s" by (simp_all add: s1_def enable_all)
  have "exceptions_init stub s = install_all [(INT_FLOATING_POINT, floating_point)] ?s3"
    unfolding exceptions_init_def Let_def exc_vectors_def [symmetric] s1_def [symmetric] using 1 2 by simp
  with 3 show ?thesis unfolding t [symmetric] v [symmetric] by (simp add: f)
qed

text \<open>The bits of a descriptor.\<close>

lemma gdt_bits:
  "bit (gdt_set_entry base limit flags access) n = (if n < 16 then bit limit n else if n < 32 then bit base (n - 16)
     else n < 64 \<and> bit (gdt_high base limit flags access) (n - 32))"
proof -
  consider "n < 16" | "16 \<le> n" "n < 32" | "32 \<le> n" by linarith
  then show ?thesis unfolding gdt_set_entry_def mask_literals by cases (auto simp: bit_simps)
qed

lemma bit_4096: "bit (4096 :: u32) n \<longleftrightarrow> n = 12"
proof -
  have "bit (push_bit 12 1 :: u32) n \<longleftrightarrow> n = 12" by (auto simp only: bit_push_bit_iff bit_1_iff possible_bit_word) simp_all
  then show ?thesis by simp
qed

lemma bit_16: "bit (16 :: u8) n \<longleftrightarrow> n = 4"
proof -
  have "bit (push_bit 4 1 :: u8) n \<longleftrightarrow> n = 4" by (auto simp only: bit_push_bit_iff bit_1_iff possible_bit_word) simp_all
  then show ?thesis by simp
qed

lemma gdt_high_bits:
  assumes "drop_bit 20 limit = 0" and "drop_bit 4 flags = 0"
  shows "bit (gdt_high base limit flags access) n = (if n < 8 then bit base (n + 16) else if n < 16 then bit access (n - 8) \<or> n = 12
     else if n < 20 then bit limit n else if n < 24 then bit flags (n - 20) else n < 32 \<and> bit base n)"
proof -
  have l: "\<not> bit limit n" if "20 \<le> n" for n by (rule drop_bit_zero_high [OF assms(1) that])
  have f: "\<not> bit flags n" if "4 \<le> n" for n by (rule drop_bit_zero_high [OF assms(2) that])
  have a: "\<not> bit access n" if "8 \<le> n" for n using that bit_imp_le_length [of access n] by auto
  have s: "bit (gdt_high base limit flags access) n \<longleftrightarrow> bit (limit AND push_bit 16 (mask 4)) n \<or> bit (push_bit 20 (ucast flags) :: u32) n \<or> n = 12 \<or>
      bit (push_bit 8 (ucast access) :: u32) n \<or> bit (drop_bit 16 base AND mask 8) n \<or> bit (base AND push_bit 24 (mask 8)) n"
    unfolding gdt_high_def mask_literals using bit_4096 [of n] by (auto simp: bit_or_iff)
  consider "n < 8" | "8 \<le> n" "n < 16" | "16 \<le> n" "n < 20" | "20 \<le> n" "n < 24" | "24 \<le> n" "n < 32" | "32 \<le> n" by linarith
  then show ?thesis unfolding s by cases (auto simp: bit_simps l f a add.commute [of n])
qed

text \<open>Reading the current thread has no effect; a fault outside every window is not resolved.\<close>

lemma cpu_current_thread_reads:
  assumes "c < MAX_CORES" and "ts_cpus s c = Some i"
  shows "cpu_current_thread c s = Inr (cs_thread i, s)"
proof -
  have "(ts_cpus s)(c \<mapsto> i) = ts_cpus s" using assms(2) by auto
  then show ?thesis using assms push_cli_masks [of "cs_eflags i"]
    by (simp add: cpu_current_thread_def cpu_id_def cpu_status_at_def set_eflags_def)
qed

lemma resolve_fault_outside:
  assumes "vw_maps w mp = Some m" and "\<forall>y \<in> set (vm_oims m). \<exists>oi. vw_oims w y = Some oi \<and> \<not> in_window oi addr"
  shows "resolve_fault k gen mp addr w = Inr (False, with_sti w)"
proof -
  have "resolve_loop k gen addr ys (with_sti w) = Inr (False, with_sti w)"
    if "\<forall>y \<in> set ys. \<exists>oi. vw_oims w y = Some oi \<and> \<not> in_window oi addr" for ys
    using that by (induction ys) (auto simp: rd_oim_def with_sti_def in_window_def)
  then show ?thesis using assms by (simp add: resolve_fault_def rd_map_def Let_def with_sti_def)
qed

section \<open>Properties\<close>

text \<open>The segment descriptors that the kernel builds mean to the processor what was asked for: base, limit of 20 bits, flags and access
  byte (with the bit that marks code and data segments) are read back from any descriptor.\<close>

theorem gdt_entry_roundtrip:
  assumes "drop_bit 20 limit = 0" and "drop_bit 4 flags = 0"
  shows "seg_base (gdt_set_entry base limit flags access) = base \<and> seg_limit (gdt_set_entry base limit flags access) = limit \<and>
    seg_flags (gdt_set_entry base limit flags access) = flags \<and> seg_access (gdt_set_entry base limit flags access) = access OR 0x10"
proof -
  have l: "\<not> bit limit n" if "20 \<le> n" for n by (rule drop_bit_zero_high [OF assms(1) that])
  have f: "\<not> bit flags n" if "4 \<le> n" for n by (rule drop_bit_zero_high [OF assms(2) that])
  note h = gdt_high_bits [OF assms]
  have "seg_base (gdt_set_entry base limit flags access) = base"
  proof (rule bit_word_eqI)
    fix n :: nat
    assume "n < LENGTH(32)"
    then consider "n < 16" | "16 \<le> n" "n < 24" | "24 \<le> n" "n < 32" by fastforce
    then show "bit (seg_base (gdt_set_entry base limit flags access)) n = bit base n"
      unfolding seg_base_def mask_literals by cases (auto simp: bit_simps gdt_bits h less_diff_conv2)
  qed
  moreover have "seg_limit (gdt_set_entry base limit flags access) = limit"
  proof (rule bit_word_eqI)
    fix n :: nat
    assume "n < LENGTH(32)"
    then consider "n < 16" | "16 \<le> n" "n < 20" | "20 \<le> n" by fastforce
    then show "bit (seg_limit (gdt_set_entry base limit flags access)) n = bit limit n"
      unfolding seg_limit_def mask_literals by cases (auto simp: bit_simps gdt_bits h l less_diff_conv2)
  qed
  moreover have "seg_flags (gdt_set_entry base limit flags access) = flags"
  proof (rule bit_word_eqI)
    fix n :: nat
    assume "n < LENGTH(8)"
    then show "bit (seg_flags (gdt_set_entry base limit flags access)) n = bit flags n"
      unfolding seg_flags_def mask_literals by (cases "n < 4") (simp_all add: bit_simps gdt_bits h f)
  qed
  moreover have "seg_access (gdt_set_entry base limit flags access) = access OR push_bit 4 1"
  proof (rule bit_word_eqI)
    fix n :: nat
    assume "n < LENGTH(8)"
    then show "bit (seg_access (gdt_set_entry base limit flags access)) n = bit (access OR push_bit 4 1) n"
      unfolding seg_access_def using bit_16 [of n] by (auto simp: bit_simps gdt_bits h)
  qed
  ultimately show ?thesis by simp
qed

theorem gdt_entry_roundtrip_witness:
  "seg_base (gdt_set_entry 0 0xfffff 0xc 0x9e) = 0 \<and> seg_limit (gdt_set_entry 0 0xfffff 0xc 0x9e) = 0xfffff \<and>
   seg_flags (gdt_set_entry 0 0xfffff 0xc 0x9e) = 0xc \<and> seg_access (gdt_set_entry 0 0xfffff 0xc 0x9e) = 0x9e"
proof -
  have "drop_bit 20 (0xfffff :: u32) = 0" "drop_bit 4 (0xc :: u8) = 0" by (simp_all add: drop_bit_eq_div)
  from gdt_entry_roundtrip [OF this, of 0 "0x9e"] show ?thesis by simp
qed

text \<open>The state of the table after \<open>exceptions::init\<close>, for every vector.\<close>

lemma exceptions_installed:
  assumes "\<forall>v. 0x10000 \<le> stub v"
  shows "\<exists>s'. exceptions_init stub s = Inr s' \<and>
    (\<forall>v f. (v, f) \<in> set (exc_plain @ [(INT_FLOATING_POINT, floating_point)]) \<longrightarrow>
       idt_handle s' (ucast v) st = Inr (Some (f st)) \<and> gate_of s' v = (stub v, 0x10, 0x8e)) \<and>
    (\<forall>v f. (v, f) \<in> set exc_err \<longrightarrow> idt_handle_with_error s' (ucast v) st e = Inr (Some (f st e)) \<and> gate_of s' v = (stub v, 0x10, 0x8e)) \<and>
    (\<forall>v. v \<notin> set exc_vectors \<longrightarrow> it_table s' v = it_table s v \<and> it_functions s' v = it_functions s v \<and> it_functions_err s' v = it_functions_err s v)"
proof -
  let ?s1 = "fold (\<lambda>v. enable_entry v (stub v)) exc_vectors s"
  let ?s' = "?s1\<lparr>it_functions := it_functions s ++ map_of (rev exc_plain) ++ [INT_FLOATING_POINT \<mapsto> floating_point],
      it_functions_err := it_functions_err s ++ map_of (rev exc_err), it_table := installed (set exc_vectors) (it_table ?s1)\<rparr>"
  have sel: "kernel_code = 0x10" "GATE_32_INT OR FLAG_PRESENT = 0x8e"
    by (simp_all add: kernel_code_def GDT_SELECTOR_def GATE_32_INT_def FLAG_PRESENT_def)
  have g: "gate_of ?s' v = (stub v, 0x10, 0x8e)" if "v \<in> set exc_vectors" for v
    using that by (simp add: gate_of_def enable_all(1) sel) (simp add: installed_def sel)
  have d: "distinct (map fst (rev exc_plain))" "distinct (map fst (rev exc_err))" "INT_FLOATING_POINT \<notin> fst ` set exc_plain"
    by (simp_all add: exc_plain_def exc_err_def int_numbers)
  have b: "\<not> 256 \<le> (ucast v :: u32)" "(ucast (ucast v :: u32) :: u8) = v" for v :: u8
  proof -
    have l: "unat v < 2 ^ LENGTH(8)" by (rule unsigned_less)
    then have "unat (ucast v :: u32) = unat v" by (simp add: unsigned_ucast_eq take_bit_nat_eq_self)
    then show "\<not> 256 \<le> (ucast v :: u32)" using l by (simp add: word_le_nat_alt)
  qed (rule bit_word_eqI, simp add: bit_simps)
  have p: "idt_handle ?s' (ucast v) st = Inr (Some (f st)) \<and> v \<in> set exc_vectors"
    if "(v, f) \<in> set (exc_plain @ [(INT_FLOATING_POINT, floating_point)])" for v f
  proof (cases "(v, f) \<in> set exc_plain")
    case True
    then have "map_of (rev exc_plain) v = Some f" "v \<noteq> INT_FLOATING_POINT" using d(1,3) by (auto intro: map_of_is_SomeI) force
    moreover have "v \<in> fst ` set exc_plain" using True by force
    ultimately show ?thesis using b by (simp add: idt_handle_def exc_vectors_def)
  next
    case False
    then show ?thesis using that b by (simp add: idt_handle_def exc_vectors_def)
  qed
  have q: "idt_handle_with_error ?s' (ucast v) st e = Inr (Some (f st e)) \<and> v \<in> set exc_vectors" if "(v, f) \<in> set exc_err" for v f
    using that b map_of_is_SomeI [OF d(2), of v f] image_eqI [of v fst "(v, f)" "set exc_err"] by (simp add: idt_handle_with_error_def exc_vectors_def)
  have u: "it_table ?s' v = it_table s v \<and> it_functions ?s' v = it_functions s v \<and> it_functions_err ?s' v = it_functions_err s v" if "v \<notin> set exc_vectors" for v
  proof -
    have "map_of (rev exc_plain) v = None" "map_of (rev exc_err) v = None" "v \<noteq> INT_FLOATING_POINT" using that by (auto simp: exc_vectors_def map_of_eq_None_iff)
    then show ?thesis using that by (simp add: installed_def enable_all(4) map_add_def)
  qed
  show ?thesis using exceptions_init_state [of stub s] assms p q u g by (intro exI [of _ ?s']) blast
qed

definition idt_empty :: "'r idt" where
  "idt_empty = \<lparr>it_table = (\<lambda>_. \<lparr>ie_offset_low = 0, ie_selector = 0, ie_zero = 0, ie_type_attr = 0, ie_offset_high = 0\<rparr>),
     it_functions = Map.empty, it_functions_err = Map.empty\<rparr>"

definition regs_zero :: idt_proc_state where
  "regs_zero = \<lparr>ps_edi = 0, ps_esi = 0, ps_ebp = 0, ps_esp = 0, ps_ebx = 0, ps_edx = 0, ps_ecx = 0, ps_eax = 0\<rparr>"



end
