(* ===== verification/Lapic.thy ===== *)
theory Lapic
  imports Acpi Interrupts
begin

text \<open>
  \<open>src/int/lapic.cpp\<close> and \<open>src/hw/pit.cpp\<close>: the local interrupt controllers with their timers, the clock that
  calibrates them, the waking of the other CPUs, and the commands that one CPU sends to another. Writes to the
  memory-mapped registers are a log of addresses and values. The exchange of commands is also given as a step relation over
  any number of CPUs, for the invalidation of page mappings on all of them.
\<close>

section \<open>Registers\<close>

definition LAPIC_ID :: u32 where "LAPIC_ID = 0x20"
definition LAPIC_VER :: u32 where "LAPIC_VER = 0x30"
definition EOI :: u32 where "EOI = 0xb0"
definition SPURIOUS_INT_VECTOR :: u32 where "SPURIOUS_INT_VECTOR = 0xf0"
definition ICR_A :: u32 where "ICR_A = 0x300"
definition ICR_B :: u32 where "ICR_B = 0x310"
definition LVT_TIMER :: u32 where "LVT_TIMER = 0x320"
definition TIMER_INITIAL :: u32 where "TIMER_INITIAL = 0x380"
definition TIMER_DIVIDE_CONFIGURATION :: u32 where "TIMER_DIVIDE_CONFIGURATION = 0x3e0"
definition TIMER_MODE_PERIODIC :: u32 where "TIMER_MODE_PERIODIC = push_bit 17 1"
definition SWITCHES_PER_SECOND :: u32 where "SWITCHES_PER_SECOND = 1000"
definition CAL_INIT :: u32 where "CAL_INIT = 1000"
definition CAL_DIV :: u32 where "CAL_DIV = 3"
definition JUMP_BASE :: u32 where "JUMP_BASE = 0x1000"
definition INT_LAPIC_BASE :: u32 where "INT_LAPIC_BASE = 0x20"
definition INT_LAPIC_TIMER :: u32 where "INT_LAPIC_TIMER = 0x0"
definition INT_LAPIC_COMMAND :: u32 where "INT_LAPIC_COMMAND = 0x8"
definition INT_LAPIC_PANIC :: u32 where "INT_LAPIC_PANIC = 0x9"
definition PER_SECOND :: u32 where "PER_SECOND = 82"

text \<open>The variables of the namespace and the log of register writes, oldest first.\<close>

record lapic =
  la_base :: u32
  la_stage :: u8
  la_deadline :: u32
  la_callibration_ticks :: u32
  la_ticks_per_sec :: u32
  la_calibrated :: "bool list"
  la_writes :: "(u32 \<times> u32) list"

text \<open>\<open>_base\<close> points to words, and an index is a register offset divided by four.\<close>

definition lapic_read :: "(u32 \<Rightarrow> u32) \<Rightarrow> u32 \<Rightarrow> lapic \<Rightarrow> u32" where
  "lapic_read rd rg l = rd (la_base l + 4 * (rg div 4))"

definition lapic_write :: "u32 \<Rightarrow> u32 \<Rightarrow> lapic \<Rightarrow> lapic" where
  "lapic_write rg v l = l\<lparr>la_writes := la_writes l @ [(la_base l + 4 * (rg div 4), v)]\<rparr>"

definition set_timer :: "u32 \<Rightarrow> u32 \<Rightarrow> lapic \<Rightarrow> lapic" where
  "set_timer timer dv l = lapic_write LVT_TIMER (TIMER_MODE_PERIODIC OR INT_LAPIC_BASE)
     (lapic_write TIMER_DIVIDE_CONFIGURATION dv (lapic_write TIMER_INITIAL timer l))"

definition eoi :: "lapic \<Rightarrow> lapic" where
  "eoi l = lapic_write EOI 0xffffffff l"

definition ipi_val :: "u32 \<Rightarrow> u8 \<Rightarrow> u8 \<Rightarrow> u32" where
  "ipi_val vector dest init_deassert = (vector AND 0xff) OR push_bit 8 (ucast dest) OR push_bit 14 (ucast init_deassert)"

definition lapic_ipi :: "u32 \<Rightarrow> u8 \<Rightarrow> u8 \<Rightarrow> u32 \<Rightarrow> lapic \<Rightarrow> lapic" where
  "lapic_ipi vector dest init_deassert target l =
     lapic_write ICR_A (ipi_val vector dest init_deassert) (lapic_write ICR_B (push_bit 24 target) l)"

definition ipi :: "u8 \<Rightarrow> u32 \<Rightarrow> lapic \<Rightarrow> lapic" where
  "ipi vector proc l = lapic_ipi (ucast vector) 0 0 proc l"

definition ipi_all :: "u32 \<Rightarrow> u8 \<Rightarrow> lapic \<Rightarrow> lapic" where
  "ipi_all proc_count vector l = fold (\<lambda>i. ipi vector (of_nat i)) [0..<min (unat proc_count) MAX_CORES] l"

section \<open>The timer\<close>

definition lapic_setup :: "lapic \<Rightarrow> lapic" where
  "lapic_setup l = set_timer CAL_INIT CAL_DIV (eoi (lapic_write SPURIOUS_INT_VECTOR 0x1ff l))"

text \<open>\<open>lapic::init\<close>: \<open>handlers\<close> are the timer, command and panic handlers, \<open>time\<close> is the clock.\<close>

definition lapic_init :: "nat \<Rightarrow> u32 \<Rightarrow> (u8 \<Rightarrow> u32) \<Rightarrow> (idt_proc_state \<Rightarrow> 'r) \<times> (idt_proc_state \<Rightarrow> 'r) \<times> (idt_proc_state \<Rightarrow> 'r) \<Rightarrow> u32 \<Rightarrow> mem \<Rightarrow>
    'r idt \<Rightarrow> lapic \<Rightarrow> (mem \<times> 'r idt \<times> lapic) result" where
  "lapic_init k lapic_base stub handlers time m s l = (let (h_timer, h_command, h_panic) = handlers;
       v_timer = ucast (INT_LAPIC_BASE + INT_LAPIC_TIMER); v_command = ucast (INT_LAPIC_BASE + INT_LAPIC_COMMAND); v_panic = ucast (INT_LAPIC_BASE + INT_LAPIC_PANIC);
       s1 = fold (\<lambda>v. enable_entry v (stub v)) [v_timer, v_command, v_panic] s in
     bindE (page_create k lapic_base FLAG_KERNEL 1 m) (\<lambda>(pg, m1). bindE (kinstall k pg (PAGE_TABLE_CACHEDISABLE OR PAGE_TABLE_RW) m1) (\<lambda>(base, m2).
     let l1 = lapic_write SPURIOUS_INT_VECTOR 0x1ff (l\<lparr>la_base := base\<rparr>); l2 = l1\<lparr>la_deadline := time\<rparr> in
     bindE (idt_install (ucast INT_LAPIC_BASE) h_timer kernel_code GATE_32_INT s1) (\<lambda>s2. let l3 = set_timer CAL_INIT CAL_DIV l2 in
     bindE (idt_install v_command h_command kernel_code GATE_32_INT s2) (\<lambda>s3.
     bindE (idt_install v_panic h_panic kernel_code GATE_32_INT s3) (\<lambda>s4. Inr (m2, s4, l3)))))))"

text \<open>The timer interrupt of CPU \<open>cpu\<close> at clock \<open>time\<close>. The result says whether \<open>task_timer_yield\<close> is called.\<close>

definition lapic_timer :: "nat \<Rightarrow> u32 \<Rightarrow> lapic \<Rightarrow> (bool \<times> lapic) result" where
  "lapic_timer cpu time l =
     (if cpu = 0
      then if la_stage l = 0
        then let l1 = (if la_deadline l < time
            then l\<lparr>la_stage := 1, la_deadline := time + PER_SECOND + 1, la_callibration_ticks := 1\<rparr> else l) in Inr (False, eoi l1)
        else if la_stage l = 1
        then let l1 = (if la_deadline l < time
            then let t = la_callibration_ticks l * CAL_INIT * CAL_DIV in
              (lapic_write TIMER_INITIAL (t div CAL_DIV div SWITCHES_PER_SECOND) (l\<lparr>la_stage := 2, la_ticks_per_sec := t\<rparr>))\<lparr>la_callibration_ticks := 0\<rparr>
            else l\<lparr>la_callibration_ticks := la_callibration_ticks l + 1\<rparr>) in Inr (False, eoi l1)
        else if la_stage l = 2 then Inr (True, eoi l)
        else Inr (False, eoi l)
      else if length (la_calibrated l) \<le> cpu then Inl Fault
      else if la_calibrated l ! cpu then Inr (True, eoi l)
      else let l1 = (if la_ticks_per_sec l \<noteq> 0
          then let v = la_ticks_per_sec l div CAL_DIV div SWITCHES_PER_SECOND;
                   l0 = lapic_write TIMER_INITIAL v (set_timer v CAL_DIV l) in l0\<lparr>la_calibrated := (la_calibrated l0)[cpu := True]\<rparr>
          else l) in Inr (False, eoi l1))"

section \<open>The clock\<close>

definition IO_PORT_PIT_0 :: u16 where "IO_PORT_PIT_0 = 0x40"
definition IO_PORT_PIT_MODE :: u16 where "IO_PORT_PIT_MODE = 0x43"
definition ACCESS_LOWHIGH :: u8 where "ACCESS_LOWHIGH = 3"
definition MODE_RATE_GEN :: u8 where "MODE_RATE_GEN = 2"
definition DIVISOR :: u32 where "DIVISOR = 14551"

definition pit_set_mode :: "'d hw \<Rightarrow> u8 \<Rightarrow> u8 \<Rightarrow> u8 \<Rightarrow> 'd \<Rightarrow> 'd" where
  "pit_set_mode H channel access_mode operating_mode d =
     hw_outb H IO_PORT_PIT_MODE (push_bit 6 channel OR push_bit 4 access_mode OR push_bit 1 operating_mode) d"

text \<open>\<open>pit::init\<close> after the interrupt was enabled.\<close>

definition pit_init :: "'d hw \<Rightarrow> 'd \<Rightarrow> 'd" where
  "pit_init H d = hw_outb H IO_PORT_PIT_0 (ucast (drop_bit 8 DIVISOR))
     (hw_outb H IO_PORT_PIT_0 (ucast (DIVISOR AND 0xff)) (pit_set_mode H 0 ACCESS_LOWHIGH MODE_RATE_GEN d))"

definition pit_interrupt :: "u32 \<times> lapic \<Rightarrow> u32 \<times> lapic" where
  "pit_interrupt tm = (fst tm + 1, eoi (snd tm))"

section \<open>Waking the other CPUs\<close>

text \<open>\<open>awoken id\<close>: \<open>None\<close> when the CPU has no status, which panics, else whether it will report that it is awake. Writes to the
  check point port between the two interrupts are counted by nothing else.\<close>

fun awaken_loop :: "'d hw \<Rightarrow> (u32 \<Rightarrow> bool option) \<Rightarrow> u8 list list \<Rightarrow> nat \<Rightarrow> nat \<Rightarrow> lapic \<times> 'd \<Rightarrow> (lapic \<times> 'd) result" where
  "awaken_loop H awoken procs i 0 ld = Inr ld"
| "awaken_loop H awoken procs i (Suc n) ld = (let apic = ucast (MadtProc_apic_id (procs ! i));
       l1 = lapic_ipi 0 5 1 apic (fst ld); d1 = io_wait H (snd ld);
       l2 = lapic_ipi (JUMP_BASE div PAGE_SIZE) 6 1 apic l1 in
     case awoken apic of None \<Rightarrow> Inl (Panic ''Tried to get the status of an invalid or un-inited cpu'')
     | Some w \<Rightarrow> if w then awaken_loop H awoken procs (Suc i) n (l2, d1) else Inl Hang)"

fun copy_ap :: "u8 list \<Rightarrow> u32 \<Rightarrow> bytes \<Rightarrow> bytes" where
  "copy_ap [] a m = m"
| "copy_ap (b # bs) a m = copy_ap bs (a + 1) (m(a := b))"

definition awaken_others :: "'d hw \<Rightarrow> (u32 \<Rightarrow> bool option) \<Rightarrow> u8 list \<Rightarrow> u32 \<Rightarrow> acpi \<Rightarrow> lapic \<times> 'd \<times> bytes \<Rightarrow>
    (lapic \<times> 'd \<times> bytes \<times> u32) result" where
  "awaken_others H awoken ap vmst ac = (\<lambda>(l, d, m). let m1 = copy_ap ap JUMP_BASE m; low_ap_page_table = vmst - KERNEL_VM_BASE in
     bindE (awaken_loop H awoken (ac_procs ac) 1 (min (unat (ac_proc_count ac)) MAX_CORES - 1) (l, d)) (\<lambda>(l1, d1).
     Inr (l1, d1, m1, low_ap_page_table)))"

section \<open>Commands\<close>

text \<open>The fields of \<open>cpu::Status\<close> that the exchange of commands uses.\<close>

definition CMD_INVLPG :: u32 where "CMD_INVLPG = 0"

record cmd_status =
  st_command :: u32
  st_command_arg :: u32
  st_command_finished :: bool

definition send_store :: "u32 \<Rightarrow> u32 \<Rightarrow> cmd_status \<Rightarrow> cmd_status" where
  "send_store cmd arg i = i\<lparr>st_command_finished := False, st_command := cmd, st_command_arg := arg\<rparr>"

text \<open>The handler: the address that \<open>invlpg\<close> gets and the new status.\<close>

definition handle_command :: "cmd_status \<Rightarrow> (u32 \<times> cmd_status) result" where
  "handle_command i = (if st_command i = CMD_INVLPG then Inr (st_command_arg i, i\<lparr>st_command_finished := True\<rparr>)
     else Inl (Panic ''Unknown IPI command''))"

text \<open>\<open>handle_panic\<close> acknowledges the interrupt and halts for ever.\<close>

definition handle_panic :: "lapic \<Rightarrow> lapic \<times> kerror" where
  "handle_panic l = (eoi l, Hang)"

text \<open>
  The exchange over several CPUs. \<open>Running\<close>: interrupts are enabled. A CPU that changes a kernel mapping (\<open>kinstall\<close> and
  \<open>kuninstall\<close>) disables interrupts and takes \<open>kmem::mutex\<close> (\<open>WantKmem\<close>), then \<open>page::invlpg\<close> invalidates the address on its own
  CPU and by \<open>send_command_all\<close> on the others (\<open>True\<close>). A CPU in \<open>Map::invlpg\<close> sends to one CPU with interrupts disabled (\<open>False\<close>).
  The list holds the CPUs to which the command still has to go. \<open>send_command\<close> goes through \<open>Sending\<close> (taking the command
  mutex), \<open>Locked\<close> (storing the command), \<open>Stored\<close> (interrupting the CPU) and \<open>AwaitDone\<close> (for \<open>command_finished\<close>).
\<close>

datatype lpos = Running | WantKmem u32 | Sending bool u32 "nat list" | Locked bool u32 nat "nat list"
  | Stored bool u32 nat "nat list" | AwaitDone bool u32 nat "nat list"

text \<open>\<open>xs_tlb c\<close> logs the addresses that CPU \<open>c\<close> has invalidated, oldest first; \<open>xs_mark c t\<close> is the length of the log of \<open>t\<close> when
  \<open>c\<close> last started to send. \<open>xs_pending t\<close>: the command interrupt of \<open>t\<close> has been sent and not yet been taken.\<close>

record xstate =
  xs_kmem :: bool
  xs_mutex :: bool
  xs_status :: "nat \<Rightarrow> cmd_status"
  xs_pending :: "nat \<Rightarrow> bool"
  xs_tlb :: "nat \<Rightarrow> u32 list"
  xs_pos :: "nat \<Rightarrow> lpos"
  xs_mark :: "nat \<Rightarrow> nat \<Rightarrow> nat"

definition others :: "nat \<Rightarrow> nat \<Rightarrow> nat list" where
  "others n c = filter (\<lambda>i. i \<noteq> c) [0..<n]"

inductive xstep :: "nat \<Rightarrow> xstate \<Rightarrow> xstate \<Rightarrow> bool" for n where
  start_page: "c < n \<Longrightarrow> xs_pos x c = Running \<Longrightarrow>
    xstep n x (x\<lparr>xs_pos := (xs_pos x)(c := WantKmem a), xs_mark := (xs_mark x)(c := \<lambda>t. length (xs_tlb x t))\<rparr>)"
| take_kmem: "c < n \<Longrightarrow> xs_pos x c = WantKmem a \<Longrightarrow> Mutex_trylock (xs_kmem x) = (EOK, f) \<Longrightarrow>
    xstep n x (x\<lparr>xs_kmem := f, xs_tlb := (xs_tlb x)(c := xs_tlb x c @ [a]), xs_pos := (xs_pos x)(c := Sending True a (others n c))\<rparr>)"
| start_map: "c < n \<Longrightarrow> t < n \<Longrightarrow> t \<noteq> c \<Longrightarrow> xs_pos x c = Running \<Longrightarrow>
    xstep n x (x\<lparr>xs_pos := (xs_pos x)(c := Sending False a [t]), xs_mark := (xs_mark x)(c := \<lambda>t. length (xs_tlb x t))\<rparr>)"
| lock_cmd: "c < n \<Longrightarrow> xs_pos x c = Sending k a (t # ts) \<Longrightarrow> Mutex_trylock (xs_mutex x) = (EOK, f) \<Longrightarrow>
    xstep n x (x\<lparr>xs_mutex := f, xs_pos := (xs_pos x)(c := Locked k a t ts)\<rparr>)"
| store_cmd: "c < n \<Longrightarrow> xs_pos x c = Locked k a t ts \<Longrightarrow>
    xstep n x (x\<lparr>xs_status := (xs_status x)(t := send_store CMD_INVLPG a (xs_status x t)), xs_pos := (xs_pos x)(c := Stored k a t ts)\<rparr>)"
| ipi_cmd: "c < n \<Longrightarrow> xs_pos x c = Stored k a t ts \<Longrightarrow>
    xstep n x (x\<lparr>xs_pending := (xs_pending x)(t := True), xs_pos := (xs_pos x)(c := AwaitDone k a t ts)\<rparr>)"
| finish_cmd: "c < n \<Longrightarrow> xs_pos x c = AwaitDone k a t ts \<Longrightarrow> st_command_finished (xs_status x t) \<Longrightarrow>
    xstep n x (x\<lparr>xs_mutex := snd (Mutex_unlock (xs_mutex x)), xs_pos := (xs_pos x)(c := Sending k a ts)\<rparr>)"
| return_page: "c < n \<Longrightarrow> xs_pos x c = Sending True a [] \<Longrightarrow>
    xstep n x (x\<lparr>xs_kmem := snd (Mutex_unlock (xs_kmem x)), xs_pos := (xs_pos x)(c := Running)\<rparr>)"
| return_map: "c < n \<Longrightarrow> xs_pos x c = Sending False a [] \<Longrightarrow> xstep n x (x\<lparr>xs_pos := (xs_pos x)(c := Running)\<rparr>)"
| take_interrupt: "t < n \<Longrightarrow> xs_pos x t = Running \<Longrightarrow> xs_pending x t \<Longrightarrow> handle_command (xs_status x t) = Inr (a, i) \<Longrightarrow>
    xstep n x (x\<lparr>xs_status := (xs_status x)(t := i), xs_pending := (xs_pending x)(t := False), xs_tlb := (xs_tlb x)(t := xs_tlb x t @ [a])\<rparr>)"

inductive_cases xstep_cases: "xstep n x y"

definition xinit :: "xstate \<Rightarrow> bool" where
  "xinit x \<longleftrightarrow> \<not> xs_kmem x \<and> \<not> xs_mutex x \<and> (\<forall>c. xs_pos x c = Running \<and> \<not> xs_pending x c)"

definition xreach :: "nat \<Rightarrow> xstate \<Rightarrow> bool" where
  "xreach n x \<longleftrightarrow> (\<exists>x0. xinit x0 \<and> (xstep n)\<^sup>*\<^sup>* x0 x)"

section \<open>Invariants of the exchange\<close>

fun kmem_held :: "lpos \<Rightarrow> bool" where
  "kmem_held (Sending k a ts) = k"
| "kmem_held (Locked k a t ts) = k"
| "kmem_held (Stored k a t ts) = k"
| "kmem_held (AwaitDone k a t ts) = k"
| "kmem_held _ = False"

fun cmd_held :: "lpos \<Rightarrow> bool" where
  "cmd_held (Locked k a t ts) = True"
| "cmd_held (Stored k a t ts) = True"
| "cmd_held (AwaitDone k a t ts) = True"
| "cmd_held _ = False"

text \<open>The argument and the CPUs that have still to answer.\<close>

fun unserved :: "lpos \<Rightarrow> (u32 \<times> nat list) option" where
  "unserved (Sending k a ts) = Some (a, ts)"
| "unserved (Locked k a t ts) = Some (a, t # ts)"
| "unserved (Stored k a t ts) = Some (a, t # ts)"
| "unserved (AwaitDone k a t ts) = Some (a, t # ts)"
| "unserved _ = None"

definition cmd_is :: "u32 \<Rightarrow> cmd_status \<Rightarrow> bool" where
  "cmd_is a i \<longleftrightarrow> st_command i = CMD_INVLPG \<and> st_command_arg i = a \<and> \<not> st_command_finished i"

text \<open>CPU \<open>t\<close> has invalidated \<open>a\<close> since \<open>c\<close> started.\<close>

definition served :: "xstate \<Rightarrow> nat \<Rightarrow> u32 \<Rightarrow> nat \<Rightarrow> bool" where
  "served x c a t \<longleftrightarrow> a \<in> set (drop (xs_mark x c t) (xs_tlb x t))"

definition uniq_held :: "(lpos \<Rightarrow> bool) \<Rightarrow> bool \<Rightarrow> (nat \<Rightarrow> lpos) \<Rightarrow> bool" where
  "uniq_held P flag pos \<longleftrightarrow> (\<forall>c. P (pos c) \<longrightarrow> flag) \<and> (\<forall>c d. P (pos c) \<longrightarrow> P (pos d) \<longrightarrow> d = c)"

definition inv_locks :: "xstate \<Rightarrow> bool" where
  "inv_locks x \<longleftrightarrow> uniq_held kmem_held (xs_kmem x) (xs_pos x) \<and> uniq_held cmd_held (xs_mutex x) (xs_pos x)"

definition inv_mark :: "xstate \<Rightarrow> bool" where
  "inv_mark x \<longleftrightarrow> (\<forall>c t. xs_pos x c \<noteq> Running \<longrightarrow> xs_mark x c t \<le> length (xs_tlb x t))"

definition inv_cmd :: "xstate \<Rightarrow> bool" where
  "inv_cmd x \<longleftrightarrow> (\<forall>t. xs_pending x t \<longrightarrow> (\<exists>c k a ts. xs_pos x c = AwaitDone k a t ts \<and> cmd_is a (xs_status x t))) \<and>
     (\<forall>c k a t ts. xs_pos x c = Stored k a t ts \<longrightarrow> cmd_is a (xs_status x t)) \<and>
     (\<forall>c k a t ts. xs_pos x c = AwaitDone k a t ts \<longrightarrow> cmd_is a (xs_status x t) \<or> served x c a t)"

definition inv_served :: "nat \<Rightarrow> xstate \<Rightarrow> bool" where
  "inv_served n x \<longleftrightarrow> (\<forall>c a ts t. kmem_held (xs_pos x c) \<longrightarrow> unserved (xs_pos x c) = Some (a, ts) \<longrightarrow> t < n \<longrightarrow> t \<notin> set ts \<longrightarrow> served x c a t)"

lemma trylock_EOK: "Mutex_trylock f = (EOK, f') \<longleftrightarrow> \<not> f \<and> f'"
  by (cases f) auto

lemma uniq_held_keep: "P q = P (pos c) \<Longrightarrow> uniq_held P f (pos(c := q)) = uniq_held P f pos"
  by (auto simp: uniq_held_def split: if_splits)

lemma uniq_held_take: "uniq_held P False pos \<Longrightarrow> uniq_held P True (pos(c := q))"
  by (auto simp: uniq_held_def)

lemma uniq_held_give: "uniq_held P f pos \<Longrightarrow> P (pos c) \<Longrightarrow> \<not> P q \<Longrightarrow> uniq_held P f' (pos(c := q))"
  by (auto simp: uniq_held_def)

lemma inv_locks_step: "xstep n x y \<Longrightarrow> inv_locks x \<Longrightarrow> inv_locks y"
  by (erule xstep_cases) (auto simp: inv_locks_def trylock_EOK uniq_held_keep intro: uniq_held_take uniq_held_give)

lemma inv_mark_step: "xstep n x y \<Longrightarrow> inv_mark x \<Longrightarrow> inv_mark y"
  by (erule xstep_cases) (auto simp: inv_mark_def le_SucI)

lemma cmd_held_unique: "inv_locks x \<Longrightarrow> cmd_held (xs_pos x c) \<Longrightarrow> cmd_held (xs_pos x d) \<Longrightarrow> d = c"
  by (auto simp: inv_locks_def uniq_held_def)

lemma served_log: "served x c a t \<Longrightarrow> xs_mark y c = xs_mark x c \<Longrightarrow> \<exists>l. xs_tlb y t = xs_tlb x t @ l \<Longrightarrow> served y c a t"
  by (auto simp: served_def)

lemma served_new: "xs_mark x c t \<le> length (xs_tlb x t) \<Longrightarrow> xs_mark y c = xs_mark x c \<Longrightarrow> xs_tlb y t = xs_tlb x t @ [a] \<Longrightarrow> served y c a t"
  by (auto simp: served_def)

lemma inv_cmdI:
  assumes "\<And>t. xs_pending x t \<Longrightarrow> \<exists>c k a ts. xs_pos x c = AwaitDone k a t ts \<and> cmd_is a (xs_status x t)"
    and "\<And>c k a t ts. xs_pos x c = Stored k a t ts \<Longrightarrow> cmd_is a (xs_status x t)"
    and "\<And>c k a t ts. xs_pos x c = AwaitDone k a t ts \<Longrightarrow> cmd_is a (xs_status x t) \<or> served x c a t"
  shows "inv_cmd x"
  using assms unfolding inv_cmd_def by blast

lemma inv_cmd_pending: "inv_cmd x \<Longrightarrow> xs_pending x t \<Longrightarrow> \<exists>c k a ts. xs_pos x c = AwaitDone k a t ts \<and> cmd_is a (xs_status x t)"
  and inv_cmd_stored: "inv_cmd x \<Longrightarrow> xs_pos x c = Stored k a t ts \<Longrightarrow> cmd_is a (xs_status x t)"
  and inv_cmd_wait: "inv_cmd x \<Longrightarrow> xs_pos x c = AwaitDone k a t ts \<Longrightarrow> cmd_is a (xs_status x t) \<or> served x c a t"
  unfolding inv_cmd_def by blast+

lemma no_pending:
  assumes "inv_cmd x" "inv_locks x" and "cmd_held (xs_pos x c)" "\<And>k a t ts. xs_pos x c \<noteq> AwaitDone k a t ts"
  shows "\<not> xs_pending x t"
proof
  assume "xs_pending x t"
  from inv_cmd_pending [OF assms(1) this] obtain d k a ts where d: "xs_pos x d = AwaitDone k a t ts" by blast
  then have "d = c" by (intro cmd_held_unique [OF assms(2,3)]) simp
  with d assms(4) show False by blast
qed

text \<open>A step that changes no command and moves one CPU to a place where it has no command in flight.\<close>

lemma inv_cmd_idle:
  assumes "inv_cmd x" and "xs_status y = xs_status x" "xs_pending y = xs_pending x" "\<And>t. \<exists>l. xs_tlb y t = xs_tlb x t @ l" "\<And>d. d \<noteq> c \<Longrightarrow> xs_mark y d = xs_mark x d"
    and "xs_pos y = (xs_pos x)(c := q)" and "\<And>k a t ts. q \<noteq> Stored k a t ts \<and> q \<noteq> AwaitDone k a t ts"
    and "\<And>k a t ts. xs_pos x c = AwaitDone k a t ts \<Longrightarrow> st_command_finished (xs_status x t)"
  shows "inv_cmd y"
proof (rule inv_cmdI)
  fix t
  assume "xs_pending y t"
  then have "xs_pending x t" using assms(3) by simp
  from inv_cmd_pending [OF assms(1) this] obtain d k a ts where d: "xs_pos x d = AwaitDone k a t ts" "cmd_is a (xs_status x t)" by blast
  then have "d \<noteq> c" using assms(8) by (auto simp: cmd_is_def)
  then show "\<exists>c k a ts. xs_pos y c = AwaitDone k a t ts \<and> cmd_is a (xs_status y t)" using d assms(2,6) by (intro exI [of _ d]) simp
next
  fix d k a t ts
  assume "xs_pos y d = Stored k a t ts"
  then show "cmd_is a (xs_status y t)" using assms(2,6,7) inv_cmd_stored [OF assms(1)] by (auto split: if_splits)
next
  fix d k a t ts
  assume "xs_pos y d = AwaitDone k a t ts"
  then have "d \<noteq> c" "xs_pos x d = AwaitDone k a t ts" using assms(6,7) by (auto split: if_splits)
  then show "cmd_is a (xs_status y t) \<or> served y d a t" using inv_cmd_wait [OF assms(1)] assms(2) served_log [OF _ assms(5) assms(4)] by metis
qed

lemma inv_servedD: "inv_served n x \<Longrightarrow> kmem_held (xs_pos x c) \<Longrightarrow> unserved (xs_pos x c) = Some (a, ts) \<Longrightarrow> t < n \<Longrightarrow> t \<notin> set ts \<Longrightarrow> served x c a t"
  unfolding inv_served_def by blast

lemma inv_served_step:
  assumes "xstep n x y" and "inv_served n x" "inv_mark x" "inv_cmd x"
  shows "inv_served n y"
  using assms
proof (cases rule: xstep.cases)
  case (take_kmem c a f)
  then show ?thesis using assms by (auto simp: inv_served_def inv_mark_def served_def others_def split: if_splits)
next
  case (finish_cmd c k a t ts)
  then have "served x c a t" using inv_cmd_wait [OF assms(4) finish_cmd(3)] by (auto simp: cmd_is_def)
  then have "served x c a t'" if "k" "t' < n" "t' \<notin> set ts" for t'
    using inv_servedD [OF assms(2), of c a "t # ts" t'] finish_cmd(3) that by (cases "t' = t") simp_all
  then show ?thesis using finish_cmd(1,3) inv_servedD [OF assms(2)]
    by (auto simp: inv_served_def served_def split: if_splits)
qed (auto simp: inv_served_def served_def)

text \<open>The three steps that store a command, send it and serve it.\<close>

lemma inv_cmd_store:
  assumes store_cmd: "y = x\<lparr>xs_status := (xs_status x)(t := send_store CMD_INVLPG a (xs_status x t)), xs_pos := (xs_pos x)(c := Stored k a t ts)\<rparr>" "xs_pos x c = Locked k a t ts" and inv: "inv_cmd x" "inv_locks x"
  shows "inv_cmd y"
proof -
  have d: "d = c" if "cmd_held (xs_pos x d)" for d using cmd_held_unique [OF inv(2) _ that, of c] store_cmd(2) by simp
  have np: "\<not> xs_pending x t'" for t'
    by (rule no_pending [OF inv(1,2), of c]) (simp_all add: store_cmd(2))
  show ?thesis
  proof (rule inv_cmdI)
    fix d k' a' t' ts'
    assume "xs_pos y d = Stored k' a' t' ts'"
    moreover from this have "d = c" using d [of d] by (cases "d = c") (simp_all add: store_cmd(1))
    ultimately show "cmd_is a' (xs_status y t')" by (simp add: store_cmd(1) cmd_is_def send_store_def)
  next
    fix d k' a' t' ts'
    assume "xs_pos y d = AwaitDone k' a' t' ts'"
    moreover from this have "d = c" using d [of d] by (cases "d = c") (simp_all add: store_cmd(1))
    ultimately show "cmd_is a' (xs_status y t') \<or> served y d a' t'" by (simp add: store_cmd(1))
  qed (simp add: store_cmd(1) np)
qed

lemma inv_cmd_ipi:
  assumes ipi_cmd: "y = x\<lparr>xs_pending := (xs_pending x)(t := True), xs_pos := (xs_pos x)(c := AwaitDone k a t ts)\<rparr>" "xs_pos x c = Stored k a t ts" and inv: "inv_cmd x" "inv_locks x"
  shows "inv_cmd y"
proof -
  have d: "d = c" if "cmd_held (xs_pos x d)" for d using cmd_held_unique [OF inv(2) _ that, of c] ipi_cmd(2) by simp
  have np: "\<not> xs_pending x t'" for t'
    by (rule no_pending [OF inv(1,2), of c]) (simp_all add: ipi_cmd(2))
  have i: "cmd_is a (xs_status x t)" by (rule inv_cmd_stored [OF inv(1) ipi_cmd(2)])
  show ?thesis
  proof (rule inv_cmdI)
    fix t'
    assume "xs_pending y t'"
    then have "t' = t" using np by (cases "t' = t") (simp_all add: ipi_cmd(1))
    then show "\<exists>c k a ts. xs_pos y c = AwaitDone k a t' ts \<and> cmd_is a (xs_status y t')" using i by (intro exI [of _ c]) (simp add: ipi_cmd(1))
  next
    fix d k' a' t' ts'
    assume "xs_pos y d = Stored k' a' t' ts'"
    moreover from this have "d = c" using d [of d] by (cases "d = c") (simp_all add: ipi_cmd(1))
    ultimately show "cmd_is a' (xs_status y t')" by (simp add: ipi_cmd(1))
  next
    fix d k' a' t' ts'
    assume "xs_pos y d = AwaitDone k' a' t' ts'"
    moreover from this have "d = c" using d [of d] by (cases "d = c") (simp_all add: ipi_cmd(1))
    ultimately show "cmd_is a' (xs_status y t') \<or> served y d a' t'" using i by (simp add: ipi_cmd(1))
  qed
qed

lemma inv_cmd_interrupt:
  assumes take_interrupt: "y = x\<lparr>xs_status := (xs_status x)(t := i), xs_pending := (xs_pending x)(t := False), xs_tlb := (xs_tlb x)(t := xs_tlb x t @ [a])\<rparr>" "xs_pending x t" "handle_command (xs_status x t) = Inr (a, i)"
    and inv: "inv_cmd x" "inv_locks x" "inv_mark x"
  shows "inv_cmd y"
proof -
  from inv_cmd_pending [OF inv(1) take_interrupt(2)] obtain c k a0 ts where
    c: "xs_pos x c = AwaitDone k a0 t ts" "cmd_is a0 (xs_status x t)" by blast
  have d: "d = c" if "cmd_held (xs_pos x d)" for d using cmd_held_unique [OF inv(2) _ that, of c] c(1) by simp
  have a: "a = a0" using take_interrupt(3) c(2) by (auto simp: handle_command_def cmd_is_def split: if_splits)
  have "xs_mark x c t \<le> length (xs_tlb x t)" using inv(3) c(1) by (simp add: inv_mark_def)
  then have sv: "served y c a0 t" by (rule served_new) (simp_all add: take_interrupt(1) a)
  show ?thesis
  proof (rule inv_cmdI)
    fix t'
    assume p: "xs_pending y t'"
    then have "t' \<noteq> t" "xs_pending x t'" by (cases "t' = t", simp_all add: take_interrupt(1))+
    from inv_cmd_pending [OF inv(1) this(2)] obtain d' k' a' ts' where d': "xs_pos x d' = AwaitDone k' a' t' ts'" by blast
    then have "d' = c" by (intro d) simp
    with d' c(1) \<open>t' \<noteq> t\<close> show "\<exists>c k a ts. xs_pos y c = AwaitDone k a t' ts \<and> cmd_is a (xs_status y t')" by simp
  next
    fix d' k' a' t' ts'
    assume "xs_pos y d' = Stored k' a' t' ts'"
    moreover from this have "d' = c" using d [of d'] by (simp add: take_interrupt(1))
    ultimately show "cmd_is a' (xs_status y t')" using c(1) by (simp add: take_interrupt(1))
  next
    fix d' k' a' t' ts'
    assume "xs_pos y d' = AwaitDone k' a' t' ts'"
    moreover from this have "d' = c" using d [of d'] by (simp add: take_interrupt(1))
    ultimately have "a' = a0" "t' = t" "d' = c" using c(1) by (simp_all add: take_interrupt(1))
    then show "cmd_is a' (xs_status y t') \<or> served y d' a' t'" using sv by simp
  qed
qed

lemma inv_cmd_step:
  assumes "xstep n x y" and "inv_cmd x" "inv_mark x" "inv_locks x"
  shows "inv_cmd y"
  using assms(1)
proof (cases rule: xstep.cases)
  case (store_cmd c k a t ts)
  then show ?thesis using inv_cmd_store assms(2,4) by blast
next
  case (ipi_cmd c k a t ts)
  then show ?thesis using inv_cmd_ipi assms(2,4) by blast
next
  case (take_interrupt t a i)
  then show ?thesis using inv_cmd_interrupt assms(2-4) by blast
next
  case (start_page c a)
  then show ?thesis by (intro inv_cmd_idle [OF assms(2), where c = c]) auto
next
  case (take_kmem c a f)
  then show ?thesis by (intro inv_cmd_idle [OF assms(2), where c = c]) auto
next
  case (start_map c t a)
  then show ?thesis by (intro inv_cmd_idle [OF assms(2), where c = c]) auto
next
  case (lock_cmd c k a t ts f)
  then show ?thesis by (intro inv_cmd_idle [OF assms(2), where c = c]) auto
next
  case (finish_cmd c k a t ts)
  then show ?thesis by (intro inv_cmd_idle [OF assms(2), where c = c]) auto
next
  case (return_page c a)
  then show ?thesis by (intro inv_cmd_idle [OF assms(2), where c = c]) auto
next
  case (return_map c a)
  then show ?thesis by (intro inv_cmd_idle [OF assms(2), where c = c]) auto
qed

definition xinv :: "nat \<Rightarrow> xstate \<Rightarrow> bool" where
  "xinv n x \<longleftrightarrow> inv_locks x \<and> inv_mark x \<and> inv_cmd x \<and> inv_served n x"

lemma xinv_init: "xinit x \<Longrightarrow> xinv n x"
  by (simp add: xinit_def xinv_def inv_locks_def uniq_held_def inv_mark_def inv_cmd_def inv_served_def)

lemma xinv_step: "xstep n x y \<Longrightarrow> xinv n x \<Longrightarrow> xinv n y"
  by (auto simp: xinv_def intro: inv_locks_step inv_mark_step inv_cmd_step inv_served_step)

lemma xreach_xinv: "xreach n x \<Longrightarrow> xinv n x"
  unfolding xreach_def
proof (elim exE conjE)
  fix x0
  assume "(xstep n)\<^sup>*\<^sup>* x0 x" and "xinit x0"
  then show "xinv n x" by (induction rule: rtranclp_induct) (auto intro: xinv_init xinv_step)
qed

section \<open>A state without escape\<close>

text \<open>CPU 0 waits for CPU 1, and CPU 1 waits with interrupts disabled for the mutex that CPU 0 holds.\<close>

definition stuck :: "u32 \<Rightarrow> u32 \<Rightarrow> nat list \<Rightarrow> xstate \<Rightarrow> bool" where
  "stuck a b ts x \<longleftrightarrow> inv_locks x \<and> xs_pos x 0 = AwaitDone True a 1 ts \<and> xs_pos x 1 = WantKmem b \<and> \<not> st_command_finished (xs_status x 1)"

lemma stuck_locks:
  assumes "stuck a b ts x"
  shows "xs_kmem x" "xs_mutex x" "kmem_held (xs_pos x c) \<Longrightarrow> c = 0" "cmd_held (xs_pos x c) \<Longrightarrow> c = 0"
proof -
  have h: "kmem_held (xs_pos x 0)" "cmd_held (xs_pos x 0)" using assms by (simp_all add: stuck_def)
  have u: "uniq_held kmem_held (xs_kmem x) (xs_pos x)" "uniq_held cmd_held (xs_mutex x) (xs_pos x)" using assms by (simp_all add: stuck_def inv_locks_def)
  show "xs_kmem x" "kmem_held (xs_pos x c) \<Longrightarrow> c = 0" using h(1) u(1) unfolding uniq_held_def by blast+
  show "xs_mutex x" "cmd_held (xs_pos x c) \<Longrightarrow> c = 0" using h(2) u(2) unfolding uniq_held_def by blast+
qed

lemma stuck_step:
  assumes "xstep n x y" and "stuck a b ts x"
  shows "stuck a b ts y"
proof -
  have i: "inv_locks y" using inv_locks_step [OF assms(1)] assms(2) by (simp add: stuck_def)
  note l = stuck_locks [OF assms(2)]
  have p: "xs_pos x 0 = AwaitDone True a 1 ts" "xs_pos x 1 = WantKmem b" "\<not> st_command_finished (xs_status x 1)" using assms(2) by (simp_all add: stuck_def)
  from assms(1) have "xs_pos y 0 = xs_pos x 0 \<and> xs_pos y 1 = xs_pos x 1 \<and> \<not> st_command_finished (xs_status y 1)"
  proof (cases rule: xstep.cases)
    case (store_cmd c k a' t ts')
    then have "c = 0" using l(4) [of c] by simp
    then show ?thesis using store_cmd p by simp
  next
    case (ipi_cmd c k a' t ts')
    then have "c = 0" using l(4) [of c] by simp
    then show ?thesis using ipi_cmd p by simp
  next
    case (finish_cmd c k a' t ts')
    then have "c = 0" using l(4) [of c] by simp
    then show ?thesis using finish_cmd p by simp
  next
    case (take_interrupt t a' i)
    then have "t \<noteq> 1" using p(2) by auto
    then show ?thesis using take_interrupt p by simp
  qed (use l(1,2) p in \<open>auto simp: trylock_EOK intro!: gr0I\<close>)
  then show ?thesis using i p by (simp add: stuck_def)
qed

lemma stuck_for_ever:
  assumes "(xstep n)\<^sup>*\<^sup>* x y" and "stuck a b ts x"
  shows "stuck a b ts y"
  using assms by (induction rule: rtranclp_induct) (auto intro: stuck_step)

lemma others_0: "2 \<le> n \<Longrightarrow> others n 0 = 1 # [2..<n]"
proof -
  assume n: "2 \<le> n"
  then have "[0..<n] = 0 # 1 # [2..<n]" by (simp add: upt_rec [of 0] upt_rec [of "Suc 0"] numeral_2_eq_2)
  moreover have "filter (\<lambda>i. i \<noteq> 0) [2..<n] = [2..<n]" by (simp add: filter_id_conv)
  ultimately show ?thesis by (simp add: others_def)
qed

text \<open>CPU 0 goes from the wish to change a mapping to the wait for CPU 1.\<close>

lemma send_to_one:
  assumes "2 \<le> n" and "\<not> xs_kmem x" "\<not> xs_mutex x" and "xs_pos x 0 = WantKmem a"
  shows "(xstep n)\<^sup>*\<^sup>* x (x\<lparr>xs_kmem := True, xs_mutex := True, xs_status := (xs_status x)(1 := send_store CMD_INVLPG a (xs_status x 1)),
    xs_pending := (xs_pending x)(1 := True), xs_tlb := (xs_tlb x)(0 := xs_tlb x 0 @ [a]), xs_pos := (xs_pos x)(0 := AwaitDone True a 1 [2..<n])\<rparr>)"
proof -
  have n: "0 < n" using assms(1) by simp
  let ?x1 = "x\<lparr>xs_kmem := True, xs_tlb := (xs_tlb x)(0 := xs_tlb x 0 @ [a]), xs_pos := (xs_pos x)(0 := Sending True a (others n 0))\<rparr>"
  let ?x2 = "?x1\<lparr>xs_mutex := True, xs_pos := (xs_pos ?x1)(0 := Locked True a 1 [2..<n])\<rparr>"
  let ?x3 = "?x2\<lparr>xs_status := (xs_status ?x2)(1 := send_store CMD_INVLPG a (xs_status ?x2 1)), xs_pos := (xs_pos ?x2)(0 := Stored True a 1 [2..<n])\<rparr>"
  let ?x4 = "?x3\<lparr>xs_pending := (xs_pending ?x3)(1 := True), xs_pos := (xs_pos ?x3)(0 := AwaitDone True a 1 [2..<n])\<rparr>"
  have "xstep n x ?x1" by (rule take_kmem [OF n assms(4)]) (simp add: trylock_EOK assms(2))
  moreover have "xstep n ?x1 ?x2" by (rule lock_cmd [OF n]) (simp_all add: others_0 [OF assms(1)] trylock_EOK assms(3))
  moreover have "xstep n ?x2 ?x3" by (rule store_cmd [OF n]) simp
  moreover have "xstep n ?x3 ?x4" by (rule ipi_cmd [OF n]) simp
  ultimately have "(xstep n)\<^sup>*\<^sup>* x ?x4" by (meson converse_rtranclp_into_rtranclp rtranclp.rtrancl_refl)
  then show ?thesis by (cases x) simp
qed

definition x_idle :: xstate where
  "x_idle = \<lparr>xs_kmem = False, xs_mutex = False, xs_status = (\<lambda>_. \<lparr>st_command = 0, st_command_arg = 0, st_command_finished = False\<rparr>),
     xs_pending = (\<lambda>_. False), xs_tlb = (\<lambda>_. []), xs_pos = (\<lambda>_. Running), xs_mark = (\<lambda>_ _. 0)\<rparr>"

lemma xinit_idle: "xinit x_idle"
  by (simp add: xinit_def x_idle_def)

section \<open>Calibration\<close>

text \<open>The timer interrupts of CPU 0 at the given times of the clock, and whether each of them yields.\<close>

fun timer_run :: "u32 list \<Rightarrow> lapic \<Rightarrow> (bool list \<times> lapic) result" where
  "timer_run [] l = Inr ([], l)"
| "timer_run (t # ts) l = bindE (lapic_timer 0 t l) (\<lambda>(y, l1). bindE (timer_run ts l1) (\<lambda>(ys, l2). Inr (y # ys, l2)))"

lemma timer_run_append:
  "timer_run (ts @ us) l = bindE (timer_run ts l) (\<lambda>(ys, l1). bindE (timer_run us l1) (\<lambda>(zs, l2). Inr (ys @ zs, l2)))"
proof (induction ts arbitrary: l)
  case Nil
  show ?case by (cases "timer_run us l") auto
next
  case (Cons t ts)
  show ?case
  proof (cases "lapic_timer 0 t l")
    case (Inr r)
    obtain y l1 where "r = (y, l1)" by force
    then show ?thesis using Inr Cons.IH [of l1] by (cases "timer_run ts l1"; cases "timer_run us (snd (projr (timer_run ts l1)))") (auto split: prod.splits)
  qed simp
qed

lemma eoi_keeps [simp]: "la_stage (eoi l) = la_stage l" "la_deadline (eoi l) = la_deadline l" "la_callibration_ticks (eoi l) = la_callibration_ticks l"
  "la_ticks_per_sec (eoi l) = la_ticks_per_sec l" "la_base (eoi l) = la_base l" "la_calibrated (eoi l) = la_calibrated l"
  "la_writes (eoi l) = la_writes l @ [(la_base l + 176, 0xffffffff)]"
  by (simp_all add: eoi_def lapic_write_def EOI_def)

lemma timer_run_before:
  assumes "la_stage l = 0" and "\<forall>t \<in> set ts. t \<le> la_deadline l"
  shows "\<exists>l'. timer_run ts l = Inr (replicate (length ts) False, l') \<and> la_stage l' = 0 \<and> la_deadline l' = la_deadline l \<and>
    la_base l' = la_base l \<and> la_calibrated l' = la_calibrated l"
  using assms
proof (induction ts arbitrary: l)
  case (Cons t ts)
  from Cons.IH [of "eoi l"] Cons.prems obtain l' where
    "timer_run ts (eoi l) = Inr (replicate (length ts) False, l')" "la_stage l' = 0" "la_deadline l' = la_deadline l" "la_base l' = la_base l"
    "la_calibrated l' = la_calibrated l" by auto
  then show ?case using Cons.prems by (simp add: lapic_timer_def Let_def not_less [symmetric])
qed simp

lemma timer_run_counting:
  assumes "la_stage l = 1" and "\<forall>t \<in> set ts. t \<le> la_deadline l"
  shows "\<exists>l'. timer_run ts l = Inr (replicate (length ts) False, l') \<and> la_stage l' = 1 \<and> la_deadline l' = la_deadline l \<and>
    la_base l' = la_base l \<and> la_calibrated l' = la_calibrated l \<and> la_callibration_ticks l' = la_callibration_ticks l + of_nat (length ts)"
  using assms
proof (induction ts arbitrary: l)
  case (Cons t ts)
  let ?l = "eoi (l\<lparr>la_callibration_ticks := la_callibration_ticks l + 1\<rparr>)"
  from Cons.IH [of ?l] Cons.prems obtain l' where
    "timer_run ts ?l = Inr (replicate (length ts) False, l')" "la_stage l' = 1" "la_deadline l' = la_deadline l" "la_base l' = la_base l"
    "la_calibrated l' = la_calibrated l" "la_callibration_ticks l' = la_callibration_ticks l + 1 + of_nat (length ts)" by auto
  then show ?case using Cons.prems by (simp add: lapic_timer_def Let_def not_less [symmetric] add.assoc)
qed simp

text \<open>A CPU other than 0 takes over the calibrated count.\<close>

lemma other_cpu_timer:
  assumes "0 < c" and "c < length (la_calibrated l)" and "\<not> la_calibrated l ! c" and "la_ticks_per_sec l \<noteq> 0" and "la_ticks_per_sec l div 3 div 1000 = v"
  shows "\<exists>l'' vs. lapic_timer c t l = Inr (False, l'') \<and> (\<forall>t'. \<exists>l3. lapic_timer c t' l'' = Inr (True, l3)) \<and>
       la_writes l'' = vs @ [(la_base l + 0x380, v), (la_base l + 0xb0, 0xffffffff)]"
  using assms by (simp add: lapic_timer_def Let_def CAL_DIV_def SWITCHES_PER_SECOND_def set_timer_def lapic_write_def TIMER_INITIAL_def)

section \<open>Initialisation\<close>

text \<open>The vectors of the local APIC and their handlers.\<close>

definition lapic_handlers :: "(idt_proc_state \<Rightarrow> 'r) \<times> (idt_proc_state \<Rightarrow> 'r) \<times> (idt_proc_state \<Rightarrow> 'r) \<Rightarrow> (u8 \<times> (idt_proc_state \<Rightarrow> 'r)) list" where
  "lapic_handlers hs = (let (h_timer, h_command, h_panic) = hs in [(0x20, h_timer), (0x28, h_command), (0x29, h_panic)])"

lemma lapic_vectors: "(ucast (INT_LAPIC_BASE + INT_LAPIC_TIMER) :: u8) = 0x20" "(ucast INT_LAPIC_BASE :: u8) = 0x20"
  "(ucast (INT_LAPIC_BASE + INT_LAPIC_COMMAND) :: u8) = 0x28" "(ucast (INT_LAPIC_BASE + INT_LAPIC_PANIC) :: u8) = 0x29"
  by (simp_all add: INT_LAPIC_BASE_def INT_LAPIC_TIMER_def INT_LAPIC_COMMAND_def INT_LAPIC_PANIC_def)

lemma lapic_init_ready:
  assumes "kmem_inv m as bs" and "\<not> m_mutex m" and "kmem_can sizeof_Page (KMALLOC_RESERVED OR KMALLOC_NOLOCK) m as"
    and "empty_slot m = NULL" and "virtual_pointer m \<noteq> 0" and "unat (virtual_pointer m) < TOTAL_VM_SIZE - unat PAGE_SIZE"
    and "\<forall>v. 0x10000 \<le> stub v"
  shows "\<exists>m' s' l' as' bs'. lapic_init (Suc (Suc k)) lb stub hs time m s l = Inr (m', s', l') \<and> kmem_inv m' as' bs' \<and>
    m_ptes m' = (m_ptes m)(cursor m := lb OR (PAGE_TABLE_CACHEDISABLE OR PAGE_TABLE_RW) OR PAGE_TABLE_PRESENT) \<and> la_base l' = virtual_pointer m \<and>
    it_functions s' = it_functions s ++ map_of (lapic_handlers hs) \<and> it_functions_err s' = it_functions_err s \<and>
    (\<forall>v. v \<notin> {0x20, 0x28, 0x29} \<longrightarrow> it_table s' v = it_table s v) \<and>
    (\<forall>v \<in> {0x20, 0x28, 0x29}. gate_of s' v = (stub v, 0x10, 0x8e))"
proof -
  obtain ht hc hp where hs: "hs = (ht, hc, hp)" by (cases hs)
  from device_page [OF assms(1-6), of k lb FLAG_KERNEL "Suc (Suc k)" "PAGE_TABLE_CACHEDISABLE OR PAGE_TABLE_RW"]
  obtain p m1 m2 as' bs' where c: "page_create (Suc (Suc k)) lb FLAG_KERNEL 1 m = Inr (p, m1)"
      "kinstall (Suc (Suc k)) p (PAGE_TABLE_CACHEDISABLE OR PAGE_TABLE_RW) m1 = Inr (virtual_pointer m, m2)"
      "m_ptes m2 = (m_ptes m)(cursor m := lb OR (PAGE_TABLE_CACHEDISABLE OR PAGE_TABLE_RW) OR PAGE_TABLE_PRESENT)" "kmem_inv m2 as' bs'" .
  have o: "(ucast (drop_bit 16 (stub v)) :: u16) \<noteq> 0" for v
    using gate_offset_high [of "undefined\<lparr>ie_offset_low := ucast (stub v AND 0xffff), ie_offset_high := ucast (drop_bit 16 (stub v))\<rparr>"]
      gate_offset_enable [of "stub v" undefined] assms(7) by simp
  have sel: "kernel_code = 0x10" "GATE_32_INT OR FLAG_PRESENT = 0x8e"
    by (simp_all add: kernel_code_def GDT_SELECTOR_def GATE_32_INT_def FLAG_PRESENT_def)
  let ?t1 = "it_table (fold (\<lambda>v. enable_entry v (stub v)) [0x20, 0x28, 0x29] s)"
  let ?up = "update_entry 0x10 0x8e"
  let ?s' = "s\<lparr>it_table := ?t1(0x20 := ?up (?t1 0x20), 0x28 := ?up (?t1 0x28), 0x29 := ?up (?t1 0x29)),
     it_functions := it_functions s ++ map_of (lapic_handlers hs)\<rparr>"
  let ?l' = "set_timer CAL_INIT CAL_DIV ((lapic_write SPURIOUS_INT_VECTOR 0x1ff (l\<lparr>la_base := virtual_pointer m\<rparr>))\<lparr>la_deadline := time\<rparr>)"
  have f: "it_functions s ++ map_of (lapic_handlers hs) = (it_functions s)(0x20 \<mapsto> ht, 0x28 \<mapsto> hc, 0x29 \<mapsto> hp)"
    by (rule ext) (simp add: lapic_handlers_def hs map_add_def)
  have i: "lapic_init (Suc (Suc k)) lb stub hs time m s l = Inr (m2, ?s', ?l')"
    unfolding lapic_init_def hs lapic_vectors using c(1,2) o f hs
    by (simp add: Let_def idt_install_def enable_entry_def sel)
  have ue: "gate_offset (?up x) = gate_offset x" "ie_selector (?up x) = 0x10" "ie_type_attr (?up x) = 0x8e" for x
    by (simp_all add: update_entry_def gate_offset_def)
  have g: "gate_of ?s' v = (stub v, 0x10, 0x8e)" if "v \<in> {0x20, 0x28, 0x29}" for v
    using that by (auto simp: gate_of_def enable_entry_def ue gate_offset_enable)
  show ?thesis
    by (intro exI [of _ m2] exI [of _ ?s'] exI [of _ ?l'] exI [of _ as'] exI [of _ bs'])
      (use i c(3,4) g in \<open>simp add: enable_entry_def set_timer_def lapic_write_def\<close>)
qed

section \<open>Properties\<close>

text \<open>C7: When a CPU that changes a kernel mapping is about to return, every CPU of the machine, itself included, has invalidated the
  address since it began; this holds for any number of CPUs and any interleaving with other such changes and with
  single messages. The handler never meets an unknown command.\<close>

theorem lapic_shootdown_complete:
  assumes "xreach n x" and "xs_pos x c = Sending True a []"
  shows "(\<forall>t < n. a \<in> set (drop (xs_mark x c t) (xs_tlb x t))) \<and>
    (\<forall>t. xs_pending x t \<longrightarrow> (\<exists>r. handle_command (xs_status x t) = Inr r))"
proof (intro conjI allI impI)
  have i: "xinv n x" by (rule xreach_xinv [OF assms(1)])
  fix t
  show "a \<in> set (drop (xs_mark x c t) (xs_tlb x t))" if "t < n"
    using inv_servedD [of n x c a "[]" t] i assms(2) that by (simp add: xinv_def served_def)
  show "\<exists>r. handle_command (xs_status x t) = Inr r" if "xs_pending x t"
    using inv_cmd_pending [of x t] i that by (auto simp: xinv_def cmd_is_def handle_command_def)
qed

theorem lapic_shootdown_complete_witness:
  "\<exists>x. xreach 2 x \<and> xs_pos x 0 = Sending True 0x1000 [] \<and> 0x1000 \<in> set (xs_tlb x 1)"
proof -
  let ?x1 = "x_idle\<lparr>xs_pos := (xs_pos x_idle)(0 := WantKmem 0x1000), xs_mark := (xs_mark x_idle)(0 := \<lambda>t. length (xs_tlb x_idle t))\<rparr>"
  let ?x2 = "?x1\<lparr>xs_kmem := True, xs_mutex := True, xs_status := (xs_status ?x1)(1 := send_store CMD_INVLPG 0x1000 (xs_status ?x1 1)),
    xs_pending := (xs_pending ?x1)(1 := True), xs_tlb := (xs_tlb ?x1)(0 := xs_tlb ?x1 0 @ [0x1000]), xs_pos := (xs_pos ?x1)(0 := AwaitDone True 0x1000 1 [2..<2])\<rparr>"
  let ?i = "(xs_status ?x2 1)\<lparr>st_command_finished := True\<rparr>"
  let ?x3 = "?x2\<lparr>xs_status := (xs_status ?x2)(1 := ?i), xs_pending := (xs_pending ?x2)(1 := False), xs_tlb := (xs_tlb ?x2)(1 := xs_tlb ?x2 1 @ [0x1000])\<rparr>"
  let ?x4 = "?x3\<lparr>xs_mutex := snd (Mutex_unlock (xs_mutex ?x3)), xs_pos := (xs_pos ?x3)(0 := Sending True 0x1000 [2..<2])\<rparr>"
  have 1: "xstep 2 x_idle ?x1" by (rule start_page) (simp_all add: x_idle_def)
  have 2: "(xstep 2)\<^sup>*\<^sup>* ?x1 ?x2" by (rule send_to_one) (simp_all add: x_idle_def)
  have 3: "xstep 2 ?x2 ?x3" by (rule take_interrupt) (simp_all add: x_idle_def send_store_def handle_command_def)
  have 4: "xstep 2 ?x3 ?x4" by (rule finish_cmd [where t = 1 and k = True]) (simp_all add: x_idle_def)
  from 1 2 3 4 have r: "xreach 2 ?x4" unfolding xreach_def
    by (meson xinit_idle converse_rtranclp_into_rtranclp rtranclp.rtrancl_into_rtrancl)
  have p: "xs_pos ?x4 0 = Sending True 0x1000 []" by simp
  from lapic_shootdown_complete [OF r p] have "0x1000 \<in> set (drop (xs_mark ?x4 0 1) (xs_tlb ?x4 1))" by simp
  then have "0x1000 \<in> set (xs_tlb ?x4 1)" by (rule in_set_dropD)
  with r p show ?thesis by blast
qed

text \<open>C37: Changing a kernel mapping can stop the machine: on two or more CPUs a state is reachable in which one CPU waits for the other to
  invalidate the address while the other waits with interrupts disabled for \<open>kmem::mutex\<close>, and whatever happens
  afterwards neither of them ever gets on.\<close>

theorem lapic_shootdown_deadlock:
  assumes "2 \<le> n"
  shows "\<exists>x. xreach n x \<and> (\<forall>y. (xstep n)\<^sup>*\<^sup>* x y \<longrightarrow> xs_pos y 0 = AwaitDone True a 1 [2..<n] \<and> xs_pos y 1 = WantKmem b)"
proof -
  let ?x1 = "x_idle\<lparr>xs_pos := (xs_pos x_idle)(0 := WantKmem a), xs_mark := (xs_mark x_idle)(0 := \<lambda>t. length (xs_tlb x_idle t))\<rparr>"
  let ?x2 = "?x1\<lparr>xs_pos := (xs_pos ?x1)(1 := WantKmem b), xs_mark := (xs_mark ?x1)(1 := \<lambda>t. length (xs_tlb ?x1 t))\<rparr>"
  let ?x3 = "?x2\<lparr>xs_kmem := True, xs_mutex := True, xs_status := (xs_status ?x2)(1 := send_store CMD_INVLPG a (xs_status ?x2 1)),
    xs_pending := (xs_pending ?x2)(1 := True), xs_tlb := (xs_tlb ?x2)(0 := xs_tlb ?x2 0 @ [a]), xs_pos := (xs_pos ?x2)(0 := AwaitDone True a 1 [2..<n])\<rparr>"
  have 1: "xstep n x_idle ?x1" by (rule start_page) (use assms in \<open>simp_all add: x_idle_def\<close>)
  have 2: "xstep n ?x1 ?x2" by (rule start_page) (use assms in \<open>simp_all add: x_idle_def\<close>)
  have 3: "(xstep n)\<^sup>*\<^sup>* ?x2 ?x3" by (rule send_to_one [OF assms]) (simp_all add: x_idle_def)
  from 1 2 3 have r: "xreach n ?x3" unfolding xreach_def by (meson xinit_idle converse_rtranclp_into_rtranclp)
  have "inv_locks ?x3" using xreach_xinv [OF r] by (simp add: xinv_def)
  then have "stuck a b [2..<n] ?x3" by (simp add: stuck_def x_idle_def send_store_def)
  then have "\<forall>y. (xstep n)\<^sup>*\<^sup>* ?x3 y \<longrightarrow> xs_pos y 0 = AwaitDone True a 1 [2..<n] \<and> xs_pos y 1 = WantKmem b"
    using stuck_for_ever by (auto simp: stuck_def)
  with r show ?thesis by blast
qed

theorem lapic_shootdown_deadlock_witness:
  "\<exists>x. xreach 2 x \<and> (\<forall>y. (xstep 2)\<^sup>*\<^sup>* x y \<longrightarrow> xs_pos y 0 = AwaitDone True 0x1000 1 [] \<and> xs_pos y 1 = WantKmem 0x2000)"
  using lapic_shootdown_deadlock [of 2 "0x1000" "0x2000"] by simp

text \<open>C32: The calibration of the timers: the interrupts that CPU 0 gets during the 83 ticks of the clock that follow the first one are
  counted, their number becomes the initial count of its timer (so that the timer fires a thousand times as often as it would
  count down from a thousand), and nobody yields before; from then on every timer interrupt of CPU 0 yields, and any other
  CPU programs its timer with the same count at its next interrupt and yields at the following ones.\<close>

theorem lapic_timer_calibrates:
  assumes "la_stage l = 0" and "\<forall>t \<in> set pre. t \<le> la_deadline l" and "la_deadline l < t1" and "\<forall>t \<in> set mid. t \<le> t1 + 83" and "t1 + 83 < t2"
    and "length mid < 1000000" and "0 < c" "c < length (la_calibrated l)" "\<not> la_calibrated l ! c"
  shows "\<exists>l' ws. timer_run (pre @ t1 # mid @ [t2]) l = Inr (replicate (length pre + length mid + 2) False, l') \<and>
    la_writes l' = ws @ [(la_base l + 0x380, of_nat (Suc (length mid))), (la_base l + 0xb0, 0xffffffff)] \<and>
    (\<forall>t. \<exists>l''. lapic_timer 0 t l' = Inr (True, l'')) \<and>
    (\<forall>t. \<exists>l'' vs. lapic_timer c t l' = Inr (False, l'') \<and> (\<forall>t'. \<exists>l3. lapic_timer c t' l'' = Inr (True, l3)) \<and>
       la_writes l'' = vs @ [(la_base l + 0x380, of_nat (Suc (length mid))), (la_base l + 0xb0, 0xffffffff)])"
proof -
  from timer_run_before [OF assms(1,2)] obtain l1 where l1: "timer_run pre l = Inr (replicate (length pre) False, l1)"
    "la_stage l1 = 0" "la_deadline l1 = la_deadline l" "la_base l1 = la_base l" "la_calibrated l1 = la_calibrated l" by blast
  let ?l2 = "eoi (l1\<lparr>la_stage := 1, la_deadline := t1 + 83, la_callibration_ticks := 1\<rparr>)"
  have s1: "lapic_timer 0 t1 l1 = Inr (False, ?l2)" using l1(2,3) assms(3) by (simp add: lapic_timer_def PER_SECOND_def)
  from timer_run_counting [of ?l2 mid] assms(4) obtain l3 where l3: "timer_run mid ?l2 = Inr (replicate (length mid) False, l3)"
    "la_stage l3 = 1" "la_deadline l3 = t1 + 83" "la_base l3 = la_base l" "la_calibrated l3 = la_calibrated l"
    "la_callibration_ticks l3 = of_nat (Suc (length mid))" using l1(4,5) by auto
  let ?k = "of_nat (Suc (length mid)) :: u32" and ?t = "of_nat (Suc (length mid)) * 1000 * 3 :: u32"
  let ?l4 = "eoi ((lapic_write 0x380 (?t div 3 div 1000) (l3\<lparr>la_stage := 2, la_ticks_per_sec := ?t\<rparr>))\<lparr>la_callibration_ticks := 0\<rparr>)"
  have s2: "lapic_timer 0 t2 l3 = Inr (False, ?l4)"
    using l3(2,3,6) assms(5) by (simp add: lapic_timer_def Let_def CAL_INIT_def CAL_DIV_def SWITCHES_PER_SECOND_def TIMER_INITIAL_def)
  have m: "?t = of_nat (3000 * Suc (length mid))" by simp
  have n: "3000 * Suc (length mid) < 2 ^ LENGTH(32)" "Suc (length mid) < 2 ^ LENGTH(32)" using assms(6) by simp_all
  have u: "unat ?t = 3000 * Suc (length mid)" unfolding m by (rule unat_of_nat_lt [OF n(1)])
  have "unat (?t div 3 div 1000) = Suc (length mid)" using u by (simp add: unat_div_distrib)
  then have v: "?t div 3 div 1000 = ?k" using unat_of_nat_lt [OF n(2)] by (metis word_unat_eq_iff)
  have nz: "?t \<noteq> 0"
  proof
    assume "?t = 0"
    then have "unat ?t = 0" by (simp only: unsigned_0)
    then show False using u by simp
  qed
  have rep: "replicate i False @ False # replicate j False @ [False] = replicate (i + j + 2) False" for i j by (induction i) (simp_all add: replicate_append_same)
  have r: "timer_run (pre @ t1 # mid @ [t2]) l = Inr (replicate (length pre + length mid + 2) False, ?l4)"
    using l1(1) s1 l3(1) s2 unfolding rep [symmetric] by (simp add: timer_run_append)
  have w: "la_writes ?l4 = la_writes l3 @ [(la_base l + 0x380, ?k), (la_base l + 0xb0, 0xffffffff)]" using v l3(4) by (simp add: lapic_write_def)
  have y: "\<exists>l''. lapic_timer 0 t ?l4 = Inr (True, l'')" for t by (simp add: lapic_timer_def lapic_write_def)
  have z: "la_ticks_per_sec ?l4 = ?t" "la_calibrated ?l4 = la_calibrated l" "la_base ?l4 = la_base l" using l3(4,5) by (simp_all add: lapic_write_def)
  have q: "c < length (la_calibrated ?l4)" "\<not> la_calibrated ?l4 ! c" "la_ticks_per_sec ?l4 \<noteq> 0" "la_ticks_per_sec ?l4 div 3 div 1000 = ?k"
    unfolding z(1,2) by (rule assms(8), rule assms(9), rule nz, rule v)
  have oc: "\<exists>l'' vs. lapic_timer c t ?l4 = Inr (False, l'') \<and> (\<forall>t'. \<exists>l3. lapic_timer c t' l'' = Inr (True, l3)) \<and>
       la_writes l'' = vs @ [(la_base l + 0x380, ?k), (la_base l + 0xb0, 0xffffffff)]" for t
    unfolding z(3) [symmetric] by (rule other_cpu_timer [OF assms(7) q])
  from r w y oc show ?thesis by blast
qed

definition lapic_example :: lapic where
  "lapic_example = \<lparr>la_base = 0xd0000000, la_stage = 0, la_deadline = 0, la_callibration_ticks = 0, la_ticks_per_sec = 0, la_calibrated = [False, False], la_writes = []\<rparr>"

theorem lapic_timer_calibrates_witness:
  "\<exists>l' ws. timer_run ([0] @ 1 # [5, 84] @ [85]) lapic_example = Inr (replicate 5 False, l') \<and>
    la_writes l' = ws @ [(0xd0000380, 3), (0xd00000b0, 0xffffffff)]"
proof -
  have "\<exists>l' ws. timer_run ([0] @ 1 # [5, 84] @ [85]) lapic_example = Inr (replicate (length [0 :: u32] + length [5, 84 :: u32] + 2) False, l') \<and>
    la_writes l' = ws @ [(la_base lapic_example + 0x380, of_nat (Suc (length [5, 84 :: u32]))), (la_base lapic_example + 0xb0, 0xffffffff)] \<and>
    (\<forall>t. \<exists>l''. lapic_timer 0 t l' = Inr (True, l'')) \<and>
    (\<forall>t. \<exists>l'' vs. lapic_timer 1 t l' = Inr (False, l'') \<and> (\<forall>t'. \<exists>l3. lapic_timer 1 t' l'' = Inr (True, l3)) \<and>
       la_writes l'' = vs @ [(la_base lapic_example + 0x380, of_nat (Suc (length [5, 84 :: u32]))), (la_base lapic_example + 0xb0, 0xffffffff)])"
    by (rule lapic_timer_calibrates) (simp_all add: lapic_example_def)
  then show ?thesis by (auto simp: lapic_example_def numeral_eq_Suc)
qed

end
