(* ===== verification/Boot.thy ===== *)
theory Boot
  imports Elf
begin

text \<open>
  \<open>src/main/lomain.cpp\<close>, \<open>src/main/loerror.cpp\<close> and \<open>include/main/multiboot.hpp\<close>: what runs before paging is on. The boot
  loader's information is copied to where the kernel will look for it, the kernel's memory map is computed, and the page
  directory and the kernel's page tables are filled in. Memory is a function from addresses to bytes; the tables, which the code
  accesses as words, are a function from addresses to words. The addresses that the linker assigns are an argument.
\<close>

section \<open>Boot information\<close>

definition LOCAL_MM_COUNT :: nat where "LOCAL_MM_COUNT = 10"
definition LOCAL_CMDLINE_LENGTH :: nat where "LOCAL_CMDLINE_LENGTH = 256"
definition LOCAL_BOOT_LOADER_NAME_LENGTH :: nat where "LOCAL_BOOT_LOADER_NAME_LENGTH = 16"
definition sizeof_mm_entry :: nat where "sizeof_mm_entry = 24"
definition sizeof_info :: nat where "sizeof_info = 96"

text \<open>The fields of the boot loader's structure at \<open>mbi\<close>.\<close>

definition mb_cmdline :: "bytes \<Rightarrow> u32 \<Rightarrow> u32" where "mb_cmdline m mbi = read32 m (mbi + 16)"
definition mb_elf_num :: "bytes \<Rightarrow> u32 \<Rightarrow> u32" where "mb_elf_num m mbi = read32 m (mbi + 28)"
definition mb_elf_size :: "bytes \<Rightarrow> u32 \<Rightarrow> u32" where "mb_elf_size m mbi = read32 m (mbi + 32)"
definition mb_elf_addr :: "bytes \<Rightarrow> u32 \<Rightarrow> u32" where "mb_elf_addr m mbi = read32 m (mbi + 36)"
definition mb_mmap_length :: "bytes \<Rightarrow> u32 \<Rightarrow> u32" where "mb_mmap_length m mbi = read32 m (mbi + 44)"
definition mb_mmap_addr :: "bytes \<Rightarrow> u32 \<Rightarrow> u32" where "mb_mmap_addr m mbi = read32 m (mbi + 48)"
definition mb_boot_loader_name :: "bytes \<Rightarrow> u32 \<Rightarrow> u32" where "mb_boot_loader_name m mbi = read32 m (mbi + 64)"

text \<open>The linker's addresses, all in the upper half.\<close>

record boot_syms =
  sy_cmdline :: u32
  sy_boot_loader_name :: u32
  sy_mem_table :: u32
  sy_header :: u32
  sy_startofro :: u32
  sy_endofro :: u32
  sy_endofrw :: u32

definition LOW_addr :: "u32 \<Rightarrow> u32" where
  "LOW_addr a = a - KERNEL_VM_BASE"

fun low_strncpy :: "u32 \<Rightarrow> u32 \<Rightarrow> nat \<Rightarrow> bytes \<Rightarrow> bytes" where
  "low_strncpy d s 0 m = m"
| "low_strncpy d s (Suc n) m = (let m1 = m(d := m s) in if m1 d = 0 then m1 else low_strncpy (d + 1) (s + 1) n m1)"

text \<open>\<open>LOW(char *, x)[n - 1] = 0\<close> reads a pointer from the first four bytes of the array and writes through it.\<close>

definition low_terminate :: "u32 \<Rightarrow> nat \<Rightarrow> bytes \<Rightarrow> bytes" where
  "low_terminate a n m = m(read32 m (LOW_addr a) + of_nat (n - 1) := 0)"

text \<open>The loop over the memory map: \<open>n\<close> more entries may be stored from number \<open>i\<close> on.\<close>

fun mmap_loop :: "boot_syms \<Rightarrow> u32 \<Rightarrow> nat \<Rightarrow> nat \<Rightarrow> u32 \<Rightarrow> bytes \<Rightarrow> bytes" where
  "mmap_loop sy mbi i 0 e m = m"
| "mmap_loop sy mbi i (Suc n) e m = (if e - mb_mmap_addr m mbi < mb_mmap_length m mbi
     then let m1 = copy_bytes (LOW_addr (sy_mem_table sy + of_nat (sizeof_mm_entry * i))) e sizeof_mm_entry m
       in mmap_loop sy mbi (Suc i) n (e + read32 m1 e + 4) m1
     else m)"

definition low_copy_info :: "boot_syms \<Rightarrow> u32 \<Rightarrow> bytes \<Rightarrow> bytes" where
  "low_copy_info sy mbi m =
     (let m1 = low_terminate (sy_cmdline sy) LOCAL_CMDLINE_LENGTH
            (low_strncpy (LOW_addr (sy_cmdline sy)) (mb_cmdline m mbi) LOCAL_CMDLINE_LENGTH m);
          m2 = low_terminate (sy_boot_loader_name sy) LOCAL_BOOT_LOADER_NAME_LENGTH
            (low_strncpy (LOW_addr (sy_boot_loader_name sy)) (mb_boot_loader_name m1 mbi) LOCAL_BOOT_LOADER_NAME_LENGTH m1);
          m3 = mmap_loop sy mbi 0 LOCAL_MM_COUNT (mb_mmap_addr m2 mbi) m2
      in copy_bytes (LOW_addr (sy_header sy)) mbi sizeof_info m3)"

section \<open>The memory map\<close>

text \<open>The highest end and the lowest address of the sections.\<close>

definition sect_load :: "bytes \<Rightarrow> u32 \<Rightarrow> u32" where
  "sect_load m p = (if KERNEL_VM_BASE \<le> sh_addr m p then sh_addr m p - KERNEL_VM_BASE else sh_addr m p)"

fun sect_loop :: "bytes \<Rightarrow> u32 \<Rightarrow> u32 \<Rightarrow> nat \<Rightarrow> u32 \<times> u32 \<Rightarrow> u32 \<times> u32" where
  "sect_loop m mbi i 0 el = el"
| "sect_loop m mbi i (Suc n) el = (let p = mb_elf_addr m mbi + i * mb_elf_size m mbi; la = sect_load m p in
     sect_loop m mbi (i + 1) n
       (if fst el < la + sh_size m p then la + sh_size m p else fst el, if la < snd el then la else snd el))"

definition low_bounds :: "boot_syms \<Rightarrow> bytes \<Rightarrow> u32 \<Rightarrow> u32 \<times> u32" where
  "low_bounds sy m mbi = (let (e, l) = sect_loop m mbi 0 (unat (mb_elf_num m mbi)) (0, 0xffffffff);
       e1 = e + PAGE_SIZE - e mod PAGE_SIZE in
     if mb_elf_num m mbi = 0 then (LOW_addr (sy_endofrw sy), LOW_addr (sy_startofro sy)) else (e1, l))"

definition low_map :: "boot_syms \<Rightarrow> u32 \<Rightarrow> u32 \<Rightarrow> map_t" where
  "low_map sy info_end lowest_info = (let ro_end = LOW_addr (sy_endofro sy); rw_end = LOW_addr (sy_endofrw sy);
       vmend = info_end + 4 * of_nat PAGE_TABLE_LENGTH + (4 * of_nat PAGE_TABLE_LENGTH) * of_nat KERNEL_VM_PAGE_TABLES in
     \<lparr>kernel_ro_start = lowest_info, kernel_ro_end = ro_end, kernel_rw_start = ro_end, kernel_rw_end = rw_end,
      kernel_info_start = rw_end, kernel_info_end = info_end, vm_start = info_end, vm_end = vmend, memory_start = vmend\<rparr>)"

section \<open>The page tables\<close>

definition PAGE_TABLE_SIZE :: u32 where "PAGE_TABLE_SIZE = 0x80"

definition low_pte :: "map_t \<Rightarrow> u32 \<Rightarrow> u32" where
  "low_pte mp addr = (if kernel_ro_start mp \<le> addr \<and> addr < kernel_ro_end mp + PAGE_SIZE then addr OR PAGE_TABLE_PRESENT
     else if kernel_rw_start mp \<le> addr \<and> addr < vm_end mp + PAGE_SIZE then addr OR PAGE_TABLE_RW OR PAGE_TABLE_PRESENT else 0)"

fun table_loop :: "map_t \<Rightarrow> u32 \<Rightarrow> u32 \<Rightarrow> nat \<Rightarrow> u32 \<Rightarrow> (u32 \<Rightarrow> u32) \<Rightarrow> u32 \<Rightarrow> u32" where
  "table_loop mp i j 0 e w = w"
| "table_loop mp i j (Suc n) e w = table_loop mp i (j + 1) n (e + 4)
     (w(e := low_pte mp (i * PAGE_DIR_SIZE + j * PAGE_SIZE - KERNEL_VM_BASE)))"

fun dir_loop :: "map_t \<Rightarrow> u32 \<Rightarrow> u32 \<Rightarrow> nat \<Rightarrow> u32 \<Rightarrow> (u32 \<Rightarrow> u32) \<Rightarrow> u32 \<Rightarrow> u32" where
  "dir_loop mp dir i 0 table w = w"
| "dir_loop mp dir i (Suc n) table w = (if KERNEL_VM_BASE div PAGE_DIR_SIZE \<le> i
     then dir_loop mp dir (i + 1) n (table + 4096)
       (table_loop mp i 0 PAGE_TABLE_LENGTH table (w(dir + 4 * i := table OR PAGE_TABLE_RW OR PAGE_TABLE_PRESENT)))
     else dir_loop mp dir (i + 1) n table (w(dir + 4 * i := PAGE_TABLE_RW OR PAGE_TABLE_SIZE)))"

definition low_tables :: "map_t \<Rightarrow> (u32 \<Rightarrow> u32) \<Rightarrow> u32 \<Rightarrow> u32" where
  "low_tables mp w = (let dir = vm_start mp; table = vm_start mp + 4096 in
     dir_loop mp dir 1 (PAGE_TABLE_LENGTH - 1) table (w(dir := PAGE_TABLE_RW OR PAGE_TABLE_PRESENT OR PAGE_TABLE_SIZE)))"

text \<open>The result is the page directory with the map and the new memory.\<close>

definition low_kernel_main :: "boot_syms \<Rightarrow> u32 \<Rightarrow> bytes \<Rightarrow> acpi \<Rightarrow> (u32 \<Rightarrow> u32) \<Rightarrow> (u32 \<times> map_t \<times> bytes \<times> acpi \<times> (u32 \<Rightarrow> u32)) result" where
  "low_kernel_main sy mbi m ac w = (let m1 = low_copy_info sy mbi m; (info_end, lowest_info) = low_bounds sy m1 mbi in
     bindE (low_setup m1 ac) (\<lambda>ac1. let mp = low_map sy info_end lowest_info in
     Inr (vm_start mp, mp, m1, ac1, low_tables mp w)))"

section \<open>Errors before the kernel runs\<close>

text \<open>\<open>low_error\<close> writes to the text screen at \<open>0xb8000\<close> and halts for ever: the characters of the screen.\<close>

definition low_error :: "string \<Rightarrow> u16 list" where
  "low_error msg = map (\<lambda>x. of_nat (of_char x) OR push_bit 8 15) (''Error: '' @ msg)"

section \<open>The walk through the tables\<close>

text \<open>What the processor does with a page directory at \<open>dir\<close>: the physical address and whether it may be written.\<close>

definition walk :: "(u32 \<Rightarrow> u32) \<Rightarrow> u32 \<Rightarrow> u32 \<Rightarrow> (u32 \<times> bool) option" where
  "walk w dir a = (let de = w (dir + 4 * drop_bit 22 a) in
     if \<not> bit de 0 then None
     else if bit de 7 then Some ((de AND NOT (mask 22)) + (a AND mask 22), bit de 1)
     else let te = w ((de AND NOT (mask 12)) + 4 * (drop_bit 12 a AND mask 10)) in
       if \<not> bit te 0 then None else Some ((te AND NOT (mask 12)) + (a AND mask 12), bit te 1))"

text \<open>The loops as sequences of writes.\<close>

definition upd_all :: "(u32 \<times> u32) list \<Rightarrow> (u32 \<Rightarrow> u32) \<Rightarrow> u32 \<Rightarrow> u32" where
  "upd_all ws w = fold (\<lambda>(a, v) w. w(a := v)) ws w"

lemma upd_all_in:
  assumes "(x, v) \<in> set ws" and "\<And>v'. (x, v') \<in> set ws \<Longrightarrow> v' = v"
  shows "upd_all ws w x = v"
  using assms
proof (induction ws rule: rev_induct)
  case (snoc p ws)
  show ?case
  proof (cases "fst p = x")
    case True
    then have "(x, snd p) \<in> set (ws @ [p])" by (cases p) simp
    then have "snd p = v" by (rule snoc.prems(2))
    then show ?thesis using True by (cases p) (simp add: upd_all_def)
  next
    case False
    then have "(x, v) \<in> set ws" using snoc.prems(1) by (cases p) auto
    then have "upd_all ws w x = v" by (rule snoc.IH) (rule snoc.prems(2), simp)
    then show ?thesis using False by (cases p) (simp add: upd_all_def)
  qed
qed simp

lemma upd_all_append: "upd_all (us @ vs) w = upd_all vs (upd_all us w)"
  by (simp add: upd_all_def)

lemma upd_all_Cons: "upd_all ((a, v) # ws) w = upd_all ws (w(a := v))"
  by (simp add: upd_all_def)

definition page_of :: "nat \<Rightarrow> nat \<Rightarrow> u32" where
  "page_of i j = of_nat i * PAGE_DIR_SIZE + of_nat j * PAGE_SIZE - KERNEL_VM_BASE"

definition table_writes :: "map_t \<Rightarrow> nat \<Rightarrow> nat \<Rightarrow> nat \<Rightarrow> u32 \<Rightarrow> (u32 \<times> u32) list" where
  "table_writes mp i j n e = map (\<lambda>k. (e + 4 * of_nat k, low_pte mp (page_of i (j + k)))) [0..<n]"

lemma table_writes_Suc: "table_writes mp i j (Suc n) e = (e, low_pte mp (page_of i j)) # table_writes mp i (Suc j) n (e + 4)"
proof -
  have "[0..<Suc n] = 0 # map Suc [0..<n]" by (simp only: map_Suc_upt upt_conv_Cons)
  then show ?thesis by (simp add: table_writes_def algebra_simps del: upt_Suc)
qed

lemma table_loop_writes: "table_loop mp (of_nat i) (of_nat j) n e w = upd_all (table_writes mp i j n e) w"
proof (induction n arbitrary: j e w)
  case 0
  then show ?case by (simp add: table_writes_def upd_all_def)
next
  case (Suc n)
  have "(of_nat j :: u32) + 1 = of_nat (Suc j)" by simp
  then show ?case using Suc [of "Suc j"] by (simp add: table_writes_Suc upd_all_Cons page_of_def fun_upd_def del: of_nat_Suc)
qed

fun dir_writes :: "map_t \<Rightarrow> u32 \<Rightarrow> nat \<Rightarrow> nat \<Rightarrow> u32 \<Rightarrow> (u32 \<times> u32) list" where
  "dir_writes mp dir i 0 t = []"
| "dir_writes mp dir i (Suc n) t = (if 768 \<le> i
     then (dir + 4 * of_nat i, t OR PAGE_TABLE_RW OR PAGE_TABLE_PRESENT) # table_writes mp i 0 1024 t @ dir_writes mp dir (Suc i) n (t + 4096)
     else (dir + 4 * of_nat i, PAGE_TABLE_RW OR PAGE_TABLE_SIZE) # dir_writes mp dir (Suc i) n t)"

lemma dir_loop_writes: "i + n \<le> 1024 \<Longrightarrow> dir_loop mp dir (of_nat i) n t w = upd_all (dir_writes mp dir i n t) w"
proof (induction n arbitrary: i t w)
  case 0
  then show ?case by (simp add: upd_all_def)
next
  case (Suc n)
  have u: "unat (of_nat i :: u32) = i" using Suc.prems by (intro unat_of_nat_lt) simp
  have c: "KERNEL_VM_BASE div PAGE_DIR_SIZE \<le> (of_nat i :: u32) \<longleftrightarrow> 768 \<le> i"
    using u by (simp add: KERNEL_VM_BASE_val PAGE_DIR_SIZE_def word_le_nat_alt unat_div_distrib)
  have n: "(of_nat i :: u32) + 1 = of_nat (Suc i)" by simp
  have IH: "dir_loop mp dir (of_nat (Suc i)) n t w = upd_all (dir_writes mp dir (Suc i) n t) w" for t w by (rule Suc.IH) (use Suc.prems in simp)
  have z: "table_loop mp (of_nat i) 0 m t w = upd_all (table_writes mp i 0 m t) w" for m t w using table_loop_writes [of mp i 0] by simp
  show ?case using c IH n
    by (simp add: z PAGE_TABLE_LENGTH_def upd_all_Cons upd_all_append fun_upd_def del: of_nat_Suc)
qed

text \<open>Where the writes go: the directory entries and the table entries are at different addresses.\<close>

definition dir_at :: "u32 \<Rightarrow> nat \<Rightarrow> u32" where "dir_at dir k = dir + 4 * of_nat k"
definition table_at :: "u32 \<Rightarrow> nat \<Rightarrow> u32" where "table_at dir k = dir + 4096 + 4096 * of_nat (k - 768)"
definition pte_at :: "u32 \<Rightarrow> nat \<Rightarrow> nat \<Rightarrow> u32" where "pte_at dir k j = table_at dir k + 4 * of_nat j"

definition dir_val :: "u32 \<Rightarrow> nat \<Rightarrow> u32" where
  "dir_val dir k = (if k = 0 then PAGE_TABLE_RW OR PAGE_TABLE_PRESENT OR PAGE_TABLE_SIZE
     else if 768 \<le> k then table_at dir k OR PAGE_TABLE_RW OR PAGE_TABLE_PRESENT else PAGE_TABLE_RW OR PAGE_TABLE_SIZE)"

definition room_for_tables :: "u32 \<Rightarrow> bool" where
  "room_for_tables dir \<longleftrightarrow> unat dir mod 4096 = 0 \<and> unat dir + 4096 + 0x100000 < 2 ^ 32"

lemma unat_dir_at: "room_for_tables dir \<Longrightarrow> k < 1024 \<Longrightarrow> unat (dir_at dir k) = unat dir + 4 * k"
proof -
  assume r: "room_for_tables dir" and k: "k < 1024"
  have "unat (of_nat (4 * k) :: u32) = 4 * k" using k by (intro unat_of_nat_lt) simp
  then show ?thesis using r k unfolding dir_at_def room_for_tables_def by (subst unat_add_lt) simp_all
qed

lemma unat_pte_at:
  assumes r: "room_for_tables dir" and k: "768 \<le> k" "k < 1024" and j: "j < 1024"
  shows "unat (pte_at dir k j) = unat dir + 4096 + 4096 * (k - 768) + 4 * j"
proof -
  define N where "N = 4096 + 4096 * (k - 768) + 4 * j"
  have "dir + 4096 + 4096 * of_nat q + 4 * of_nat j = dir + of_nat (4096 + 4096 * q + 4 * j)" for q by (simp add: algebra_simps)
  then have e: "pte_at dir k j = dir + of_nat N" unfolding pte_at_def table_at_def N_def .
  have b: "N < 4096 + 0x100000" using k j unfolding N_def by linarith
  then have u: "unat (of_nat N :: u32) = N" by (intro unat_of_nat_lt) simp
  have "unat (dir + of_nat N) = unat dir + N" using r b u by (subst unat_add_lt) (simp_all add: room_for_tables_def)
  then show ?thesis unfolding e N_def by simp
qed

lemma pte_at_inj:
  assumes "room_for_tables dir" and "768 \<le> k" "k < 1024" "j < 1024" "768 \<le> k'" "k' < 1024" "j' < 1024" and "pte_at dir k j = pte_at dir k' j'"
  shows "k' = k \<and> j' = j"
proof -
  have e: "4096 * (k - 768) + 4 * j = 4096 * (k' - 768) + 4 * j'"
    using unat_pte_at [OF assms(1-4)] unat_pte_at [OF assms(1,5-7)] assms(8) by simp
  then have "(1024 * (k - 768) + j) div 1024 = (1024 * (k' - 768) + j') div 1024" by simp
  then have "k - 768 = k' - 768" using assms(4,7) by simp
  then show ?thesis using e assms(2,5) by simp
qed

lemma dir_writes_set:
  assumes "1 \<le> i"
  shows "(x, v) \<in> set (dir_writes mp dir i n (table_at dir i)) \<longleftrightarrow> (\<exists>k. i \<le> k \<and> k < i + n \<and>
    (x = dir_at dir k \<and> v = dir_val dir k \<or> (768 \<le> k \<and> (\<exists>j < 1024. x = pte_at dir k j \<and> v = low_pte mp (page_of k j)))))"
  using assms
proof (induction n arbitrary: i)
  case (Suc n)
  have t: "(if 768 \<le> i then table_at dir i + 4096 else table_at dir i) = table_at dir (Suc i)" by (simp add: table_at_def Suc_diff_le)
  have w: "(x, v) \<in> set (table_writes mp i 0 1024 (table_at dir i)) \<longleftrightarrow> (\<exists>j < 1024. x = pte_at dir i j \<and> v = low_pte mp (page_of i j))"
    by (auto simp: table_writes_def pte_at_def)
  let ?P = "\<lambda>k. x = dir_at dir k \<and> v = dir_val dir k \<or> (768 \<le> k \<and> (\<exists>j < 1024. x = pte_at dir k j \<and> v = low_pte mp (page_of k j)))"
  have "(x, v) \<in> set (dir_writes mp dir i (Suc n) (table_at dir i)) \<longleftrightarrow> ?P i \<or> (x, v) \<in> set (dir_writes mp dir (Suc i) n (table_at dir (Suc i)))"
    using Suc.prems w t by (cases "768 \<le> i") (auto simp: dir_at_def dir_val_def)
  also have "\<dots> \<longleftrightarrow> ?P i \<or> (\<exists>k. Suc i \<le> k \<and> k < Suc i + n \<and> ?P k)" using Suc.IH [of "Suc i"] by simp
  also have "\<dots> \<longleftrightarrow> (\<exists>k. (k = i \<or> Suc i \<le> k \<and> k < Suc i + n) \<and> ?P k)" by blast
  also have "\<dots> \<longleftrightarrow> (\<exists>k. (i \<le> k \<and> k < i + Suc n) \<and> ?P k)"
  proof -
    have "k = i \<or> Suc i \<le> k \<and> k < Suc i + n \<longleftrightarrow> i \<le> k \<and> k < i + Suc n" for k by auto
    then show ?thesis by simp
  qed
  finally show ?case by simp
qed simp

definition low_writes :: "map_t \<Rightarrow> (u32 \<times> u32) list" where
  "low_writes mp = (vm_start mp, PAGE_TABLE_RW OR PAGE_TABLE_PRESENT OR PAGE_TABLE_SIZE) # dir_writes mp (vm_start mp) 1 1023 (table_at (vm_start mp) 1)"

lemma low_tables_writes: "low_tables mp w = upd_all (low_writes mp) w"
  using dir_loop_writes [of 1 1023 mp "vm_start mp"]
  by (simp add: low_tables_def low_writes_def upd_all_Cons Let_def PAGE_TABLE_LENGTH_def table_at_def)

lemma low_writes_dir: "k < 1024 \<Longrightarrow> (dir_at (vm_start mp) k, dir_val (vm_start mp) k) \<in> set (low_writes mp)"
proof (cases "k = 0")
  case True
  then show ?thesis by (simp add: low_writes_def dir_at_def dir_val_def)
next
  case False
  assume "k < 1024"
  with False have "(dir_at (vm_start mp) k, dir_val (vm_start mp) k) \<in> set (dir_writes mp (vm_start mp) 1 1023 (table_at (vm_start mp) 1))"
    by (intro iffD2 [OF dir_writes_set] exI [of _ k]) simp_all
  then show ?thesis by (simp add: low_writes_def)
qed

lemma low_writes_pte: "768 \<le> k \<Longrightarrow> k < 1024 \<Longrightarrow> j < 1024 \<Longrightarrow> (pte_at (vm_start mp) k j, low_pte mp (page_of k j)) \<in> set (low_writes mp)"
proof -
  assume a: "768 \<le> k" "k < 1024" "j < 1024"
  have "(pte_at (vm_start mp) k j, low_pte mp (page_of k j)) \<in> set (dir_writes mp (vm_start mp) 1 1023 (table_at (vm_start mp) 1))"
    by (rule iffD2 [OF dir_writes_set], simp, rule exI [of _ k]) (use a in auto)
  then show ?thesis by (simp add: low_writes_def)
qed

lemma low_writes_cases:
  assumes "(x, v) \<in> set (low_writes mp)"
  obtains k where "k < 1024" "x = dir_at (vm_start mp) k" "v = dir_val (vm_start mp) k"
    | k j where "768 \<le> k" "k < 1024" "j < 1024" "x = pte_at (vm_start mp) k j" "v = low_pte mp (page_of k j)"
proof (cases "(x, v) \<in> set (dir_writes mp (vm_start mp) 1 1023 (table_at (vm_start mp) 1))")
  case True
  then obtain k where "k < 1 + 1023" and
    "x = dir_at (vm_start mp) k \<and> v = dir_val (vm_start mp) k \<or> (768 \<le> k \<and> (\<exists>j < 1024. x = pte_at (vm_start mp) k j \<and> v = low_pte mp (page_of k j)))"
    by (subst (asm) dir_writes_set) auto
  then show ?thesis using that by auto
next
  case False
  then have "x = dir_at (vm_start mp) 0 \<and> v = dir_val (vm_start mp) 0" using assms by (simp add: low_writes_def dir_at_def dir_val_def)
  then show ?thesis using that(1) [of 0] by simp
qed

lemma low_tables_dir:
  assumes "room_for_tables (vm_start mp)" and "k < 1024"
  shows "low_tables mp w (dir_at (vm_start mp) k) = dir_val (vm_start mp) k"
  unfolding low_tables_writes
proof (rule upd_all_in)
  show "(dir_at (vm_start mp) k, dir_val (vm_start mp) k) \<in> set (low_writes mp)" by (rule low_writes_dir [OF assms(2)])
next
  fix v
  assume "(dir_at (vm_start mp) k, v) \<in> set (low_writes mp)"
  then show "v = dir_val (vm_start mp) k"
  proof (cases rule: low_writes_cases)
    case (1 k')
    have "k' = k" using arg_cong [OF 1(2), of unat] unat_dir_at [OF assms] unat_dir_at [OF assms(1) 1(1)] by linarith
    with 1(3) show ?thesis by (simp only:)
  next
    case (2 k' j)
    have False using arg_cong [OF 2(4), of unat] unat_dir_at [OF assms] unat_pte_at [OF assms(1) 2(1-3)] assms(2) by linarith
    then show ?thesis ..
  qed
qed

lemma low_tables_pte:
  assumes "room_for_tables (vm_start mp)" and k: "768 \<le> k" "k < 1024" and j: "j < 1024"
  shows "low_tables mp w (pte_at (vm_start mp) k j) = low_pte mp (page_of k j)"
  unfolding low_tables_writes
proof (rule upd_all_in)
  show "(pte_at (vm_start mp) k j, low_pte mp (page_of k j)) \<in> set (low_writes mp)" by (rule low_writes_pte [OF k j])
next
  fix v
  assume "(pte_at (vm_start mp) k j, v) \<in> set (low_writes mp)"
  then show "v = low_pte mp (page_of k j)"
  proof (cases rule: low_writes_cases)
    case (1 k')
    have False using arg_cong [OF 1(2), of unat] unat_dir_at [OF assms(1) 1(1)] unat_pte_at [OF assms] 1(1) by linarith
    then show ?thesis ..
  next
    case (2 k' j')
    from pte_at_inj [OF assms 2(1-4)] 2(5) show ?thesis by (simp only:)
  qed
qed

section \<open>Entries and addresses\<close>

lemma bit_flags: "bit PAGE_TABLE_PRESENT n \<longleftrightarrow> n = 0" "bit PAGE_TABLE_RW n \<longleftrightarrow> n = 1" "bit PAGE_TABLE_SIZE n \<longleftrightarrow> n = 7"
  using bit_exp_iff [where 'a = "32 word", of 0 n] bit_exp_iff [where 'a = "32 word", of 1 n] bit_exp_iff [where 'a = "32 word", of 7 n]
  by (auto simp: PAGE_TABLE_PRESENT_def PAGE_TABLE_RW_def PAGE_TABLE_SIZE_def)

lemma aligned_bits: "unat (t :: u32) mod 4096 = 0 \<Longrightarrow> n < 12 \<Longrightarrow> \<not> bit t n"
proof -
  assume "unat t mod 4096 = 0" and n: "n < 12"
  then have "unat (take_bit 12 t) = 0" by (simp add: take_bit_eq_mod unat_mod_distrib)
  then have "take_bit 12 t = 0" by (simp only: unsigned_eq_0_iff)
  then have "\<not> bit (take_bit 12 t) n" by simp
  with n show ?thesis by (simp add: bit_take_bit_iff)
qed

lemma split_page: "((x :: u32) AND NOT (mask 12)) + (x AND mask 12) = x"
proof -
  have "(x AND NOT (mask 12)) + (x AND mask 12) = (x AND NOT (mask 12)) OR (x AND mask 12)" by (rule disjunctive_add) (auto simp: bit_simps)
  also have "\<dots> = x" by (rule bit_word_eqI) (auto simp: bit_simps)
  finally show ?thesis .
qed

lemma entry_parts:
  assumes "unat (t :: u32) mod 4096 = 0"
  shows "(t OR PAGE_TABLE_RW OR PAGE_TABLE_PRESENT) AND NOT (mask 12) = t" "(t OR PAGE_TABLE_PRESENT) AND NOT (mask 12) = t"
    "bit (t OR PAGE_TABLE_RW OR PAGE_TABLE_PRESENT) n = (bit t n \<or> n = 0 \<or> n = 1)" "bit (t OR PAGE_TABLE_PRESENT) n = (bit t n \<or> n = 0)"
proof -
  note al = aligned_bits [OF assms]
  show "(t OR PAGE_TABLE_RW OR PAGE_TABLE_PRESENT) AND NOT (mask 12) = t"
    by (rule bit_word_eqI) (use al in \<open>auto simp: bit_simps bit_flags simp flip: not_less\<close>)
  show "(t OR PAGE_TABLE_PRESENT) AND NOT (mask 12) = t"
    by (rule bit_word_eqI) (use al in \<open>auto simp: bit_simps bit_flags simp flip: not_less\<close>)
  show "bit (t OR PAGE_TABLE_RW OR PAGE_TABLE_PRESENT) n = (bit t n \<or> n = 0 \<or> n = 1)" "bit (t OR PAGE_TABLE_PRESENT) n = (bit t n \<or> n = 0)"
    by (auto simp: bit_or_iff bit_flags)
qed

text \<open>The indices of an address.\<close>

definition dir_index :: "u32 \<Rightarrow> nat" where "dir_index a = unat a div 0x400000"
definition page_index :: "u32 \<Rightarrow> nat" where "page_index a = unat a div 0x1000 mod 1024"

lemma index_bounds: "dir_index a < 1024" "page_index a < 1024"
  using unat_lt_32 [of a] by (simp_all add: dir_index_def page_index_def div_less_iff_less_mult)

lemma index_words: "drop_bit 22 a = of_nat (dir_index a)" "drop_bit 12 a AND mask 10 = of_nat (page_index a)"
proof -
  have "unat (drop_bit 22 a) = dir_index a" by (simp add: dir_index_def drop_bit_eq_div unat_div_distrib)
  moreover have "unat (of_nat (dir_index a) :: u32) = dir_index a" using index_bounds(1) [of a] by (intro unat_of_nat_lt) simp
  ultimately show "drop_bit 22 a = of_nat (dir_index a)" by (simp only: word_unat_eq_iff)
  have "unat (drop_bit 12 a AND mask 10) = page_index a"
    by (simp add: page_index_def flip: take_bit_eq_mask) (simp add: drop_bit_eq_div take_bit_eq_mod unat_div_distrib unat_mod_distrib)
  moreover have "unat (of_nat (page_index a) :: u32) = page_index a" using index_bounds(2) [of a] by (intro unat_of_nat_lt) simp
  ultimately show "drop_bit 12 a AND mask 10 = of_nat (page_index a)" by (simp only: word_unat_eq_iff)
qed

lemma index_split: "unat a = 0x400000 * dir_index a + 0x1000 * page_index a + unat a mod 0x1000"
proof -
  have "unat a div 0x400000 = unat a div 0x1000 div 1024" by (simp add: div_mult2_eq [symmetric])
  moreover have "0x1000 * (unat a div 0x1000) + unat a mod 0x1000 = unat a" by (rule mult_div_mod_eq)
  moreover have "1024 * (unat a div 0x1000 div 1024) + unat a div 0x1000 mod 1024 = unat a div 0x1000" by (rule mult_div_mod_eq)
  ultimately show ?thesis unfolding dir_index_def page_index_def by linarith
qed

text \<open>The page that a logical address of the kernel belongs to.\<close>

lemma page_of_index:
  assumes "KERNEL_VM_BASE \<le> a"
  shows "page_of (dir_index a) (page_index a) = (a - KERNEL_VM_BASE) AND NOT (mask 12)"
    and "unat (page_of (dir_index a) (page_index a)) mod 4096 = 0"
    and "((a - KERNEL_VM_BASE) AND NOT (mask 12)) + (a AND mask 12) = a - KERNEL_VM_BASE"
proof -
  let ?x = "a - KERNEL_VM_BASE" and ?r = "of_nat (unat a mod 0x1000) :: u32"
  have ux: "unat ?x = unat a - 0xC0000000" using assms by (subst unat_sub_le) (simp_all add: KERNEL_VM_BASE_val)
  have ge: "0xC0000000 \<le> unat a" using assms by (simp add: KERNEL_VM_BASE_val word_le_nat_alt)
  have m: "unat ?x mod 0x1000 = unat a mod 0x1000"
  proof -
    have "unat a = unat ?x + 0x1000 * 0xC0000" using ux ge by linarith
    then have "unat a mod 0x1000 = (unat ?x + 0x1000 * 0xC0000) mod 0x1000" by (rule arg_cong)
    then show ?thesis by (simp only: mod_mult_self2)
  qed
  have lo: "y AND mask 12 = of_nat (unat y mod 0x1000)" for y :: u32
  proof -
    have "unat (y AND mask 12) = unat y mod 0x1000" by (simp add: take_bit_eq_mod unat_mod_distrib flip: take_bit_eq_mask)
    moreover have "unat (of_nat (unat y mod 0x1000) :: u32) = unat y mod 0x1000" by (rule unat_of_nat_lt) (simp add: less_trans [OF mod_less_divisor])
    ultimately show ?thesis by (simp only: word_unat_eq_iff)
  qed
  have eq: "a AND mask 12 = ?x AND mask 12" by (simp only: lo m)
  show s: "(?x AND NOT (mask 12)) + (a AND mask 12) = ?x" unfolding eq by (rule split_page)
  have "a = of_nat (unat a)" by simp
  also have "\<dots> = of_nat (0x400000 * dir_index a + 0x1000 * page_index a + unat a mod 0x1000)" by (subst index_split) (rule refl)
  finally have "a = of_nat (dir_index a) * PAGE_DIR_SIZE + of_nat (page_index a) * PAGE_SIZE + ?r"
    by (simp only: of_nat_add of_nat_mult of_nat_numeral PAGE_DIR_SIZE_def PAGE_SIZE_def mult.commute)
  then have "page_of (dir_index a) (page_index a) + ?r = ?x" unfolding page_of_def by (metis add.commute add_diff_eq diff_add_eq)
  then have "page_of (dir_index a) (page_index a) + ?r = (?x AND NOT (mask 12)) + ?r" using s unfolding lo [of a] by (simp only:)
  then show p: "page_of (dir_index a) (page_index a) = ?x AND NOT (mask 12)" by (rule add_right_imp_eq)
  have "take_bit 12 (?x AND NOT (mask 12)) = 0" by (rule bit_word_eqI) (simp add: bit_simps)
  then have "unat (take_bit 12 (page_of (dir_index a) (page_index a))) = 0" unfolding p by (simp only: unsigned_0)
  then show "unat (page_of (dir_index a) (page_index a)) mod 4096 = 0" by (simp add: take_bit_eq_mod unat_mod_distrib)
qed

lemma table_at_aligned: "room_for_tables dir \<Longrightarrow> 768 \<le> k \<Longrightarrow> k < 1024 \<Longrightarrow> unat (table_at dir k) mod 4096 = 0"
  using unat_pte_at [of dir k 0] by (simp add: pte_at_def room_for_tables_def)

section \<open>Properties\<close>

text \<open>C10: The address space that the kernel starts in: the first 4 MiB are mapped to themselves, the rest of the lower three gigabytes is absent,
  and an address of the kernel's gigabyte is mapped to the address less \<open>KERNEL_VM_BASE\<close> exactly when its page lies between the start of
  the kernel and one page behind the tables, read-only up to and including the page at the end of the read-only data.\<close>

theorem boot_address_space:
  assumes "room_for_tables (vm_start mp)"
  shows "walk (low_tables mp w) (vm_start mp) a =
    (if a < 0x400000 then Some (a, True) else if a < KERNEL_VM_BASE then None
     else let p = (a - KERNEL_VM_BASE) AND NOT (mask 12) in
       if kernel_ro_start mp \<le> p \<and> p < kernel_ro_end mp + PAGE_SIZE then Some (a - KERNEL_VM_BASE, False)
       else if kernel_rw_start mp \<le> p \<and> p < vm_end mp + PAGE_SIZE then Some (a - KERNEL_VM_BASE, True) else None)"
proof -
  let ?i = "dir_index a" and ?j = "page_index a" and ?dir = "vm_start mp"
  have de: "low_tables mp w (?dir + 4 * drop_bit 22 a) = dir_val ?dir ?i"
    using low_tables_dir [OF assms index_bounds(1)] by (simp add: index_words(1) dir_at_def)
  have i: "?i = 0 \<longleftrightarrow> a < 0x400000" "768 \<le> ?i \<longleftrightarrow> KERNEL_VM_BASE \<le> a"
    by (simp_all add: dir_index_def word_less_nat_alt word_le_nat_alt KERNEL_VM_BASE_val div_eq_0_iff less_eq_div_iff_mult_less_eq)
  consider (first) "a < 0x400000" | (absent) "\<not> a < 0x400000" "a < KERNEL_VM_BASE" | (kern) "KERNEL_VM_BASE \<le> a" "\<not> a < 0x400000"
    using i by (metis not_le zero_less_numeral le_zero_eq)
  then show ?thesis
  proof cases
    case first
    have "unat (a AND mask 22) = unat a" using first by (simp add: word_less_nat_alt take_bit_eq_mod unat_mod_distrib flip: take_bit_eq_mask)
    then have m: "a AND mask 22 = a" by (simp only: word_unat_eq_iff)
    have d: "dir_val ?dir ?i = 0x83" using first i(1) by (simp add: dir_val_def PAGE_TABLE_RW_def PAGE_TABLE_PRESENT_def PAGE_TABLE_SIZE_def)
    have e: "(0x83 :: u32) AND NOT (mask 22) = 0" by (simp add: mask_eq_exp_minus_1)
    have f: "bit (0x83 :: u32) 0" "bit (0x83 :: u32) 7" "bit (0x83 :: u32) 1" by simp_all
    show ?thesis using first unfolding walk_def de d Let_def e m by (simp only: f simp_thms if_True add_0 not_True_eq_False if_False)
  next
    case absent
    then have n: "?i \<noteq> 0" "\<not> 768 \<le> ?i" using i by (simp_all only: not_le not_less simp_thms)
    have "\<not> bit (dir_val ?dir ?i) 0" unfolding dir_val_def using n by (simp add: bit_or_iff bit_flags)
    then show ?thesis using absent unfolding walk_def de by (simp add: Let_def)
  next
    case kern
    then have k: "768 \<le> ?i" using i(2) by simp
    note t = table_at_aligned [OF assms k index_bounds(1)]
    have d: "low_tables mp w (?dir + 4 * drop_bit 22 a) = table_at ?dir ?i OR PAGE_TABLE_RW OR PAGE_TABLE_PRESENT"
      using k by (simp add: de dir_val_def)
    have te: "low_tables mp w (table_at ?dir ?i + 4 * (drop_bit 12 a AND mask 10)) = low_pte mp (page_of ?i ?j)"
      using low_tables_pte [OF assms k index_bounds(1) index_bounds(2)] by (simp add: index_words(2) pte_at_def)
    note pg = page_of_index [OF kern(1)] and al = aligned_bits [OF t] and al2 = aligned_bits [OF page_of_index(2) [OF kern(1)]]
    let ?p = "page_of ?i ?j"
    have w: "walk (low_tables mp w) ?dir a = (if bit (low_pte mp ?p) 0 then Some ((low_pte mp ?p AND NOT (mask 12)) + (a AND mask 12), bit (low_pte mp ?p) 1) else None)"
      using al [of 7] by (simp add: walk_def d entry_parts [OF t] te Let_def)
    have s: "?p + (a AND mask 12) = a - KERNEL_VM_BASE" using pg(1,3) by (simp only:)
    have b: "\<not> bit ?p 0" "\<not> bit ?p 1" using al2 by simp_all
    have "walk (low_tables mp w) ?dir a = (if kernel_ro_start mp \<le> ?p \<and> ?p < kernel_ro_end mp + PAGE_SIZE then Some (a - KERNEL_VM_BASE, False)
       else if kernel_rw_start mp \<le> ?p \<and> ?p < vm_end mp + PAGE_SIZE then Some (a - KERNEL_VM_BASE, True) else None)"
      unfolding w low_pte_def using b by (simp add: entry_parts [OF pg(2)] s) blast
    moreover have "\<not> a < KERNEL_VM_BASE" using kern(1) by (simp only: not_less)
    ultimately show ?thesis using kern(2) unfolding pg(1) Let_def by (simp only: if_False)
  qed
qed

definition boot_example :: boot_syms where
  "boot_example = \<lparr>sy_cmdline = 0xC0160000, sy_boot_loader_name = 0xC0160100, sy_mem_table = 0xC0160200, sy_header = 0xC0160400,
     sy_startofro = 0xC0101000, sy_endofro = 0xC0150000, sy_endofrw = 0xC0180000\<rparr>"

theorem boot_address_space_witness:
  "walk (low_tables (low_map boot_example 0x200000 0x100000) (\<lambda>_. 0)) 0x200000 0xC0150004 = Some (0x150004, False) \<and>
   walk (low_tables (low_map boot_example 0x200000 0x100000) (\<lambda>_. 0)) 0x200000 0xC0151004 = Some (0x151004, True)"
proof -
  let ?mp = "low_map boot_example 0x200000 0x100000"
  have v: "vm_start ?mp = 0x200000" "kernel_ro_start ?mp = 0x100000" "kernel_ro_end ?mp = 0x150000" "kernel_rw_start ?mp = 0x150000" "vm_end ?mp = 0x301000"
    by (simp_all add: low_map_def boot_example_def LOW_addr_def KERNEL_VM_BASE_val PAGE_TABLE_LENGTH_def KERNEL_VM_PAGE_TABLES_val Let_def)
  have r: "room_for_tables (vm_start ?mp)" by (simp add: v room_for_tables_def)
  have m: "(0x150004 :: u32) AND NOT (mask 12) = 0x150000" "(0x151004 :: u32) AND NOT (mask 12) = 0x151000" by (simp_all add: mask_eq_exp_minus_1)
  show ?thesis
    using boot_address_space [OF r, of "\<lambda>_. 0" "0xC0150004"] boot_address_space [OF r, of "\<lambda>_. 0" "0xC0151004"] m
    by (simp add: v KERNEL_VM_BASE_val PAGE_SIZE_def)
qed

end
