(* ===== verification/Pci.thy ===== *)
theory Pci
  imports Console
begin

text \<open>
  \<open>src/hw/pci/pci.cpp\<close>, \<open>src/hw/pci/ahci.cpp\<close> and \<open>include/hw/pci/pci.hpp\<close>: the search of the PCI buses, the devices found and
  the AHCI driver. The configuration space is an argument \<open>cfg\<close> that gives the word read after an address was written to the address
  port. The vector of devices and the drivers that unique pointers own are values: \<open>Vector\<close> and \<open>SmartPtr\<close> treat the containers.
  A reference to an element of the vector stands for the element it was bound to. Messages are left out.
\<close>

section \<open>Configuration space\<close>

definition VENDOR_ID :: u8 where "VENDOR_ID = 0x00"
definition REVISION :: u8 where "REVISION = 0x08"
definition HEADER_TYPE :: u8 where "HEADER_TYPE = 0x0e"
definition BAR5 :: u8 where "BAR5 = 0x24"
definition PBR_SECONDARY_BUS_NUM :: u8 where "PBR_SECONDARY_BUS_NUM = 0x19"

definition pci_addr :: "u8 \<Rightarrow> u8 \<Rightarrow> u8 \<Rightarrow> u8 \<Rightarrow> u32" where
  "pci_addr bus slot func offset = push_bit 16 (ucast bus) OR push_bit 11 (ucast slot) OR push_bit 8 (ucast func) OR ucast offset OR 0x80000000"

definition pci_read :: "(u32 \<Rightarrow> u32) \<Rightarrow> u8 \<Rightarrow> u8 \<Rightarrow> u8 \<Rightarrow> u8 \<Rightarrow> u32 result" where
  "pci_read cfg bus slot func offset = (if offset mod 4 \<noteq> 0 then Inl (Panic ''Unaligned access in PCI bus.'')
     else Inr (cfg (pci_addr bus slot func offset)))"

definition read_device_vendor :: "(u32 \<Rightarrow> u32) \<Rightarrow> u8 \<Rightarrow> u8 \<Rightarrow> u8 \<Rightarrow> u32 result" where
  "read_device_vendor cfg bus slot fn = pci_read cfg bus slot fn 0"

section \<open>Devices\<close>

text \<open>The driver of a device: the registers of its controller, once configured, and the ports that were found.\<close>

record ahci =
  ah_hba :: "u32 option"
  ah_devices :: "u32 option list"

record device =
  device_id :: u16
  vendor_id :: u16
  device_class :: u8
  device_subclass :: u8
  prog_if :: u8
  revision :: u8
  header_type :: u8
  dv_bus :: u8
  dv_slot :: u8
  dv_function :: u8
  multifunction :: u8
  dv_driver :: "ahci option"

definition Device_get32 :: "(u32 \<Rightarrow> u32) \<Rightarrow> u8 \<Rightarrow> u8 \<Rightarrow> u8 \<Rightarrow> u8 \<Rightarrow> u32 result" where
  "Device_get32 cfg bus slot fn addr = pci_read cfg bus slot fn addr"

definition Device_get8 :: "(u32 \<Rightarrow> u32) \<Rightarrow> u8 \<Rightarrow> u8 \<Rightarrow> u8 \<Rightarrow> u8 \<Rightarrow> u8 result" where
  "Device_get8 cfg bus slot fn addr = bindE (Device_get32 cfg bus slot fn (addr AND 0xfc)) (\<lambda>r.
     Inr (ucast (drop_bit (unat (addr mod 4) * 8) r AND 0xff)))"

definition Device_get16 :: "(u32 \<Rightarrow> u32) \<Rightarrow> u8 \<Rightarrow> u8 \<Rightarrow> u8 \<Rightarrow> u8 \<Rightarrow> u16 result" where
  "Device_get16 cfg bus slot fn addr = bindE (Device_get32 cfg bus slot fn (addr AND 0xfc)) (\<lambda>r.
     Inr (ucast (drop_bit (unat (addr mod 4) * 8) r AND 0xffff)))"

text \<open>The constructor identifies every function by the registers of function 0.\<close>

definition Device_new :: "(u32 \<Rightarrow> u32) \<Rightarrow> u8 \<Rightarrow> u8 \<Rightarrow> u8 \<Rightarrow> device result" where
  "Device_new cfg bus slot fn = bindE (Device_get32 cfg bus slot 0 VENDOR_ID) (\<lambda>first.
     bindE (Device_get32 cfg bus slot 0 REVISION) (\<lambda>second.
     bindE (Device_get8 cfg bus slot 0 HEADER_TYPE) (\<lambda>ht.
     Inr \<lparr>device_id = ucast (drop_bit 16 first), vendor_id = ucast (first AND 0xffff),
       device_class = ucast (drop_bit 24 second AND 0xff), device_subclass = ucast (drop_bit 16 second AND 0xff),
       prog_if = ucast (drop_bit 8 second AND 0xff), revision = ucast (second AND 0xff), header_type = ht AND 0x7f,
       dv_bus = bus, dv_slot = slot, dv_function = fn, multifunction = ht AND 0x80, dv_driver = None\<rparr>)))"

section \<open>The search\<close>

definition is_bridge :: "device \<Rightarrow> bool" where
  "is_bridge d \<longleftrightarrow> device_class d = 0x06 \<and> device_subclass d = 0x04"

text \<open>The search behind a bridge is the argument \<open>go\<close>, which \<open>search_bus\<close> instantiates with itself.\<close>

definition descend :: "(u8 \<Rightarrow> device list \<Rightarrow> device list result) \<Rightarrow> (u32 \<Rightarrow> u32) \<Rightarrow> device \<Rightarrow> device list \<Rightarrow> device list result" where
  "descend go cfg d ds = (if is_bridge d
     then bindE (Device_get8 cfg (dv_bus d) (dv_slot d) 0 PBR_SECONDARY_BUS_NUM) (\<lambda>b. go b ds) else Inr ds)"

fun fn_loop :: "(u8 \<Rightarrow> device list \<Rightarrow> device list result) \<Rightarrow> (u32 \<Rightarrow> u32) \<Rightarrow> u8 \<Rightarrow> u8 \<Rightarrow> u8 \<Rightarrow> nat \<Rightarrow> device list \<Rightarrow> device list result" where
  "fn_loop go cfg bus i j 0 ds = Inr ds"
| "fn_loop go cfg bus i j (Suc n) ds = bindE (read_device_vendor cfg bus i 0) (\<lambda>v.
     bindE (if v \<noteq> 0xffffffff then bindE (Device_new cfg bus i j) (\<lambda>d. descend go cfg d (ds @ [d])) else Inr ds)
       (fn_loop go cfg bus i (j + 1) n))"

fun slots_loop :: "(u8 \<Rightarrow> device list \<Rightarrow> device list result) \<Rightarrow> (u32 \<Rightarrow> u32) \<Rightarrow> u8 \<Rightarrow> u16 \<Rightarrow> nat \<Rightarrow> device list \<Rightarrow> device list result" where
  "slots_loop go cfg bus i 0 ds = Inr ds"
| "slots_loop go cfg bus i (Suc n) ds = bindE (read_device_vendor cfg bus (ucast i) 0) (\<lambda>v.
     bindE (if v \<noteq> 0xffffffff
       then bindE (Device_new cfg bus (ucast i) 0) (\<lambda>d.
            bindE (descend go cfg d (ds @ [d])) (\<lambda>ds1.
            if multifunction d \<noteq> 0 then fn_loop go cfg bus (ucast i) 1 7 ds1 else Inr ds1))
       else Inr ds)
     (slots_loop go cfg bus (i + 1) n))"

text \<open>The first argument bounds the nesting of bridges.\<close>

primrec search_bus :: "nat \<Rightarrow> (u32 \<Rightarrow> u32) \<Rightarrow> u8 \<Rightarrow> u8 \<Rightarrow> device list \<Rightarrow> device list result" where
  "search_bus 0 cfg bus start ds = Inl OutOfFuel"
| "search_bus (Suc k) cfg bus start ds = slots_loop (\<lambda>b. search_bus k cfg b 0) cfg bus (ucast start) (32 - unat start) ds"

fun init_loop :: "nat \<Rightarrow> (u32 \<Rightarrow> u32) \<Rightarrow> u8 \<Rightarrow> nat \<Rightarrow> device list \<Rightarrow> device list result" where
  "init_loop k cfg fn 0 ds = Inr ds"
| "init_loop k cfg fn (Suc n) ds = bindE (read_device_vendor cfg 0 0 fn) (\<lambda>v.
     if v \<noteq> 0xffffffff then Inr ds
     else bindE (search_bus k cfg fn (if fn = 0 then 1 else 0) ds) (init_loop k cfg (fn + 1) n))"

definition pci_search :: "nat \<Rightarrow> (u32 \<Rightarrow> u32) \<Rightarrow> device list \<Rightarrow> device list result" where
  "pci_search k cfg ds = bindE (Device_new cfg 0 0 0) (\<lambda>d.
     if multifunction d \<noteq> 0 then init_loop k cfg 0 8 (ds @ [d]) else search_bus k cfg 0 1 (ds @ [d]))"

section \<open>Drivers\<close>

definition AHCI_CLASS :: u8 where "AHCI_CLASS = 0x01"
definition AHCI_SUBCLASS :: u8 where "AHCI_SUBCLASS = 0x06"
definition sizeof_hba_port :: u32 where "sizeof_hba_port = 0x80"
definition hba_pi :: "u32 \<Rightarrow> u32" where "hba_pi hba = hba + 0x0c"
definition hba_port :: "u32 \<Rightarrow> nat \<Rightarrow> u32" where "hba_port hba i = hba + 0x100 + sizeof_hba_port * of_nat i"

definition AhciDriver_new :: ahci where
  "AhciDriver_new = \<lparr>ah_hba = None, ah_devices = replicate 32 None\<rparr>"

definition create_driver :: "device \<Rightarrow> device" where
  "create_driver d = d\<lparr>dv_driver := Some AhciDriver_new\<rparr>"

fun search_for_device :: "device list \<Rightarrow> device list" where
  "search_for_device [] = []"
| "search_for_device (d # ds) = (if device_class d = AHCI_CLASS \<and> device_subclass d = AHCI_SUBCLASS then create_driver d else d) # search_for_device ds"

text \<open>The registry holds what the constructor of \<open>RegisterDriverFactory\<close> put there: one factory.\<close>

definition driverFactoryRegistry :: "(device list \<Rightarrow> device list) list" where
  "driverFactoryRegistry = [search_for_device]"

text \<open>\<open>rd\<close> reads a register of the controller at its logical address.\<close>

fun ports_loop :: "(u32 \<Rightarrow> u32) \<Rightarrow> u32 \<Rightarrow> nat \<Rightarrow> nat \<Rightarrow> u32 option list \<Rightarrow> u32 option list" where
  "ports_loop rd hba i 0 ps = ps"
| "ports_loop rd hba i (Suc n) ps = ports_loop rd hba (Suc i) n
     (if drop_bit i (rd (hba_pi hba)) AND 1 \<noteq> 0 then ps[i := Some (hba_port hba i)] else ps)"

definition AhciDriver_configure :: "nat \<Rightarrow> (u32 \<Rightarrow> u32) \<Rightarrow> (u32 \<Rightarrow> u32) \<Rightarrow> device \<Rightarrow> ahci \<Rightarrow> mem \<Rightarrow> (ahci \<times> mem) result" where
  "AhciDriver_configure k cfg rd d a m = bindE (Device_get32 cfg (dv_bus d) (dv_slot d) 0 BAR5) (\<lambda>bar5.
     let off = bar5 mod PAGE_SIZE; base = bar5 - off in
     bindE (page_create k base FLAG_KERNEL 1 m) (\<lambda>(p, m1).
     bindE (kinstall k p (PAGE_TABLE_CACHEDISABLE OR PAGE_TABLE_RW) m1) (\<lambda>(la, m2).
     Inr (\<lparr>ah_hba = Some (la + off), ah_devices = ports_loop rd (la + off) 0 32 (ah_devices a)\<rparr>, m2))))"

fun configure_loop :: "nat \<Rightarrow> (u32 \<Rightarrow> u32) \<Rightarrow> (u32 \<Rightarrow> u32) \<Rightarrow> device list \<Rightarrow> mem \<Rightarrow> (device list \<times> mem) result" where
  "configure_loop k cfg rd [] m = Inr ([], m)"
| "configure_loop k cfg rd (d # ds) m = bindE (case dv_driver d of
       None \<Rightarrow> Inr (d, m)
     | Some a \<Rightarrow> bindE (AhciDriver_configure k cfg rd d a m) (\<lambda>(a1, m1). Inr (d\<lparr>dv_driver := Some a1\<rparr>, m1)))
     (\<lambda>(d1, m1). bindE (configure_loop k cfg rd ds m1) (\<lambda>(ds1, m2). Inr (d1 # ds1, m2)))"

definition pci_init :: "nat \<Rightarrow> (u32 \<Rightarrow> u32) \<Rightarrow> (u32 \<Rightarrow> u32) \<Rightarrow> device list \<Rightarrow> mem \<Rightarrow> (device list \<times> mem) result" where
  "pci_init k cfg rd ds m = bindE (pci_search k cfg ds) (\<lambda>ds1.
     configure_loop k cfg rd (fold (\<lambda>f. f) driverFactoryRegistry ds1) m)"

section \<open>What the search finds\<close>

text \<open>The registers of function 0 of a slot, and what the constructor makes of them.\<close>

definition pci_reg :: "(u32 \<Rightarrow> u32) \<Rightarrow> u8 \<Rightarrow> u8 \<Rightarrow> u8 \<Rightarrow> u32" where
  "pci_reg cfg bus slot offset = cfg (pci_addr bus slot 0 offset)"

definition present :: "(u32 \<Rightarrow> u32) \<Rightarrow> u8 \<Rightarrow> u8 \<Rightarrow> bool" where
  "present cfg bus slot \<longleftrightarrow> pci_reg cfg bus slot 0 \<noteq> 0xffffffff"

definition header_byte :: "(u32 \<Rightarrow> u32) \<Rightarrow> u8 \<Rightarrow> u8 \<Rightarrow> u8" where
  "header_byte cfg bus slot = ucast (drop_bit 16 (pci_reg cfg bus slot 0x0c) AND 0xff)"

definition secondary :: "(u32 \<Rightarrow> u32) \<Rightarrow> u8 \<Rightarrow> u8 \<Rightarrow> u8" where
  "secondary cfg bus slot = ucast (drop_bit 8 (pci_reg cfg bus slot 0x18) AND 0xff)"

definition dev_of :: "(u32 \<Rightarrow> u32) \<Rightarrow> u8 \<Rightarrow> u8 \<Rightarrow> u8 \<Rightarrow> device" where
  "dev_of cfg bus slot fn = (let first = pci_reg cfg bus slot 0; second = pci_reg cfg bus slot 8 in
     \<lparr>device_id = ucast (drop_bit 16 first), vendor_id = ucast (first AND 0xffff),
      device_class = ucast (drop_bit 24 second AND 0xff), device_subclass = ucast (drop_bit 16 second AND 0xff),
      prog_if = ucast (drop_bit 8 second AND 0xff), revision = ucast (second AND 0xff), header_type = header_byte cfg bus slot AND 0x7f,
      dv_bus = bus, dv_slot = slot, dv_function = fn, multifunction = header_byte cfg bus slot AND 0x80, dv_driver = None\<rparr>)"

definition bridge_at :: "(u32 \<Rightarrow> u32) \<Rightarrow> u8 \<Rightarrow> u8 \<Rightarrow> bool" where
  "bridge_at cfg bus slot \<longleftrightarrow> is_bridge (dev_of cfg bus slot 0)"

definition multi_at :: "(u32 \<Rightarrow> u32) \<Rightarrow> u8 \<Rightarrow> u8 \<Rightarrow> bool" where
  "multi_at cfg bus slot \<longleftrightarrow> multifunction (dev_of cfg bus slot 0) \<noteq> 0"

lemma vendor_read: "read_device_vendor cfg bus slot 0 = Inr (pci_reg cfg bus slot 0)"
  by (simp add: read_device_vendor_def pci_read_def pci_reg_def)

lemma Device_new_eq: "Device_new cfg bus slot fn = Inr (dev_of cfg bus slot fn)"
  by (simp add: Device_new_def Device_get8_def Device_get32_def pci_read_def dev_of_def pci_reg_def header_byte_def
      VENDOR_ID_def REVISION_def HEADER_TYPE_def Let_def)

lemma secondary_read: "Device_get8 cfg bus slot 0 PBR_SECONDARY_BUS_NUM = Inr (secondary cfg bus slot)"
  by (simp add: Device_get8_def Device_get32_def pci_read_def pci_reg_def secondary_def PBR_SECONDARY_BUS_NUM_def)

lemma dev_of_place [simp]: "dv_bus (dev_of cfg b s f) = b" "dv_slot (dev_of cfg b s f) = s" "dv_function (dev_of cfg b s f) = f"
  "dv_driver (dev_of cfg b s f) = None"
  by (simp_all add: dev_of_def Let_def)

lemma dev_of_kind [simp]: "is_bridge (dev_of cfg b s f) = bridge_at cfg b s" "(multifunction (dev_of cfg b s f) \<noteq> 0) = multi_at cfg b s"
  by (simp_all add: bridge_at_def multi_at_def is_bridge_def dev_of_def Let_def)

text \<open>The loops, when the search behind a bridge adds a list of devices that does not depend on what was found before.\<close>

definition behind :: "(u8 \<Rightarrow> device list) \<Rightarrow> (u32 \<Rightarrow> u32) \<Rightarrow> u8 \<Rightarrow> u8 \<Rightarrow> device list" where
  "behind sub cfg b s = (if bridge_at cfg b s then sub (secondary cfg b s) else [])"

definition slot_devs :: "(u8 \<Rightarrow> device list) \<Rightarrow> (u32 \<Rightarrow> u32) \<Rightarrow> u8 \<Rightarrow> u8 \<Rightarrow> device list" where
  "slot_devs sub cfg b s = (if present cfg b s
     then dev_of cfg b s 0 # behind sub cfg b s @
       (if multi_at cfg b s then concat (map (\<lambda>f. dev_of cfg b s (of_nat f) # behind sub cfg b s) [1..<8]) else [])
     else [])"

definition goes :: "(u8 \<Rightarrow> device list \<Rightarrow> device list result) \<Rightarrow> (u8 \<Rightarrow> device list) \<Rightarrow> (u32 \<Rightarrow> u32) \<Rightarrow> u8 \<Rightarrow> u8 \<Rightarrow> bool" where
  "goes go sub cfg b s \<longleftrightarrow> (present cfg b s \<longrightarrow> bridge_at cfg b s \<longrightarrow> (\<forall>ds. go (secondary cfg b s) ds = Inr (ds @ sub (secondary cfg b s))))"

lemma descend_goes: "goes go sub cfg b s \<Longrightarrow> present cfg b s \<Longrightarrow> descend go cfg (dev_of cfg b s f) ds = Inr (ds @ behind sub cfg b s)"
  by (simp add: descend_def behind_def goes_def secondary_read)

lemma fn_loop_goes:
  assumes "goes go sub cfg b s" and "present cfg b s"
  shows "fn_loop go cfg b s (of_nat j) n ds = Inr (ds @ concat (map (\<lambda>f. dev_of cfg b s (of_nat f) # behind sub cfg b s) [j..<j + n]))"
proof (induction n arbitrary: j ds)
  case (Suc n)
  have u: "[j..<j + Suc n] = j # [Suc j..<Suc j + n]" by (simp add: upt_conv_Cons)
  have n: "(of_nat j :: u8) + 1 = of_nat (Suc j)" by simp
  have p: "pci_reg cfg b s 0 \<noteq> 0xffffffff" using assms(2) by (simp add: present_def)
  show ?case unfolding u fn_loop.simps vendor_read n
    using p by (simp add: Device_new_eq descend_goes [OF assms] Suc.IH del: of_nat_Suc)
qed simp

lemma slots_loop_goes:
  assumes "\<And>s. i \<le> s \<Longrightarrow> s < i + n \<Longrightarrow> goes go sub cfg b (of_nat s)" and "i + n \<le> 256"
  shows "slots_loop go cfg b (of_nat i) n ds = Inr (ds @ concat (map (\<lambda>s. slot_devs sub cfg b (of_nat s)) [i..<i + n]))"
  using assms
proof (induction n arbitrary: i ds)
  case (Suc n)
  have u: "[i..<i + Suc n] = i # [Suc i..<Suc i + n]" by (simp add: upt_conv_Cons)
  have n: "(of_nat i :: u16) + 1 = of_nat (Suc i)" by simp
  have c: "(ucast (of_nat i :: u16) :: u8) = of_nat i"
    using Suc.prems(2) by (simp add: word_unat_eq_iff unsigned_ucast_eq unat_of_nat take_bit_nat_def)
  have g: "goes go sub cfg b (of_nat i)" by (rule Suc.prems(1)) simp_all
  have IH: "slots_loop go cfg b (of_nat (Suc i)) n ds = Inr (ds @ concat (map (\<lambda>s. slot_devs sub cfg b (of_nat s)) [Suc i..<Suc i + n]))" for ds
    by (rule Suc.IH) (use Suc.prems in auto)
  have f: "fn_loop go cfg b (of_nat i) 1 7 ds = Inr (ds @ concat (map (\<lambda>f. dev_of cfg b (of_nat i) (of_nat f) # behind sub cfg b (of_nat i)) [1..<8]))"
    if "present cfg b (of_nat i)" for ds
    using fn_loop_goes [OF g that, of 1 7 ds] by simp
  show ?case
  proof (cases "present cfg b (of_nat i)")
    case True
    then have "pci_reg cfg b (of_nat i) 0 \<noteq> 0xffffffff" by (simp add: present_def)
    then show ?thesis using True unfolding u slots_loop.simps vendor_read n c
      by (simp add: Device_new_eq descend_goes [OF g True] f [OF True] IH slot_devs_def del: of_nat_Suc upt_Suc)
  next
    case False
    then have "pci_reg cfg b (of_nat i) 0 = 0xffffffff" by (simp add: present_def)
    then show ?thesis using False unfolding u slots_loop.simps vendor_read n c
      by (simp add: IH slot_devs_def del: of_nat_Suc upt_Suc)
  qed
qed simp

text \<open>The devices of a bus, and behind its bridges.\<close>

primrec bus_devs :: "nat \<Rightarrow> (u32 \<Rightarrow> u32) \<Rightarrow> nat \<Rightarrow> u8 \<Rightarrow> device list" where
  "bus_devs 0 cfg start b = []"
| "bus_devs (Suc k) cfg start b = concat (map (\<lambda>s. slot_devs (bus_devs k cfg 0) cfg b (of_nat s)) [start..<32])"

text \<open>Bridges lead to buses of higher numbers.\<close>

definition bridges_ascend :: "(u32 \<Rightarrow> u32) \<Rightarrow> bool" where
  "bridges_ascend cfg \<longleftrightarrow> (\<forall>b s. s < 32 \<longrightarrow> present cfg b s \<longrightarrow> bridge_at cfg b s \<longrightarrow> b < secondary cfg b s)"

lemma search_bus_devs:
  assumes "bridges_ascend cfg" and "start \<le> 32"
  shows "256 \<le> k + unat b \<Longrightarrow> search_bus k cfg b (of_nat start) ds = Inr (ds @ bus_devs k cfg start b)"
  using assms(2)
proof (induction k arbitrary: b start ds)
  case 0
  have "unat b < 2 ^ LENGTH(8)" by (rule unsigned_less)
  then show ?case using 0 by simp
next
  case (Suc k)
  have u: "unat (of_nat start :: u8) = start" using Suc.prems by (intro unat_of_nat_lt) simp
  have c: "(ucast (of_nat start :: u8) :: u16) = of_nat start"
    using Suc.prems by (simp add: word_unat_eq_iff unsigned_ucast_eq unat_of_nat take_bit_nat_def)
  have "goes (\<lambda>b. search_bus k cfg b 0) (bus_devs k cfg 0) cfg b (of_nat s)" if "s < start + (32 - start)" for s
  proof -
    have "unat (of_nat s :: u8) = s" using that Suc.prems by (intro unat_of_nat_lt) simp
    then have "(of_nat s :: u8) < 32" using that Suc.prems by (simp add: word_less_nat_alt)
    then have "present cfg b (of_nat s) \<Longrightarrow> bridge_at cfg b (of_nat s) \<Longrightarrow> b < secondary cfg b (of_nat s)"
      using assms(1) by (simp add: bridges_ascend_def)
    then have "present cfg b (of_nat s) \<Longrightarrow> bridge_at cfg b (of_nat s) \<Longrightarrow> 256 \<le> k + unat (secondary cfg b (of_nat s))"
      using Suc.prems by (simp add: word_less_nat_alt)
    then show ?thesis using Suc.IH [of _ 0] by (simp add: goes_def)
  qed
  then have "slots_loop (\<lambda>b. search_bus k cfg b 0) cfg b (of_nat start) (32 - start) ds =
      Inr (ds @ concat (map (\<lambda>s. slot_devs (bus_devs k cfg 0) cfg b (of_nat s)) [start..<start + (32 - start)]))"
    using Suc.prems by (intro slots_loop_goes) simp_all
  then show ?case using Suc.prems by (simp add: u c)
qed

text \<open>The slots that a search of bus \<open>b\<close> from slot \<open>start\<close> on looks at: those of the bus and those of every bus that a bridge in a
  slot looked at leads to.\<close>

inductive scanned :: "(u32 \<Rightarrow> u32) \<Rightarrow> u8 \<Rightarrow> nat \<Rightarrow> u8 \<Rightarrow> nat \<Rightarrow> bool" for cfg b start where
  here: "start \<le> s \<Longrightarrow> s < 32 \<Longrightarrow> scanned cfg b start b s"
| bridge: "scanned cfg b start c s \<Longrightarrow> present cfg c (of_nat s) \<Longrightarrow> bridge_at cfg c (of_nat s) \<Longrightarrow> t < 32
     \<Longrightarrow> scanned cfg b start (secondary cfg c (of_nat s)) t"

lemma scanned_trans: "scanned cfg (secondary cfg b (of_nat s)) 0 c t \<Longrightarrow> start \<le> s \<Longrightarrow> s < 32 \<Longrightarrow> present cfg b (of_nat s) \<Longrightarrow> bridge_at cfg b (of_nat s)
  \<Longrightarrow> scanned cfg b start c t"
  by (induction rule: scanned.induct) (auto intro: scanned.intros)

lemma scanned_unfold: "scanned cfg b start c t \<longleftrightarrow> (c = b \<and> start \<le> t \<and> t < 32) \<or>
   (\<exists>s. start \<le> s \<and> s < 32 \<and> present cfg b (of_nat s) \<and> bridge_at cfg b (of_nat s) \<and> scanned cfg (secondary cfg b (of_nat s)) 0 c t)"
  (is "?L \<longleftrightarrow> ?R")
proof
  show "?L \<Longrightarrow> ?R"
    by (induction rule: scanned.induct) (auto intro: scanned.intros)
  show "?R \<Longrightarrow> ?L" by (auto intro: scanned.intros scanned_trans)
qed

lemma set_slot_devs: "d \<in> set (slot_devs sub cfg b s) \<longleftrightarrow> present cfg b s \<and> ((d = dev_of cfg b s 0 \<or>
   (multi_at cfg b s \<and> (\<exists>f. 1 \<le> f \<and> f < 8 \<and> d = dev_of cfg b s (of_nat f)))) \<or> (bridge_at cfg b s \<and> d \<in> set (sub (secondary cfg b s))))"
  by (auto simp: slot_devs_def behind_def)

text \<open>The functions that the search reports for a slot.\<close>

definition reported :: "(u32 \<Rightarrow> u32) \<Rightarrow> u8 \<Rightarrow> nat \<Rightarrow> device \<Rightarrow> bool" where
  "reported cfg c s d \<longleftrightarrow> present cfg c (of_nat s) \<and>
     (\<exists>f < 8. (f = 0 \<or> multi_at cfg c (of_nat s)) \<and> d = dev_of cfg c (of_nat s) (of_nat f))"

lemma set_slot_devs_reported: "d \<in> set (slot_devs sub cfg b (of_nat s)) \<longleftrightarrow> reported cfg b s d \<or>
   (present cfg b (of_nat s) \<and> bridge_at cfg b (of_nat s) \<and> d \<in> set (sub (secondary cfg b (of_nat s))))"
proof -
  have e: "(\<exists>f < 8. (f = 0 \<or> m) \<and> d = g (of_nat f)) \<longleftrightarrow> d = g 0 \<or> (m \<and> (\<exists>f. 1 \<le> f \<and> f < 8 \<and> d = g (of_nat f)))" (is "?L \<longleftrightarrow> ?R")
    for m and g :: "u8 \<Rightarrow> device"
  proof
    assume ?L
    then obtain f where f: "f < 8" "f = 0 \<or> m" "d = g (of_nat f)" by blast
    show ?R
    proof (cases "f = 0")
      case True
      then show ?thesis using f(3) by simp
    next
      case False
      then have "m \<and> 1 \<le> f \<and> f < 8 \<and> d = g (of_nat f)" using f by simp
      then show ?thesis by blast
    qed
  next
    assume ?R
    then show ?L
    proof
      assume "d = g 0"
      then have "0 < (8 :: nat) \<and> (0 = (0 :: nat) \<or> m) \<and> d = g (of_nat 0)" by simp
      then show ?L by blast
    qed blast
  qed
  show ?thesis unfolding set_slot_devs reported_def e [of "multi_at cfg b (of_nat s)" "dev_of cfg b (of_nat s)"] by argo
qed

lemma bus_devs_scanned:
  assumes "bridges_ascend cfg"
  shows "256 \<le> k + unat b \<Longrightarrow> d \<in> set (bus_devs k cfg start b) \<longleftrightarrow> (\<exists>c s. scanned cfg b start c s \<and> reported cfg c s d)"
proof (induction k arbitrary: b start)
  case 0
  have "unat b < 2 ^ LENGTH(8)" by (rule unsigned_less)
  then show ?case using 0 by simp
next
  case (Suc k)
  have sub: "d \<in> set (bus_devs k cfg 0 (secondary cfg b (of_nat s))) \<longleftrightarrow> (\<exists>c t. scanned cfg (secondary cfg b (of_nat s)) 0 c t \<and> reported cfg c t d)"
    if "s < 32" "present cfg b (of_nat s)" "bridge_at cfg b (of_nat s)" for s
  proof (rule Suc.IH)
    have "unat (of_nat s :: u8) = s" using that by (intro unat_of_nat_lt) simp
    then have "(of_nat s :: u8) < 32" using that by (simp add: word_less_nat_alt)
    then have "b < secondary cfg b (of_nat s)" using assms that by (simp add: bridges_ascend_def)
    then show "256 \<le> k + unat (secondary cfg b (of_nat s))" using Suc.prems by (simp add: word_less_nat_alt)
  qed
  have "d \<in> set (bus_devs (Suc k) cfg start b) \<longleftrightarrow> (\<exists>s. start \<le> s \<and> s < 32 \<and> d \<in> set (slot_devs (bus_devs k cfg 0) cfg b (of_nat s)))" by auto
  also have "\<dots> \<longleftrightarrow> (\<exists>s. start \<le> s \<and> s < 32 \<and> (reported cfg b s d \<or> (present cfg b (of_nat s) \<and> bridge_at cfg b (of_nat s) \<and>
      (\<exists>c t. scanned cfg (secondary cfg b (of_nat s)) 0 c t \<and> reported cfg c t d))))"
    using sub by (auto simp: set_slot_devs_reported)
  also have "\<dots> \<longleftrightarrow> (\<exists>c t. scanned cfg b start c t \<and> reported cfg c t d)"
    by (subst scanned_unfold) blast
  finally show ?case .
qed

text \<open>C27: When the bridges lead to buses of higher numbers, the search of all buses returns (nested at most 256 deep), keeps the
  devices known before and adds the host bridge. With a host bridge of one function it adds exactly the functions that are
  reported for the slots scanned from slot 1 of bus 0 on, one for a plain device and eight for one with several functions. With a
  host bridge of several functions, when its function 0 is present, it adds nothing else: the loop over the functions stops at a
  function that is present.\<close>

theorem pci_search_finds:
  assumes "bridges_ascend cfg" and "256 \<le> k"
  shows "(\<not> multi_at cfg 0 0 \<longrightarrow> (\<exists>new. pci_search k cfg ds = Inr (ds @ dev_of cfg 0 0 0 # new) \<and>
       (\<forall>d. d \<in> set new \<longleftrightarrow> (\<exists>c s. scanned cfg 0 1 c s \<and> reported cfg c s d)))) \<and>
     (multi_at cfg 0 0 \<longrightarrow> present cfg 0 0 \<longrightarrow> pci_search k cfg ds = Inr (ds @ [dev_of cfg 0 0 0]))"
proof (intro conjI impI)
  assume m: "\<not> multi_at cfg 0 0"
  have "search_bus k cfg 0 (of_nat 1) (ds @ [dev_of cfg 0 0 0]) = Inr ((ds @ [dev_of cfg 0 0 0]) @ bus_devs k cfg 1 0)"
    using assms by (intro search_bus_devs) simp_all
  then have "pci_search k cfg ds = Inr (ds @ dev_of cfg 0 0 0 # bus_devs k cfg 1 0)" using m dev_of_kind(2) [of cfg 0 0 0]
    by (simp add: pci_search_def Device_new_eq)
  moreover have "d \<in> set (bus_devs k cfg 1 0) \<longleftrightarrow> (\<exists>c s. scanned cfg 0 1 c s \<and> reported cfg c s d)" for d
    using assms by (intro bus_devs_scanned) simp_all
  ultimately show "\<exists>new. pci_search k cfg ds = Inr (ds @ dev_of cfg 0 0 0 # new) \<and> (\<forall>d. d \<in> set new \<longleftrightarrow> (\<exists>c s. scanned cfg 0 1 c s \<and> reported cfg c s d))"
    by blast
next
  assume m: "multi_at cfg 0 0" and p: "present cfg 0 0"
  have "init_loop k cfg 0 8 ds = Inr ds" for ds
    using p by (simp add: eval_nat_numeral vendor_read present_def)
  then show "pci_search k cfg ds = Inr (ds @ [dev_of cfg 0 0 0])" using m dev_of_kind(2) [of cfg 0 0 0]
    by (simp add: pci_search_def Device_new_eq)
qed

definition pci_example :: "u32 \<Rightarrow> u32" where
  "pci_example a = (if a = 0x80000000 then 0x12378086 else if a = 0x80000008 then 0x06000000 else if a = 0x8000000C then 0
     else if a = 0x80000800 then 0x29228086 else if a = 0x80000808 then 0x01060102 else if a = 0x8000080C then 0 else 0xffffffff)"

lemma pci_example_values: "pci_example a \<in> {0x12378086, 0x06000000, 0, 0x29228086, 0x01060102, 0xffffffff}"
  by (simp add: pci_example_def)

lemma pci_example_no_bridge: "\<not> bridge_at pci_example b s"
proof -
  have "(ucast (drop_bit 24 v AND 0xff) :: u8) \<noteq> 6 \<or> (ucast (drop_bit 16 v AND 0xff) :: u8) \<noteq> 4"
    if "v \<in> {0x12378086, 0x06000000, 0, 0x29228086, 0x01060102, 0xffffffff}" for v :: u32
    using that by auto
  from this [OF pci_example_values] show ?thesis by (simp add: bridge_at_def is_bridge_def dev_of_def Let_def pci_reg_def)
qed

theorem pci_search_finds_witness:
  "\<exists>new. pci_search 256 pci_example [] = Inr (dev_of pci_example 0 0 0 # new) \<and> dev_of pci_example 0 1 0 \<in> set new \<and>
     device_class (dev_of pci_example 0 1 0) = AHCI_CLASS"
proof -
  have a: "bridges_ascend pci_example" by (simp add: bridges_ascend_def pci_example_no_bridge)
  have r: "pci_reg pci_example 0 0 0x0c = 0" "pci_reg pci_example 0 1 0 = 0x29228086" "pci_reg pci_example 0 1 8 = 0x01060102"
    by (simp_all add: pci_reg_def pci_example_def pci_addr_def)
  have m: "\<not> multi_at pci_example 0 0" using r(1) by (simp add: multi_at_def dev_of_def Let_def header_byte_def)
  from pci_search_finds [OF a order_refl, of "[]"] m obtain new where new: "pci_search 256 pci_example [] = Inr (dev_of pci_example 0 0 0 # new)"
    and all: "\<forall>d. d \<in> set new \<longleftrightarrow> (\<exists>c s. scanned pci_example 0 1 c s \<and> reported pci_example c s d)" by auto
  have "scanned pci_example 0 1 0 1" by (rule scanned.here) simp_all
  moreover have "reported pci_example 0 1 (dev_of pci_example 0 1 0)"
    unfolding reported_def by (rule conjI, simp add: present_def r, rule exI [of _ 0]) simp
  ultimately have "dev_of pci_example 0 1 0 \<in> set new" using all by blast
  moreover have "device_class (dev_of pci_example 0 1 0) = AHCI_CLASS" by (simp add: dev_of_def Let_def r AHCI_CLASS_def)
  ultimately show ?thesis using new by blast
qed

text \<open>The search does not return when a bridge leads to its own bus, however deep it may nest.\<close>

lemma search_bus_self:
  assumes "present cfg b 0" and "bridge_at cfg b 0" and "secondary cfg b 0 = b"
  shows "search_bus k cfg b 0 ds = Inl OutOfFuel"
proof (induction k arbitrary: ds)
  case (Suc k)
  have "pci_reg cfg b 0 0 \<noteq> 0xffffffff" using assms(1) by (simp add: present_def)
  moreover have "descend (\<lambda>b. search_bus k cfg b 0) cfg (dev_of cfg b 0 0) ds = Inl OutOfFuel" for ds
    using assms Suc by (simp add: descend_def secondary_read)
  moreover have "(32 :: nat) = Suc 31" by simp
  ultimately show ?case unfolding search_bus.simps by (simp only: slots_loop.simps unsigned_0 diff_zero vendor_read Device_new_eq bindE_Inr bindE_Inl if_True ucast_0 not_False_eq_True)
qed simp

section \<open>The AHCI driver\<close>

lemma ports_loop_nth: "length ps = 32 \<Longrightarrow> i + n \<le> 32 \<Longrightarrow> length (ports_loop rd hba i n ps) = 32 \<and>
  (\<forall>j < 32. ports_loop rd hba i n ps ! j = (if i \<le> j \<and> j < i + n \<and> bit (rd (hba_pi hba)) j then Some (hba_port hba j) else ps ! j))"
proof (induction n arbitrary: i ps)
  case (Suc n)
  have b: "(drop_bit i w AND 1 \<noteq> 0) = bit w i" for w :: u32
    by (simp add: and_one_eq odd_iff_mod_2_eq_one [symmetric] bit_iff_odd_drop_bit mod_2_eq_odd)
  have IH: "length qs = 32 \<Longrightarrow> length (ports_loop rd hba (Suc i) n qs) = 32 \<and>
      (\<forall>j < 32. ports_loop rd hba (Suc i) n qs ! j = (if Suc i \<le> j \<and> j < Suc i + n \<and> bit (rd (hba_pi hba)) j then Some (hba_port hba j) else qs ! j))" for qs
    by (rule Suc.IH) (use Suc.prems in auto)
  let ?qs = "if bit (rd (hba_pi hba)) i then ps[i := Some (hba_port hba i)] else ps"
  have l: "length ?qs = 32" using Suc.prems by simp
  have q: "?qs ! j = (if j = i \<and> bit (rd (hba_pi hba)) i then Some (hba_port hba i) else ps ! j)" for j
    using Suc.prems by (simp add: nth_list_update)
  have "ports_loop rd hba (Suc i) n ?qs ! j = (if i \<le> j \<and> j < i + Suc n \<and> bit (rd (hba_pi hba)) j then Some (hba_port hba j) else ps ! j)"
    if "j < 32" for j
  proof (cases "j = i")
    case True
    then show ?thesis using IH [OF l] that q by simp
  next
    case False
    then have "Suc i \<le> j \<and> j < Suc i + n \<longleftrightarrow> i \<le> j \<and> j < i + Suc n" by auto
    then show ?thesis using IH [OF l] that q False by simp
  qed
  then show ?case using IH [OF l] unfolding ports_loop.simps b by blast
qed auto

lemma search_for_device_map: "search_for_device ds =
  map (\<lambda>d. if device_class d = AHCI_CLASS \<and> device_subclass d = AHCI_SUBCLASS then create_driver d else d) ds"
  by (induction ds) simp_all

text \<open>The configuration maps one page for the controller: its last two ports are outside it.\<close>

lemma hba_port_outside: "30 \<le> i \<Longrightarrow> i < 32 \<Longrightarrow> unat (hba_port hba i - hba) \<ge> 4096"
proof -
  assume i: "30 \<le> i" "i < 32"
  have "hba_port hba i - hba = of_nat (0x100 + 0x80 * i)" by (simp add: hba_port_def sizeof_hba_port_def)
  moreover have "unat (of_nat (0x100 + 0x80 * i) :: u32) = 0x100 + 0x80 * i" using i by (intro unat_of_nat_lt) simp
  ultimately show ?thesis using i by (simp only:)
qed

lemma ports_loop_all: "ports_loop rd hba 0 32 (replicate 32 None) = map (\<lambda>i. if bit (rd (hba_pi hba)) i then Some (hba_port hba i) else None) [0..<32]"
  using ports_loop_nth [of "replicate 32 None" 0 32 rd hba] by (intro nth_equalityI) simp_all

text \<open>C26: On a heap with room for a page structure, the configuration of an AHCI controller returns: the page of the address in its
  register BAR5 is mapped, uncached and writable, at the next free address of the kernel's half, the registers are found at the same
  offset in that page, a device is made for exactly the ports that the controller reports as implemented, each at its own block
  of registers, and the heap's invariant is kept.\<close>

theorem ahci_configured:
  assumes "kmem_inv m as bs" and "\<not> m_mutex m" and "kmem_can sizeof_Page (KMALLOC_RESERVED OR KMALLOC_NOLOCK) m as"
    and "empty_slot m = NULL" and "virtual_pointer m \<noteq> 0" and "unat (virtual_pointer m) < TOTAL_VM_SIZE - unat PAGE_SIZE"
    and "bar5 = pci_reg cfg (dv_bus d) (dv_slot d) BAR5" and "hba = virtual_pointer m + bar5 mod PAGE_SIZE"
  shows "\<exists>m' as' bs'. AhciDriver_configure (Suc (Suc k)) cfg rd d AhciDriver_new m = Inr (\<lparr>ah_hba = Some hba,
      ah_devices = map (\<lambda>i. if bit (rd (hba + 0x0c)) i then Some (hba + 0x100 + 0x80 * of_nat i) else None) [0..<32]\<rparr>, m') \<and>
    m_ptes m' = (m_ptes m)(cursor m := (bar5 - bar5 mod PAGE_SIZE) OR (PAGE_TABLE_CACHEDISABLE OR PAGE_TABLE_RW) OR PAGE_TABLE_PRESENT) \<and>
    virtual_pointer m' = virtual_pointer m + PAGE_SIZE \<and> kmem_inv m' as' bs' \<and> \<not> m_mutex m'"
proof -
  have b: "Device_get32 cfg (dv_bus d) (dv_slot d) 0 BAR5 = Inr bar5"
    by (simp add: assms(7) Device_get32_def pci_read_def pci_reg_def BAR5_def)
  from device_page [OF assms(1-6), of k "bar5 - bar5 mod PAGE_SIZE" FLAG_KERNEL "Suc (Suc k)" "PAGE_TABLE_CACHEDISABLE OR PAGE_TABLE_RW"]
  obtain p m1 m2 as' bs' where
    c: "page_create (Suc (Suc k)) (bar5 - bar5 mod PAGE_SIZE) FLAG_KERNEL 1 m = Inr (p, m1)"
      "kinstall (Suc (Suc k)) p (PAGE_TABLE_CACHEDISABLE OR PAGE_TABLE_RW) m1 = Inr (virtual_pointer m, m2)"
      "m_ptes m2 = (m_ptes m)(cursor m := (bar5 - bar5 mod PAGE_SIZE) OR (PAGE_TABLE_CACHEDISABLE OR PAGE_TABLE_RW) OR PAGE_TABLE_PRESENT)"
      "kmem_inv m2 as' bs'" "\<not> m_mutex m2" "virtual_pointer m2 = virtual_pointer m + PAGE_SIZE" .
  have "AhciDriver_configure (Suc (Suc k)) cfg rd d AhciDriver_new m = Inr (\<lparr>ah_hba = Some hba,
      ah_devices = ports_loop rd hba 0 32 (replicate 32 None)\<rparr>, m2)"
    using b c(1,2) unfolding assms(8) by (simp add: AhciDriver_configure_def AhciDriver_new_def Let_def)
  then show ?thesis using c(3-6) by (auto simp: ports_loop_all hba_pi_def hba_port_def sizeof_hba_port_def)
qed

theorem ahci_configured_witness:
  "\<exists>m'. AhciDriver_configure 2 (\<lambda>_. 0xFEBF1200) (\<lambda>_. 5) (dev_of pci_example 0 1 0) AhciDriver_new kmem_example =
    Inr (\<lparr>ah_hba = Some 0xC1001200, ah_devices = [Some 0xC1001300, None, Some 0xC1001400] @ replicate 29 None\<rparr>, m') \<and>
    m_ptes m' 0 = 0xFEBF1013"
proof -
  let ?fl = "KMALLOC_RESERVED OR KMALLOC_NOLOCK"
  have can: "kmem_can sizeof_Page ?fl kmem_example [0xC1000024]"
    by (simp add: kmem_can_def fits_def kmem_example_def kmem_round_def flag_defs Let_def)
  have v: "\<not> m_mutex kmem_example" "empty_slot kmem_example = NULL" "virtual_pointer kmem_example = 0xC1001000" "cursor kmem_example = 0"
    by (simp_all add: kmem_example_def)
  have n: "Suc (Suc 0) = 2" by simp
  have b: "(0xFEBF1200 :: u32) = pci_reg (\<lambda>_. 0xFEBF1200) (dv_bus (dev_of pci_example 0 1 0)) (dv_slot (dev_of pci_example 0 1 0)) BAR5" by (simp add: pci_reg_def)
  have h: "0xC1001200 = virtual_pointer kmem_example + 0xFEBF1200 mod PAGE_SIZE" by (simp add: v PAGE_SIZE_def)
  have o: "(0xFEBF1200 - 0xFEBF1200 mod PAGE_SIZE) OR (PAGE_TABLE_CACHEDISABLE OR PAGE_TABLE_RW) OR PAGE_TABLE_PRESENT = 0xFEBF1013"
    by (simp add: PAGE_SIZE_def PAGE_TABLE_CACHEDISABLE_def PAGE_TABLE_RW_def PAGE_TABLE_PRESENT_def)
  have bt: "bit (5 :: u32) i \<longleftrightarrow> i = 0 \<or> i = 2" for i
  proof -
    have "(5 :: u32) = 2 ^ 0 OR 2 ^ 2" by simp
    then have "bit (5 :: u32) i \<longleftrightarrow> bit (2 ^ 0 :: u32) i \<or> bit (2 ^ 2 :: u32) i" by (simp only: bit_or_iff)
    then show ?thesis by (simp only: bit_exp_iff possible_bit_word) auto
  qed
  have ps: "map (\<lambda>i. if bit ((\<lambda>_. 5) (0xC1001200 + 0x0c :: u32) :: u32) i then Some (0xC1001200 + 0x100 + 0x80 * of_nat i :: u32) else None) [0..<32] =
      [Some 0xC1001300, None, Some 0xC1001400] @ replicate 29 None"
    unfolding bt by (simp add: upt_rec numeral_eq_Suc)
  from ahci_configured [OF kmem_example_inv v(1) can v(2) _ _ b h, of 0 "\<lambda>_. 5"] show ?thesis
    unfolding n ps o by (auto simp: v TOTAL_VM_SIZE_def)
qed

end
