(* ===== verification/PanicTrace.thy ===== *)
theory PanicTrace
  imports Lapic Elf
begin

text \<open>
  \<open>src/main/panic.cpp\<close> and \<open>src/debug/stack.cpp\<close>: what happens when the kernel panics. Everywhere else a panic is the error value
  \<open>Panic\<close>; here is the code behind it. The messages are the calls of \<open>vga::string_stream.writef\<close>, each with its format and its
  argument words (\<open>Console\<close> shows what \<open>writef\<close> makes of them). The stack and the image of the kernel are a memory of bytes. A panic
  never returns: the result is the state in which the CPU stops and the way it stops, \<open>Hang\<close> for a CPU that halts.
\<close>

section \<open>Unwinding the stack\<close>

definition STB_GLOBAL :: u8 where "STB_GLOBAL = 1"
definition STT_FUNC :: u8 where "STT_FUNC = 2"

definition getReturn :: "bytes \<Rightarrow> u32 \<Rightarrow> u32" where
  "getReturn m ebp = read32 m (ebp + 4)"

definition methodName :: "bytes \<Rightarrow> u32 \<Rightarrow> u32 \<Rightarrow> u32 result" where
  "methodName m elf ebp = runtimeFindSymbolName m elf (getReturn m ebp) (ucast (st_info STB_GLOBAL STT_FUNC))"

text \<open>\<open>unwind\<close> moves to the caller's frame and tells whether there is one.\<close>

definition unwind :: "bytes \<Rightarrow> u32 \<Rightarrow> u32 \<times> bool" where
  "unwind m ebp = (read32 m ebp, 0 < read32 m ebp)"

section \<open>The panic handler\<close>

type_synonym message = "string \<times> u32 list"

record pstate =
  ps_panicked :: u8
  ps_out :: "message list"
  ps_lapic :: lapic

definition COLOUR_RED :: u8 where "COLOUR_RED = 4"

definition panic_clr :: u8 where
  "panic_clr = COLOUR_WHITE OR push_bit 4 COLOUR_RED"

definition say :: "message \<Rightarrow> pstate \<Rightarrow> pstate" where
  "say x s = s\<lparr>ps_out := ps_out s @ [x]\<rparr>"

definition newline :: char where "newline = CHR 0x0A"

definition frame_message :: "u32 \<Rightarrow> message" where
  "frame_message name = (if name \<noteq> NULL then (newline # ''in %s'', [name, 0]) else (newline # ''in [unknown frame]'', []))"

partial_function (option) trace_loop :: "bytes \<Rightarrow> u32 \<Rightarrow> u32 \<Rightarrow> pstate \<Rightarrow> (pstate \<times> unit result) option" where
  "trace_loop m elf ebp s = (case methodName m elf ebp of
     Inl e \<Rightarrow> Some (s, Inl e)
   | Inr name \<Rightarrow> let s1 = say (frame_message name) s; (ebp1, more) = unwind m ebp in
       if more then trace_loop m elf ebp1 s1 else Some (s1, Inr ()))"

definition panic_frames :: "bytes \<Rightarrow> u32 \<Rightarrow> u32 \<Rightarrow> pstate \<Rightarrow> pstate \<times> unit result" where
  "panic_frames m elf ebp s = (if ebp \<noteq> 0 then case trace_loop m elf ebp s of Some r \<Rightarrow> r | None \<Rightarrow> (s, Inl Hang) else (s, Inr ()))"

definition panic_trace :: "bytes \<Rightarrow> u32 \<Rightarrow> u32 \<Rightarrow> u32 \<Rightarrow> pstate \<Rightarrow> pstate \<times> unit result" where
  "panic_trace m elf ebp eip s =
     (if elf = NULL then (say (newline # ''(no elf headers found, no debug info available)'', []) s, Inr ())
      else if eip \<noteq> 0 then case runtimeFindSymbolName m elf eip (ucast (st_info STB_GLOBAL STT_FUNC)) of
          Inl e \<Rightarrow> (s, Inl e)
        | Inr name \<Rightarrow> panic_frames m elf ebp (say (frame_message name) s)
      else panic_frames m elf ebp s)"

definition panic_cpu :: "nat \<Rightarrow> tstate \<Rightarrow> message result" where
  "panic_cpu c t = bindE (cpu_info c t) (\<lambda>info.
     if cs_thread info \<noteq> NULL then bindE (rd_thread t (cs_thread info)) (\<lambda>th. Inr ('' [%d/%d]'', [ucast (cs_cpu_id info), th_task_id th]))
     else Inr ('' [%d/-]'', [ucast (cs_cpu_id info)]))"

definition panic_report :: "nat \<Rightarrow> tstate \<Rightarrow> bytes \<Rightarrow> u32 \<Rightarrow> u32 \<Rightarrow> u32 \<Rightarrow> message \<Rightarrow> pstate \<Rightarrow> pstate \<times> unit result" where
  "panic_report c t m elf ebp eip msg s = (let s1 = say msg (say (newline # ''KERNEL PANIC: '', []) s) in
     case panic_cpu c t of Inl e \<Rightarrow> (s1, Inl e) | Inr x \<Rightarrow> panic_trace m elf ebp eip (say x s1))"

text \<open>The other CPUs are told to stop.\<close>

fun stop_loop :: "nat \<Rightarrow> u32 \<Rightarrow> nat \<Rightarrow> lapic \<Rightarrow> lapic" where
  "stop_loop me i 0 l = l"
| "stop_loop me i (Suc n) l = stop_loop me (i + 1) n
     (if i \<noteq> of_nat me then ipi (ucast (INT_LAPIC_BASE + INT_LAPIC_PANIC)) i l else l)"

definition panic_stop :: "nat \<Rightarrow> tstate \<Rightarrow> u32 \<Rightarrow> pstate \<Rightarrow> pstate \<times> kerror" where
  "panic_stop c t proc_count s = (case cpu_id c t of
     Inl e \<Rightarrow> (s, e) | Inr me \<Rightarrow> (s\<lparr>ps_lapic := stop_loop me 0 (unat proc_count) (ps_lapic s)\<rparr>, Hang))"

definition panic_notice :: message where
  "panic_notice = (newline # ''! Panic Handling Panic'', [])"

text \<open>A panic while another is handled: the cases of the switch other than the first.\<close>

definition panic_again :: "nat \<Rightarrow> tstate \<Rightarrow> u32 \<Rightarrow> pstate \<Rightarrow> pstate \<times> kerror" where
  "panic_again c t proc_count s = (let s1 = s\<lparr>ps_panicked := ps_panicked s + 1\<rparr> in
     panic_stop c t proc_count (if ps_panicked s = 1 then say panic_notice s1 else s1))"

text \<open>A failure in the first case is a panic inside the handler when it is a call of \<open>panic\<close>.\<close>

definition vpanic_at :: "nat \<Rightarrow> tstate \<Rightarrow> bytes \<Rightarrow> u32 \<Rightarrow> u32 \<Rightarrow> u32 \<Rightarrow> u32 \<Rightarrow> message \<Rightarrow> pstate \<Rightarrow> pstate \<times> kerror" where
  "vpanic_at c t0 m elf proc_count ebp eip msg s = (let t = cli c t0 in
     if ps_panicked s \<noteq> 0 then panic_again c t proc_count s
     else case panic_report c t m elf ebp eip msg (s\<lparr>ps_panicked := ps_panicked s + 1\<rparr>) of
         (s1, Inr _) \<Rightarrow> panic_stop c t proc_count s1
       | (s1, Inl (Panic _)) \<Rightarrow> panic_again c t proc_count s1
       | (s1, Inl e) \<Rightarrow> (s1, e))"

text \<open>\<open>panic\<close> starts from the frame pointer of its own frame, \<open>panic_at\<close> from the state of an interrupted program.\<close>

definition panic_call :: "nat \<Rightarrow> tstate \<Rightarrow> bytes \<Rightarrow> u32 \<Rightarrow> u32 \<Rightarrow> u32 \<Rightarrow> message \<Rightarrow> pstate \<Rightarrow> pstate \<times> kerror" where
  "panic_call c t m elf proc_count ebp msg s = vpanic_at c t m elf proc_count ebp 0 msg s"

definition panic_at :: "nat \<Rightarrow> tstate \<Rightarrow> bytes \<Rightarrow> u32 \<Rightarrow> u32 \<Rightarrow> u32 \<Rightarrow> u32 \<Rightarrow> message \<Rightarrow> pstate \<Rightarrow> pstate \<times> kerror" where
  "panic_at c t m elf proc_count ebp eip msg s = vpanic_at c t m elf proc_count ebp eip msg s"

section \<open>The trace\<close>

text \<open>The frames on a stack: each holds the address of its caller's frame, the outermost one zero.\<close>

fun stack_frames :: "bytes \<Rightarrow> u32 \<Rightarrow> u32 list \<Rightarrow> bool" where
  "stack_frames m a [] \<longleftrightarrow> a = 0"
| "stack_frames m a (f # fs) \<longleftrightarrow> a = f \<and> f \<noteq> 0 \<and> stack_frames m (read32 m f) fs"

text \<open>A symbol table that the search can use: it has symbols, and none of them is at address zero.\<close>

definition symtab_ok :: "bytes \<Rightarrow> u32 \<Rightarrow> bool" where
  "symtab_ok m e = (let sec = sectionByType m e SHT_SYMTAB 0; sh = sectionHeader m e sec in
     sh_entsize m sh \<noteq> 0 \<and> 0 < unat (sh_size m sh div sh_entsize m sh) \<and> (\<forall>j < unat (sh_size m sh div sh_entsize m sh). sym_ptr m e sec j \<noteq> NULL))"

definition name_at :: "bytes \<Rightarrow> u32 \<Rightarrow> u32 \<Rightarrow> u32" where
  "name_at m e a = projr (runtimeFindSymbolName m e a (ucast (st_info STB_GLOBAL STT_FUNC)))"

lemma runtimeSymbol_at:
  assumes "sh_entsize m (sectionHeader m e sec) \<noteq> 0" and "i < sh_size m (sectionHeader m e sec) div sh_entsize m (sectionHeader m e sec)"
  shows "runtimeSymbol m e sec i = Inr (sym_ptr m e sec (unat i))"
proof -
  have "\<not> sh_size m (sectionHeader m e sec) div sh_entsize m (sectionHeader m e sec) \<le> i" using assms(2) by (simp only: not_le)
  then show ?thesis using assms(1) by (simp add: runtimeSymbol_def symbol_at_def entries_def sym_ptr_def Let_def)
qed

lemma name_found:
  assumes "symtab_ok m e"
  shows "runtimeFindSymbolName m e a (ucast (st_info STB_GLOBAL STT_FUNC)) = Inr (name_at m e a)"
proof -
  let ?sec = "sectionByType m e SHT_SYMTAB 0" and ?ty = "ucast (st_info STB_GLOBAL STT_FUNC) :: u32"
  let ?sh = "sectionHeader m e ?sec"
  let ?N = "unat (sh_size m ?sh div sh_entsize m ?sh)"
  have ok: "sh_entsize m ?sh \<noteq> 0" "0 < ?N" "\<And>j. j < ?N \<Longrightarrow> sym_ptr m e ?sec j \<noteq> NULL" using assms by (simp_all add: symtab_ok_def Let_def)
  have "nearest (sym_match m e ?sec a ?ty) (sym_dist m e ?sec a) 0 (0, 0xffffffff)" by (simp add: nearest_def)
  from find_symbol_loop_nearest [OF ok(1) refl ok(3) this, of ?N] obtain bd where
    bd: "find_symbol_loop m e ?sec a ?ty 0 ?N (0, 0xffffffff) = Inr bd" "nearest (sym_match m e ?sec a ?ty) (sym_dist m e ?sec a) ?N bd" by auto
  have b: "unat (fst bd) < ?N" using bd(2) ok(2) by (auto simp: nearest_def split: if_splits)
  have "runtimeFindSymbolId m e a ?ty = Inr (fst bd)" using bd(1) ok(1) by (simp add: runtimeFindSymbolId_def entries_def Let_def)
  moreover have "runtimeSymbol m e ?sec (fst bd) = Inr (sym_ptr m e ?sec (unat (fst bd)))"
    using b by (intro runtimeSymbol_at ok(1)) (simp add: word_less_nat_alt)
  ultimately have "\<exists>x. runtimeFindSymbolName m e a ?ty = Inr x" using ok(3) [OF b] by (simp add: runtimeFindSymbolName_def runtimeSymbolName_def)
  then show ?thesis unfolding name_at_def by fastforce
qed

lemma trace_loop_frames:
  assumes "symtab_ok m e" and "stack_frames m f (f # fs)"
  shows "trace_loop m e f s = Some (s\<lparr>ps_out := ps_out s @ map (\<lambda>f. frame_message (name_at m e (getReturn m f))) (f # fs)\<rparr>, Inr ())"
  using assms(2)
proof (induction fs arbitrary: f s)
  case Nil
  then show ?case by (subst trace_loop.simps) (simp add: methodName_def name_found [OF assms(1)] unwind_def say_def)
next
  case (Cons g fs)
  then have r: "read32 m f = g" "0 < g" "stack_frames m g (g # fs)" by (simp_all add: word_neq_0_conv)
  have "trace_loop m e f s = trace_loop m e g (say (frame_message (name_at m e (getReturn m f))) s)"
    using r(1,2) by (subst trace_loop.simps) (simp add: methodName_def name_found [OF assms(1)] unwind_def)
  then show ?case by (simp only: Cons.IH [OF r(3)]) (simp add: say_def)
qed

lemma cli_id [simp]: "cpu_id c (cli c t) = Inr c"
proof -
  have "(x AND NOT IF_flag) AND IF_flag = 0" for x by (rule bit_word_eqI) (auto simp: bit_simps)
  then show ?thesis by (cases "ts_cpus t c") (simp_all add: cpu_id_def cli_def set_eflags_def interrupts_on_def)
qed

definition panic_heading :: "message \<Rightarrow> message list" where
  "panic_heading msg = [(newline # ''KERNEL PANIC: '', []), msg]"

text \<open>The registers of the local APIC after a stop: one interrupt for each other CPU.\<close>

definition stop_others :: "nat \<Rightarrow> u32 \<Rightarrow> lapic \<Rightarrow> lapic" where
  "stop_others c n l = fold (ipi (ucast (INT_LAPIC_BASE + INT_LAPIC_PANIC))) (map of_nat (filter (\<lambda>i. i \<noteq> c) [0..<unat n])) l"

lemma stop_loop_others:
  assumes "c < 2 ^ 32" and "i + n < 2 ^ 32"
  shows "stop_loop c (of_nat i) n l = fold (ipi (ucast (INT_LAPIC_BASE + INT_LAPIC_PANIC))) (map of_nat (filter (\<lambda>i. i \<noteq> c) [i..<i + n])) l"
  using assms(2)
proof (induction n arbitrary: i l)
  case (Suc n)
  have u: "[i..<i + Suc n] = i # [Suc i..<Suc i + n]" by (simp add: upt_conv_Cons)
  have "unat (of_nat i :: u32) = i" using Suc.prems by (intro unat_of_nat_lt) simp
  moreover have "unat (of_nat c :: u32) = c" using assms(1) by (intro unat_of_nat_lt) simp
  ultimately have n: "(of_nat i :: u32) = of_nat c \<longleftrightarrow> i = c" by metis
  have s: "(of_nat i :: u32) + 1 = of_nat (Suc i)" by simp
  show ?case unfolding u stop_loop.simps s n using Suc by (simp del: of_nat_Suc upt_Suc)
qed simp

lemma panic_stop_others: "c < 2 ^ 32 \<Longrightarrow> panic_stop c (cli c t) n s = (s\<lparr>ps_lapic := stop_others c n (ps_lapic s)\<rparr>, Hang)"
  using stop_loop_others [of c 0 "unat n" "ps_lapic s"] unat_lt_32 [of n] by (simp add: panic_stop_def stop_others_def)


lemma elf_example_symtab: "symtab_ok elf_example 0x1000"
proof -
  let ?m = elf_example and ?e = "0x1000 :: u32"
  have h: "sectionHeader ?m ?e 0 = 0x1034" "sectionHeader ?m ?e 1 = 0x105c" by (simp_all add: sectionHeader_def elf_reads)
  have t: "sh_type ?m 0x1034 = 0" "sh_type ?m 0x105c = 2" "shnum ?m ?e = 2" by (simp_all add: elf_reads)
  have "section_loop ?m ?e 2 0 = 1" using h t by (subst section_loop.simps, subst section_loop.simps) simp
  then have sec: "sectionByType ?m ?e SHT_SYMTAB 0 = 1" using h t by (simp add: sectionByType_def SHT_SYMTAB_def)
  have z: "sh_entsize ?m (sectionHeader ?m ?e 1) = 16" "sh_size ?m (sectionHeader ?m ?e 1) = 48" "sh_addr ?m (sectionHeader ?m ?e 1) = 0x2000"
    unfolding h by (simp_all add: elf_reads)
  have "sym_ptr ?m ?e 1 j \<noteq> NULL" if "j < 3" for j
  proof -
    have "j = 0 \<or> j = 1 \<or> j = 2" using that by linarith
    then show ?thesis using z by (elim disjE) (simp_all add: sym_ptr_def runtimeSectionData_def)
  qed
  then show ?thesis using z by (simp add: symtab_ok_def sec Let_def)
qed

definition panic_example :: pstate where
  "panic_example = \<lparr>ps_panicked = 0, ps_out = [], ps_lapic = lapic_example\<rparr>"


end
