(* ===== verification/Testing.thy ===== *)
theory Testing
  imports Prelude
begin

text \<open>
  \<open>src/test/test.cpp\<close> and \<open>include/test/test.hpp\<close>: the kernel's own test framework. The body of a test case is what it calls, in
  order: the start of a test, an assertion with the value of its condition, or a failure. Names are strings; messages are the calls
  of \<open>printk\<close> and \<open>kwarn\<close> with their format and arguments.
\<close>

record TestResult =
  tr_case_name :: string
  tr_test_name :: string
  tr_pass :: bool
  tr_asserts :: u32

record TestCase =
  tc_tr :: TestResult
  tc_current_test :: string
  tc_asserts :: u32
  tc_name :: string

definition tc_fail :: "TestCase \<Rightarrow> TestCase" where
  "tc_fail t = (if tr_pass (tc_tr t)
     then t\<lparr>tc_tr := (tc_tr t)\<lparr>tr_test_name := tc_current_test t, tr_pass := False, tr_asserts := tc_asserts t\<rparr>\<rparr> else t)"

definition tc_assert :: "bool \<Rightarrow> TestCase \<Rightarrow> TestCase" where
  "tc_assert test t = (let t1 = (if test then t else tc_fail t) in t1\<lparr>tc_asserts := tc_asserts t1 + 1\<rparr>)"

definition tc_test :: "string \<Rightarrow> TestCase \<Rightarrow> TestCase" where
  "tc_test name t = t\<lparr>tc_current_test := name, tc_asserts := 0\<rparr>"

datatype action = StartTest string | Assertion bool | Failure

fun act :: "action \<Rightarrow> TestCase \<Rightarrow> TestCase" where
  "act (StartTest name) = tc_test name"
| "act (Assertion b) = tc_assert b"
| "act Failure = tc_fail"

definition do_test :: "action list \<Rightarrow> TestCase \<Rightarrow> TestResult \<times> TestCase" where
  "do_test body t = (let t1 = fold act body (t\<lparr>tc_tr := (tc_tr t)\<lparr>tr_case_name := tc_name t, tr_pass := True\<rparr>\<rparr>) in (tc_tr t1, t1))"

text \<open>The installed tests, a new one at the front, each with its body.\<close>

definition AddTestCase :: "TestCase \<times> action list \<Rightarrow> (TestCase \<times> action list) list \<Rightarrow> (TestCase \<times> action list) list" where
  "AddTestCase t tests = t # tests"

fun run_loop :: "(TestCase \<times> action list) list \<Rightarrow> TestResult list \<Rightarrow> TestResult list \<times> (TestCase \<times> action list) list" where
  "run_loop [] results = (results, [])"
| "run_loop ((t, body) # ts) results = (let (r, t1) = do_test body t; (rs, ts1) = run_loop ts (results @ [r]) in (rs, (t1, body) # ts1))"

definition run_tests :: "(TestCase \<times> action list) list \<Rightarrow> TestResult list \<times> (TestCase \<times> action list) list" where
  "run_tests tests = run_loop tests []"

datatype arg = Str string | Num u32

datatype printed = Printk string "arg list" | Kwarn string "arg list"

definition nl :: char where "nl = CHR 0x0A"

fun print_results :: "TestResult list \<Rightarrow> bool \<Rightarrow> printed list" where
  "print_results [] fail_only = []"
| "print_results (r # rs) fail_only = (if tr_pass r
     then (if fail_only then [] else [Printk (''PASS: %s'' @ [nl]) [Str (tr_case_name r)]])
     else [Kwarn (''FAIL: %s'' @ [nl]) [Str (tr_case_name r)],
           Kwarn (''> %s [Assert #%d]'' @ [nl]) [Str (tr_test_name r), Num (tr_asserts r)]]) @ print_results rs fail_only"

section \<open>The first failure\<close>

fun ok_action :: "action \<Rightarrow> bool" where
  "ok_action (StartTest _) = True"
| "ok_action (Assertion b) = b"
| "ok_action Failure = False"

text \<open>The test that runs after some actions, and the assertions it has made: those behind the last start of a test.\<close>

fun last_test :: "string \<Rightarrow> action list \<Rightarrow> string" where
  "last_test n [] = n"
| "last_test n (StartTest m # as) = last_test m as"
| "last_test n (_ # as) = last_test n as"

fun asserts_since :: "nat \<Rightarrow> action list \<Rightarrow> nat" where
  "asserts_since k [] = k"
| "asserts_since k (StartTest m # as) = asserts_since 0 as"
| "asserts_since k (Assertion b # as) = asserts_since (Suc k) as"
| "asserts_since k (Failure # as) = asserts_since k as"

lemma fold_act_ok:
  assumes "list_all ok_action as" and "tc_asserts t = of_nat k"
  shows "fold act as t = t\<lparr>tc_current_test := last_test (tc_current_test t) as, tc_asserts := of_nat (asserts_since k as)\<rparr>"
  using assms
proof (induction as arbitrary: t k)
  case (Cons a as)
  then show ?case
  proof (cases a)
    case (StartTest n)
    then show ?thesis using Cons.IH [of "tc_test n t" 0] Cons.prems by (simp add: tc_test_def)
  next
    case (Assertion b)
    have "tc_assert True t = t\<lparr>tc_asserts := of_nat (Suc k)\<rparr>" using Cons.prems by (simp add: tc_assert_def add.commute)
    then show ?thesis using Cons.IH [of "tc_assert True t" "Suc k"] Cons.prems Assertion by simp
  qed simp
qed simp

lemma act_after_failure: "\<not> tr_pass (tc_tr t) \<Longrightarrow> tc_tr (act a t) = tc_tr t"
  by (cases a) (simp_all add: tc_test_def tc_assert_def tc_fail_def Let_def)

lemma fold_act_after_failure: "\<not> tr_pass (tc_tr t) \<Longrightarrow> tc_tr (fold act as t) = tc_tr t"
  by (induction as arbitrary: t) (simp_all add: act_after_failure)

text \<open>A test case passes exactly when all its assertions hold and it does not call \<open>fail\<close>. Otherwise the result names the test
  in which the first failure happened and the number of assertions that this test had made before it, whatever the later actions
  are. \<open>k\<close> is the count of assertions with which the case started.\<close>

theorem test_reports_first_failure:
  assumes "tc_asserts t = of_nat k"
  shows "(list_all ok_action as \<longrightarrow> tr_pass (fst (do_test as t))) \<and>
    (list_all ok_action as \<longrightarrow> \<not> ok_action a \<longrightarrow> fst (do_test (as @ a # bs) t) =
      \<lparr>tr_case_name = tc_name t, tr_test_name = last_test (tc_current_test t) as, tr_pass = False, tr_asserts = of_nat (asserts_since k as)\<rparr>)"
proof (intro conjI impI)
  let ?t = "t\<lparr>tc_tr := (tc_tr t)\<lparr>tr_case_name := tc_name t, tr_pass := True\<rparr>\<rparr>"
  have k: "tc_asserts ?t = of_nat k" using assms by simp
  show "tr_pass (fst (do_test as t))" if "list_all ok_action as"
    using fold_act_ok [OF that k] by (simp add: do_test_def Let_def)
  show "fst (do_test (as @ a # bs) t) =
      \<lparr>tr_case_name = tc_name t, tr_test_name = last_test (tc_current_test t) as, tr_pass = False, tr_asserts = of_nat (asserts_since k as)\<rparr>"
    if as: "list_all ok_action as" and a: "\<not> ok_action a"
  proof -
    let ?u = "fold act as ?t"
    have r: "tc_tr (act a ?u) = (tc_tr ?u)\<lparr>tr_test_name := tc_current_test ?u, tr_pass := False, tr_asserts := tc_asserts ?u\<rparr>"
      using a fold_act_ok [OF as k] by (cases a) (simp_all add: tc_assert_def tc_fail_def)
    then have "\<not> tr_pass (tc_tr (act a ?u))" by simp
    then have "tc_tr (fold act bs (act a ?u)) = tc_tr (act a ?u)" by (rule fold_act_after_failure)
    then show ?thesis using r fold_act_ok [OF as k] by (simp add: do_test_def Let_def)
  qed
qed

lemma run_loop_results: "fst (run_loop ts rs) = rs @ map (\<lambda>(t, body). fst (do_test body t)) ts"
  by (induction ts arbitrary: rs) (auto simp: Let_def split_beta)

lemma print_results_failures: "print_results rs True =
  concat (map (\<lambda>r. [Kwarn (''FAIL: %s'' @ [nl]) [Str (tr_case_name r)], Kwarn (''> %s [Assert #%d]'' @ [nl]) [Str (tr_test_name r), Num (tr_asserts r)]])
    (filter (\<lambda>r. \<not> tr_pass r) rs))"
  by (induction rs) simp_all

end
