(* ===== verification/SelfTests.thy ===== *)
theory SelfTests
  imports Testing StaticList LinkedList Vector SmartPtr
begin

text \<open>
  The kernel's own tests of its containers and pointers, \<open>src/structures/static_list.cpp\<close>, \<open>list.cpp\<close>, \<open>vector.cpp\<close>,
  \<open>unique_ptr.cpp\<close> and \<open>shared_ptr.cpp\<close>, as scripts over the models of the containers: the statements of each \<open>run_test\<close> in order,
  every assertion with its condition. Running a script gives the calls that the test case makes to the framework of \<open>Testing\<close>. The
  addresses that \<open>new\<close> returns are chosen in the scripts.
\<close>

section \<open>Scripts\<close>

type_synonym 's step = "'s \<Rightarrow> ('s \<times> action list) result"

definition stest :: "string \<Rightarrow> 's step" where
  "stest name s = Inr (s, [StartTest name])"

definition sassert :: "('s \<Rightarrow> bool result) \<Rightarrow> 's step" where
  "sassert p s = bindE (p s) (\<lambda>b. Inr (s, [Assertion b]))"

definition sdo :: "('s \<Rightarrow> 's result) \<Rightarrow> 's step" where
  "sdo f s = bindE (f s) (\<lambda>s1. Inr (s1, []))"

text \<open>An assertion on the value of an operation that changes the state.\<close>

definition sassert_do :: "('s \<Rightarrow> (bool \<times> 's) result) \<Rightarrow> 's step" where
  "sassert_do f s = bindE (f s) (\<lambda>(b, s1). Inr (s1, [Assertion b]))"

fun run_steps :: "'s step list \<Rightarrow> 's step" where
  "run_steps [] s = Inr (s, [])"
| "run_steps (x # xs) s = bindE (x s) (\<lambda>(s1, as). bindE (run_steps xs s1) (\<lambda>(s2, bs). Inr (s2, as @ bs)))"

definition run_test :: "'s step list \<Rightarrow> 's \<Rightarrow> TestCase \<Rightarrow> TestResult result" where
  "run_test steps s t = bindE (run_steps steps s) (\<lambda>(s1, as). Inr (fst (do_test as t)))"

definition test_case :: "string \<Rightarrow> TestCase" where
  "test_case name = \<lparr>tc_tr = \<lparr>tr_case_name = [], tr_test_name = [], tr_pass = False, tr_asserts = 0\<rparr>,
     tc_current_test = [], tc_asserts = 0, tc_name = name\<rparr>"

text \<open>A result compared with a value.\<close>

definition eqr :: "'a result \<Rightarrow> 'a \<Rightarrow> bool result" where
  "eqr m v = bindE m (\<lambda>x. Inr (x = v))"

section \<open>The test of \<open>StaticList\<close>\<close>

text \<open>The counter \<open>constructs\<close>, the CPU's flags and the list under test. \<open>TestClass\<close> is its field \<open>val\<close>.\<close>

type_synonym slt = "u8 \<times> u32 \<times> int static_list"

definition slt_do :: "(u32 \<Rightarrow> int static_list \<Rightarrow> (unit \<times> u32 \<times> int static_list) result) \<Rightarrow> slt step" where
  "slt_do f = sdo (\<lambda>(n, e, l). bindE (f e l) (\<lambda>(_, e1, l1). Inr (n, e1, l1)))"

definition slt_emplace :: "(u32 \<Rightarrow> int static_list \<Rightarrow> (unit \<times> u32 \<times> int static_list) result) \<Rightarrow> slt step" where
  "slt_emplace f = sdo (\<lambda>(n, e, l). bindE (f e l) (\<lambda>(_, e1, l1). Inr (n + 1, e1, l1)))"

definition slt_pop :: "(u32 \<Rightarrow> int static_list \<Rightarrow> (int \<times> u32 \<times> int static_list) result) \<Rightarrow> int \<Rightarrow> slt step" where
  "slt_pop f v = sassert_do (\<lambda>(n, e, l). bindE (f e l) (\<lambda>(x, e1, l1). Inr (x = v, n, e1, l1)))"

definition slt_size :: "nat \<Rightarrow> slt step" where "slt_size k = sassert (\<lambda>(n, e, l). Inr (sl_size l = k))"
definition slt_empty :: "bool \<Rightarrow> slt step" where "slt_empty b = sassert (\<lambda>(n, e, l). Inr (sl_empty l = b))"
definition slt_front :: "int \<Rightarrow> slt step" where "slt_front v = sassert (\<lambda>(n, e, l). eqr (sl_front l) v)"
definition slt_back :: "int \<Rightarrow> slt step" where "slt_back v = sassert (\<lambda>(n, e, l). eqr (sl_back l) v)"
definition slt_make :: "slt step" where "slt_make = sdo (\<lambda>(n, e, l). Inr (n, e, sl_new (replicate 10 0)))"

definition StaticListTest :: "slt step list" where
  "StaticListTest =
    [stest ''Constructors'', slt_make, slt_size 0, slt_empty True, slt_make,
     stest ''Emptying a List'', sdo (\<lambda>(n, e, l). bindE (sl_clear l) (\<lambda>l1. Inr (n, e, l1))), slt_size 0, slt_empty True,
     stest ''Front pushing a list'', slt_do (sl_push_front 1), slt_size 1, slt_empty False, slt_front 1, slt_back 1,
     slt_do (sl_push_front 2), slt_size 2, slt_front 2, slt_back 1,
     stest ''Front popping a list'', slt_pop sl_pop_front 2, slt_size 1, slt_front 1, slt_back 1,
     slt_pop sl_pop_front 1, slt_empty True,
     stest ''Back pushing a list'', slt_do (sl_push_back 1), slt_size 1, slt_empty False, slt_front 1, slt_back 1,
     slt_do (sl_push_back 2), slt_size 2, slt_front 1, slt_back 2,
     stest ''Back popping a list'', slt_pop sl_pop_back 2, slt_size 1, slt_front 1, slt_back 1,
     slt_pop sl_pop_back 1, slt_empty True, slt_size 0,
     stest ''Emplace'', sdo (\<lambda>(n, e, l). Inr (0, e, l)), slt_make, slt_emplace (sl_emplace_back (\<lambda>i. i) 1), slt_emplace (sl_emplace_front (\<lambda>i. i) 2),
     slt_empty False, sassert (\<lambda>(n, e, l). Inr (n = 2))]"

section \<open>The test of \<open>list\<close>\<close>

text \<open>The counter \<open>constructs\<close>, the counter \<open>seeking\<close> and the list under test.\<close>

type_synonym llt = "u8 \<times> u8 \<times> int clist"

definition llt_do :: "(int clist \<Rightarrow> int clist result) \<Rightarrow> llt step" where
  "llt_do f = sdo (\<lambda>(n, k, l). bindE (f l) (\<lambda>l1. Inr (n, k, l1)))"

definition llt_size :: "u32 \<Rightarrow> llt step" where "llt_size m = sassert (\<lambda>(n, k, l). Inr (cl_size l = m))"
definition llt_empty :: "bool \<Rightarrow> llt step" where "llt_empty b = sassert (\<lambda>(n, k, l). eqr (cl_empty l) b)"
definition llt_front :: "int \<Rightarrow> llt step" where "llt_front v = sassert (\<lambda>(n, k, l). eqr (cl_front l) v)"
definition llt_back :: "int \<Rightarrow> llt step" where "llt_back v = sassert (\<lambda>(n, k, l). eqr (cl_back l) v)"
definition llt_pushf :: "u32 \<Rightarrow> int \<Rightarrow> llt step" where "llt_pushf a v = llt_do (\<lambda>l. Inr (cl_push_front a v l))"
definition llt_pushb :: "u32 \<Rightarrow> int \<Rightarrow> llt step" where "llt_pushb a v = llt_do (cl_push_back a v)"

text \<open>\<open>for(int e : b) assert(e == (seeking --))\<close>, at most \<open>m\<close> elements.\<close>

fun llt_each :: "nat \<Rightarrow> u32 \<Rightarrow> llt step" where
  "llt_each 0 it s = Inl OutOfFuel"
| "llt_each (Suc m) it s = (let (n, k, l) = s in if it = cl_end l then Inr (s, [])
     else bindE (it_deref l it) (\<lambda>e. bindE (it_next l it) (\<lambda>it1. bindE (llt_each m it1 (n, k - 1, l)) (\<lambda>(s1, as).
       Inr (s1, Assertion (e = uint k) # as)))))"

definition llt_iterate :: "u8 \<Rightarrow> llt step" where
  "llt_iterate k0 s = (let (n, k, l) = s in llt_each 10 (cl_begin l) (n, k0, l))"

text \<open>\<open>for(auto i = b.begin(); i != b.end(); ) if(*i == v) i = b.erase(i); else i ++;\<close>\<close>

fun erase_loop :: "nat \<Rightarrow> int \<Rightarrow> u32 \<Rightarrow> int clist \<Rightarrow> int clist result" where
  "erase_loop 0 v it l = Inl OutOfFuel"
| "erase_loop (Suc m) v it l = (if it = cl_end l then Inr l
     else bindE (it_deref l it) (\<lambda>e. if e = v then bindE (cl_erase it l) (\<lambda>(it1, l1). erase_loop m v it1 l1)
       else bindE (it_next l it) (\<lambda>it1. erase_loop m v it1 l)))"

definition llt_erase :: "int \<Rightarrow> llt step" where
  "llt_erase v = llt_do (\<lambda>l. erase_loop 10 v (cl_begin l) l)"

definition ListTest :: "llt step list" where
  "ListTest =
    [stest ''Constructors'', llt_do (\<lambda>l. Inr (cl_new Map.empty)), llt_size 0, llt_empty True,
     llt_do (\<lambda>l. Inr (cl_construct 0 [0x10, 0x20, 0x30, 0x40, 0x50] (cl_new Map.empty))), llt_size 5, llt_front 0, llt_empty False,
     stest ''Emptying a List'', llt_do (\<lambda>l. Inr (cl_clear l)), llt_size 0, llt_empty True,
     stest ''Front pushing a list'', llt_pushf 0x10 1, llt_size 1, llt_empty False, llt_front 1, llt_back 1,
     llt_pushf 0x20 2, llt_size 2, llt_front 2, llt_back 1,
     stest ''Front popping a list'', llt_do cl_pop_front, llt_size 1, llt_front 1, llt_back 1, llt_do cl_pop_front, llt_empty True,
     stest ''Back pushing a list'', llt_pushb 0x10 1, llt_size 1, llt_empty False, llt_front 1, llt_back 1,
     llt_pushb 0x20 2, llt_size 2, llt_front 1, llt_back 2,
     stest ''Back popping a list'', llt_pushb 0x30 2, llt_pushb 0x40 3, llt_do cl_pop_back, llt_size 3, llt_front 1, llt_back 2,
     llt_do cl_pop_back, llt_do cl_pop_back, llt_do cl_pop_back, llt_empty True, llt_size 0,
     stest ''Iterating through a list'', llt_pushf 0x10 1, llt_pushf 0x20 2, llt_pushf 0x30 3, llt_pushf 0x40 4, llt_pushf 0x50 5, llt_iterate 5,
     stest ''Removing an entry'', llt_do (cl_remove 1), llt_size 4, llt_front 5, llt_back 2,
     llt_do (cl_remove 5), llt_size 3, llt_front 4, llt_back 2,
     stest ''Erase'', llt_erase 3, llt_size 2, llt_front 4, llt_back 2, llt_erase 2, llt_size 1, llt_front 4, llt_back 4, llt_erase 4, llt_empty True,
     stest ''Emplace'', sdo (\<lambda>(n, k, l). Inr (0, k, cl_new Map.empty)),
     sdo (\<lambda>(n, k, l). bindE (cl_emplace_back 0x10 (\<lambda>i. i) 1 l) (\<lambda>l1. Inr (n + 1, k, l1))),
     sdo (\<lambda>(n, k, l). Inr (n + 1, k, cl_emplace_front 0x20 (\<lambda>i. i) 2 l)),
     llt_iterate 2, llt_do (\<lambda>l. Inr (cl_clear l)), llt_empty True, sassert (\<lambda>(n, k, l). Inr (n = 2))]"

section \<open>The test of \<open>vector\<close>\<close>

type_synonym vvt = "u8 \<times> int vector"

definition vvt_do :: "(int vector \<Rightarrow> int vector result) \<Rightarrow> vvt step" where
  "vvt_do f = sdo (\<lambda>(n, v). bindE (f v) (\<lambda>v1. Inr (n, v1)))"

definition vvt_size :: "u32 \<Rightarrow> vvt step" where "vvt_size m = sassert (\<lambda>(n, v). Inr (v_length v = m))"
definition vvt_empty :: "bool \<Rightarrow> vvt step" where "vvt_empty b = sassert (\<lambda>(n, v). Inr (v_empty v = b))"
definition vvt_front :: "int \<Rightarrow> vvt step" where "vvt_front x = sassert (\<lambda>(n, v). eqr (v_front v) x)"
definition vvt_back :: "int \<Rightarrow> vvt step" where "vvt_back x = sassert (\<lambda>(n, v). eqr (v_back v) x)"
definition vvt_push :: "u32 \<Rightarrow> int \<Rightarrow> vvt step" where "vvt_push a x = vvt_do (v_push_back 4 a x)"

text \<open>\<open>for(int e : b) assert(e == (++ seeking))\<close>: the iterators are pointers from \<open>begin\<close> to \<open>end\<close>.\<close>

fun vvt_each :: "nat \<Rightarrow> nat \<Rightarrow> vvt step" where
  "vvt_each i 0 s = Inr (s, [])"
| "vvt_each i (Suc m) s = bindE (buf_read (v_heap (snd s)) (v_begin (snd s)) i) (\<lambda>e. bindE (vvt_each (Suc i) m s) (\<lambda>(s1, as).
     Inr (s1, Assertion (e = uint (of_nat (Suc i) :: u8)) # as)))"

definition vvt_iterate :: "vvt step" where
  "vvt_iterate s = vvt_each 0 (unat ((v_end 4 (snd s) - v_begin (snd s)) div 4)) s"

definition VectorTest :: "vvt step list" where
  "VectorTest =
    [stest ''Constructors'', vvt_do (\<lambda>v. v_new 4 0x10 Map.empty), vvt_size 0, vvt_empty True,
     vvt_do (\<lambda>v. v_construct 4 0x20 5 0 Map.empty), vvt_size 5, vvt_front 0, vvt_empty False,
     stest ''Emptying a vector'', vvt_do v_clear, vvt_size 0, vvt_empty True,
     stest ''Back pushing a vector'', vvt_push 0x30 1, vvt_size 1, vvt_empty False, vvt_front 1, vvt_back 1,
     vvt_push 0x30 2, vvt_size 2, vvt_front 1, vvt_back 2,
     stest ''Back popping a vector'', vvt_push 0x30 2, vvt_push 0x30 3, vvt_do v_pop_back, vvt_size 3, vvt_front 1, vvt_back 2,
     vvt_do v_pop_back, vvt_do v_pop_back, vvt_do v_pop_back, vvt_empty True, vvt_size 0,
     stest ''Iterating through a vector'', vvt_push 0x30 1, vvt_push 0x30 2, vvt_push 0x30 3, vvt_push 0x30 4, vvt_push 0x30 5, vvt_iterate,
     stest ''Emplace'', sdo (\<lambda>(n, v). bindE (v_new 4 0x40 Map.empty) (\<lambda>v1. Inr (0, v1))),
     sdo (\<lambda>(n, v). bindE (v_emplace_back 4 0x50 (\<lambda>i. i) 1 v) (\<lambda>v1. Inr (n + 1, v1))), sassert (\<lambda>(n, v). eqr (v_at v 0) 1),
     vvt_do v_clear, vvt_empty True, sassert (\<lambda>(n, v). Inr (n = 1))]"

section \<open>The test of \<open>unique_ptr\<close>\<close>

text \<open>Variable 0 is \<open>ap\<close>, variable 1 is \<open>bp\<close>; \<open>a\<close> and \<open>b\<close> point to \<open>0x10\<close> and \<open>0x20\<close>.\<close>

definition upt_new :: "u32 \<Rightarrow> int \<Rightarrow> int up_state step" where
  "upt_new p x = sdo (\<lambda>s. Inr (s\<lparr>up_objs := (up_objs s)(p \<mapsto> x)\<rparr>))"

definition upt_set :: "nat \<Rightarrow> bool \<Rightarrow> int up_state step" where "upt_set h b = sassert (\<lambda>s. eqr (up_bool h s) b)"
definition upt_val :: "nat \<Rightarrow> int \<Rightarrow> int up_state step" where "upt_val h x = sassert (\<lambda>s. eqr (up_deref h s) x)"

text \<open>\<open>bp = make_unique<int>(9)\<close> moves a temporary, variable 2, which is then destroyed.\<close>

definition UniquePtrTest :: "int up_state step list" where
  "UniquePtrTest =
    [stest ''Constructing'', upt_new 0x10 7, sdo (\<lambda>s. Inr (up_from_ptr 0 0x10 s)), upt_set 0 True, upt_val 0 7,
     stest ''Moving a pointer'', sdo (up_move_construct 1 0), upt_set 1 True, upt_set 0 False, upt_val 1 7,
     sdo (up_assign 0 1), upt_set 0 True, upt_set 1 False, upt_val 0 7,
     stest ''Releasing a pointer'', sassert_do (\<lambda>s. bindE (up_release 0 s) (\<lambda>(p, s1). Inr (p = 0x10, s1))), upt_set 0 False,
     stest ''Resetting a pointer'', upt_new 0x20 8, sdo (up_reset 0 0x20), upt_val 0 8, sdo (up_reset 1 0x10), upt_val 1 7,
     stest ''Swapping pointers'', sdo (up_swap 0 1), upt_val 1 8, upt_val 0 7,
     sdo (up_assign_null 1), sdo (up_swap 0 1), upt_set 0 False, upt_val 1 7, sdo (up_swap 0 1), upt_set 1 False, upt_val 0 7,
     stest ''make_unique'', sdo (\<lambda>s. bindE (up_assign 1 2 (make_unique 2 0x30 9 s)) (up_destroy 2)), upt_val 1 9]"

section \<open>The test of \<open>shared_ptr\<close>\<close>

text \<open>Variables 0 and 1 are \<open>ap\<close> and \<open>bp\<close>, 3 and 4 are \<open>cp\<close> and \<open>dp\<close>, 2 is a temporary. An object is its value; whether the object of
  \<open>TestClass\<close> at \<open>0x70\<close> was destroyed is whether it is still there.\<close>

definition spt_set :: "nat \<Rightarrow> bool \<Rightarrow> int sp_state step" where "spt_set h b = sassert (\<lambda>s. eqr (sp_bool h s) b)"
definition spt_val :: "nat \<Rightarrow> int \<Rightarrow> int sp_state step" where "spt_val h x = sassert (\<lambda>s. eqr (sp_deref h s) x)"

definition spt_reset :: "nat \<Rightarrow> u32 \<Rightarrow> u32 \<Rightarrow> int \<Rightarrow> int sp_state step" where
  "spt_reset h a p x = sdo (\<lambda>s. sp_reset h a p (s\<lparr>sp_objs := (sp_objs s)(p \<mapsto> x)\<rparr>))"

definition spt_alive :: "bool \<Rightarrow> int sp_state step" where "spt_alive b = sassert (\<lambda>s. Inr ((sp_objs s 0x70 \<noteq> None) = b))"

definition SharedPtrTest :: "int sp_state step list" where
  "SharedPtrTest =
    [stest ''Constructing'', sdo (\<lambda>s. Inr (make_shared 0 0x14 0x10 7 s)), spt_set 0 True, spt_val 0 7,
     stest ''Moving a pointer'', sdo (sp_move_construct 1 0), spt_set 1 True, spt_set 0 False, spt_val 1 7,
     sdo (sp_move_assign 0 1), spt_set 0 True, spt_set 1 False, spt_val 0 7,
     stest ''Resetting a pointer'', spt_reset 0 0x24 0x20 8, spt_val 0 8, spt_reset 1 0x34 0x30 7, spt_val 1 7,
     stest ''Swapping pointers'', sdo (sp_swap 0 1), spt_val 1 8, spt_val 0 7,
     sdo (sp_assign_null 1), sdo (sp_swap 0 1), spt_set 0 False, spt_val 1 7, sdo (sp_swap 0 1), spt_set 1 False, spt_val 0 7,
     stest ''make_unique'', sdo (\<lambda>s. bindE (sp_move_assign 1 2 (make_shared 2 0x44 0x40 9 s)) (sp_destroy 2)), spt_val 1 9,
     stest ''Shared assignment'', sdo (\<lambda>s. Inr (make_shared 3 0x74 0x70 2 s)), spt_set 3 True, spt_alive True, spt_val 3 2,
     sdo (sp_copy_construct 4 3), spt_set 4 True, spt_set 3 True, spt_alive True, spt_val 4 2,
     sdo (sp_assign_null 3), spt_set 4 True, spt_set 3 False, spt_alive True, spt_val 4 2,
     sdo (sp_assign 3 4), spt_set 4 True, spt_alive True, spt_val 3 2,
     sdo (sp_assign_null 3), sdo (sp_assign_null 4), spt_alive False]"

section \<open>The tests pass\<close>

definition passes :: "'s step list \<Rightarrow> 's \<Rightarrow> string \<Rightarrow> bool" where
  "passes steps s name = (case run_test steps s (test_case name) of Inl e \<Rightarrow> False | Inr r \<Rightarrow> tr_pass r)"

lemmas run_defs = run_test_def test_case_def do_test_def tc_test_def tc_assert_def stest_def sassert_def sdo_def sassert_do_def eqr_def

lemmas sp_ops = sp_get_def sp_set_def sp_inc_def decrement_usage_def sp_from_ptr_def sp_copy_construct_def sp_move_construct_def sp_destroy_def
  sp_assign_def sp_move_assign_def sp_assign_null_def sp_reset_def sp_swap_def sp_bool_def sp_deref_def make_shared_def obj_delete_def
  spt_set_def spt_val_def spt_reset_def spt_alive_def

declare Mutex_lock_loop.simps [code] cl_before_tail.simps [code] cl_remove_loop.simps [code] cl_erase_loop.simps [code]

text \<open>The kernel's tests of \<open>StaticList\<close>, \<open>list\<close>, \<open>vector\<close>, \<open>unique_ptr\<close> and \<open>shared_ptr\<close> pass: every operation they call returns
  and all their assertions hold.\<close>

theorem container_tests_pass:
  "passes StaticListTest (7, 0x202, sl_new (replicate 10 0)) ''Static List Test'' \<and>
   passes ListTest (7, 7, cl_new (\<lambda>_. None)) ''List Test'' \<and>
   passes VectorTest (7, v_blank (\<lambda>_. None)) ''Vector Test'' \<and>
   passes UniquePtrTest \<lparr>up_objs = \<lambda>_. None, up_refs = \<lambda>_. None\<rparr> ''unique_ptr Test'' \<and>
   passes SharedPtrTest \<lparr>sp_objs = \<lambda>_. None, sp_data = \<lambda>_. None, sp_handles = \<lambda>_. None\<rparr> ''shared_ptr Test''"
proof (intro conjI)
  show "passes StaticListTest (7, 0x202, sl_new (replicate 10 0)) ''Static List Test''" by code_simp
  show "passes ListTest (7, 7, cl_new (\<lambda>_. None)) ''List Test''" by code_simp
  show "passes VectorTest (7, v_blank (\<lambda>_. None)) ''Vector Test''" by code_simp
  show "passes UniquePtrTest \<lparr>up_objs = \<lambda>_. None, up_refs = \<lambda>_. None\<rparr> ''unique_ptr Test''" by code_simp
  show "passes SharedPtrTest \<lparr>sp_objs = \<lambda>_. None, sp_data = \<lambda>_. None, sp_handles = \<lambda>_. None\<rparr> ''shared_ptr Test''"
    by (simp add: passes_def SharedPtrTest_def run_defs sp_ops)
qed

end
