(* ===== verification/FilesystemTests.thy ===== *)
theory FilesystemTests
  imports SelfTests Filesystem
begin

text \<open>
  \<open>src/fs/filesystem_test.cpp\<close>: the file system that the kernel's test builds, and the test's part on inodes and paths as a script over
  the model of \<open>Filesystem\<close>. The part that reads a file through the address space needs the contents of pages, which are not part of
  the model.
\<close>

section \<open>The file system of the test\<close>

definition test_root :: "(u64 \<times> utext) list" where
  "test_root = [(1, map ch ''.''), (1, map ch ''..''), (2, map ch ''a''), (3, map ch ''file'')]"

definition test_a :: "(u64 \<times> utext) list" where
  "test_a = [(2, map ch ''.''), (1, map ch ''..'')]"

definition TestFilesystem_read_inode :: inode_reader where
  "TestFilesystem_read_inode f inode_no s =
     (if inode_no = 1 then case Inode_new f 1 DIRECTORY 0 s of (i, s1) \<Rightarrow>
        Inr (\<lparr>fa_err = EOK, fa_val = Some i\<rparr>, upd_inode i (\<lambda>x. x\<lparr>in_children := test_root\<rparr>) s1)
      else if inode_no = 2 then case Inode_new f 2 DIRECTORY 0 s of (i, s1) \<Rightarrow>
        Inr (\<lparr>fa_err = EOK, fa_val = Some i\<rparr>, upd_inode i (\<lambda>x. x\<lparr>in_children := test_a\<rparr>) s1)
      else if inode_no = 3 then case Inode_new f 3 FILE (ucast PAGE_SIZE) s of (i, s1) \<Rightarrow>
        Inr (\<lparr>fa_err = EOK, fa_val = Some i\<rparr>, upd_inode i (\<lambda>x. x\<lparr>in_contents := Some \<lparr>ob_entries = [], ob_max_pages = 1, ob_page_flags = 0,
           ob_object_flags = 0, ob_oims = []\<rparr>\<rparr>) s1)
      else Inr (\<lparr>fa_err = ENOENT, fa_val = None\<rparr>, s))"

definition TestFilesystem_root_inode :: "nat \<Rightarrow> fstate \<Rightarrow> (nat option failable \<times> fstate) result" where
  "TestFilesystem_root_inode f s = TestFilesystem_read_inode f 1 s"

definition TestFilesystemObject_do_generate :: "(u32 \<Rightarrow> u32 \<Rightarrow> mem \<Rightarrow> (u32 failable \<times> mem) result) \<Rightarrow> u32 \<Rightarrow> u32 \<Rightarrow> mem \<Rightarrow> (u32 \<times> mem) result" where
  "TestFilesystemObject_do_generate read addr count m = bindE (read addr count m) (\<lambda>(r, m1).
     Inr (if Failable_ok r then fa_val r else NULL, m1))"

definition test_data :: inode_data where
  "test_data = [1 \<mapsto> (1, DIRECTORY, test_root), 2 \<mapsto> (2, DIRECTORY, test_a), 3 \<mapsto> (3, FILE, [])]"

text \<open>It keeps the laws of \<open>inode_source\<close>.\<close>

interpretation test_fs: inode_source TestFilesystem_read_inode f test_data for f
proof
  fix n d s assume "test_data n = Some d"
  then have "n = 1 \<or> n = 2 \<or> n = 3" by (auto simp: test_data_def split: if_splits)
  then show "\<exists>i s'. TestFilesystem_read_inode f n s = Inr (\<lparr>fa_err = EOK, fa_val = Some i\<rparr>, s') \<and> fs_entries s' = fs_entries s \<and>
      length (fs_inodes s) \<le> length (fs_inodes s') \<and> (\<forall>j < length (fs_inodes s). fs_inodes s' ! j = fs_inodes s ! j) \<and> holds test_data f s' i n"
    by (auto simp: TestFilesystem_read_inode_def Inode_new_def upd_inode_def holds_def test_data_def nth_append)
next
  fix n no kids ie assume "test_data n = Some (no, DIRECTORY, kids)" "ie \<in> set kids"
  then show "test_data (fst ie) \<noteq> None" by (auto simp: test_data_def test_root_def test_a_def split: if_splits)
qed

section \<open>The script\<close>

text \<open>The variables of \<open>run_test\<close>: the file system, the root inode, the paths \<open>root\<close> and \<open>child\<close>, \<open>err\<close> and the entry \<open>err_loc\<close>.\<close>

record fs_vars =
  fv_state :: fstate
  fv_fs :: nat
  fv_result :: "nat option failable"
  fv_root :: "nat option"
  fv_child :: "nat option"
  fv_err :: error_t
  fv_err_loc :: nat

definition deref :: "nat option \<Rightarrow> nat result" where
  "deref p = (case p of None \<Rightarrow> Inl (Panic ''Tried to dereference a null shared_ptr'') | Some x \<Rightarrow> Inr x)"

text \<open>\<open>p->get_inode()\<close> and its \<open>inode_no\<close>.\<close>

definition path_inode :: "nat option \<Rightarrow> fstate \<Rightarrow> nat option result" where
  "path_inode p s = bindE (deref p) (\<lambda>e. bindE (loopE (get_inode (fs_entries s) e)) (\<lambda>r. r))"

definition inode_number :: "nat option \<Rightarrow> fstate \<Rightarrow> u64 result" where
  "inode_number i s = bindE (deref i) (\<lambda>j. if j < length (fs_inodes s) then Inr (in_no (fs_inodes s ! j)) else Inl Fault)"

definition fst_begin :: "fs_vars step" where
  "fst_begin = sdo (\<lambda>v. let (f, s) = Filesystem_new (fv_state v); (el, s1) = FilePathEntry_new [] None None s in
     Inr (v\<lparr>fv_state := s1, fv_fs := f, fv_err_loc := el\<rparr>))"

definition fst_get_root :: "fs_vars step" where
  "fst_get_root = sdo (\<lambda>v. bindE (TestFilesystem_root_inode (fv_fs v) (fv_state v)) (\<lambda>(r, s). Inr (v\<lparr>fv_state := s, fv_result := r\<rparr>)))"

definition fst_new_root :: "fs_vars step" where
  "fst_new_root = sdo (\<lambda>v. let (e, s) = FilePathEntry_new [] None (fa_val (fv_result v)) (fv_state v) in Inr (v\<lparr>fv_state := s, fv_root := Some e\<rparr>))"

text \<open>\<open>child = parse_path(Utf8(p), root); err = child->populate(err_loc);\<close> with the uninitialised local of \<open>populate\<close>.\<close>

definition fst_path :: "error_t \<Rightarrow> string \<Rightarrow> fs_vars step" where
  "fst_path junk p = sdo (\<lambda>v. let (c, s) = parse_path (map ch p) (fv_root v) (fv_state v) in
     bindE (deref c) (\<lambda>e. bindE (loopE (populate TestFilesystem_read_inode junk (fv_err_loc v) e s)) (\<lambda>r. bindE r (\<lambda>(err, s1).
       Inr (v\<lparr>fv_state := s1, fv_child := c, fv_err := err\<rparr>)))))"

definition fst_err :: "bool \<Rightarrow> fs_vars step" where
  "fst_err b = sassert (\<lambda>v. Inr ((fv_err v \<noteq> EOK) = b))"

definition fst_number :: "u64 \<Rightarrow> fs_vars step" where
  "fst_number n = sassert (\<lambda>v. bindE (path_inode (fv_child v) (fv_state v)) (\<lambda>i. eqr (inode_number i (fv_state v)) n))"

definition FilesystemTest :: "error_t \<Rightarrow> fs_vars step list" where
  "FilesystemTest junk =
    [fst_begin,
     stest ''Root inode'', fst_get_root, sassert (\<lambda>v. Inr (Failable_ok (fv_result v))), sassert (\<lambda>v. Inr (fa_val (fv_result v) \<noteq> None)),
     sassert (\<lambda>v. eqr (inode_number (fa_val (fv_result v)) (fv_state v)) 1),
     stest ''File paths'', fst_new_root, sassert (\<lambda>v. eqr (path_inode (fv_root v) (fv_state v)) (fa_val (fv_result v))),
     fst_path junk ''./././.'', fst_err False, fst_number 1, fst_path junk ''./file'', fst_err False, fst_number 3,
     stest ''Bad paths'', fst_path junk ''./nothing'', fst_err True, fst_path junk ''./a/file'', fst_err True, fst_path junk ''./a/a/a/file'', fst_err True,
     stest ''Silly paths'', fst_path junk ''./a/././.././a/./../file'', fst_err False, fst_number 3]"

section \<open>The script passes\<close>

text \<open>A script that returns and whose assertions hold.\<close>

definition runs_ok :: "'s step list \<Rightarrow> 's \<Rightarrow> bool" where
  "runs_ok steps s \<longleftrightarrow> (\<exists>s' as. run_steps steps s = Inr (s', as) \<and> list_all ok_action as)"

lemma runs_ok_Nil [simp]: "runs_ok [] s"
  by (simp add: runs_ok_def)

lemma runs_ok_Cons: "x s = Inr (s1, as) \<Longrightarrow> list_all ok_action as \<Longrightarrow> runs_ok xs s1 \<Longrightarrow> runs_ok (x # xs) s"
  by (auto simp: runs_ok_def)

lemma runs_ok_test [simp]: "runs_ok (stest n # xs) s = runs_ok xs s"
  by (auto simp: runs_ok_def stest_def bindE_def split: sum.splits)

lemma runs_ok_step: "x s = Inr (s1, as) \<Longrightarrow> runs_ok (x # xs) s \<longleftrightarrow> list_all ok_action as \<and> runs_ok xs s1"
  by (auto simp: runs_ok_def bindE_def split: sum.splits)

lemma runs_ok_passes: "runs_ok steps s \<Longrightarrow> passes steps s n"
proof -
  assume "runs_ok steps s"
  then obtain s' as where r: "run_steps steps s = Inr (s', as)" "list_all ok_action as" by (auto simp: runs_ok_def)
  let ?t = "(test_case n)\<lparr>tc_tr := (tc_tr (test_case n))\<lparr>tr_case_name := tc_name (test_case n), tr_pass := True\<rparr>\<rparr>"
  have "tc_asserts ?t = of_nat 0" by (simp add: test_case_def)
  from fold_act_ok [OF r(2) this] r(1) show ?thesis by (simp add: passes_def run_test_def do_test_def Let_def)
qed

text \<open>The root's path denotes the root directory, and so it stays while other paths are resolved.\<close>

definition fst_inv :: "fs_vars \<Rightarrow> bool" where
  "fst_inv v \<longleftrightarrow> (\<exists>r. fv_root v = Some r \<and> denotes test_data (fv_fs v) (fv_err_loc v) (fv_state v) r [1] \<and> fv_err_loc v < length (fs_entries (fv_state v)))"

lemma fst_path_walk:
  assumes "fst_inv v" and "segments (map ch p) \<noteq> []"
  shows "\<exists>v'. fst_path junk p v = Inr (v', []) \<and> fst_inv v' \<and> (case walk test_data [1] (segments (map ch p)) of Inl x \<Rightarrow> fst_err True v' = Inr (v', [Assertion True])
    | Inr st \<Rightarrow> fst_err False v' = Inr (v', [Assertion True]) \<and> fst_number (fst (the (test_data (hd st)))) v' = Inr (v', [Assertion True]))"
proof -
  from assms(1) obtain r where r: "fv_root v = Some r" "denotes test_data (fv_fs v) (fv_err_loc v) (fv_state v) r [1]"
    "fv_err_loc v < length (fs_entries (fv_state v))" by (auto simp: fst_inv_def)
  have "\<forall>n \<in> set (segments (map ch p)). n \<noteq> []" by (auto simp: segments_def)
  from add_names_entries [OF this, of "Some r"] assms(2) obtain e s1 where pa: "parse_path (map ch p) (Some r) (fv_state v) = (Some e, s1)"
    by (simp add: parse_path_names)
  from test_fs.populate_parsed [OF r(2,3) assms(2) pa, of junk] obtain er s2 where q: "populate TestFilesystem_read_inode junk (fv_err_loc v) e s1 = Some (Inr (er, s2))"
    and w: "case walk test_data [1] (segments (map ch p)) of Inl x \<Rightarrow> er = x \<and> x \<noteq> EOK | Inr st' \<Rightarrow> er = EOK \<and> denotes test_data (fv_fs v) (fv_err_loc v) s2 e st'"
    and k: "denotes test_data (fv_fs v) (fv_err_loc v) s2 r [1]" "fv_err_loc v < length (fs_entries s2)" using r(2) by blast
  let ?v = "v\<lparr>fv_state := s2, fv_child := Some e, fv_err := er\<rparr>"
  have "fst_path junk p v = Inr (?v, [])" using r(1) pa q by (simp add: fst_path_def sdo_def deref_def loopE_def)
  moreover have "fst_inv ?v" using k r(1) by (simp add: fst_inv_def)
  moreover have "fst_number (fst (the (test_data (hd st)))) ?v = Inr (?v, [Assertion True])" if d: "denotes test_data (fv_fs v) (fv_err_loc v) s2 e st" for st
  proof -
    from denotes_inode [OF d] obtain i where "get_inode (fs_entries s2) e = Some (Inr (Some i))" "holds test_data (fv_fs v) s2 i (hd st)" by blast
    then show ?thesis by (simp add: fst_number_def sassert_def path_inode_def deref_def loopE_def eqr_def inode_number_def holds_def)
  qed
  ultimately show ?thesis using w by (intro exI [of _ ?v]) (auto simp: fst_err_def sassert_def split: sum.splits)
qed

lemma runs_ok_bad_path:
  assumes "walk test_data [1] (segments (map ch p)) = Inl x" and "segments (map ch p) \<noteq> []" and "\<And>v. fst_inv v \<Longrightarrow> runs_ok xs v" and "fst_inv v"
  shows "runs_ok (fst_path junk p # fst_err True # xs) v"
proof -
  from fst_path_walk [OF assms(4,2), of junk] assms(1) obtain v' where "fst_path junk p v = Inr (v', [])" "fst_inv v'" "fst_err True v' = Inr (v', [Assertion True])" by auto
  then show ?thesis using assms(3) by (intro runs_ok_Cons [of _ v v']) (auto intro: runs_ok_Cons)
qed

lemma runs_ok_path:
  assumes "walk test_data [1] (segments (map ch p)) = Inr st" and "fst (the (test_data (hd st))) = n" and "segments (map ch p) \<noteq> []"
    and "\<And>v. fst_inv v \<Longrightarrow> runs_ok xs v" and "fst_inv v"
  shows "runs_ok (fst_path junk p # fst_err False # fst_number n # xs) v"
proof -
  from fst_path_walk [OF assms(5,3), of junk] assms(1,2) obtain v' where "fst_path junk p v = Inr (v', [])" "fst_inv v'"
    "fst_err False v' = Inr (v', [Assertion True])" "fst_number n v' = Inr (v', [Assertion True])" by auto
  then show ?thesis using assms(4) by (intro runs_ok_Cons [of _ v v'] runs_ok_Cons [of _ v' v']) auto
qed

lemmas walk_defs = segments_def walk1_def test_data_def test_root_def test_a_def

lemma fst_paths_ok:
  assumes "fst_inv v"
  shows "runs_ok [fst_path junk ''./././.'', fst_err False, fst_number 1, fst_path junk ''./file'', fst_err False, fst_number 3,
     stest ''Bad paths'', fst_path junk ''./nothing'', fst_err True, fst_path junk ''./a/file'', fst_err True, fst_path junk ''./a/a/a/file'', fst_err True,
     stest ''Silly paths'', fst_path junk ''./a/././.././a/./../file'', fst_err False, fst_number 3] v"
proof -
  have w: "walk test_data [1] (segments (map ch ''./././.'')) = Inr [1]" "walk test_data [1] (segments (map ch ''./file'')) = Inr [3, 1]"
    "walk test_data [1] (segments (map ch ''./nothing'')) = Inl ENOENT" "walk test_data [1] (segments (map ch ''./a/file'')) = Inl ENOENT"
    "walk test_data [1] (segments (map ch ''./a/a/a/file'')) = Inl ENOENT"
    "walk test_data [1] (segments (map ch ''./a/././.././a/./../file'')) = Inr [3, 1]" by (simp_all add: walk_defs)
  have n: "fst (the (test_data (hd [1]))) = 1" "fst (the (test_data (hd [3, 1]))) = 3" by (simp_all add: test_data_def)
  show ?thesis
    by (rule runs_ok_path [OF w(1) n(1) _ runs_ok_path [OF w(2) n(2)]], simp add: segments_def, simp add: segments_def, unfold runs_ok_test,
        rule runs_ok_bad_path [OF w(3) _ runs_ok_bad_path [OF w(4) _ runs_ok_bad_path [OF w(5)]]], simp add: segments_def, simp add: segments_def, simp add: segments_def,
        unfold runs_ok_test, rule runs_ok_path [OF w(6) n(2)]) (simp_all add: segments_def assms)
qed

text \<open>The kernel's test of file systems passes: whatever the uninitialised local of \<open>populate\<close> holds and whatever was constructed before,
  the root inode is read, good paths lead to the inodes expected, also with \<open>.\<close> and \<open>..\<close>, and bad paths give an error.\<close>

theorem filesystem_test_passes: "passes (FilesystemTest junk) v ''Filesystem Test''"
proof -
  obtain v1 where v1: "fst_begin v = Inr (v1, [])" "fv_err_loc v1 < length (fs_entries (fv_state v1))"
    by (simp add: fst_begin_def sdo_def Filesystem_new_def FilePathEntry_new_def)
  define i where "i = length (fs_inodes (fv_state v1))"
  obtain v2 where v2: "fst_get_root v1 = Inr (v2, [])" "fv_result v2 = \<lparr>fa_err = EOK, fa_val = Some i\<rparr>" "holds test_data (fv_fs v1) (fv_state v2) i 1"
    "inode_number (Some i) (fv_state v2) = Inr 1" "fv_fs v2 = fv_fs v1" "fv_err_loc v2 = fv_err_loc v1" "fs_entries (fv_state v2) = fs_entries (fv_state v1)"
    by (simp add: fst_get_root_def sdo_def TestFilesystem_root_inode_def TestFilesystem_read_inode_def Inode_new_def upd_inode_def i_def holds_def test_data_def
        inode_number_def deref_def)
  obtain v3 where v3: "fst_new_root v2 = Inr (v3, [])" "fst_inv v3" "path_inode (fv_root v3) (fv_state v3) = Inr (Some i)" "fv_result v3 = fv_result v2"
  proof -
    let ?e = "length (fs_entries (fv_state v2))"
    let ?s = "snd (FilePathEntry_new [] None (Some i) (fv_state v2))"
    let ?v = "v2\<lparr>fv_state := ?s, fv_root := Some ?e\<rparr>"
    have "denotes test_data (fv_fs v1) (fv_err_loc v1) ?s ?e [1]"
      by (rule denotes.base [where i = i]) (use v1 v2 in \<open>simp_all add: FilePathEntry_new_def holds_def\<close>)
    moreover have "path_inode (Some ?e) ?s = Inr (Some i)"
      by (simp add: path_inode_def deref_def loopE_def FilePathEntry_new_def get_inode.simps)
    ultimately show ?thesis using v1 v2 by (intro that [of ?v]) (simp_all add: fst_new_root_def sdo_def fst_inv_def FilePathEntry_new_def)
  qed
  have "runs_ok (FilesystemTest junk) v"
    using fst_paths_ok [OF v3(2), of junk] by (simp add: FilesystemTest_def runs_ok_step v1 v2 v3 sassert_def eqr_def Failable_ok_def)
  then show ?thesis by (rule runs_ok_passes)
qed

end
