(* ===== verification/MainThread.thy ===== *)
theory MainThread
  imports FilesystemTests Console
begin

text \<open>
  \<open>main_thread\<close> of \<open>src/main/main.cpp\<close>, from the storage on: the kernel's first thread opens the file \<open>contents\<close> of an \<open>ExpanseFs\<close> over
  physical memory, shows it at 0x8000 and prints its first bytes in hexadecimal. File system, address space, demand paging, page allocator and
  formatted output work together. Physical memory is the argument \<open>ram\<close>. What is passed to \<open>printk\<close> is recorded as the items of the formats;
  \<open>Console\<close> shows how items are printed.
\<close>

section \<open>Memory accesses\<close>

type_synonym page_gen = "u32 \<Rightarrow> u32 \<Rightarrow> u32 \<Rightarrow> mem \<Rightarrow> (u32 \<times> mem) result"

text \<open>The physical address behind a virtual one, when its entry is present.\<close>

definition mmu :: "vworld \<Rightarrow> u32 \<Rightarrow> u32 \<Rightarrow> u32 option" where
  "mmu w mp addr = (case vm_pte w mp (unat addr div 0x1000) of None \<Rightarrow> None
     | Some e \<Rightarrow> if e AND PAGE_TABLE_PRESENT \<noteq> 0 then Some ((e AND 0xfffff000) + addr mod PAGE_SIZE) else None)"

text \<open>A load faults until the page is present; the handler panics when it finds no page.\<close>

partial_function (option) load_byte :: "nat \<Rightarrow> page_gen \<Rightarrow> (u32 \<Rightarrow> u8) \<Rightarrow> u32 \<Rightarrow> u32 \<Rightarrow> vworld \<Rightarrow> (u8 \<times> vworld) result option" where
  "load_byte k gen ram mp addr w = (case mmu w mp addr of Some p \<Rightarrow> Some (Inr (ram p, w))
     | None \<Rightarrow> obind (Some (resolve_fault k gen mp addr w)) (\<lambda>r. if fst r then load_byte k gen ram mp addr (snd r)
         else Some (Inl (Panic ''Unresolved Page Fault %x [Address: %p]''))))"

section \<open>The dump\<close>

text \<open>The loop reads each byte twice, once for the comparison and once for the argument.\<close>

function dump_loop :: "nat \<Rightarrow> page_gen \<Rightarrow> (u32 \<Rightarrow> u8) \<Rightarrow> u32 \<Rightarrow> u32 \<Rightarrow> fmt_item list \<Rightarrow> vworld \<Rightarrow> (fmt_item list \<times> vworld) result option" where
  "dump_loop k gen ram mp i out w = (if i < 0x8060 then
     let out1 = (if i mod 16 = 0 then out @ [IChar 10] else out) in
     obind (load_byte k gen ram mp i w) (\<lambda>(b, w1). obind (load_byte k gen ram mp i w1) (\<lambda>(b2, w2).
       dump_loop k gen ram mp (i + 1) (out1 @ (if b \<le> 0xf then [IChar 48, IHex False (ucast b2), IChar 32] else [IHex False (ucast b2), IChar 32])) w2))
     else Some (Inr (out, w)))"
  by pat_completeness auto
termination
proof (relation "measure (\<lambda>(k, gen, ram, mp, i, out, w). 0x8060 - unat i)", goal_cases)
  case (2 k gen ram mp i out w)
  then have "unat i < 0x8060" by (simp add: word_less_nat_alt)
  then have "unat (i + 1) = Suc (unat i)" by (intro word_suc_unat) simp
  then show ?case using \<open>unat i < 0x8060\<close> by simp
qed simp

declare dump_loop.simps [simp del]

text \<open>\<open>contents\<close> of the inode that an entry holds.\<close>

definition path_contents :: "nat option \<Rightarrow> fstate \<Rightarrow> kobject result" where
  "path_contents p s = bindE (path_inode p s) (\<lambda>i. bindE (deref i) (\<lambda>j. if length (fs_inodes s) \<le> j then Inl Fault
     else case in_contents (fs_inodes s ! j) of None \<Rightarrow> Inl (Panic ''Tried to dereference a null shared_ptr'') | Some ob \<Rightarrow> Inr ob))"

text \<open>The object of the inode is at \<open>obj\<close>; \<open>x\<close> is the address of the new window. The return value of \<open>populate\<close> is not looked at.\<close>

definition open_contents :: "error_t \<Rightarrow> fstate \<Rightarrow> (kobject \<times> fstate) result" where
  "open_contents junk s = (let (f, s0) = Filesystem_new s in
     bindE (ExpanseFs_root_inode f s0) (\<lambda>(r, s1). let (root, s2) = FilePathEntry_new [] None (fa_val r) s1;
       (child, s3) = parse_path (map ch ''contents'') (Some root) s2; (error_loc, s4) = FilePathEntry_new [] None None s3 in
     bindE (deref child) (\<lambda>e. bindE (loopE (populate ExpanseFs_read_inode junk error_loc e s4)) (\<lambda>r. bindE r (\<lambda>(err, s5).
     bindE (path_contents child s5) (\<lambda>ob. Inr (ob, s5)))))))"

definition storage_gen :: "nat \<Rightarrow> page_gen" where
  "storage_gen k obj = ExpanseFsObject_do_generate (PhysicalMemStorage_read k 0 FLAG_KERNEL)"

definition show_memory :: "nat \<Rightarrow> error_t \<Rightarrow> page_gen \<Rightarrow> (u32 \<Rightarrow> u8) \<Rightarrow> u32 \<Rightarrow> u32 \<Rightarrow> u32 \<Rightarrow> fstate \<Rightarrow> vworld \<Rightarrow> (fmt_item list \<times> fstate \<times> vworld) result option" where
  "show_memory k junk gen ram mp obj x s w = obind (Some (open_contents junk s)) (\<lambda>(ob, s1).
     obind (Some (add_object k mp x obj 0x8000 0x0 0x10 (wr_obj obj ob w))) (\<lambda>w1.
     obind (dump_loop k (gen(obj := storage_gen k obj)) ram mp 0x8000 [] w1) (\<lambda>(out, w2). Some (Inr (out, s1, w2)))))"

section \<open>What is printed\<close>

definition hex2 :: "u8 \<Rightarrow> u8 list" where
  "hex2 b = [digit_text False (unat b div 16), digit_text False (unat b mod 16)]"

definition hex_dump :: "(u32 \<Rightarrow> u8) \<Rightarrow> nat \<Rightarrow> nat \<Rightarrow> u8 list" where
  "hex_dump ram n m = concat (map (\<lambda>i. (if i mod 16 = 0 then [10] else []) @ hex2 (ram (of_nat i)) @ [32]) [n..<m])"

definition byte_items :: "(u32 \<Rightarrow> u8) \<Rightarrow> nat \<Rightarrow> fmt_item list" where
  "byte_items ram i = (if i mod 16 = 0 then [IChar 10] else []) @
     (let b = ram (of_nat i) in if b \<le> 0xf then [IChar 48, IHex False (ucast b), IChar 32] else [IHex False (ucast b), IChar 32])"

lemma hex2_digits: "(if b \<le> 0xf then 48 # num_text False 16 (unat b) else num_text False 16 (unat b)) = hex2 b"
proof (cases "b \<le> 0xf")
  case True
  then have "unat b < 16" by (simp add: word_le_nat_alt)
  then show ?thesis using True by (simp add: hex2_def num_text_def nat_digits.simps) (simp add: digit_text_def)
next
  case False
  then have "\<not> unat b < 16" by (simp add: word_le_nat_alt)
  moreover have "unat b div 16 < 16" using unsigned_less [of b, where ?'a = nat] by (simp add: less_mult_imp_div_less)
  ultimately show ?thesis using False by (simp add: hex2_def num_text_def nat_digits.simps [of 16 "unat b"] nat_digits.simps [of 16 "unat b div 16"])
qed

lemma unat_ucast_u8: "unat (ucast (b :: u8) :: u32) = unat b"
  using unsigned_less [of b, where ?'a = nat] by (simp add: unsigned_ucast_eq take_bit_nat_eq_self)

lemma byte_items_text: "concat (map item_text (byte_items ram i)) = (if i mod 16 = 0 then [10] else []) @ hex2 (ram (of_nat i)) @ [32]"
  using hex2_digits [of "ram (of_nat i)"] by (auto simp: byte_items_def Let_def unat_ucast_u8)

lemma dump_text: "concat (map item_text (concat (map (byte_items ram) [n..<m]))) = hex_dump ram n m"
proof -
  have "concat (map item_text (concat (map (byte_items ram) ns))) = concat (map (\<lambda>i. (if i mod 16 = 0 then [10] else []) @ hex2 (ram (of_nat i)) @ [32]) ns)" for ns
    by (induction ns) (simp_all add: byte_items_text)
  then show ?thesis by (simp only: hex_dump_def)
qed

section \<open>The loop\<close>

lemma load_byte_present: "mmu w mp addr = Some p \<Longrightarrow> load_byte k gen ram mp addr w = Some (Inr (ram p, w))"
  by (subst load_byte.simps) simp

lemma load_byte_fault:
  assumes "mmu w mp addr = None" and "resolve_fault k gen mp addr w = Inr (True, w1)"
  shows "load_byte k gen ram mp addr w = load_byte k gen ram mp addr w1"
  using assms by (subst load_byte.simps) simp

text \<open>Once frame 0 is behind the page at 0x8000 the loop prints it.\<close>

lemma mmu_shown:
  assumes "vm_pte w mp 8 = Some 1" and "n < 0x1000"
  shows "mmu w mp (0x8000 + of_nat n) = Some (of_nat n)"
proof -
  have n: "unat (of_nat n :: u32) = n" using assms(2) by (intro unat_of_nat_lt) simp
  then have u: "unat (0x8000 + of_nat n :: u32) = 0x8000 + n" using assms(2) by (subst unat_add_lt) simp_all
  have "unat ((0x8000 + of_nat n :: u32) mod PAGE_SIZE) = n" using assms(2) mod_mult_self3 [of 8 "0x1000" n] by (simp add: unat_mod_distrib u)
  then have "(0x8000 + of_nat n :: u32) mod PAGE_SIZE = of_nat n" using n by (simp add: word_unat_eq_iff)
  moreover have "(0x8000 + n) div 0x1000 = 8" using assms(2) by simp
  ultimately show ?thesis using assms(1) u by (simp add: mmu_def PAGE_TABLE_PRESENT_def)
qed

lemma dump_loop_shown:
  assumes "vm_pte w mp 8 = Some 1" and "n \<le> 0x60"
  shows "dump_loop k gen ram mp (0x8000 + of_nat n) out w = Some (Inr (out @ concat (map (byte_items ram) [n..<0x60]), w))"
  using assms(2)
proof (induction "0x60 - n" arbitrary: n out)
  case 0
  then show ?case by (subst dump_loop.simps) simp
next
  case (Suc d)
  then have n: "n < 0x60" by simp
  have u: "unat (0x8000 + of_nat n :: u32) = 0x8000 + n" using n by (subst unat_add_lt) (simp_all add: unat_of_nat_lt)
  have lt: "(0x8000 + of_nat n :: u32) < 0x8060" using n u by (simp add: word_less_nat_alt)
  have "(0x8000 + n) mod 16 = n mod 16" by (simp add: mod_add_left_eq [of "0x8000" 16 n, symmetric])
  then have m: "(0x8000 + of_nat n :: u32) mod 16 = 0 \<longleftrightarrow> n mod 16 = 0" using u by (simp add: word_unat_eq_iff unat_mod_distrib)
  have ld: "load_byte k gen ram mp (0x8000 + of_nat n) w = Some (Inr (ram (of_nat n), w))"
    by (rule load_byte_present [OF mmu_shown [OF assms(1)]]) (use n in simp)
  have nx: "0x8000 + of_nat n + 1 = (0x8000 + of_nat (Suc n) :: u32)" by simp
  have up: "[n..<0x60] = n # [Suc n..<0x60]" using n by (rule upt_conv_Cons)
  have IH: "dump_loop k gen ram mp (0x8000 + of_nat (Suc n)) out' w = Some (Inr (out' @ concat (map (byte_items ram) [Suc n..<0x60]), w))" for out'
    by (rule Suc.hyps(1)) (use Suc.hyps(2) n in simp_all)
  show ?case unfolding dump_loop.simps [of k gen ram mp "0x8000 + of_nat n"] up
    using lt ld m by (simp del: of_nat_Suc add: nx IH) (simp add: byte_items_def Let_def)
qed

section \<open>Opening the file\<close>

lemma segments_contents: "segments [99, 111, 110, 116, 101, 110, 116, 115] = [[99, 111, 110, 116, 101, 110, 116, 115]]"
  by (simp add: segments_def)

lemma open_contents_ok: "\<exists>s'. open_contents junk s = Inr (\<lparr>ob_entries = [], ob_max_pages = 1, ob_page_flags = 0, ob_object_flags = 0, ob_oims = []\<rparr>, s')"
proof -
  let ?f = "fs_counter s" and ?n = "length (fs_entries s)" and ?i = "length (fs_inodes s)" and ?nm = "map ch ''contents''"
  let ?dir = "\<lparr>in_fs = ?f, in_no = 1, in_type = DIRECTORY, in_size = 0, in_contents = None, in_children = expanse_root\<rparr>"
  let ?E = "fs_entries s @ [\<lparr>pe_parent = None, pe_ref = None, pe_inode = Some ?i, pe_name = []\<rparr>, \<lparr>pe_parent = Some ?n, pe_ref = None, pe_inode = None, pe_name = ?nm\<rparr>,
    \<lparr>pe_parent = None, pe_ref = None, pe_inode = None, pe_name = []\<rparr>]"
  let ?s4 = "s\<lparr>fs_counter := Suc ?f, fs_counts := (fs_counts s)(?f := 1), fs_inodes := fs_inodes s @ [?dir], fs_entries := ?E\<rparr>"
  let ?F = "\<lparr>in_fs = ?f, in_no = 3, in_type = FILE, in_size = ucast PAGE_SIZE, in_contents = Some \<lparr>ob_entries = [], ob_max_pages = 1,
    ob_page_flags = 0, ob_object_flags = 0, ob_oims = []\<rparr>, in_children = []\<rparr>"
  have lp: "logical_parent ?E (Suc ?n) = Some (Inr ?n)" by (subst logical_parent.simps) (simp add: nth_append)
  have gi: "get_inode ?E ?n = Some (Inr (Some ?i))" by (subst get_inode.simps) (simp add: nth_append)
  have nm: "?nm \<noteq> [46]" "?nm \<noteq> [46, 46]" "List.find (\<lambda>ie. snd ie = ?nm) expanse_root = Some (2, ?nm)" by (simp_all add: expanse_root_def)
  let ?s5 = "?s4\<lparr>fs_entries := ?E[Suc (Suc ?n) := ?E ! Suc ?n, Suc ?n := (?E ! Suc ?n)\<lparr>pe_inode := Some (Suc ?i)\<rparr>],
    fs_inodes := fs_inodes s @ [?dir, ?F], fs_counts := (fs_counts s)(?f := 2)\<rparr>"
  have "populate ExpanseFs_read_inode junk (Suc (Suc ?n)) (Suc ?n) ?s4 = Some (Inr (EOK, ?s5))"
    using lp gi nm
    by (subst populate.simps) (simp add: populate_here_def populate_child_def set_error_loc_def upd_entry_def upd_inode_def ExpanseFs_read_inode_def Inode_new_def
        Failable_ok_def nth_append list_update_append Let_def)
  moreover have "path_contents (Some (Suc ?n)) ?s5 = Inr \<lparr>ob_entries = [], ob_max_pages = 1, ob_page_flags = 0, ob_object_flags = 0, ob_oims = []\<rparr>"
    by (simp add: path_contents_def path_inode_def deref_def get_inode.simps nth_append)
  ultimately show ?thesis
    by (simp add: open_contents_def Filesystem_new_def ExpanseFs_root_inode_def ExpanseFs_read_inode_def Inode_new_def upd_inode_def FilePathEntry_new_def
        parse_path_names segments_contents add_name_def deref_def Let_def nth_append)
qed

section \<open>Showing the file\<close>

lemma vm_same_tables:
  assumes "vw_maps w mp = Some m" and "vm_ok w"
  shows "vm_ok (wr_map mp (m\<lparr>vm_oims := l\<rparr>) w)" and "vm_pte (wr_map mp (m\<lparr>vm_oims := l\<rparr>) w) = vm_pte w"
    and "present (wr_map mp (m\<lparr>vm_oims := l\<rparr>) w) = present w"
proof -
  let ?w = "wr_map mp (m\<lparr>vm_oims := l\<rparr>) w"
  have p: "present ?w = present w" by (auto simp: present_def wr_map_def fun_eq_iff assms(1))
  have t: "taddr ?w = taddr w" by (auto simp: taddr_def wr_map_def fun_eq_iff assms(1))
  show "present ?w = present w" by (fact p)
  have c: "vw_mutex ?w = vw_mutex w" "vw_tabs ?w = vw_tabs w" by (simp_all add: wr_map_def)
  show "vm_pte ?w = vm_pte w" unfolding vm_pte_def p t c ..
  have "length (vm_tab_pages n) = USER_TABLES \<and> length (vm_tables n) = USER_TABLES" if "vw_maps ?w q = Some n" for q n
    using that assms by (auto simp: wr_map_def vm_ok_def split: if_splits)
  then show "vm_ok ?w" using assms(2) unfolding vm_ok_def p t c by auto
qed

abbreviation file_window :: "u32 \<Rightarrow> u32 \<Rightarrow> object_in_map" where
  "file_window obj mp \<equiv> \<lparr>oi_object = obj, oi_map = mp, oi_base = 0x8000, oi_offset = 0, oi_pages = 0x10\<rparr>"

lemma add_fresh_object:
  assumes "vw_maps w mp = Some m" and "vm_ok w" and "ob_entries ob = []" and "ob_oims ob = []"
  shows "\<exists>w1. add_object k mp x obj 0x8000 0 0x10 (wr_obj obj ob w) = Inr w1 \<and> vm_ok w1 \<and> vm_pte w1 = vm_pte w \<and> present w1 = present w \<and>
     vw_maps w1 mp = Some (m\<lparr>vm_oims := x # vm_oims m\<rparr>) \<and> vw_objs w1 obj = Some (ob\<lparr>ob_oims := [x]\<rparr>) \<and> vw_oims w1 x = Some (file_window obj mp) \<and>
     vw_mem w1 = vw_mem w"
proof -
  let ?w0 = "wr_obj obj (ob\<lparr>ob_oims := [x]\<rparr>) (w\<lparr>vw_oims := (vw_oims w)(x \<mapsto> file_window obj mp)\<rparr>)"
  let ?w1 = "wr_map mp (m\<lparr>vm_oims := x # vm_oims m\<rparr>) ?w0"
  have c: "vw_maps ?w0 = vw_maps w" "vw_mutex ?w0 = vw_mutex w" "vw_tabs ?w0 = vw_tabs w" by (simp_all add: wr_obj_def)
  have p: "present ?w0 = present w" "taddr ?w0 = taddr w" using present_cong [OF c(1)] taddr_cong [OF c(1)] by (auto simp: fun_eq_iff)
  have ok: "vm_ok ?w0" using assms(2) unfolding vm_ok_def p c .
  have pte: "vm_pte ?w0 = vm_pte w" unfolding vm_pte_def p c ..
  have m: "vw_maps ?w0 mp = Some m" using assms(1) c(1) by simp
  have "add_object k mp x obj 0x8000 0 0x10 (wr_obj obj ob w) = Inr ?w1"
    using assms by (simp add: add_object_def ObjectInMap_new_def add_object_in_map_def rd_obj_def rd_oim_def rd_map_def wr_obj_def)
  then show ?thesis using vm_same_tables [OF m ok, of "x # vm_oims m"] pte p
    by (intro exI [of _ ?w1]) (simp add: wr_map_def wr_obj_def)
qed

lemma storage_gen_ok:
  assumes "kmem_inv s as bs" and "\<not> m_mutex s" and "kmem_can sizeof_Page (KMALLOC_RESERVED OR KMALLOC_NOLOCK) s as"
  shows "\<exists>pg s' p. storage_gen (Suc (Suc k)) obj addr 1 s = Inr (pg, s') \<and> pg \<noteq> NULL \<and> m_pages s' pg = Some p \<and> consecutive p = 1 \<and> pg_next p = NULL \<and> mem_base p = addr"
proof -
  from page_create_ok [OF assms, of k addr FLAG_KERNEL 1] obtain pg s' where
    "page_create (Suc (Suc k)) addr FLAG_KERNEL 1 s = Inr (pg, s')" "pg \<noteq> NULL" "m_pages s' = (m_pages s)(pg \<mapsto> \<lparr>page_id = page_id_counter s, mem_base = addr,
       pg_flags = FLAG_ALLOCATED OR FLAG_KERNEL, consecutive = 1, pg_next = NULL\<rparr>)" by blast
  then show ?thesis by (simp add: storage_gen_def ExpanseFsObject_do_generate_def PhysicalMemStorage_read_def Failable_ok_def)
qed

lemma sti_heap:
  "kmem_inv (s\<lparr>m_eflags := e\<rparr>) as bs = kmem_inv s as bs" "kmem_can sz fl (s\<lparr>m_eflags := e\<rparr>) as = kmem_can sz fl s as"
proof -
  have s: "s\<lparr>m_eflags := e\<rparr> = s\<lparr>m_mutex := m_mutex s, m_eflags := e\<rparr>" by simp
  show "kmem_inv (s\<lparr>m_eflags := e\<rparr>) as bs = kmem_inv s as bs" unfolding s by (rule kmem_inv_locks)
  show "kmem_can sz fl (s\<lparr>m_eflags := e\<rparr>) as = kmem_can sz fl s as" unfolding s by (rule kmem_cong_locks)
qed

text \<open>The fault at the first byte puts frame 0 behind the page.\<close>

lemma first_fault:
  assumes ok: "vm_ok w" and m: "vw_maps w mp = Some m" "vm_oims m = x # ys" and t: "present w mp 0"
    and ob: "vw_objs w obj = Some ob" "ob_entries ob = []" "ob_max_pages ob = 1" "ob_page_flags ob = 0" "ob_oims ob = [x]"
    and oim: "vw_oims w x = Some (file_window obj mp)"
    and heap: "kmem_inv (vw_mem w) as bs" "\<not> m_mutex (vw_mem w)" "kmem_can sizeof_Page (KMALLOC_RESERVED OR KMALLOC_NOLOCK) (vw_mem w) as"
    and gen: "gen obj = storage_gen (Suc (Suc k)) obj"
  shows "\<exists>w'. resolve_fault j gen mp 0x8000 w = Inr (True, w') \<and> vm_pte w' = (\<lambda>q v. if q = mp \<and> v = 8 then Some 1 else vm_pte w q v)"
proof -
  let ?w = "with_sti w" and ?o = "file_window obj mp"
  have st: "vw_maps ?w = vw_maps w" "vw_objs ?w = vw_objs w" "vw_oims ?w = vw_oims w" "vm_pte ?w = vm_pte w" "vm_ok ?w"
    using ok by (simp_all add: with_sti_def vm_ok_mem)
  have "\<not> m_mutex (vw_mem ?w)" "kmem_inv (vw_mem ?w) as bs" "kmem_can sizeof_Page (KMALLOC_RESERVED OR KMALLOC_NOLOCK) (vw_mem ?w) as"
    using heap by (simp_all add: with_sti_def sti_heap)
  from storage_gen_ok [OF this(2,1,3), of k obj 0] obtain pg s' p where
    g: "gen obj 0 1 (vw_mem ?w) = Inr (pg, s')" "m_pages s' pg = Some p" "consecutive p = 1" "pg_next p = NULL" "pg \<noteq> NULL" "mem_base p = 0" using gen by auto
  have a: "oim_addr 0 ?o = 0x8000" by (simp add: oim_addr_def)
  have h: "oim_hi ?o = 0x18000" by (simp add: oim_hi_def PAGE_SIZE_def)
  have "oim_good ?w 0 ?o" unfolding oim_good_cong [OF st(1)] using t by (auto simp: oim_good_def a covered_def)
  then have good: "\<forall>y \<in> set (ob_oims ob). \<exists>oi. vw_oims ?w y = Some oi \<and> oim_good ?w 0 oi" using ob(5) oim st(3) by simp
  have "vw_objs ?w obj = Some ob" "0 div PAGE_SIZE < ob_max_pages ob" "sorted_wrt (<) (map fst (ob_entries ob))"
    "\<forall>e \<in> set (ob_entries ob). fst e mod PAGE_SIZE = 0 \<and> fst e \<noteq> 0" "0 mod PAGE_SIZE = 0" using ob st(2) by simp_all
  from generate_one_ok [where gen = gen and k = j, OF st(5) this g(1-5) good] obtain w' where
    w': "Object_generate j gen obj 0 1 ?w = Inr w'"
      "vm_pte w' = fold (\<lambda>y. oim_mapped 0 (mem_base p) (ucast (ob_page_flags ob)) (the (vw_oims ?w y))) (ob_oims ob) (vm_pte ?w)" by blast
  have "vm_pte w' = oim_mapped 0 0 0 ?o (vm_pte w)" using w'(2) ob(4,5) oim st(3,4) g(6) by simp
  then have "vm_pte w' = (\<lambda>q v. if q = mp \<and> v = 8 then Some 1 else vm_pte w q v)"
    by (auto simp: oim_mapped_def a h mapped_def fun_eq_iff PAGE_TABLE_PRESENT_def)
  moreover have "oim_off ?o 0x8000 = 0" "in_window ?o 0x8000" by (simp_all add: oim_off_def in_window_def PAGE_SIZE_def)
  then have "resolve_fault j gen mp 0x8000 w = Inr (True, w')"
    using resolve_fault_eq [of w mp m "[]" x ys "0x8000" ?o j gen] m oim w'(1) by simp
  ultimately show ?thesis by blast
qed

lemma byte_items_ok: "it \<in> set (byte_items ram i) \<Longrightarrow> item_ok (2 ^ 32) h it"
  using unat_lt_32 by (auto simp: byte_items_def Let_def split: if_splits)

section \<open>Properties\<close>

text \<open>C14: The kernel's first thread prints memory. When nothing is mapped at 0x8000, the page table for it exists and the heap has room for a page
  structure, opening the file of the \<open>ExpanseFs\<close>, mapping it at 0x8000 and printing it returns: the first access faults and is
  resolved with frame 0, the text printed is the two hexadecimal digits of each of the first 0x60 bytes of physical memory, 16 to a
  line, and the only change to the address spaces is the page at 0x8000.\<close>

theorem main_thread_dumps_memory:
  assumes "vm_ok w" and "vw_maps w mp = Some m" and "present w mp 0" and "mmu w mp 0x8000 = None"
    and "kmem_inv (vw_mem w) as bs" and "\<not> m_mutex (vw_mem w)" and "kmem_can sizeof_Page (KMALLOC_RESERVED OR KMALLOC_NOLOCK) (vw_mem w) as"
  shows "\<exists>out s' w'. show_memory (Suc (Suc k)) junk gen ram mp obj x s w = Some (Inr (out, s', w')) \<and>
     concat (map item_text out) = hex_dump ram 0 0x60 \<and> list_all (item_ok (2 ^ 32) h) out \<and>
     vm_pte w' = (\<lambda>q v. if q = mp \<and> v = 8 then Some 1 else vm_pte w q v)"
proof -
  let ?k = "Suc (Suc k)" and ?ob = "\<lparr>ob_entries = [], ob_max_pages = 1, ob_page_flags = 0, ob_object_flags = 0, ob_oims = []\<rparr>"
  let ?g = "gen(obj := storage_gen ?k obj)" and ?out = "concat (map (byte_items ram) [0..<0x60])"
  from open_contents_ok obtain s' where s': "open_contents junk s = Inr (?ob, s')" by blast
  from add_fresh_object [OF assms(2,1), of ?ob ?k x obj] obtain w1 where
    w1: "add_object ?k mp x obj 0x8000 0 0x10 (wr_obj obj ?ob w) = Inr w1" "vm_ok w1" "vm_pte w1 = vm_pte w" "present w1 = present w"
      "vw_maps w1 mp = Some (m\<lparr>vm_oims := x # vm_oims m\<rparr>)" "vw_objs w1 obj = Some (?ob\<lparr>ob_oims := [x]\<rparr>)" "vw_oims w1 x = Some (file_window obj mp)"
      "vw_mem w1 = vw_mem w" by auto
  have "\<exists>w'. resolve_fault ?k ?g mp 0x8000 w1 = Inr (True, w') \<and> vm_pte w' = (\<lambda>q v. if q = mp \<and> v = 8 then Some 1 else vm_pte w1 q v)"
    by (rule first_fault [OF w1(2,5) _ _ w1(6)]) (use w1 assms(3,5-7) in simp_all)
  from this [unfolded w1(3)] obtain w' where w': "resolve_fault ?k ?g mp 0x8000 w1 = Inr (True, w')" "vm_pte w' = (\<lambda>q v. if q = mp \<and> v = 8 then Some 1 else vm_pte w q v)" by blast
  have pt: "vm_pte w' mp 8 = Some 1" using w'(2) by simp
  have "mmu w1 mp 0x8000 = None" using assms(4) w1(3) by (simp add: mmu_def)
  then have "load_byte ?k ?g ram mp 0x8000 w1 = load_byte ?k ?g ram mp 0x8000 w'" by (rule load_byte_fault [OF _ w'(1)])
  then have "dump_loop ?k ?g ram mp 0x8000 [] w1 = dump_loop ?k ?g ram mp 0x8000 [] w'" unfolding dump_loop.simps [of ?k ?g ram mp "0x8000"] by simp
  also have "\<dots> = Some (Inr (?out, w'))" using dump_loop_shown [OF pt, of 0 ?k ?g ram "[]"] by simp
  finally have "show_memory ?k junk gen ram mp obj x s w = Some (Inr (?out, s', w'))" using s' w1(1) by (simp add: show_memory_def)
  moreover have "list_all (item_ok (2 ^ 32) h) ?out" using byte_items_ok by (auto simp: list_all_iff)
  ultimately show ?thesis using w'(2) dump_text [of ram 0 "0x60"] by blast
qed

lemma vm_example_mmu: "mmu (vm_example s) 0x10 0x8000 = None"
  by (simp add: mmu_def vm_pte_def vm_example_present) (simp add: vm_example_def taddr_def)

theorem main_thread_dumps_memory_witness:
  "\<exists>out s' w'. show_memory 2 EPERM (\<lambda>_ _ _ _. Inl Fault) (\<lambda>p. ucast p) 0x10 0x44 0x54 fs_example (vm_example kmem_example) = Some (Inr (out, s', w')) \<and>
     concat (map item_text out) = hex_dump (\<lambda>p. ucast p) 0 0x60 \<and> vm_pte w' 0x10 8 = Some 1"
proof -
  let ?w = "vm_example kmem_example"
  have m: "vw_mem ?w = kmem_example" by (simp add: vm_example_def)
  obtain mm where mm: "vw_maps ?w 0x10 = Some mm" by (simp add: vm_example_def)
  have "kmem_can sizeof_Page (KMALLOC_RESERVED OR KMALLOC_NOLOCK) kmem_example [0xC1000024]"
    by (simp add: kmem_can_def kmem_too_full_def fits_def kmem_example_def kmem_round_def MINIMUM_PAGES_def flag_defs)
  moreover have "\<not> m_mutex kmem_example" by (simp add: kmem_example_def)
  moreover have "present ?w 0x10 0" by (simp add: vm_example_present)
  ultimately obtain out s' w' where "show_memory (Suc (Suc 0)) EPERM (\<lambda>_ _ _ _. Inl Fault) (\<lambda>p. ucast p) 0x10 0x44 0x54 fs_example ?w = Some (Inr (out, s', w'))"
    "concat (map item_text out) = hex_dump (\<lambda>p. ucast p) 0 0x60" "vm_pte w' = (\<lambda>q v. if q = 0x10 \<and> v = 8 then Some 1 else vm_pte ?w q v)"
    using main_thread_dumps_memory [OF vm_example_ok mm _ vm_example_mmu, unfolded m, OF _ kmem_example_inv, of 0 EPERM "\<lambda>_ _ _ _. Inl Fault" "\<lambda>p. ucast p" "0x44" "0x54" fs_example] by blast
  then show ?thesis by (auto simp: numeral_2_eq_2)
qed

end
