(* ===== verification/Operators.thy ===== *)
theory Operators
  imports KmemExt
begin

text \<open>
  \<open>src/main/cpp.cpp\<close>: the operators \<open>new\<close> and \<open>delete\<close> over the kernel heap. The locale \<open>allocator\<close> is the contract that the rest of
  the kernel relies on when it creates and destroys objects: what an allocation hands out was available and belongs to nobody else,
  and a deallocation gives it back. It is interpreted on the operators; the heap's invariant of \<open>KmemInv\<close> discharges its laws.
\<close>

section \<open>The operators\<close>

definition operator_new :: "nat \<Rightarrow> u32 \<Rightarrow> mem \<Rightarrow> (u32 \<times> mem) result" where
  "operator_new k sz s = kmalloc k sz 0 s"

definition operator_new_array :: "nat \<Rightarrow> u32 \<Rightarrow> mem \<Rightarrow> (u32 \<times> mem) result" where
  "operator_new_array k sz s = kmalloc k sz 0 s"

definition operator_new_at :: "u32 \<Rightarrow> u32 \<Rightarrow> u32" where
  "operator_new_at sz pos = pos"

definition operator_delete :: "nat \<Rightarrow> u32 \<Rightarrow> mem \<Rightarrow> mem result" where
  "operator_delete k p s = kfree k p s"

definition operator_delete_array :: "nat \<Rightarrow> u32 \<Rightarrow> mem \<Rightarrow> mem result" where
  "operator_delete_array k p s = kfree k p s"

definition cxa_pure_virtual :: "'a result" where
  "cxa_pure_virtual = Inl (Panic ''__cxa_pure_virtual called.'')"

definition cxa_atexit :: int where
  "cxa_atexit = 0"

section \<open>The contract\<close>

text \<open>\<open>ok n\<close>: the allocator is consistent and \<open>n\<close> blocks can be deallocated whatever is available. \<open>avail\<close> are the addresses it can
  hand out, \<open>owned\<close> gives the addresses of each block in use.\<close>

locale allocator =
  fixes alloc :: "u32 \<Rightarrow> 's \<Rightarrow> (u32 \<times> 's) result"
    and dealloc :: "u32 \<Rightarrow> 's \<Rightarrow> 's result"
    and ok :: "nat \<Rightarrow> 's \<Rightarrow> bool"
    and can :: "u32 \<Rightarrow> 's \<Rightarrow> bool"
    and avail :: "'s \<Rightarrow> nat set"
    and owned :: "'s \<Rightarrow> u32 \<Rightarrow> nat set option"
  assumes alloc_ok: "ok n s \<Longrightarrow> can z s \<Longrightarrow> \<exists>p s' B. alloc z s = Inr (p, s') \<and> ok n s' \<and> p \<noteq> NULL \<and> owned s p = None \<and>
      owned s' = (owned s)(p \<mapsto> B) \<and> unat z \<le> card B \<and> B \<subseteq> avail s \<and> avail s' = avail s - B"
    and dealloc_ok: "ok (Suc n) s \<Longrightarrow> p \<noteq> NULL \<Longrightarrow> owned s p = Some B \<Longrightarrow> \<exists>s'. dealloc p s = Inr s' \<and> ok n s' \<and>
      owned s' = (owned s)(p := None) \<and> avail s' = avail s \<union> B"
    and owned_avail: "ok n s \<Longrightarrow> owned s p = Some B \<Longrightarrow> B \<inter> avail s = {}"
    and owned_apart: "ok n s \<Longrightarrow> owned s p = Some B \<Longrightarrow> owned s q = Some C \<Longrightarrow> p \<noteq> q \<Longrightarrow> B \<inter> C = {}"
begin

lemma alloc_dealloc:
  assumes "ok (Suc n) s" and "can z s"
  shows "\<exists>p s1 s2. alloc z s = Inr (p, s1) \<and> dealloc p s1 = Inr s2 \<and> ok n s2 \<and> avail s2 = avail s \<and> owned s2 = owned s"
proof -
  from alloc_ok [OF assms] obtain p s1 B where a: "alloc z s = Inr (p, s1)" "ok (Suc n) s1" "p \<noteq> NULL" "owned s p = None"
    "owned s1 = (owned s)(p \<mapsto> B)" "B \<subseteq> avail s" "avail s1 = avail s - B" by blast
  from dealloc_ok [OF a(2,3), of B] a(5) obtain s2 where
    d: "dealloc p s1 = Inr s2" "ok n s2" "owned s2 = (owned s1)(p := None)" "avail s2 = avail s1 \<union> B" by auto
  have "avail s2 = avail s" using a(6,7) d(4) by blast
  moreover have "owned s2 = owned s" using a(4,5) d(3) by (simp add: fun_upd_idem)
  ultimately show ?thesis using a(1) d(1,2) by blast
qed

text \<open>Blocks are destroyed in any order with the same result.\<close>

lemma dealloc_commute:
  assumes "ok (Suc (Suc n)) s" and "p \<noteq> NULL" and "q \<noteq> NULL" and "p \<noteq> q" and "owned s p = Some B" and "owned s q = Some C"
  shows "\<exists>s1 s2. bindE (dealloc p s) (dealloc q) = Inr s1 \<and> bindE (dealloc q s) (dealloc p) = Inr s2 \<and>
    avail s1 = avail s \<union> B \<union> C \<and> avail s2 = avail s1 \<and> owned s2 = owned s1"
proof -
  from dealloc_ok [OF assms(1,2,5)] obtain t where t: "dealloc p s = Inr t" "ok (Suc n) t" "owned t = (owned s)(p := None)" "avail t = avail s \<union> B" by blast
  from dealloc_ok [OF assms(1,3,6)] obtain u where u: "dealloc q s = Inr u" "ok (Suc n) u" "owned u = (owned s)(q := None)" "avail u = avail s \<union> C" by blast
  have "owned t q = Some C" "owned u p = Some B" using t(3) u(3) assms(4,5,6) by simp_all
  from dealloc_ok [OF t(2) assms(3) this(1)] dealloc_ok [OF u(2) assms(2) this(2)] obtain s1 s2 where
    "dealloc q t = Inr s1" "owned s1 = (owned t)(q := None)" "avail s1 = avail t \<union> C"
    "dealloc p u = Inr s2" "owned s2 = (owned u)(p := None)" "avail s2 = avail u \<union> B" by blast
  then show ?thesis using t u assms(4) by (auto simp: fun_upd_twist)
qed

end

section \<open>The heap as an allocator\<close>

definition kmem_avail :: "mem \<Rightarrow> nat set" where
  "kmem_avail s = {x. \<exists>as bs. kmem_inv s as bs \<and> x \<in> free_space s as}"

definition kmem_nodes :: "mem \<Rightarrow> u32 set" where
  "kmem_nodes s = {a. \<exists>as bs. kmem_inv s as bs \<and> a \<in> set as \<union> set bs}"

definition kmem_owned :: "mem \<Rightarrow> u32 \<Rightarrow> nat set option" where
  "kmem_owned s p = (if p = NULL \<or> p \<in> kmem_nodes s then None else case m_hdrs s (p - 8) of
     None \<Rightarrow> None | Some hr \<Rightarrow> if hd_sentinel hr = SENTINEL_VAL then Some (block_bytes (p - 8) hr) else None)"

definition kmem_ok :: "nat \<Rightarrow> mem \<Rightarrow> bool" where
  "kmem_ok n s \<longleftrightarrow> \<not> m_mutex s \<and> (\<exists>as bs. kmem_inv s as bs \<and> n \<le> length bs)"

definition kmem_has :: "u32 \<Rightarrow> mem \<Rightarrow> bool" where
  "kmem_has z s \<longleftrightarrow> z \<noteq> 0 \<and> unat z + 32 \<le> 2 ^ 32 \<and> (\<exists>as bs. kmem_inv s as bs \<and> kmem_can z 0 s as)"

lemma kmem_inv_unique: "kmem_inv s as bs \<Longrightarrow> kmem_inv s as' bs' \<Longrightarrow> as' = as \<and> bs' = bs"
  unfolding kmem_inv_def kmem_rep_def by (blast intro: linked_functional)

lemma kmem_views:
  assumes "kmem_inv s as bs"
  shows "kmem_avail s = free_space s as" "kmem_nodes s = set as \<union> set bs"
proof -
  have "kmem_inv s as' bs' \<longleftrightarrow> as' = as \<and> bs' = bs" for as' bs' using kmem_inv_unique [OF assms] assms by blast
  then show "kmem_avail s = free_space s as" "kmem_nodes s = set as \<union> set bs" by (auto simp: kmem_avail_def kmem_nodes_def)
qed

lemma kmem_owned_live: "kmem_owned s p = Some B \<longleftrightarrow> p \<noteq> NULL \<and> p \<notin> kmem_nodes s \<and> (\<exists>hr. live s (p - 8) hr \<and> B = block_bytes (p - 8) hr)"
  by (auto simp: kmem_owned_def live_def split: option.splits)

lemma block_bytes_card: "card (block_bytes h hr) = unat (hd_size hr) + 8"
  by (simp add: block_bytes_def reg_bytes_def)

lemma new_allocates:
  assumes "kmem_ok n s" and "kmem_has z s"
  shows "\<exists>p s' B. operator_new (Suc (Suc k)) z s = Inr (p, s') \<and> kmem_ok n s' \<and> p \<noteq> NULL \<and> kmem_owned s p = None \<and>
      kmem_owned s' = (kmem_owned s)(p \<mapsto> B) \<and> unat z \<le> card B \<and> B \<subseteq> kmem_avail s \<and> kmem_avail s' = kmem_avail s - B"
proof -
  from assms obtain as bs where i: "kmem_inv s as bs" "n \<le> length bs" "\<not> m_mutex s" "z \<noteq> 0" "unat z + 32 \<le> 2 ^ 32" "kmem_can z 0 s as"
    unfolding kmem_ok_def kmem_has_def using kmem_inv_unique by blast
  note v = kmem_views [OF i(1)]
  from kmalloc_fits [OF i(1,4,5,6), of k] i(3) obtain p s' where
    k: "kmalloc (Suc (Suc k)) z 0 s = Inr (p, s')" "took (kmem_round z) s as bs p s'" by blast
  from k(2) obtain as' bs' hr where t: "p \<noteq> NULL" "kmem_inv s' as' bs'" "set as' \<union> set bs' = set as \<union> set bs" "length bs \<le> length bs'"
    "p \<notin> set as \<union> set bs" "live s' (p - 8) hr" "unat (kmem_round z) \<le> unat (hd_size hr)" "block_bytes (p - 8) hr \<subseteq> free_space s as"
    "free_space s' as' = free_space s as - block_bytes (p - 8) hr" "m_hdrs s' = (m_hdrs s)(p - 8 \<mapsto> hr)" "m_mutex s' = m_mutex s"
    unfolding took_def by blast
  note v' = kmem_views [OF t(2)]
  have "\<not> live s (p - 8) xr" for xr
  proof
    assume "live s (p - 8) xr"
    then have "block_bytes (p - 8) xr \<inter> free_space s as = {}" using i(1) unfolding kmem_inv_def blocks_ok_def by blast
    moreover have "unat (p - 8) \<in> block_bytes (p - 8) xr" "unat (p - 8) \<in> block_bytes (p - 8) hr" by (simp_all add: block_bytes_def reg_bytes_def)
    ultimately show False using t(8) by blast
  qed
  then have none: "kmem_owned s p = None" using kmem_owned_live [of s p] by (metis option.exhaust)
  have "kmem_owned s' q = ((kmem_owned s)(p \<mapsto> block_bytes (p - 8) hr)) q" for q
  proof (cases "q = p")
    case True
    have "hd_sentinel hr = SENTINEL_VAL" using t(6) by (simp add: live_def)
    then show ?thesis using True t(1,3,5,10) v' by (simp add: kmem_owned_def)
  next
    case False
    then have "m_hdrs s' (q - 8) = m_hdrs s (q - 8)" using t(10) by simp
    then show ?thesis using False t(3) v v' by (simp add: kmem_owned_def)
  qed
  moreover have "unat z \<le> card (block_bytes (p - 8) hr)" using t(7) kmem_round_bounds(1) [OF i(5)] by (simp add: block_bytes_card)
  moreover have "kmem_ok n s'" using t(2,4,11) i(2,3) unfolding kmem_ok_def by (metis le_trans)
  ultimately show ?thesis using k(1) t(1,8,9) none v v' unfolding operator_new_def by blast
qed

lemma delete_gives_back:
  assumes "kmem_ok (Suc n) s" and "p \<noteq> NULL" and "kmem_owned s p = Some B"
  shows "\<exists>s'. operator_delete k p s = Inr s' \<and> kmem_ok n s' \<and> kmem_owned s' = (kmem_owned s)(p := None) \<and> kmem_avail s' = kmem_avail s \<union> B"
proof -
  from assms(1) obtain as bs where i: "kmem_inv s as bs" "Suc n \<le> length bs" "\<not> m_mutex s" unfolding kmem_ok_def by blast
  note v = kmem_views [OF i(1)]
  from assms(3) obtain hr where h: "live s (p - 8) hr" "B = block_bytes (p - 8) hr" "p \<notin> set as \<union> set bs"
    unfolding kmem_owned_live v by blast
  have ne: "bs \<noteq> []" using i(2) by auto
  from kfree_spare [OF i(1,3) ne assms(2) h(1,3), of k] obtain s' as' bs' where
    f: "kfree k p s = Inr s'" "kmem_inv s' as' bs'" "free_space s' as' = free_space s as \<union> block_bytes (p - 8) hr"
      "\<forall>h xr. live s' h xr \<longleftrightarrow> h \<noteq> p - 8 \<and> live s h xr" "\<not> m_mutex s'" "set as' \<union> set bs' = set as \<union> set bs" "length bs \<le> Suc (length bs')" by blast
  note v' = kmem_views [OF f(2)]
  have "kmem_owned s' q = Some C \<longleftrightarrow> ((kmem_owned s)(p := None)) q = Some C" for q C
  proof (cases "q = p")
    case True
    then show ?thesis using f(4) kmem_owned_live [of s' p C] by simp
  next
    case False
    then have "q - 8 \<noteq> p - 8" by simp
    then show ?thesis using False f(4,6) v(2) v'(2) kmem_owned_live [of s' q C] kmem_owned_live [of s q C] by simp
  qed
  then have "kmem_owned s' q = ((kmem_owned s)(p := None)) q" for q by (metis option.exhaust)
  moreover have "kmem_ok n s'" using f(2,5,7) i(2) unfolding kmem_ok_def by (metis Suc_le_mono le_trans)
  ultimately show ?thesis using f(1,3) h(2) v(1) v'(1) unfolding operator_delete_def by blast
qed

interpretation heap: allocator "operator_new (Suc (Suc k))" "operator_delete j" kmem_ok kmem_has kmem_avail kmem_owned
proof
  show "\<exists>p s' B. operator_new (Suc (Suc k)) z s = Inr (p, s') \<and> kmem_ok n s' \<and> p \<noteq> NULL \<and> kmem_owned s p = None \<and>
      kmem_owned s' = (kmem_owned s)(p \<mapsto> B) \<and> unat z \<le> card B \<and> B \<subseteq> kmem_avail s \<and> kmem_avail s' = kmem_avail s - B"
    if "kmem_ok n s" "kmem_has z s" for n z s using that by (rule new_allocates)
  show "\<exists>s'. operator_delete j p s = Inr s' \<and> kmem_ok n s' \<and> kmem_owned s' = (kmem_owned s)(p := None) \<and> kmem_avail s' = kmem_avail s \<union> B"
    if "kmem_ok (Suc n) s" "p \<noteq> NULL" "kmem_owned s p = Some B" for n s p B using that by (rule delete_gives_back)
  fix n s p q B C
  assume ok: "kmem_ok n s" and p: "kmem_owned s p = Some B"
  then obtain as bs where i: "kmem_inv s as bs" unfolding kmem_ok_def by blast
  show "B \<inter> kmem_avail s = {}" using i p unfolding kmem_owned_live kmem_views(1) [OF i] kmem_inv_def blocks_ok_def by blast
  assume q: "kmem_owned s q = Some C" and n: "p \<noteq> q"
  have "p - 8 \<noteq> q - 8" using n by simp
  then show "B \<inter> C = {}" using i p q unfolding kmem_owned_live kmem_inv_def blocks_ok_def by blast
qed

section \<open>Properties\<close>



end
