(* ===== verification/Spec2Isabelle.thy ===== *)
theory Spec2Isabelle
  imports StaticList LinkedList SmartPtr Vector KmemExt Devices PhysMem Utf8Life Vm Task Filesystem Ps2 Displays Elf Lapic Boot Pci PanicTrace MainThread Operators
begin

text \<open>
  A verification development for Cantos, a small multi-core kernel for i386 written in C++.

  \<^bold>\<open>The program.\<close> The boot loader enters \<open>low_kernel_main\<close> (\<open>src/main/lomain.cpp\<close>), which copies the boot information, finds the ACPI tables
  (\<open>src/hw/loacpi.cpp\<close>) and builds the first page tables. \<open>kernel_main\<close> (\<open>src/main/main.cpp\<close>) then initialises the kernel heap
  (\<open>src/mem/kmem.cpp\<close>) over the physical pages (\<open>src/mem/page.cpp\<close>), the interrupt table and the exception handlers
  (\<open>src/int/idt.cpp\<close>, \<open>exceptions.cpp\<close>), the text screen and the serial ports (\<open>src/main/vga.cpp\<close>, \<open>src/hw/serial.cpp\<close>), the status of the
  CPUs, the interrupt controllers and the clock (\<open>src/main/cpu.cpp\<close>, \<open>src/int/pic.cpp\<close>, \<open>ioapic.cpp\<close>, \<open>lapic.cpp\<close>, \<open>src/hw/pit.cpp\<close>), the
  PCI buses and the PS/2 controller, and enters the scheduler (\<open>src/task/task.cpp\<close>). Threads run in address spaces (\<open>src/mem/vm.cpp\<close>)
  whose windows show objects (\<open>src/mem/object.cpp\<close>) that generate their pages on a page fault. The kernel has its own containers,
  owning pointers and strings (\<open>include/structures\<close>, \<open>src/structures\<close>), and file systems over storage objects (\<open>src/fs\<close>).

  \<^bold>\<open>How the model is written.\<close> Integers are words of the width of the source, pointers are 32-bit words with 0 for null, structures
  are records, heaps of structures are maps from addresses to records. Each function of the source is a definition with the state
  passed explicitly; its result is \<open>kerror + 'a\<close> (\<open>Prelude\<close>): \<open>Panic m\<close> for a call of \<open>panic\<close>, \<open>Fault\<close> for an access that the code may not make,
  \<open>Hang\<close> for a loop that never ends. Loops that the data bounds are \<open>fun\<close>s; loops that may not end are
  \<^theory_text>\<open>partial_function (option)\<close>, and theorems about results show that they return. What the sources do not contain (devices, the
  processor's tables, the addresses that \<open>new\<close> or the linker choose, uninitialised memory) is an argument of the definitions.
  Where several CPUs interleave (mutex, scheduler, commands between CPUs), the code is cut into its atomic steps and a step relation
  composes them.

  \<^bold>\<open>Theories and sources.\<close>
  \<^item> \<open>Prelude\<close>: integer types, constants of \<open>include/main/common.hpp\<close>, results, lists in a heap.
  \<^item> \<open>Mutex\<close>: \<open>src/structures/mutex.cpp\<close> and the interrupt flag. Mutual exclusion for any number of CPUs, the lock is taken when it is free;
    the locale \<open>spin_lock\<close> is what the operations with a mutex rely on.
  \<^item> \<open>Containers\<close>: the locales \<open>sequence\<close> and \<open>deque\<close>, the contract of the containers. \<open>StaticList\<close>, \<open>LinkedList\<close> and \<open>Vector\<close> model
    \<open>static_list.tpp\<close>, \<open>list.tpp\<close> and \<open>vector.hpp\<close> down to slots, nodes and buffers, and interpret the locales: each operation refines the
    operation on lists.
  \<^item> \<open>SmartPtr\<close>: \<open>unique_ptr\<close> and \<open>shared_ptr\<close>; use counts are the number of pointers that share an object.
  \<^item> \<open>Kmem\<close> (definitions), \<open>KmemInv\<close> (\<open>kmalloc\<close>, \<open>kfree\<close>) and \<open>KmemExt\<close> (\<open>init\<close>, \<open>_verify\<close>, overflow): the heap with its free list and headers. The
    invariant says that blocks in use and free blocks are disjoint and that the free list is sorted; allocation hands out free memory,
    deallocation gives exactly it back and joins neighbours. The fuel of \<open>kmalloc\<close> bounds the recursion between \<open>kmalloc\<close> and
    \<open>page::alloc\<close>; two levels are enough when a free block fits. \<open>Operators\<close>: \<open>new\<close> and \<open>delete\<close> of \<open>src/main/cpp.cpp\<close> as an instance of the
    locale \<open>allocator\<close>.
  \<^item> \<open>Page\<close>: chains of physical pages, mapping and unmapping them in the kernel's half (\<open>kinstall\<close>, \<open>kuninstall\<close>), splitting. \<open>Devices\<close>: mapping the
    registers of a device (\<open>page::create\<close>, then \<open>kinstall\<close>). \<open>PageFree\<close> and \<open>PageAlloc\<close>: the sorted list of free pages; \<open>page::alloc\<close> takes exactly
    the pages asked for, \<open>page::free\<close> puts them back and joins neighbours, and one undoes the other. The fuel of \<open>page::alloc\<close> is two above the length
    of the list, because each level but the last removes a chunk. \<open>PhysMem\<close>: pages and heap together as a step relation; no frame is ever handed out twice.
  \<^item> \<open>CString\<close>, \<open>Utf8\<close>: C strings, \<open>src/structures/utf8.cpp\<close> with comparison, search, concatenation and formatting against reference functions
    on lists of bytes. \<open>Utf8Life\<close>: strings are values; constructors, copies, moves, assignments, the destructor, concatenation and
    substrings keep the invariant of the shared buffers and the texts of all other variables.
  \<^item> \<open>Vm\<close>: \<open>src/mem/vm.cpp\<close> and \<open>object.cpp\<close>; inserting pages refines the update of the address map, a fault in a window is resolved.
  \<^item> \<open>Task\<close>: \<open>src/task/task.cpp\<close>, \<open>src/main/cpu.cpp\<close>. The scheduler on any number of CPUs: no thread runs on two CPUs and no check of the code
    fails; the waiting list is a queue (locale \<open>thread_queue\<close>); a race between waiting and resuming.
  \<^item> \<open>Filesystem\<close>: paths and inodes of \<open>src/fs\<close>; resolution of a path agrees with a reference walk (locale \<open>inode_source\<close>, interpreted on
    \<open>expanse_fs\<close>).
  \<^item> \<open>Ps2\<close>: I/O ports, controller and keyboard of \<open>src/hw\<close>; the scan codes of any sequence of keys are decoded.
  \<^item> \<open>Console\<close>: streams, serial ports, text screen, \<open>printk\<close>. The locale \<open>text_sink\<close> is what a stream promises; \<open>writef\<close> is proved once in it and
    interpreted on the screen and on the serial ports.
  \<^item> \<open>Displays\<close>: \<open>src/display/display.cpp\<close> and the list of displays of \<open>vga\<close>; a display that is added and switched to paints its stripes on the whole screen.
  \<^item> \<open>Acpi\<close>, \<open>Elf\<close>, \<open>Boot\<close>: ACPI tables, the kernel's ELF image, the code before paging. The tables that \<open>low_kernel_main\<close> writes are shown to
    be the intended address space by following the processor's walk through them.
  \<^item> \<open>Interrupts\<close>: segments, interrupt table, exception handlers, both interrupt controllers. \<open>Lapic\<close>: local APIC, clock, calibration of the timers,
    waking the other CPUs, and the exchange of commands (TLB shootdown) as a step relation: it is complete, and it can deadlock.
  \<^item> \<open>Pci\<close>: \<open>src/hw/pci\<close>; the search of the buses finds the reachable functions when bridges lead to higher buses. Its fuel is the depth of
    nested bridges, and 256 is enough because there are 256 bus numbers.
  \<^item> \<open>PanicTrace\<close>: \<open>src/main/panic.cpp\<close>, \<open>src/debug/stack.cpp\<close>; what a panic prints and that it stops the other CPUs.
  \<^item> \<open>Testing\<close>, \<open>SelfTests\<close>: the test framework \<open>src/test/test.cpp\<close>, and the kernel's tests of its containers as scripts over the models; they pass.
    \<open>FilesystemTests\<close>: the file system of \<open>src/fs/filesystem_test.cpp\<close>, a second instance of \<open>inode_source\<close>, and the test's paths; they resolve as expected.
  \<^item> \<open>MainThread\<close>: the end of \<open>main_thread\<close> of \<open>src/main/main.cpp\<close>, which opens a file over physical memory, maps and prints it: file system, demand paging,
    page allocator and formatting together show the first bytes of memory.

  \<^bold>\<open>Interfaces.\<close> \<open>spin_lock\<close> (mutex), \<open>sequence\<close> and \<open>deque\<close> (containers), \<open>allocator\<close> (heap), \<open>thread_queue\<close> (waiting list), \<open>inode_source\<close>
  (file systems, on \<open>ExpanseFs\<close> and on the file system of the tests), \<open>text_sink\<close> (streams); each is interpreted on the model of the code that provides it.

  \<^bold>\<open>Not modelled.\<close> Assembly (\<open>boot.S\<close>, \<open>ap.s\<close>, \<open>wrapper.S\<close>, \<open>gdt_asm.S\<close>, \<open>src/task/asm.s\<close>): its effects are arguments or part of the step that calls
  it. \<open>kernel_main\<close> and \<open>ap_main\<close> of \<open>main.cpp\<close>, which call the initialisations in order (the set-up of the interrupts is composed below). Debugging output and the printing of tables, which change no state of the component.
  The copy assignment of \<open>vector\<close>, which cannot be instantiated. The tests of strings and objects, and the part of the file system test that reads a file: the contents of pages are not part of the model. Constants, type traits and
  declarations that no modelled function uses.
\<close>

section \<open>Properties that span components\<close>

text \<open>C17: \<open>kernel_main\<close> sets up the interrupts with \<open>exceptions::init\<close> and \<open>lapic::init\<close>. With the stubs above 64 KiB and a heap with room
  for a page structure, both return, the registers of the local APIC are mapped uncached and writable at the next free address of
  the kernel's half, and afterwards every exception is dispatched to its handler and the timer, command and panic vectors to
  theirs: neither overwrites an entry of the other. The heap's invariant is kept.\<close>

theorem kernel_interrupts_ready:
  assumes "kmem_inv m as bs" and "\<not> m_mutex m" and "kmem_can sizeof_Page (KMALLOC_RESERVED OR KMALLOC_NOLOCK) m as"
    and "empty_slot m = NULL" and "virtual_pointer m \<noteq> 0" and "unat (virtual_pointer m) < TOTAL_VM_SIZE - unat PAGE_SIZE"
    and "\<forall>v. 0x10000 \<le> stub v"
  shows "\<exists>s1 m' s' l' as' bs'. exceptions_init stub s = Inr s1 \<and>
    lapic_init (Suc (Suc k)) lb stub (h_timer, h_command, h_panic) time m s1 l = Inr (m', s', l') \<and> kmem_inv m' as' bs' \<and>
    m_ptes m' = (m_ptes m)(cursor m := lb OR (PAGE_TABLE_CACHEDISABLE OR PAGE_TABLE_RW) OR PAGE_TABLE_PRESENT) \<and> la_base l' = virtual_pointer m \<and>
    (\<forall>v f. (v, f) \<in> set (exc_plain @ [(INT_FLOATING_POINT, floating_point), (0x20, h_timer), (0x28, h_command), (0x29, h_panic)]) \<longrightarrow>
      idt_handle s' (ucast v) st = Inr (Some (f st)) \<and> gate_of s' v = (stub v, 0x10, 0x8e)) \<and>
    (\<forall>v f. (v, f) \<in> set exc_err \<longrightarrow> idt_handle_with_error s' (ucast v) st e = Inr (Some (f st e)) \<and> gate_of s' v = (stub v, 0x10, 0x8e))"
proof -
  from exceptions_installed [OF assms(7), of s st e] obtain s1 where x: "exceptions_init stub s = Inr s1"
    "\<forall>v f. (v, f) \<in> set (exc_plain @ [(INT_FLOATING_POINT, floating_point)]) \<longrightarrow> idt_handle s1 (ucast v) st = Inr (Some (f st)) \<and> gate_of s1 v = (stub v, 0x10, 0x8e)"
    "\<forall>v f. (v, f) \<in> set exc_err \<longrightarrow> idt_handle_with_error s1 (ucast v) st e = Inr (Some (f st e)) \<and> gate_of s1 v = (stub v, 0x10, 0x8e)" by blast
  from lapic_init_ready [OF assms, of k lb "(h_timer, h_command, h_panic)" time s1 l] obtain m' s' l' as' bs' where
    i: "lapic_init (Suc (Suc k)) lb stub (h_timer, h_command, h_panic) time m s1 l = Inr (m', s', l')" "kmem_inv m' as' bs'"
      "m_ptes m' = (m_ptes m)(cursor m := lb OR (PAGE_TABLE_CACHEDISABLE OR PAGE_TABLE_RW) OR PAGE_TABLE_PRESENT)" "la_base l' = virtual_pointer m"
    and f: "it_functions s' = it_functions s1 ++ map_of (lapic_handlers (h_timer, h_command, h_panic))" "it_functions_err s' = it_functions_err s1"
      "\<forall>v. v \<notin> {0x20, 0x28, 0x29} \<longrightarrow> it_table s' v = it_table s1 v" "\<forall>v \<in> {0x20, 0x28, 0x29}. gate_of s' v = (stub v, 0x10, 0x8e)" by blast
  have free: "v \<notin> {0x20, 0x28, 0x29}" if "(v, f) \<in> set exc_err \<or> (v, g) \<in> set (exc_plain @ [(INT_FLOATING_POINT, floating_point)])" for v f g
    using that by (auto simp: exc_err_def exc_plain_def int_numbers)
  have b: "(ucast (ucast v :: u32) :: u8) = v" for v :: u8 by (rule bit_word_eqI) (simp add: bit_simps)
  have keep: "idt_handle s' (ucast v) st = idt_handle s1 (ucast v) st" "idt_handle_with_error s' (ucast v) st e = idt_handle_with_error s1 (ucast v) st e"
    "gate_of s' v = gate_of s1 v" if "v \<notin> {0x20, 0x28, 0x29}" for v
    using that f by (simp_all add: idt_handle_def idt_handle_with_error_def gate_of_def lapic_handlers_def map_add_def b)
  have own: "idt_handle s' (ucast v) st = Inr (Some (h st)) \<and> gate_of s' v = (stub v, 0x10, 0x8e)"
    if "(v, h) \<in> {(0x20, h_timer), (0x28, h_command), (0x29, h_panic)}" for v h
    using that f(1,4) by (auto simp: idt_handle_def lapic_handlers_def map_add_def)
  have p: "idt_handle s' (ucast v) st = Inr (Some (h st)) \<and> gate_of s' v = (stub v, 0x10, 0x8e)"
    if "(v, h) \<in> set (exc_plain @ [(INT_FLOATING_POINT, floating_point), (0x20, h_timer), (0x28, h_command), (0x29, h_panic)])" for v h
  proof (cases "(v, h) \<in> set (exc_plain @ [(INT_FLOATING_POINT, floating_point)])")
    case True
    then show ?thesis using keep [OF free [OF disjI2]] x(2) by simp
  next
    case False
    then show ?thesis using that by (intro own) auto
  qed
  have q: "idt_handle_with_error s' (ucast v) st e = Inr (Some (h st e)) \<and> gate_of s' v = (stub v, 0x10, 0x8e)" if "(v, h) \<in> set exc_err" for v h
    using that keep [OF free [OF disjI1 [OF that]]] x(3) by simp
  show ?thesis using x(1) i p q by blast
qed

theorem kernel_interrupts_ready_witness:
  "\<exists>s1 m' s' l'. exceptions_init (\<lambda>_. 0x100000) idt_empty = Inr s1 \<and>
    lapic_init 2 0xFEE00000 (\<lambda>_. 0x100000) (\<lambda>_ _ _. Inl OutOfFuel, \<lambda>_ _ _. Inl Hang, \<lambda>_ _ _. Inl Fault) 0 kmem_example s1 lapic_example = Inr (m', s', l') \<and>
    m_ptes m' 0 = 0xFEE00013 \<and> idt_handle s' 0x28 regs_zero =
      Inr (Some (\<lambda>_ _. Inl Hang))"
proof -
  have can: "kmem_can sizeof_Page (KMALLOC_RESERVED OR KMALLOC_NOLOCK) kmem_example [0xC1000024]"
    by (simp add: kmem_can_def fits_def kmem_example_def kmem_round_def flag_defs Let_def)
  have v: "\<not> m_mutex kmem_example" "empty_slot kmem_example = NULL" "virtual_pointer kmem_example = 0xC1001000" "cursor kmem_example = 0"
    by (simp_all add: kmem_example_def)
  have vp: "virtual_pointer kmem_example \<noteq> 0" "unat (virtual_pointer kmem_example) < TOTAL_VM_SIZE - unat PAGE_SIZE"
    by (simp_all add: v TOTAL_VM_SIZE_def)
  have n: "Suc (Suc 0) = 2" by simp
  have stub: "\<forall>v :: u8. (0x10000 :: u32) \<le> (\<lambda>_. 0x100000) v" by simp
  have fl: "(0xFEE00000 :: u32) OR (PAGE_TABLE_CACHEDISABLE OR PAGE_TABLE_RW) OR PAGE_TABLE_PRESENT = 0xFEE00013"
    by (simp add: PAGE_TABLE_CACHEDISABLE_def PAGE_TABLE_RW_def PAGE_TABLE_PRESENT_def)
  have u: "(ucast (0x28 :: u8) :: u32) = 0x28" by simp
  from kernel_interrupts_ready [OF kmem_example_inv v(1) can v(2) vp stub, of idt_empty 0 "0xFEE00000" "\<lambda>_ _ _. Inl OutOfFuel" "\<lambda>_ _ _. Inl Hang" "\<lambda>_ _ _. Inl Fault"
      0 lapic_example regs_zero 0]
  obtain s1 m' s' l' where r: "exceptions_init (\<lambda>_. 0x100000) idt_empty = Inr s1"
    "lapic_init 2 0xFEE00000 (\<lambda>_. 0x100000) (\<lambda>_ _ _. Inl OutOfFuel, \<lambda>_ _ _. Inl Hang, \<lambda>_ _ _. Inl Fault) 0 kmem_example s1 lapic_example = Inr (m', s', l')"
    "m_ptes m' = (m_ptes kmem_example)(0 := 0xFEE00013)"
    and d: "\<forall>v f. (v, f) \<in> set (exc_plain @ [(INT_FLOATING_POINT, floating_point), (0x20, \<lambda>_ _ _. Inl OutOfFuel), (0x28, \<lambda>_ _ _. Inl Hang), (0x29, \<lambda>_ _ _. Inl Fault)]) \<longrightarrow>
      idt_handle s' (ucast v) regs_zero = Inr (Some (f regs_zero))"
    unfolding n fl v by blast
  have "idt_handle s' (ucast (0x28 :: u8)) regs_zero = Inr (Some (\<lambda>_ _. Inl Hang))" by (rule d [rule_format]) simp
  then show ?thesis using r unfolding u by auto
qed

end
